(* ===== verification/Prelude.thy ===== *)
theory Prelude
  imports Main "HOL-Library.Word" "HOL-Library.Multiset"
begin

text \<open>
  Shared vocabulary of the development: the outcome type of C code that can go wrong, bounds-checked
  array access, and the generic list, arithmetic and word lemmas that the component theories use.

  A C function that can run into undefined behaviour, an assertion, a kernel panic or a process exit
  returns a value of type \<open>'a c_result\<close>: \<open>Inl\<close> carries the way it failed, \<open>Inr\<close> the result. Reads of
  memory that was never written are kept apart from reads of a value: an uninitialised cell is
  \<open>None\<close>.
\<close>

section \<open>Outcomes of C code\<close>

datatype c_error =
    Null_Deref            \<comment> \<open>a NULL (or freed) pointer is dereferenced\<close>
  | Out_Of_Bounds         \<comment> \<open>an access outside its array\<close>
  | Uninit_Read           \<comment> \<open>an indeterminate value is used\<close>
  | Div_By_Zero
  | Int_Overflow          \<comment> \<open>signed overflow\<close>
  | Assert_Failed
  | Exit_Process int      \<comment> \<open>\<open>exit(n)\<close>\<close>
  | Panic string          \<comment> \<open>\<open>panic\<close> of the kernel or the shell\<close>
  | Blocked               \<comment> \<open>the caller sleeps until another process acts\<close>
  | Diverges              \<comment> \<open>a loop over pointers does not end\<close>

type_synonym 'a c_result = "c_error + 'a"

type_synonym u8 = "8 word"
type_synonym u16 = "16 word"
type_synonym u32 = "32 word"
type_synonym u64 = "64 word"

definition bindE :: "'a c_result \<Rightarrow> ('a \<Rightarrow> 'b c_result) \<Rightarrow> 'b c_result" where
  "bindE m f = (case m of Inl e \<Rightarrow> Inl e | Inr x \<Rightarrow> f x)"

definition guardE :: "bool \<Rightarrow> c_error \<Rightarrow> 'a c_result \<Rightarrow> 'a c_result" where
  "guardE b e m = (if b then m else Inl e)"

definition arr_get :: "'a list \<Rightarrow> nat \<Rightarrow> 'a c_result" where
  "arr_get xs i = (if i < length xs then Inr (xs ! i) else Inl Out_Of_Bounds)"

definition arr_set :: "'a list \<Rightarrow> nat \<Rightarrow> 'a \<Rightarrow> 'a list c_result" where
  "arr_set xs i v = (if i < length xs then Inr (xs[i := v]) else Inl Out_Of_Bounds)"

definition read_cell :: "'a option \<Rightarrow> 'a c_result" where
  "read_cell c = (case c of None \<Rightarrow> Inl Uninit_Read | Some v \<Rightarrow> Inr v)"

definition deref :: "'a option \<Rightarrow> 'a c_result" where
  "deref p = (case p of None \<Rightarrow> Inl Null_Deref | Some v \<Rightarrow> Inr v)"

named_theorems result_simps \<open>rewriting of outcomes\<close>

lemma bindE_Inr [simp, result_simps]: "bindE (Inr x) f = f x"
  by (simp add: bindE_def)

lemma bindE_Inl [simp, result_simps]: "bindE (Inl e) f = Inl e"
  by (simp add: bindE_def)

lemma bindE_eq_Inr_iff: "bindE m f = Inr y \<longleftrightarrow> (\<exists>x. m = Inr x \<and> f x = Inr y)"
  by (cases m) auto

lemma bindE_assoc: "bindE (bindE m f) g = bindE m (\<lambda>x. bindE (f x) g)"
  by (cases m) auto

lemma bindE_cong: "m = m' \<Longrightarrow> (\<And>x. m' = Inr x \<Longrightarrow> f x = f' x) \<Longrightarrow> bindE m f = bindE m' f'"
  by (cases m') auto

lemma guardE_True [simp, result_simps]: "guardE True e m = m"
  by (simp add: guardE_def)

lemma guardE_False [simp, result_simps]: "guardE False e m = Inl e"
  by (simp add: guardE_def)

lemma guardE_eq_Inr_iff: "guardE b e m = Inr y \<longleftrightarrow> b \<and> m = Inr y"
  by (simp add: guardE_def)

lemma arr_get_in [simp, result_simps]: "i < length xs \<Longrightarrow> arr_get xs i = Inr (xs ! i)"
  by (simp add: arr_get_def)

lemma arr_set_in [simp, result_simps]: "i < length xs \<Longrightarrow> arr_set xs i v = Inr (xs[i := v])"
  by (simp add: arr_set_def)

lemma arr_get_eq_Inr_iff: "arr_get xs i = Inr v \<longleftrightarrow> i < length xs \<and> v = xs ! i"
  by (auto simp: arr_get_def)

lemma arr_set_eq_Inr_iff: "arr_set xs i v = Inr ys \<longleftrightarrow> i < length xs \<and> ys = xs[i := v]"
  by (auto simp: arr_set_def)

lemma read_cell_simps [simp, result_simps]:
  "read_cell (Some v) = Inr v"
  "read_cell None = Inl Uninit_Read"
  by (simp_all add: read_cell_def)

lemma deref_simps [simp, result_simps]:
  "deref (Some v) = Inr v"
  "deref None = Inl Null_Deref"
  by (simp_all add: deref_def)

lemmas result_iffs = bindE_eq_Inr_iff guardE_eq_Inr_iff arr_get_eq_Inr_iff arr_set_eq_Inr_iff

section \<open>Arithmetic and words\<close>

text \<open>Loop counters of type \<open>int\<close> used as array indices.\<close>

lemma nat_int_succ [simp]: "nat (int i + 1) = Suc i" "nat (1 + int i) = Suc i"
  by simp_all

text \<open>Stepping an index around a ring of size \<open>c\<close>.\<close>

lemma mod_step_index:
  fixes f i c :: nat
  assumes "0 < c"
  shows "(f mod c + i) mod c = (f + i) mod c"
  using assms by (simp add: mod_simps)

lemma mod_add_eq_iff_small:
  fixes f i j c :: nat
  assumes "i < c" "j < c"
  shows "(f + i) mod c = (f + j) mod c \<longleftrightarrow> i = j"
proof
  assume eq: "(f + i) mod c = (f + j) mod c"
  have le: "x = y" if "x \<le> y" "x < c" "y < c" "(f + x) mod c = (f + y) mod c" for x y
  proof -
    from that(4) have "c dvd (f + y) - (f + x)"
      using that(1) by (metis mod_eq_dvd_iff_nat add_le_cancel_left)
    with that show ?thesis by (auto dest: dvd_imp_le)
  qed
  show "i = j"
    using le [of i j] le [of j i] eq assms by (cases "i \<le> j") auto
qed simp

lemma unat_Suc_no_wrap:
  fixes a b :: "'a :: len word"
  assumes "a < b"
  shows "unat (a + 1) = Suc (unat a)"
proof -
  have "unat a < unat b" using assms by (simp add: word_less_nat_alt)
  moreover have "unat b < 2 ^ LENGTH('a)" by (rule unsigned_less)
  ultimately have "Suc (unat a) < 2 ^ LENGTH('a)" by linarith
  then show ?thesis by (simp add: unat_word_ariths)
qed

lemma unat_dec_no_wrap:
  fixes a :: "'a :: len word"
  assumes "a \<noteq> 0"
  shows "unat (a - 1) = unat a - 1"
  using assms by (metis unat_minus_one)

lemma u32_bound: "unat (a :: u32) < 2 ^ 32" "unat a \<le> 2 ^ 32"
proof -
  have "unat a < 2 ^ LENGTH(32)" by (rule unsigned_less)
  then show "unat (a :: u32) < 2 ^ 32" "unat a \<le> 2 ^ 32" by simp_all
qed

lemma unat_of_nat_small: "n < 2 ^ 31 \<Longrightarrow> unat (of_nat n :: u32) = n"
  by (simp only: unat_of_nat) simp

lemma find_SomeD: "find P xs = Some x \<Longrightarrow> x \<in> set xs \<and> P x"
  by (auto simp: find_Some_iff)

end
