(* ===== verification/Fifo_Interface.thy ===== *)
theory Fifo_Interface
  imports Prelude
begin

text \<open>
  The contract of a bounded first-in first-out buffer. The ring buffer of Assignment 2 and the pipe
  buffer of the kernel both promise it. A client drives a buffer by a sequence of \<open>Put\<close> and \<open>Get\<close>
  requests; \<open>fifo_run\<close> runs such a sequence on an implementation and \<open>fifo_spec\<close> on a list of at most
  \<open>c\<close> elements. Any implementation of the contract answers every sequence as the list does.
\<close>

datatype 'a fifo_op = Put 'a | Get

datatype 'a fifo_out = Was_Full | Stored | Was_Empty | Got 'a

fun fifo_run :: "('a \<Rightarrow> 'q \<Rightarrow> 'q option) \<Rightarrow> ('q \<Rightarrow> ('a \<times> 'q) option) \<Rightarrow> 'a fifo_op list \<Rightarrow> 'q \<Rightarrow>
    'a fifo_out list \<times> 'q" where
  "fifo_run put get [] q = ([], q)"
| "fifo_run put get (Put x # ops) q =
     (case put x q of
        None \<Rightarrow> let (outs, q') = fifo_run put get ops q in (Was_Full # outs, q')
      | Some q1 \<Rightarrow> let (outs, q') = fifo_run put get ops q1 in (Stored # outs, q'))"
| "fifo_run put get (Get # ops) q =
     (case get q of
        None \<Rightarrow> let (outs, q') = fifo_run put get ops q in (Was_Empty # outs, q')
      | Some (x, q1) \<Rightarrow> let (outs, q') = fifo_run put get ops q1 in (Got x # outs, q'))"

fun fifo_spec :: "nat \<Rightarrow> 'a fifo_op list \<Rightarrow> 'a list \<Rightarrow> 'a fifo_out list \<times> 'a list" where
  "fifo_spec c [] xs = ([], xs)"
| "fifo_spec c (Put x # ops) xs =
     (if c \<le> length xs then let (outs, ys) = fifo_spec c ops xs in (Was_Full # outs, ys)
      else let (outs, ys) = fifo_spec c ops (xs @ [x]) in (Stored # outs, ys))"
| "fifo_spec c (Get # ops) [] = (let (outs, ys) = fifo_spec c ops [] in (Was_Empty # outs, ys))"
| "fifo_spec c (Get # ops) (x # xs) =
     (let (outs, ys) = fifo_spec c ops xs in (Got x # outs, ys))"

locale bounded_fifo =
  fixes wf :: "'q \<Rightarrow> bool"
    and contents :: "'q \<Rightarrow> 'a list"
    and bound :: "'q \<Rightarrow> nat"
    and put :: "'a \<Rightarrow> 'q \<Rightarrow> 'q option"
    and get :: "'q \<Rightarrow> ('a \<times> 'q) option"
  assumes within: "wf q \<Longrightarrow> length (contents q) \<le> bound q"
    and put_full: "wf q \<Longrightarrow> length (contents q) = bound q \<Longrightarrow> put x q = None"
    and put_room: "wf q \<Longrightarrow> length (contents q) < bound q \<Longrightarrow>
      \<exists>q'. put x q = Some q' \<and> wf q' \<and> contents q' = contents q @ [x] \<and> bound q' = bound q"
    and get_empty: "wf q \<Longrightarrow> contents q = [] \<Longrightarrow> get q = None"
    and get_some: "wf q \<Longrightarrow> contents q = x # xs \<Longrightarrow>
      \<exists>q'. get q = Some (x, q') \<and> wf q' \<and> contents q' = xs \<and> bound q' = bound q"
begin

lemma put_cases:
  assumes "wf q"
  obtains (full) "bound q \<le> length (contents q)" "put x q = None"
  | (room) q' where "length (contents q) < bound q" "put x q = Some q'" "wf q'"
      "contents q' = contents q @ [x]" "bound q' = bound q"
  using assms within [OF assms] put_full [OF assms] put_room [OF assms, of x]
  by (metis le_neq_implies_less order_refl)

lemma get_cases:
  assumes "wf q"
  obtains (empty) "contents q = []" "get q = None"
  | (some) x xs q' where "contents q = x # xs" "get q = Some (x, q')" "wf q'"
      "contents q' = xs" "bound q' = bound q"
proof (cases "contents q")
  case Nil
  with assms show thesis by (intro empty) (auto intro: get_empty)
next
  case (Cons x xs)
  with get_some [OF assms] show thesis by (metis some)
qed

theorem run_refines:
  assumes "wf q" "fifo_run put get ops q = (outs, q')"
  shows "fifo_spec (bound q) ops (contents q) = (outs, contents q') \<and> wf q' \<and> bound q' = bound q"
  using assms
proof (induction ops arbitrary: q outs)
  case Nil
  then show ?case by simp
next
  case (Cons op ops)
  show ?case
  proof (cases op)
    case (Put x)
    from \<open>wf q\<close> show ?thesis
    proof (cases rule: put_cases [where x = x])
      case full
      with Cons Put show ?thesis by (fastforce split: prod.splits)
    next
      case (room q1)
      with Cons.prems Put obtain os where "fifo_run put get ops q1 = (os, q')" "outs = Stored # os"
        by (auto split: prod.splits)
      with Cons.IH [of q1 os] room Put show ?thesis by auto
    qed
  next
    case Get
    from \<open>wf q\<close> show ?thesis
    proof (cases rule: get_cases)
      case empty
      with Cons Get show ?thesis by (fastforce split: prod.splits)
    next
      case (some x xs q1)
      with Cons.prems Get obtain os where "fifo_run put get ops q1 = (os, q')" "outs = Got x # os"
        by (auto split: prod.splits)
      with Cons.IH [of q1 os] some Get show ?thesis by auto
    qed
  qed
qed

end

text \<open>The list machine hands out what was put in, in order.\<close>

lemma fifo_spec_drain: "fifo_spec c (replicate (length xs) Get) (xs @ ys) = (map Got xs, ys)"
  by (induction xs) simp_all

lemma fifo_spec_fill:
  "length ys + length xs \<le> c \<Longrightarrow>
   fifo_spec c (map Put xs) ys = (replicate (length xs) Stored, ys @ xs)"
  by (induction xs arbitrary: ys) simp_all

lemma fifo_spec_append:
  "fifo_spec c (ops1 @ ops2) xs =
   (let (o1, ys) = fifo_spec c ops1 xs; (o2, zs) = fifo_spec c ops2 ys in (o1 @ o2, zs))"
  by (induction c ops1 xs rule: fifo_spec.induct) (auto split: prod.splits)

end
