(* ===== verification/Ring_Queue.thy ===== *)
theory Ring_Queue
  imports Fifo_Interface
begin

text \<open>
  The ring buffer queue of \<open>Assignment2/queue_array.c\<close>. The four \<open>unsigned int\<close> fields are 32-bit words,
  with the arithmetic of the code at that width. The heap block behind \<open>data\<close> is a list of cells, \<open>None\<close>
  in a cell that was never written; the pointer itself is \<open>None\<close> when the allocation returned NULL. A
  queue pointer is a \<open>queue_t option\<close>, \<open>None\<close> for NULL and for a freed queue. The calls to \<open>malloc\<close> are
  represented by the two flags of \<open>create_queue\<close>, which say whether each allocation succeeds. What the
  functions print is the list of values they return.
\<close>

section \<open>Data and operations\<close>

record queue_t =
  q_back :: u32
  q_front :: u32
  q_size :: u32
  q_capacity :: u32
  q_data :: "int option list option"

definition create_queue :: "bool \<Rightarrow> bool \<Rightarrow> u32 \<Rightarrow> queue_t c_result" where
  "create_queue struct_ok data_ok cap =
     guardE struct_ok Assert_Failed
       (Inr \<lparr>q_back = 0, q_front = 0, q_size = 0, q_capacity = cap,
             q_data = (if data_ok then Some (replicate (unat cap) None) else None)\<rparr>)"

definition queue_empty :: "queue_t \<Rightarrow> int" where
  "queue_empty q = (if q_size q = 0 then 1 else 0)"

definition queue_full :: "queue_t \<Rightarrow> int" where
  "queue_full q = (if q_size q = q_capacity q then 1 else 0)"

definition umod :: "u32 \<Rightarrow> u32 \<Rightarrow> u32 c_result" where
  "umod a b = (if b = 0 then Inl Div_By_Zero else Inr (a mod b))"

definition queue_enqueue :: "queue_t \<Rightarrow> int \<Rightarrow> (int \<times> queue_t) c_result" where
  "queue_enqueue q item =
     (if queue_full q = 1 then Inr (-1, q)
      else bindE (deref (q_data q)) (\<lambda>d.
           bindE (arr_set d (unat (q_back q)) (Some item)) (\<lambda>d'.
           bindE (umod (q_back q + 1) (q_capacity q)) (\<lambda>b'.
           Inr (0, q\<lparr>q_data := Some d', q_back := b', q_size := q_size q + 1\<rparr>)))))"

definition queue_dequeue :: "queue_t \<Rightarrow> (int \<times> queue_t) c_result" where
  "queue_dequeue q =
     (if queue_empty q = 1 then Inr (-1, q)
      else bindE (deref (q_data q)) (\<lambda>d.
           bindE (arr_get d (unat (q_front q))) (\<lambda>c.
           bindE (read_cell c) (\<lambda>item.
           bindE (umod (q_front q + 1) (q_capacity q)) (\<lambda>f'.
           Inr (item, q\<lparr>q_front := f', q_size := q_size q - 1\<rparr>))))))"

definition queue_size :: "queue_t option \<Rightarrow> u32 c_result" where
  "queue_size p = (case p of None \<Rightarrow> Inl (Exit_Process (-1)) | Some q \<Rightarrow> Inr (q_size q))"

text \<open>After \<open>free_queue\<close> the pointer is dangling: no operation may be applied to it any more.\<close>

definition free_queue :: "queue_t option \<Rightarrow> (string \<times> queue_t option) c_result" where
  "free_queue p = bindE (deref p) (\<lambda>q. Inr (''Cleared'', None))"

text \<open>\<open>print_queue\<close> shows every cell of the array, also the ones outside the live window.\<close>

definition print_queue :: "queue_t \<Rightarrow> int option list c_result" where
  "print_queue q =
     (if q_capacity q = 0 then Inr []
      else bindE (deref (q_data q)) (\<lambda>d.
           guardE (unat (q_capacity q) \<le> length d) Out_Of_Bounds (Inr (take (unat (q_capacity q)) d))))"

section \<open>Invariant and abstraction\<close>

definition queue_wf :: "queue_t \<Rightarrow> bool" where
  "queue_wf q \<longleftrightarrow>
     (\<exists>d. q_data q = Some d \<and> length d = unat (q_capacity q) \<and>
       q_size q \<le> q_capacity q \<and>
       (q_capacity q = 0 \<longrightarrow> q_front q = 0 \<and> q_back q = 0) \<and>
       (q_capacity q \<noteq> 0 \<longrightarrow> q_front q < q_capacity q \<and>
          unat (q_back q) = (unat (q_front q) + unat (q_size q)) mod unat (q_capacity q)) \<and>
       (\<forall>i < unat (q_size q). d ! ((unat (q_front q) + i) mod unat (q_capacity q)) \<noteq> None))"

definition queue_contents :: "queue_t \<Rightarrow> int list" where
  "queue_contents q =
     map (\<lambda>i. the (the (q_data q) ! ((unat (q_front q) + i) mod unat (q_capacity q))))
       [0..<unat (q_size q)]"

definition queue_put :: "int \<Rightarrow> queue_t \<Rightarrow> queue_t option" where
  "queue_put x q =
     (case queue_enqueue q x of Inl e \<Rightarrow> None | Inr (r, q') \<Rightarrow> if r = 0 then Some q' else None)"

definition queue_get :: "queue_t \<Rightarrow> (int \<times> queue_t) option" where
  "queue_get q =
     (if queue_empty q = 1 then None
      else case queue_dequeue q of Inl e \<Rightarrow> None | Inr (x, q') \<Rightarrow> Some (x, q'))"

section \<open>Correctness of the operations\<close>

lemma length_queue_contents [simp]: "length (queue_contents q) = unat (q_size q)"
  by (simp add: queue_contents_def)

lemma queue_full_iff: "queue_full q = 1 \<longleftrightarrow> q_size q = q_capacity q"
  by (simp add: queue_full_def)

lemma queue_empty_iff: "queue_empty q = 1 \<longleftrightarrow> q_size q = 0"
  by (simp add: queue_empty_def)

lemma create_queue_wf:
  assumes "create_queue True True c = Inr q"
  shows "queue_wf q \<and> queue_contents q = [] \<and> q_capacity q = c"
  using assms by (auto simp: create_queue_def queue_wf_def queue_contents_def word_gt_0)

text \<open>Index arithmetic at 32 bits: the increment before the modulus never wraps.\<close>

lemma unat_step_mod:
  fixes i c :: u32
  assumes "i < c"
  shows "unat ((i + 1) mod c) = Suc (unat i) mod unat c"
  using assms by (simp add: unat_mod unat_Suc_no_wrap)

lemma unat_lt_imp: "(a :: u32) < b \<Longrightarrow> unat a < unat b"
  by (simp add: word_less_nat_alt)

lemma queue_wfI:
  assumes "q_data q = Some d" "length d = unat (q_capacity q)" "q_size q \<le> q_capacity q"
    and "q_front q < q_capacity q"
    and "unat (q_back q) = (unat (q_front q) + unat (q_size q)) mod unat (q_capacity q)"
    and "\<And>i. i < unat (q_size q) \<Longrightarrow> d ! ((unat (q_front q) + i) mod unat (q_capacity q)) \<noteq> None"
  shows "queue_wf q"
  using assms by (auto simp: queue_wf_def)

lemma queue_wfE:
  assumes "queue_wf q" "q_capacity q \<noteq> 0"
  obtains d where "q_data q = Some d" "length d = unat (q_capacity q)" "q_size q \<le> q_capacity q"
    "q_front q < q_capacity q"
    "unat (q_back q) = (unat (q_front q) + unat (q_size q)) mod unat (q_capacity q)"
    "\<And>i. i < unat (q_size q) \<Longrightarrow> d ! ((unat (q_front q) + i) mod unat (q_capacity q)) \<noteq> None"
  using assms by (auto simp: queue_wf_def)

lemma queue_wf_size: "queue_wf q \<Longrightarrow> unat (q_size q) \<le> unat (q_capacity q)"
  by (auto simp: queue_wf_def word_le_nat_alt)

lemma queue_enqueue_full: "queue_full q = 1 \<Longrightarrow> queue_enqueue q x = Inr (-1, q)"
  by (simp add: queue_enqueue_def)

lemma queue_enqueue_room:
  assumes wf: "queue_wf q" and room: "queue_full q \<noteq> 1"
  shows "\<exists>q'. queue_enqueue q x = Inr (0, q') \<and> queue_wf q' \<and>
           queue_contents q' = queue_contents q @ [x] \<and> q_capacity q' = q_capacity q"
proof -
  from room queue_wf_size [OF wf] have lt: "q_size q < q_capacity q"
    by (simp add: queue_full_iff order_less_le word_le_nat_alt)
  then have nz: "q_capacity q \<noteq> 0" and pos: "0 < unat (q_capacity q)"
    by (auto simp: word_less_nat_alt)
  from wf nz obtain d where d: "q_data q = Some d" "length d = unat (q_capacity q)"
    and fr: "q_front q < q_capacity q"
    and bk: "unat (q_back q) = (unat (q_front q) + unat (q_size q)) mod unat (q_capacity q)"
    and cells: "\<And>i. i < unat (q_size q) \<Longrightarrow>
        d ! ((unat (q_front q) + i) mod unat (q_capacity q)) \<noteq> None"
    by (erule_tac queue_wfE) auto
  let ?c = "unat (q_capacity q)" and ?f = "unat (q_front q)" and ?n = "unat (q_size q)"
  have n: "?n < ?c" using lt by (rule unat_lt_imp)
  have blt: "unat (q_back q) < length d" using bk d pos by simp
  then have bw: "q_back q < q_capacity q" using d by (simp add: word_less_nat_alt)
  let ?d' = "d[unat (q_back q) := Some x]"
  let ?q' = "q\<lparr>q_data := Some ?d', q_back := (q_back q + 1) mod q_capacity q, q_size := q_size q + 1\<rparr>"
  have run: "queue_enqueue q x = Inr (0, ?q')"
    using room d blt nz by (simp add: queue_enqueue_def umod_def)
  have sz: "unat (q_size q + 1) = Suc ?n" using lt by (rule unat_Suc_no_wrap)
  have old: "?d' ! ((?f + i) mod ?c) = d ! ((?f + i) mod ?c)" if "i < ?n" for i
    using that n bk mod_add_eq_iff_small [of i ?c ?n ?f] by (auto simp: nth_list_update)
  have new: "?d' ! ((?f + ?n) mod ?c) = Some x"
    using bk blt by simp
  have "queue_wf ?q'"
  proof (rule queue_wfI)
    show "q_size ?q' \<le> q_capacity ?q'" using n sz by (simp add: word_le_nat_alt)
    show "unat (q_back ?q') = (unat (q_front ?q') + unat (q_size ?q')) mod unat (q_capacity ?q')"
      using bw bk sz by (simp add: unat_step_mod mod_Suc_eq)
    fix i assume "i < unat (q_size ?q')"
    then have "i < ?n \<or> i = ?n" using sz by auto
    then show "?d' ! ((unat (q_front ?q') + i) mod unat (q_capacity ?q')) \<noteq> None"
      using old new cells by auto
  qed (use d fr in auto)
  moreover have "queue_contents ?q' = queue_contents q @ [x]"
    using old new d by (simp add: queue_contents_def sz)
  ultimately show ?thesis using run by auto
qed

lemma queue_dequeue_empty: "queue_empty q = 1 \<Longrightarrow> queue_dequeue q = Inr (-1, q)"
  by (simp add: queue_dequeue_def)

lemma queue_dequeue_some:
  assumes wf: "queue_wf q" and ne: "queue_empty q \<noteq> 1"
  shows "\<exists>q'. queue_dequeue q = Inr (hd (queue_contents q), q') \<and> queue_wf q' \<and>
           queue_contents q' = tl (queue_contents q) \<and> q_capacity q' = q_capacity q"
proof -
  let ?c = "unat (q_capacity q)" and ?f = "unat (q_front q)" and ?n = "unat (q_size q)"
  from ne have nz0: "q_size q \<noteq> 0" by (simp add: queue_empty_iff)
  then have n: "0 < ?n" by (simp add: unat_gt_0)
  have nc: "?n \<le> ?c" using wf by (rule queue_wf_size)
  with n have nz: "q_capacity q \<noteq> 0" by auto
  from wf nz obtain d where d: "q_data q = Some d" "length d = ?c" and flt: "q_front q < q_capacity q"
    and bk: "unat (q_back q) = (?f + ?n) mod ?c"
    and cells: "\<And>i. i < ?n \<Longrightarrow> d ! ((?f + i) mod ?c) \<noteq> None"
    by (erule_tac queue_wfE) auto
  have f: "?f < ?c" using flt by (rule unat_lt_imp)
  obtain v where v: "d ! ?f = Some v" using cells [of 0] n f by auto
  let ?q' = "q\<lparr>q_front := (q_front q + 1) mod q_capacity q, q_size := q_size q - 1\<rparr>"
  have run: "queue_dequeue q = Inr (v, ?q')"
    using ne d f v nz by (simp add: queue_dequeue_def umod_def)
  have sz: "unat (q_size q - 1) = ?n - 1" using nz0 by (rule unat_dec_no_wrap)
  have fr: "unat ((q_front q + 1) mod q_capacity q) = Suc ?f mod ?c"
    using flt by (rule unat_step_mod)
  have shift: "(Suc ?f mod ?c + i) mod ?c = (?f + Suc i) mod ?c" for i
    using n nc by (simp add: mod_step_index)
  have "queue_wf ?q'"
  proof (rule queue_wfI)
    show "q_size ?q' \<le> q_capacity ?q'" using nc sz by (simp add: word_le_nat_alt)
    show "q_front ?q' < q_capacity ?q'" using nz by (simp add: word_mod_less_divisor word_gt_0)
    show "unat (q_back ?q') = (unat (q_front ?q') + unat (q_size ?q')) mod unat (q_capacity ?q')"
      using bk shift [of "?n - 1"] n by (simp add: sz fr)
    fix i assume "i < unat (q_size ?q')"
    then show "d ! ((unat (q_front ?q') + i) mod unat (q_capacity ?q')) \<noteq> None"
      using cells [of "Suc i"] sz by (simp add: fr shift)
  qed (use d in auto)
  moreover have "queue_contents q = v # queue_contents ?q'"
  proof -
    have up: "[0..<?n] = 0 # map Suc [0..<?n - 1]"
      using n by (simp add: upt_conv_Cons map_Suc_upt)
    show ?thesis
      using d v f by (simp add: queue_contents_def up sz fr shift comp_def)
  qed
  ultimately show ?thesis using run by auto
qed

section \<open>The queue as a bounded FIFO\<close>

text \<open>No operation on a well-formed queue runs into undefined behaviour.\<close>

lemma queue_enqueue_defined: "queue_wf q \<Longrightarrow> \<exists>r q'. queue_enqueue q x = Inr (r, q')"
  using queue_enqueue_full queue_enqueue_room by blast

lemma queue_dequeue_defined: "queue_wf q \<Longrightarrow> \<exists>r q'. queue_dequeue q = Inr (r, q')"
  using queue_dequeue_empty queue_dequeue_some by blast

interpretation ringq: bounded_fifo queue_wf queue_contents "\<lambda>q. unat (q_capacity q)" queue_put queue_get
proof unfold_locales
  fix q :: queue_t and x :: int
  assume wf: "queue_wf q"
  then show "length (queue_contents q) \<le> unat (q_capacity q)"
    by (simp add: queue_wf_size)
  show "queue_put x q = None" if "length (queue_contents q) = unat (q_capacity q)"
  proof -
    from that have "queue_full q = 1" by (simp add: queue_full_iff word_unat_eq_iff)
    then show ?thesis by (simp add: queue_put_def queue_enqueue_full)
  qed
  show "\<exists>q'. queue_put x q = Some q' \<and> queue_wf q' \<and> queue_contents q' = queue_contents q @ [x] \<and>
      unat (q_capacity q') = unat (q_capacity q)" if "length (queue_contents q) < unat (q_capacity q)"
  proof -
    from that have "queue_full q \<noteq> 1" by (auto simp: queue_full_iff)
    from queue_enqueue_room [OF wf this, of x] show ?thesis by (auto simp: queue_put_def)
  qed
  show "queue_get q = None" if "queue_contents q = []"
  proof -
    from that have "q_size q = 0" by (metis length_queue_contents list.size(3) unat_eq_zero)
    then show ?thesis by (simp add: queue_get_def queue_empty_iff)
  qed
  show "\<exists>q'. queue_get q = Some (y, q') \<and> queue_wf q' \<and> queue_contents q' = ys \<and>
      unat (q_capacity q') = unat (q_capacity q)" if "queue_contents q = y # ys" for y ys
  proof -
    from that have "q_size q \<noteq> 0" by (metis length_queue_contents list.distinct(1) list.size(3)
        length_0_conv unat_0)
    with queue_dequeue_some [OF wf] that show ?thesis
      by (auto simp: queue_get_def queue_empty_iff)
  qed
qed



section \<open>The unit tests of the source\<close>

text \<open>
  \<open>unitTest1\<close> and \<open>unitTest2\<close> as they stand in the source, the values they print collected in order:
  for the first the contents after each step and the dequeued value, for the second the pairs of front
  and back index that it prints.
\<close>

definition unitTest1 :: "(int option list \<times> int \<times> int option list) c_result" where
  "unitTest1 =
     bindE (create_queue True True 1) (\<lambda>q0.
     bindE (queue_enqueue q0 1) (\<lambda>(_, q1).
     bindE (print_queue q1) (\<lambda>p1.
     bindE (queue_dequeue q1) (\<lambda>(v, q2).
     bindE (print_queue q2) (\<lambda>p2.
     bindE (free_queue (Some q2)) (\<lambda>_.
     Inr (p1, v, p2)))))))"

definition unitTest2 :: "(int \<times> (u32 \<times> u32) list) c_result" where
  "unitTest2 =
     bindE (create_queue True True 3) (\<lambda>q0.
     bindE (print_queue q0) (\<lambda>_.
     bindE (queue_dequeue q0) (\<lambda>(_, q1).
     bindE (queue_enqueue q1 1) (\<lambda>(_, q2).
     bindE (queue_enqueue q2 2) (\<lambda>(_, q3).
     bindE (queue_enqueue q3 3) (\<lambda>(_, q4).
     bindE (queue_enqueue q4 4) (\<lambda>(_, q5).
     bindE (print_queue q5) (\<lambda>_.
     bindE (queue_dequeue q5) (\<lambda>(_, q6).
     bindE (print_queue q6) (\<lambda>_.
     bindE (queue_enqueue q6 5) (\<lambda>(_, q7).
     bindE (print_queue q7) (\<lambda>_.
     bindE (queue_dequeue q7) (\<lambda>(_, q8).
     bindE (queue_dequeue q8) (\<lambda>(_, q9).
     Inr (queue_empty q1,
       [(q_front q1, q_back q1), (q_front q5, q_back q5), (q_front q6, q_back q6),
        (q_front q7, q_back q7), (q_front q9, q_back q9)])))))))))))))))"

lemma unitTest1_result: "unitTest1 = Inr ([Some 1], 1, [Some 1])"
  by code_simp

lemma unitTest2_result:
  "unitTest2 = Inr (1, [(0, 0), (0, 0), (1, 0), (1, 1), (0, 1)])"
  by code_simp

end
