(* ===== verification/Array_Sort.thy ===== *)
theory Array_Sort
  imports Prelude
begin

text \<open>
  The two in-place sorts of Assignment 3, \<open>bubblesort.c\<close> and \<open>insertionsort.c\<close>. An \<open>int*\<close> argument is the
  list of cells it points to, a pointer into it is an index; every read and write is bounds checked,
  so a result \<open>Inr\<close> says that the run stayed inside the array. Loop counters are C \<open>int\<close>s, modelled as
  integers; they run between \<open>-1\<close> and \<open>size\<close>.
\<close>

section \<open>Bubble sort\<close>

definition swap :: "int list \<Rightarrow> int \<Rightarrow> int \<Rightarrow> int list c_result" where
  "swap arr a b =
     bindE (arr_get arr (nat a)) (\<lambda>t.
     bindE (arr_get arr (nat b)) (\<lambda>vb.
     bindE (arr_set arr (nat a) vb) (\<lambda>arr1.
     arr_set arr1 (nat b) t)))"

function bubble_inner :: "int list \<Rightarrow> int \<Rightarrow> int \<Rightarrow> int \<Rightarrow> int list c_result" where
  "bubble_inner arr sz i j =
     (if j < sz - i - 1
      then bindE (arr_get arr (nat j)) (\<lambda>x.
           bindE (arr_get arr (nat (j + 1))) (\<lambda>y.
           bindE (if x > y then swap arr j (j + 1) else Inr arr) (\<lambda>arr'.
           bubble_inner arr' sz i (j + 1))))
      else Inr arr)"
  by pat_completeness auto
termination
  by (relation "measure (\<lambda>(arr, sz, i, j). nat (sz - i - 1 - j))") auto

function bubble_outer :: "int list \<Rightarrow> int \<Rightarrow> int \<Rightarrow> int list c_result" where
  "bubble_outer arr sz i =
     (if i < sz - 1
      then bindE (bubble_inner arr sz i 0) (\<lambda>arr'. bubble_outer arr' sz (i + 1))
      else Inr arr)"
  by pat_completeness auto
termination
  by (relation "measure (\<lambda>(arr, sz, i). nat (sz - 1 - i))") auto

definition bubble_sort :: "int list \<Rightarrow> int \<Rightarrow> int list c_result" where
  "bubble_sort arr sz = bubble_outer arr sz 0"

section \<open>Insertion sort\<close>

function insert_shift :: "int list \<Rightarrow> int \<Rightarrow> int \<Rightarrow> (int list \<times> int) c_result" where
  "insert_shift arr key i =
     (if i > -1
      then bindE (arr_get arr (nat i)) (\<lambda>v.
           if v > key
           then bindE (arr_set arr (nat (i + 1)) v) (\<lambda>arr'. insert_shift arr' key (i - 1))
           else Inr (arr, i))
      else Inr (arr, i))"
  by pat_completeness auto
termination
  by (relation "measure (\<lambda>(arr, key, i). nat (i + 1))") auto

function insertion_outer :: "int list \<Rightarrow> int \<Rightarrow> int \<Rightarrow> int list c_result" where
  "insertion_outer arr sz j =
     (if j < sz
      then bindE (arr_get arr (nat j)) (\<lambda>key.
           bindE (insert_shift arr key (j - 1)) (\<lambda>(arr1, i).
           bindE (arr_set arr1 (nat (i + 1)) key) (\<lambda>arr2.
           insertion_outer arr2 sz (j + 1))))
      else Inr arr)"
  by pat_completeness auto
termination
  by (relation "measure (\<lambda>(arr, sz, j). nat (sz - j))") auto

definition insertion_sort :: "int list \<Rightarrow> int \<Rightarrow> int list c_result" where
  "insertion_sort arr sz = insertion_outer arr sz 1"

text \<open>The two \<open>main\<close> functions sort the same nine numbers and write them out.\<close>

definition sort_data :: "int list" where
  "sort_data = [116, 67, 69, 102, 101, 102, 111, 114, 65]"

definition bubble_main :: "int list c_result" where
  "bubble_main = bubble_sort sort_data 9"

definition insertion_main :: "int list c_result" where
  "insertion_main = insertion_sort sort_data 9"

declare bubble_inner.simps [simp del] bubble_outer.simps [simp del]
  insert_shift.simps [simp del] insertion_outer.simps [simp del]

section \<open>Bubble sort is correct\<close>

lemma swap_adjacent:
  assumes "Suc j < length arr"
  shows "swap arr (int j) (int j + 1) = Inr (arr[j := arr ! Suc j, Suc j := arr ! j])"
proof -
  have "nat (int j + 1) = Suc j" by simp
  with assms show ?thesis by (simp add: swap_def)
qed

lemma mset_swap_adjacent:
  assumes "Suc j < length arr"
  shows "mset (arr[j := arr ! Suc j, Suc j := arr ! j]) = mset arr"
  using assms mset_swap [of "Suc j" arr j] by (simp add: list_update_swap)

text \<open>One pass over the first \<open>m + 1\<close> cells: it permutes them, leaves the rest alone and ends with a
  greatest element of the pass at index \<open>m\<close>.\<close>

lemma bubble_inner_pass:
  assumes "m < length arr" "j \<le> m" "sz - i - 1 = int m"
    and "\<forall>k < j. arr ! k \<le> arr ! j"
  shows "\<exists>arr'. bubble_inner arr sz i (int j) = Inr arr' \<and> mset arr' = mset arr \<and>
    length arr' = length arr \<and> (\<forall>k. m < k \<longrightarrow> arr' ! k = arr ! k) \<and>
    (\<forall>k \<le> m. arr' ! k \<le> arr' ! m) \<and> mset (take (Suc m) arr') = mset (take (Suc m) arr)"
  using assms
proof (induction "m - j" arbitrary: arr j)
  case 0
  then have "j = m" by simp
  with 0 show ?case
    by (subst bubble_inner.simps) (auto simp: le_less)
next
  case (Suc d)
  then have j: "j < m" "Suc j < length arr" by auto
  have d: "d = m - Suc j" using Suc.hyps(2) by simp
  let ?b = "if arr ! j > arr ! Suc j then arr[j := arr ! Suc j, Suc j := arr ! j] else arr"
  have nat: "nat (int j + 1) = Suc j" "int (Suc j) = int j + 1" by simp_all
  have guard: "int j < sz - i - 1" using j Suc.prems(3) by simp
  have step: "bubble_inner arr sz i (int j) = bubble_inner ?b sz i (int (Suc j))"
    unfolding nat(2)
    by (subst bubble_inner.simps) (use j guard in \<open>simp add: nat(1) swap_adjacent\<close>)
  have b: "mset ?b = mset arr" "length ?b = length arr" "\<forall>k. m < k \<longrightarrow> ?b ! k = arr ! k"
    using j mset_swap_adjacent [of j arr] by (auto simp: nth_list_update)
  have tk: "mset (take (Suc m) ?b) = mset (take (Suc m) arr)"
    using j mset_swap_adjacent [of j "take (Suc m) arr"] by (auto simp: take_update_swap)
  have max: "\<forall>k < Suc j. ?b ! k \<le> ?b ! Suc j"
  proof (intro allI impI)
    fix k assume "k < Suc j"
    then have "arr ! k \<le> arr ! j" using Suc.prems(4) by (cases "k = j") auto
    then show "?b ! k \<le> ?b ! Suc j" using j \<open>k < Suc j\<close> by (cases "k = j") auto
  qed
  obtain b where b': "b = ?b" by blast
  note [simp] = b(1) [folded b'] b(2) [folded b'] tk [folded b']
  have "m < length b" "Suc j \<le> m" using Suc.prems(1) j by simp_all
  then obtain arr' where "bubble_inner b sz i (int (Suc j)) = Inr arr'" "mset arr' = mset b"
    "length arr' = length b" "\<forall>k. m < k \<longrightarrow> arr' ! k = b ! k" "\<forall>k \<le> m. arr' ! k \<le> arr' ! m"
    "mset (take (Suc m) arr') = mset (take (Suc m) b)"
    using Suc.hyps(1) [OF d _ _ Suc.prems(3) max [folded b']] by blast
  with b(3) [folded b'] show ?case unfolding step b' [symmetric] by (intro exI [of _ arr']) simp
qed

text \<open>The invariant of the outer loop: the last \<open>i\<close> cells are sorted and no earlier cell exceeds them.\<close>

definition bubble_inv :: "int list \<Rightarrow> nat \<Rightarrow> bool" where
  "bubble_inv arr i \<longleftrightarrow>
     (\<forall>k l. k \<le> l \<longrightarrow> length arr - i \<le> l \<longrightarrow> l < length arr \<longrightarrow> arr ! k \<le> arr ! l)"

lemma bubble_inv_step:
  assumes inv: "bubble_inv arr i" and i: "Suc i < length arr" and m: "m = length arr - i - 1"
    and len: "length arr' = length arr" and rest: "\<forall>k. m < k \<longrightarrow> arr' ! k = arr ! k"
    and max: "\<forall>k \<le> m. arr' ! k \<le> arr' ! m"
    and perm: "mset (take (Suc m) arr') = mset (take (Suc m) arr)"
  shows "bubble_inv arr' (Suc i)"
  unfolding bubble_inv_def
proof (intro allI impI)
  fix k l assume kl: "k \<le> l" "length arr' - Suc i \<le> l" "l < length arr'"
  show "arr' ! k \<le> arr' ! l"
  proof (cases "l = m")
    case True
    with kl max show ?thesis by simp
  next
    case False
    with kl m len have l: "m < l" by simp
    show ?thesis
    proof (cases "m < k")
      case True
      with l kl inv rest len m show ?thesis by (simp add: bubble_inv_def)
    next
      case False
      then have "arr' ! k \<in> set (take (Suc m) arr')"
        using i m len by (auto simp: set_conv_nth intro!: exI [of _ k])
      with perm have "arr' ! k \<in> set (take (Suc m) arr)"
        by (metis mset_eq_setD)
      then obtain k' where "k' \<le> m" "arr ! k' = arr' ! k"
        by (auto simp: in_set_conv_nth less_Suc_eq_le)
      moreover have "arr ! k' \<le> arr ! l"
        using inv [unfolded bubble_inv_def, rule_format, of k' l] calculation(1) l kl len m by simp
      ultimately show ?thesis using rest l by simp
    qed
  qed
qed

lemma bubble_inv_sorted:
  assumes "bubble_inv arr i" "length arr \<le> Suc i"
  shows "sorted arr"
proof (rule sorted_iff_nth_mono [THEN iffD2], intro allI impI)
  fix k l assume "k \<le> l" "l < length arr"
  with assms show "arr ! k \<le> arr ! l"
    by (cases "l = 0") (auto simp: bubble_inv_def)
qed

lemma bubble_outer_sorts:
  assumes "bubble_inv arr i" "int (length arr) = sz"
  shows "\<exists>arr'. bubble_outer arr sz (int i) = Inr arr' \<and> mset arr' = mset arr \<and> sorted arr'"
  using assms
proof (induction "length arr - i" arbitrary: arr i)
  case 0
  then show ?case by (subst bubble_outer.simps) (auto intro: bubble_inv_sorted)
next
  case (Suc d)
  show ?case
  proof (cases "Suc i < length arr")
    case False
    with Suc.prems show ?thesis
      by (subst bubble_outer.simps) (auto intro: bubble_inv_sorted)
  next
    case True
    define m where "m = length arr - i - 1"
    have m: "m < length arr" "sz - int i - 1 = int m"
      using True Suc.prems by (auto simp: m_def)
    from bubble_inner_pass [OF m(1) _ m(2), of 0] obtain arr' where
      pass: "bubble_inner arr sz (int i) 0 = Inr arr'" "mset arr' = mset arr"
        "length arr' = length arr" "\<forall>k. m < k \<longrightarrow> arr' ! k = arr ! k"
        "\<forall>k \<le> m. arr' ! k \<le> arr' ! m" "mset (take (Suc m) arr') = mset (take (Suc m) arr)"
      by auto
    have "bubble_inv arr' (Suc i)"
      using bubble_inv_step [OF Suc.prems(1) True m_def] pass by blast
    moreover have "d = length arr' - Suc i" using Suc.hyps(2) pass(3) by simp
    ultimately obtain arr'' where
      "bubble_outer arr' sz (int (Suc i)) = Inr arr''" "mset arr'' = mset arr'" "sorted arr''"
      using Suc.hyps(1) [of arr' "Suc i"] pass(3) Suc.prems(2) by auto
    with pass True Suc.prems show ?thesis
      by (subst bubble_outer.simps) (auto simp: algebra_simps)
  qed
qed

lemma bubble_sort_sorts:
  "\<exists>arr'. bubble_sort arr (int (length arr)) = Inr arr' \<and> mset arr' = mset arr \<and> sorted arr'"
  using bubble_outer_sorts [of arr 0] by (simp add: bubble_sort_def bubble_inv_def)

section \<open>Insertion sort is correct\<close>

text \<open>The inner loop shifts the cells above \<open>key\<close> one place to the right and stops at the last cell that is not
  above it. Cell \<open>i + 1\<close> is the hole: its value is free to be overwritten.\<close>

lemma insert_shift_spec:
  assumes "int n = i + 1" "n < length arr"
  shows "\<exists>arr' h. insert_shift arr key i = Inr (arr', int h - 1) \<and> h \<le> n \<and> length arr' = length arr \<and>
    (\<forall>k < h. arr' ! k = arr ! k) \<and> (\<forall>k. n < k \<longrightarrow> arr' ! k = arr ! k) \<and>
    (\<forall>k. h \<le> k \<longrightarrow> k < n \<longrightarrow> arr' ! Suc k = arr ! k \<and> key < arr ! k) \<and>
    (0 < h \<longrightarrow> arr ! (h - 1) \<le> key)"
  using assms
proof (induction n arbitrary: arr i)
  case 0
  then show ?case by (subst insert_shift.simps) (auto intro!: exI [of _ "0::nat"])
next
  case (Suc n)
  then have i: "i = int n" "nat i = n" "nat (i + 1) = Suc n" by auto
  show ?case
  proof (cases "arr ! n > key")
    case False
    with Suc.prems i show ?thesis
      by (subst insert_shift.simps) (auto intro!: exI [of _ "Suc n"])
  next
    case True
    let ?b = "arr[Suc n := arr ! n]"
    have step: "insert_shift arr key i = insert_shift ?b key (int n - 1)"
      using Suc.prems True i by (subst insert_shift.simps) simp
    obtain arr' h where r: "insert_shift ?b key (int n - 1) = Inr (arr', int h - 1)" "h \<le> n"
      "length arr' = length ?b" "\<forall>k < h. arr' ! k = ?b ! k" "\<forall>k. n < k \<longrightarrow> arr' ! k = ?b ! k"
      "\<forall>k. h \<le> k \<longrightarrow> k < n \<longrightarrow> arr' ! Suc k = ?b ! k \<and> key < ?b ! k"
      "0 < h \<longrightarrow> ?b ! (h - 1) \<le> key"
      using Suc.IH [of "int n - 1" ?b] Suc.prems by auto
    show ?thesis
      using step r Suc.prems True
      by (intro exI [of _ arr'] exI [of _ h]) (auto simp: less_Suc_eq)
  qed
qed

lemma insert_step_shape:
  assumes j: "j < length arr" and h: "h \<le> j" and len: "length arr1 = length arr"
    and lo: "\<forall>k < h. arr1 ! k = arr ! k" and hi: "\<forall>k. j < k \<longrightarrow> arr1 ! k = arr ! k"
    and mid: "\<forall>k. h \<le> k \<longrightarrow> k < j \<longrightarrow> arr1 ! Suc k = arr ! k"
  shows "arr1[h := arr ! j] = take h arr @ [arr ! j] @ drop h (take j arr) @ drop (Suc j) arr"
proof (rule nth_equalityI)
  show "length (arr1[h := arr ! j]) =
      length (take h arr @ [arr ! j] @ drop h (take j arr) @ drop (Suc j) arr)"
    using assms by simp
  fix k assume "k < length (arr1[h := arr ! j])"
  then have k: "k < length arr" using len by simp
  consider "k < h" | "k = h" | "h < k" "k \<le> j" | "j < k" by linarith
  then show "arr1[h := arr ! j] ! k =
      (take h arr @ [arr ! j] @ drop h (take j arr) @ drop (Suc j) arr) ! k"
  proof cases
    case 3
    then obtain k' where "k = Suc k'" "h \<le> k'" "k' < j" by (cases k) auto
    with j h len mid k show ?thesis by (auto simp: nth_append nth_Cons')
  qed (use j h len lo hi k in \<open>auto simp: nth_append nth_Cons'\<close>)
qed

lemma sorted_insert_split:
  assumes "sorted xs" "h \<le> length xs" "\<forall>k. h \<le> k \<longrightarrow> k < length xs \<longrightarrow> key < xs ! k"
    and "0 < h \<longrightarrow> xs ! (h - 1) \<le> (key :: int)"
  shows "sorted (take h xs @ key # drop h xs)"
proof -
  have "x \<le> key" if x: "x \<in> set (take h xs)" for x
  proof -
    from x obtain k where "k < h" "k < length xs" "x = xs ! k" by (auto simp: in_set_conv_nth)
    moreover have "xs ! k \<le> xs ! (h - 1)"
      using calculation assms(1,2) by (intro sorted_nth_mono) auto
    ultimately show ?thesis using assms(4) by auto
  qed
  moreover have "key \<le> y" if y: "y \<in> set (drop h xs)" for y
  proof -
    from y obtain k where "k < length (drop h xs)" "drop h xs ! k = y"
      by (metis in_set_conv_nth)
    with assms(3) [rule_format, of "h + k"] show ?thesis
      by (simp add: less_diff_conv add.commute)
  qed
  moreover have "x \<le> y" if "x \<in> set (take h xs)" "y \<in> set (drop h xs)" for x y
    using calculation that by fastforce
  ultimately show ?thesis
    using assms(1) by (simp add: sorted_append sorted_wrt_take sorted_wrt_drop)
qed

lemma insertion_outer_sorts:
  assumes "sorted (take j arr)" "1 \<le> j" "int (length arr) = sz"
  shows "\<exists>arr'. insertion_outer arr sz (int j) = Inr arr' \<and> mset arr' = mset arr \<and> sorted arr'"
  using assms
proof (induction "length arr - j" arbitrary: arr j)
  case 0
  then show ?case by (subst insertion_outer.simps) auto
next
  case (Suc d)
  then have j: "j < length arr" "int j = int j - 1 + 1" "nat (int j) = j" by auto
  obtain arr1 h where sh: "insert_shift arr (arr ! j) (int j - 1) = Inr (arr1, int h - 1)" "h \<le> j"
    "length arr1 = length arr" "\<forall>k < h. arr1 ! k = arr ! k" "\<forall>k. j < k \<longrightarrow> arr1 ! k = arr ! k"
    "\<forall>k. h \<le> k \<longrightarrow> k < j \<longrightarrow> arr1 ! Suc k = arr ! k \<and> arr ! j < arr ! k"
    "0 < h \<longrightarrow> arr ! (h - 1) \<le> arr ! j"
    using insert_shift_spec [OF j(2,1)] by blast
  define arr2 where "arr2 = arr1[h := arr ! j]"
  have shape: "arr2 = take h arr @ [arr ! j] @ drop h (take j arr) @ drop (Suc j) arr"
    unfolding arr2_def using sh by (intro insert_step_shape [OF j(1)]) auto
  have "mset arr2 = mset (take j arr @ [arr ! j] @ drop (Suc j) arr)"
    using sh(2) by (subst append_take_drop_id [of h "take j arr", symmetric]) (simp add: shape min_def)
  then have perm: "mset arr2 = mset arr" using j(1) by (simp add: id_take_nth_drop [symmetric])
  have "sorted (take h (take j arr) @ arr ! j # drop h (take j arr))"
    using Suc.prems(1) sh j(1) by (intro sorted_insert_split) auto
  then have srt: "sorted (take (Suc j) arr2)"
    using sh(2) j(1) by (simp add: shape min_def Suc_diff_le)
  have "length arr2 = length arr" using perm mset_eq_length by blast
  moreover from this have "d = length arr2 - Suc j" using Suc.hyps(2) by simp
  ultimately obtain arr' where "insertion_outer arr2 sz (int (Suc j)) = Inr arr'"
      "mset arr' = mset arr2" "sorted arr'"
    using Suc.hyps(1) [of arr2 "Suc j"] Suc.prems(3) srt by auto
  moreover have "insertion_outer arr sz (int j) = insertion_outer arr2 sz (int (Suc j))"
    by (subst insertion_outer.simps) (use j sh Suc.prems in \<open>simp add: arr2_def algebra_simps\<close>)
  ultimately show ?case using perm by auto
qed

lemma insertion_sort_sorts:
  "\<exists>arr'. insertion_sort arr (int (length arr)) = Inr arr' \<and> mset arr' = mset arr \<and> sorted arr'"
proof -
  have "sorted (take 1 arr)" by (cases arr) auto
  then show ?thesis using insertion_outer_sorts [of 1 arr] by (simp add: insertion_sort_def)
qed

section \<open>The contract of a sort\<close>

text \<open>What a client of either sort relies on: the call stays inside the array and leaves a sorted permutation
  of it. Since a sorted permutation is unique, any two sorts with this contract agree.\<close>

locale array_sorter =
  fixes srt :: "int list \<Rightarrow> int \<Rightarrow> int list c_result"
  assumes sorts: "\<exists>arr'. srt arr (int (length arr)) = Inr arr' \<and> mset arr' = mset arr \<and> sorted arr'"
begin

lemma is_sort: "srt arr (int (length arr)) = Inr (sort arr)"
  using sorts [of arr] by (metis properties_for_sort)

lemma idem: "srt (sort arr) (int (length arr)) = Inr (sort arr)"
  using is_sort [of "sort arr"] by (simp add: sorted_sort_id)

end

interpretation bubble: array_sorter bubble_sort
  by unfold_locales (rule bubble_sort_sorts)

interpretation insertion: array_sorter insertion_sort
  by unfold_locales (rule insertion_sort_sorts)

text \<open>
  C27. Both in-place sorts terminate without leaving the array and produce the sorted permutation of any
  input, so they agree with each other and with the reference sort on every array.
\<close>

theorem array_sorts_correct:
  "bubble_sort arr (int (length arr)) = Inr (sort arr) \<and>
   insertion_sort arr (int (length arr)) = bubble_sort arr (int (length arr))"
  by (simp add: bubble.is_sort insertion.is_sort)

lemma sort_mains: "bubble_main = Inr [65, 67, 69, 101, 102, 102, 111, 114, 116]"
  "insertion_main = bubble_main"
  using bubble.is_sort [of sort_data] insertion.is_sort [of sort_data]
  by (simp_all add: bubble_main_def insertion_main_def sort_data_def)

end
