(* ===== verification/Linked_List.thy ===== *)
theory Linked_List
  imports Prelude
begin

text \<open>
  The linked list of \<open>Lab2_LinkedList/linkedlist.c\<close>. The nodes live in one block obtained from \<open>malloc\<close>;
  a \<open>node*\<close> into that block is the index of the node, NULL is \<open>None\<close>. A field that was never written is
  \<open>None\<close> as a cell. The random numbers are a parameter \<open>rnd\<close>: \<open>rnd i\<close> is what the \<open>i\<close>-th call of \<open>rand\<close>
  returns, a value that is never negative. \<open>findLength\<close> and the printing loop follow \<open>next\<close> pointers and need
  not stop on an arbitrary heap: they are partial functions, \<open>None\<close> standing for a run that never returns.
\<close>

section \<open>Nodes and operations\<close>

record node =
  myData :: "int option"
  next_p :: "nat option option"

definition fresh_node :: node where
  "fresh_node = \<lparr>myData = None, next_p = None\<rparr>"

definition set_data :: "node list \<Rightarrow> nat \<Rightarrow> int \<Rightarrow> node list c_result" where
  "set_data h a v = bindE (arr_get h a) (\<lambda>n. arr_set h a (n\<lparr>myData := Some v\<rparr>))"

definition set_next :: "node list \<Rightarrow> nat \<Rightarrow> nat option \<Rightarrow> node list c_result" where
  "set_next h a p = bindE (arr_get h a) (\<lambda>n. arr_set h a (n\<lparr>next_p := Some p\<rparr>))"

text \<open>The populating loop, from iteration \<open>i\<close> with \<open>current\<close> pointing at node \<open>cur\<close>.\<close>

function populate :: "(nat \<Rightarrow> nat) \<Rightarrow> int \<Rightarrow> int \<Rightarrow> nat \<Rightarrow> node list \<Rightarrow> (node list \<times> nat) c_result" where
  "populate rnd n i cur h =
     (if i < n
      then bindE (set_data h cur (int (rnd (nat i) mod 100))) (\<lambda>h1.
           if i < n - 1
           then bindE (set_next h1 cur (Some (nat (i + 1)))) (\<lambda>h2.
                populate rnd n (i + 1) (nat (i + 1)) h2)
           else populate rnd n (i + 1) cur h1)
      else Inr (h, cur))"
  by pat_completeness auto
termination
  by (relation "measure (\<lambda>(rnd, n, i, cur, h). nat (n - i))") auto

partial_function (option) findLength_from :: "node list \<Rightarrow> nat option \<Rightarrow> int \<Rightarrow> int c_result option" where
  "findLength_from h it cnt =
     (case it of None \<Rightarrow> Some (Inr cnt)
      | Some a \<Rightarrow>
          if a < length h
          then (case next_p (h ! a) of None \<Rightarrow> Some (Inl Uninit_Read)
                | Some p \<Rightarrow> findLength_from h p (cnt + 1))
          else Some (Inl Out_Of_Bounds))"

definition findLength :: "node list \<Rightarrow> nat option \<Rightarrow> int c_result option" where
  "findLength h ll = findLength_from h ll 0"

partial_function (option) print_from :: "node list \<Rightarrow> nat option \<Rightarrow> int list \<Rightarrow> int list c_result option" where
  "print_from h it out =
     (case it of None \<Rightarrow> Some (Inr out)
      | Some a \<Rightarrow>
          if a < length h
          then (case myData (h ! a) of None \<Rightarrow> Some (Inl Uninit_Read)
                | Some v \<Rightarrow>
                   (case next_p (h ! a) of None \<Rightarrow> Some (Inl Uninit_Read)
                    | Some p \<Rightarrow> print_from h p (out @ [v])))
          else Some (Inl Out_Of_Bounds))"

text \<open>
  \<open>createAndPrintLL\<close>: the byte count \<open>(int)sizeof(node) * specifiedSize + 1\<close> is computed in \<open>int\<close> and must not
  overflow; converted to \<open>size_t\<close>, a negative count is larger than any object, so \<open>malloc\<close> fails. \<open>malloc_ok\<close>
  says whether a request that could be served is served. The result of \<open>malloc\<close> is not checked by the
  code. The outcome is the list of printed numbers and the printed length.
\<close>

definition sizeof_node :: int where "sizeof_node = 16"

definition INT_MAX :: int where "INT_MAX = 2147483647"

definition createAndPrintLL ::
    "bool \<Rightarrow> (nat \<Rightarrow> nat) \<Rightarrow> int \<Rightarrow> (int list \<times> int) option c_result option" where
  "createAndPrintLL malloc_ok rnd n =
     (if n = 0 then Some (Inr None)
      else if sizeof_node * n + 1 > INT_MAX \<or> sizeof_node * n + 1 < - INT_MAX - 1 then Some (Inl Int_Overflow)
      else if \<not> malloc_ok \<or> n < 0 then Some (Inl Null_Deref)
      else case populate rnd n 0 0 (replicate (nat n) fresh_node) of
             Inl e \<Rightarrow> Some (Inl e)
           | Inr (h, cur) \<Rightarrow>
              (case set_next h cur None of
                 Inl e \<Rightarrow> Some (Inl e)
               | Inr h' \<Rightarrow>
                  (case print_from h' (Some 0) [] of
                     None \<Rightarrow> None
                   | Some (Inl e) \<Rightarrow> Some (Inl e)
                   | Some (Inr out) \<Rightarrow>
                      (case findLength h' (Some 0) of
                         None \<Rightarrow> None
                       | Some (Inl e) \<Rightarrow> Some (Inl e)
                       | Some (Inr len) \<Rightarrow> Some (Inr (Some (out, len)))))))"

text \<open>\<open>main\<close> takes the size from the single command-line argument; \<open>atoi\<close> is applied to it by the caller here.\<close>

definition list_main :: "bool \<Rightarrow> (nat \<Rightarrow> nat) \<Rightarrow> int list \<Rightarrow> (int list \<times> int) option c_result option" where
  "list_main malloc_ok rnd args =
     (case args of [n] \<Rightarrow> createAndPrintLL malloc_ok rnd n | _ \<Rightarrow> Some (Inr None))"

declare populate.simps [simp del]

section \<open>Correctness\<close>

text \<open>After \<open>i\<close> iterations the first \<open>i\<close> nodes carry their numbers and point to their successors.\<close>

definition built_upto :: "(nat \<Rightarrow> nat) \<Rightarrow> nat \<Rightarrow> nat \<Rightarrow> node list \<Rightarrow> bool" where
  "built_upto rnd n i h \<longleftrightarrow> length h = n \<and>
     (\<forall>k < i. myData (h ! k) = Some (int (rnd k mod 100))) \<and>
     (\<forall>k < i. Suc k < n \<longrightarrow> next_p (h ! k) = Some (Some (Suc k)))"

lemma populate_builds:
  assumes "built_upto rnd n i h" "i < n"
  shows "\<exists>h'. populate rnd (int n) (int i) i h = Inr (h', n - 1) \<and> built_upto rnd n n h'"
  using assms
proof (induction "n - i" arbitrary: i h)
  case 0
  then show ?case by simp
next
  case (Suc d)
  let ?h1 = "h[i := (h ! i)\<lparr>myData := Some (int (rnd i mod 100))\<rparr>]"
  have sd: "set_data h i (int (rnd (nat (int i)) mod 100)) = Inr ?h1"
    using Suc.prems by (simp add: set_data_def built_upto_def)
  show ?case
  proof (cases "Suc i < n")
    case True
    let ?h2 = "?h1[i := (?h1 ! i)\<lparr>next_p := Some (Some (Suc i))\<rparr>]"
    have "set_next ?h1 i (Some (Suc i)) = Inr ?h2"
      using Suc.prems by (simp add: set_next_def built_upto_def)
    moreover have "built_upto rnd n (Suc i) ?h2"
      using Suc.prems by (auto simp: built_upto_def nth_list_update less_Suc_eq)
    moreover have "d = n - Suc i" using Suc.hyps(2) by simp
    ultimately show ?thesis
      using Suc.hyps(1) [of "Suc i" ?h2] True Suc.prems sd
      by (subst populate.simps) (simp add: add.commute)
  next
    case False
    with Suc.prems have last: "n = Suc i" by simp
    have "built_upto rnd n n ?h1"
      using Suc.prems last by (auto simp: built_upto_def nth_list_update less_Suc_eq)
    with last sd show ?thesis
      by (subst populate.simps) (simp, subst populate.simps, simp)
  qed
qed

text \<open>A chain of nodes from index \<open>a\<close> to the last one.\<close>

definition chain :: "node list \<Rightarrow> (nat \<Rightarrow> int) \<Rightarrow> nat \<Rightarrow> bool" where
  "chain h v n \<longleftrightarrow> length h = n \<and> (\<forall>k < n. myData (h ! k) = Some (v k)) \<and>
     (\<forall>k < n. next_p (h ! k) = Some (if Suc k < n then Some (Suc k) else None))"

lemma findLength_chain:
  assumes "chain h v n" "a < n"
  shows "findLength_from h (Some a) c = Some (Inr (c + int (n - a)))"
  using assms
proof (induction "n - a" arbitrary: a c)
  case (Suc d)
  show ?case
  proof (cases "Suc a < n")
    case True
    moreover have "d = n - Suc a" using Suc.hyps(2) by simp
    ultimately show ?thesis
      using Suc.prems Suc.hyps(1) [of "Suc a" "c + 1"]
      by (subst findLength_from.simps) (simp add: chain_def)
  next
    case False
    with Suc.prems show ?thesis
      by (subst findLength_from.simps) (simp add: chain_def findLength_from.simps)
  qed
qed simp

lemma print_chain:
  assumes "chain h v n" "a < n"
  shows "print_from h (Some a) out = Some (Inr (out @ map v [a..<n]))"
  using assms
proof (induction "n - a" arbitrary: a out)
  case (Suc d)
  show ?case
  proof (cases "Suc a < n")
    case True
    moreover have "d = n - Suc a" using Suc.hyps(2) by simp
    ultimately show ?thesis
      using Suc.prems Suc.hyps(1) [of "Suc a" "out @ [v a]"]
      by (subst print_from.simps) (simp add: chain_def upt_conv_Cons)
  next
    case False
    with Suc.prems have "n = Suc a" by simp
    with Suc.prems show ?thesis
      by (subst print_from.simps) (simp add: chain_def print_from.simps)
  qed
qed simp

lemma built_chain:
  assumes "built_upto rnd n n h" "0 < n"
  shows "\<exists>h'. set_next h (n - 1) None = Inr h' \<and> chain h' (\<lambda>k. int (rnd k mod 100)) n"
proof -
  let ?h' = "h[n - 1 := (h ! (n - 1))\<lparr>next_p := Some None\<rparr>]"
  have "set_next h (n - 1) None = Inr ?h'"
    using assms by (simp add: set_next_def built_upto_def)
  moreover have "chain ?h' (\<lambda>k. int (rnd k mod 100)) n"
    using assms by (auto simp: chain_def built_upto_def nth_list_update)
  ultimately show ?thesis by blast
qed

text \<open>
  C34. For every positive size whose byte count fits an \<open>int\<close>, once the allocation succeeds the program
  returns: it prints the generated numbers in order, each between 0 and 99, and reports exactly the
  requested length. The printing and counting loops stop and touch initialised nodes only.
\<close>

theorem createAndPrintLL_correct:
  assumes "0 < n" "sizeof_node * n + 1 \<le> INT_MAX"
  shows "createAndPrintLL True rnd n =
    Some (Inr (Some (map (\<lambda>i. int (rnd i mod 100)) [0..<nat n], n)))"
proof -
  have "built_upto rnd (nat n) 0 (replicate (nat n) fresh_node)"
    by (simp add: built_upto_def)
  then obtain h where h: "populate rnd n 0 0 (replicate (nat n) fresh_node) = Inr (h, nat n - 1)"
    "built_upto rnd (nat n) (nat n) h"
    using populate_builds [of rnd "nat n" 0] assms by auto
  from built_chain [OF h(2)] assms obtain h' where
    h': "set_next h (nat n - 1) None = Inr h'" "chain h' (\<lambda>k. int (rnd k mod 100)) (nat n)"
    by auto
  have "print_from h' (Some 0) [] = Some (Inr (map (\<lambda>i. int (rnd i mod 100)) [0..<nat n]))"
    using print_chain [OF h'(2), of 0 "[]"] assms by simp
  moreover have "findLength h' (Some 0) = Some (Inr n)"
    using findLength_chain [OF h'(2), of 0 0] assms by (simp add: findLength_def)
  ultimately show ?thesis
    using assms h h' by (simp add: createAndPrintLL_def sizeof_node_def INT_MAX_def)
qed

theorem createAndPrintLL_correct_witness:
  "(0::int) < 3 \<and> sizeof_node * 3 + 1 \<le> INT_MAX \<and>
   createAndPrintLL True (\<lambda>i. 250 * i + 7) 3 = Some (Inr (Some ([7, 57, 7], 3)))"
  using createAndPrintLL_correct [of 3 "\<lambda>i. 250 * i + 7"]
  by (simp add: sizeof_node_def INT_MAX_def upt_rec numeral_3_eq_3)

text \<open>A negative size passes the only guard of the code, makes the allocation fail and then dereferences NULL.\<close>

lemma createAndPrintLL_negative:
  assumes "n < 0" "sizeof_node * n + 1 \<ge> - INT_MAX - 1"
  shows "createAndPrintLL ok rnd n = Some (Inl Null_Deref)"
  using assms by (simp add: createAndPrintLL_def sizeof_node_def INT_MAX_def)

end
