(* ===== verification/Binary_String.thy ===== *)
theory Binary_String
  imports Complex_Main Prelude
begin

text \<open>
  The binary string conversions of \<open>CacheSimulator/binary.h\<close> (Assignment 5; Lab 6 ships the same file) and
  the trace generators \<open>trace.c\<close>, \<open>friendlyTrace.c\<close> and \<open>adverseTrace.c\<close> built on them. A C string is a HOL
  string without its terminating NUL; reading at index \<open>strlen\<close> gives the NUL, reading past it or at a
  negative index is out of bounds. \<open>pow\<close> computes in \<open>double\<close>, exactly for the powers of two used
  here, and the assignment to an \<open>int\<close> truncates: \<open>add_pow2\<close> does this over the rationals.
\<close>

section \<open>Conversions\<close>

abbreviation nul :: char where "nul \<equiv> CHR 0x00"

definition cstr_get :: "string \<Rightarrow> int \<Rightarrow> char c_result" where
  "cstr_get s i =
     (if 0 \<le> i \<and> i < int (length s) then Inr (s ! nat i)
      else if i = int (length s) then Inr nul
      else Inl Out_Of_Bounds)"

definition add_pow2 :: "int \<Rightarrow> int \<Rightarrow> int" where
  "add_pow2 sm e = \<lfloor>of_int sm + (if 0 \<le> e then 2 ^ nat e else 1 / 2 ^ nat (- e) :: rat)\<rfloor>"

function toInt_loop :: "string \<Rightarrow> int \<Rightarrow> int \<Rightarrow> int \<Rightarrow> int c_result" where
  "toInt_loop bin sz i sm =
     (if i > -1
      then bindE (cstr_get bin i) (\<lambda>c.
           toInt_loop bin sz (i - 1) (if c = CHR ''1'' then add_pow2 sm (sz - 1 - i - 1) else sm))
      else Inr sm)"
  by pat_completeness auto
termination
  by (relation "measure (\<lambda>(bin, sz, i, sm). nat (i + 1))") auto

definition binaryStringToInt :: "string \<Rightarrow> int \<Rightarrow> int c_result" where
  "binaryStringToInt bin sz = toInt_loop bin sz (sz - 1) 0"

function range_loop :: "string \<Rightarrow> int \<Rightarrow> int \<Rightarrow> int \<Rightarrow> int \<Rightarrow> int c_result" where
  "range_loop bin width i counter sm =
     (if counter < width
      then bindE (cstr_get bin i) (\<lambda>c.
           range_loop bin width (i - 1) (counter + 1)
             (if c = CHR ''1'' then add_pow2 sm counter else sm))
      else Inr sm)"
  by pat_completeness auto
termination
  by (relation "measure (\<lambda>(bin, width, i, counter, sm). nat (width - counter))") auto

definition binaryStringRangeToInt :: "string \<Rightarrow> int \<Rightarrow> int \<Rightarrow> int c_result" where
  "binaryStringRangeToInt bin start stop =
     range_loop bin (stop - start + 1) (int (length bin) - start - 1) 0 0"

function fill_bits :: "string \<Rightarrow> int \<Rightarrow> int \<Rightarrow> string c_result" where
  "fill_bits binary value pos =
     (if value > 0
      then guardE (0 \<le> pos \<and> pos < int (length binary)) Out_Of_Bounds
           (fill_bits (binary[nat pos := (if value mod 2 = 0 then CHR ''0'' else CHR ''1'')])
              (value div 2) (pos - 1))
      else Inr binary)"
  by pat_completeness auto
termination
  by (relation "measure (\<lambda>(binary, value, pos). nat value)") auto

definition intToBinaryString :: "int \<Rightarrow> nat \<Rightarrow> string c_result" where
  "intToBinaryString i bits = fill_bits (replicate bits (CHR ''0'')) i (int bits - 1)"

declare toInt_loop.simps [simp del] range_loop.simps [simp del] fill_bits.simps [simp del]

section \<open>The value of a string of binary digits\<close>

definition bit_of :: "char \<Rightarrow> int" where
  "bit_of c = (if c = CHR ''1'' then 1 else 0)"

text \<open>\<open>digit s k\<close> is the digit of weight \<open>2 ^ k\<close>, counted from the right end.\<close>

definition digit :: "string \<Rightarrow> nat \<Rightarrow> int" where
  "digit s k = bit_of (s ! (length s - 1 - k))"

text \<open>The number written in the \<open>w\<close> digits from weight \<open>2 ^ m\<close> upwards.\<close>

definition range_value :: "string \<Rightarrow> nat \<Rightarrow> nat \<Rightarrow> int" where
  "range_value s m w = (\<Sum>k < w. digit s (m + k) * 2 ^ k)"

lemma digit_bounds: "0 \<le> digit s k" "digit s k < 2"
  by (simp_all add: digit_def bit_of_def)

lemma range_value_bounds: "0 \<le> range_value s m w" "range_value s m w < 2 ^ w"
proof -
  show "0 \<le> range_value s m w"
    unfolding range_value_def by (intro sum_nonneg) (simp add: digit_bounds)
  show "range_value s m w < 2 ^ w"
  proof (induction w)
    case (Suc w)
    have "digit s (m + w) * 2 ^ w \<le> 1 * 2 ^ w"
      using digit_bounds [of s "m + w"] by (intro mult_right_mono) auto
    moreover have "range_value s m (Suc w) = range_value s m w + digit s (m + w) * 2 ^ w"
      by (simp add: range_value_def)
    ultimately have "range_value s m (Suc w) < 2 ^ w + 2 ^ w" using Suc by linarith
    then show ?case by simp
  qed (simp add: range_value_def)
qed

lemma add_pow2_nonneg [simp]: "add_pow2 sm (int k) = sm + 2 ^ k"
proof -
  have "(of_int sm + 2 ^ k :: rat) = of_int (sm + 2 ^ k)" by simp
  then show ?thesis unfolding add_pow2_def by (metis floor_of_int nat_int of_nat_0_le_iff)
qed

lemma add_pow2_half [simp]: "add_pow2 sm (- 1) = sm"
proof -
  have "\<lfloor>of_int sm + (1 / 2 :: rat)\<rfloor> = sm" by linarith
  then show ?thesis by (simp add: add_pow2_def)
qed

lemma cstr_get_in [simp]: "k < length s \<Longrightarrow> cstr_get s (int k) = Inr (s ! k)"
  by (simp add: cstr_get_def)

lemma range_loop_step:
  assumes "c < w" "cstr_get s i = Inr ch"
  shows "range_loop s w i c sm =
    range_loop s w (i - 1) (c + 1) (if ch = CHR ''1'' then add_pow2 sm c else sm)"
  using assms by (subst range_loop.simps) simp

lemma toInt_loop_step:
  assumes "i > -1" "cstr_get s i = Inr ch"
  shows "toInt_loop s sz i sm =
    toInt_loop s sz (i - 1) (if ch = CHR ''1'' then add_pow2 sm (sz - 1 - i - 1) else sm)"
  using assms by (subst toInt_loop.simps) simp

lemma range_loop_value:
  assumes "m + w \<le> length s" "c \<le> w"
  shows "range_loop s (int w) (int (length s) - int m - int c - 1) (int c) (range_value s m c) =
    Inr (range_value s m w)"
  using assms
proof (induction "w - c" arbitrary: c)
  case 0
  then show ?case by (subst range_loop.simps) simp
next
  case (Suc d)
  then have idx: "int (length s) - int m - int c - 1 = int (length s - 1 - (m + c))"
    "length s - 1 - (m + c) < length s" "c < w" by auto
  have acc: "(if s ! (length s - 1 - (m + c)) = CHR ''1'' then add_pow2 (range_value s m c) (int c)
      else range_value s m c) = range_value s m (Suc c)"
    by (simp add: range_value_def digit_def bit_of_def)
  have nxt: "int (length s) - int m - int c - 1 - 1 = int (length s) - int m - int (Suc c) - 1"
    "int c + 1 = int (Suc c)" by simp_all
  have get: "cstr_get s (int (length s) - int m - int c - 1) = Inr (s ! (length s - 1 - (m + c)))"
    by (simp only: idx(1)) (rule cstr_get_in [OF idx(2)])
  have lt: "int c < int w" using idx(3) by simp
  have "range_loop s (int w) (int (length s) - int m - int c - 1) (int c) (range_value s m c) =
      range_loop s (int w) (int (length s) - int m - int (Suc c) - 1) (int (Suc c)) (range_value s m (Suc c))"
    using range_loop_step [OF lt get, of "range_value s m c"] by (simp only: nxt acc)
  with Suc.hyps(1) [of "Suc c"] Suc.hyps(2) Suc.prems idx(3) show ?case by simp
qed

lemma binaryStringRangeToInt_value:
  assumes "start \<le> Suc stop" "stop < length s"
  shows "binaryStringRangeToInt s (int start) (int stop) = Inr (range_value s start (Suc stop - start))"
proof -
  have "int stop - int start + 1 = int (Suc stop - start)" using assms by simp
  with range_loop_value [of start "Suc stop - start" s 0] assms show ?thesis
    by (simp add: binaryStringRangeToInt_def range_value_def)
qed

lemma toInt_loop_value:
  assumes "c \<le> length s"
  shows "toInt_loop s (int (length s) + 1) (int (length s) - int c - 1) (range_value s 0 c) =
    Inr (range_value s 0 (length s))"
  using assms
proof (induction "length s - c" arbitrary: c)
  case 0
  then show ?case by (subst toInt_loop.simps) simp
next
  case (Suc d)
  then have idx: "int (length s) - int c - 1 = int (length s - 1 - c)"
    "length s - 1 - c < length s" "c < length s" by auto
  have acc: "(if s ! (length s - 1 - c) = CHR ''1'' then add_pow2 (range_value s 0 c) (int c)
      else range_value s 0 c) = range_value s 0 (Suc c)"
    by (simp add: range_value_def digit_def bit_of_def)
  have nxt: "int (length s) - int c - 1 - 1 = int (length s) - int (Suc c) - 1"
    "int (length s) + 1 - 1 - (int (length s) - int c - 1) - 1 = int c" by simp_all
  have get: "cstr_get s (int (length s) - int c - 1) = Inr (s ! (length s - 1 - c))"
    by (simp only: idx(1)) (rule cstr_get_in [OF idx(2)])
  have gt: "int (length s) - int c - 1 > -1" using idx(3) by simp
  have "toInt_loop s (int (length s) + 1) (int (length s) - int c - 1) (range_value s 0 c) =
      toInt_loop s (int (length s) + 1) (int (length s) - int (Suc c) - 1) (range_value s 0 (Suc c))"
    using toInt_loop_step [OF gt get, of "int (length s) + 1" "range_value s 0 c"] by (simp only: nxt acc)
  with Suc.hyps(1) [of "Suc c"] Suc.hyps(2) Suc.prems idx(3) show ?case by simp
qed

text \<open>
  \<open>binaryStringToInt\<close> weighs the digit at index \<open>i\<close> by \<open>2 ^ (size - 2 - i)\<close>, one less than its position says; with
  \<open>size = strlen + 1\<close>, as every caller passes it, the NUL takes the extra position and the value is right.
\<close>

lemma binaryStringToInt_value:
  "binaryStringToInt s (int (length s) + 1) = Inr (range_value s 0 (length s))"
proof -
  have "toInt_loop s (int (length s) + 1) (int (length s)) 0 =
      toInt_loop s (int (length s) + 1) (int (length s) - int 0 - 1) (range_value s 0 0)"
    by (subst toInt_loop.simps) (simp add: cstr_get_def range_value_def)
  then show ?thesis using toInt_loop_value [of 0 s] by (simp add: binaryStringToInt_def)
qed

section \<open>Printing a number in binary\<close>

lemma digit_update:
  assumes "k < length s" "m < length s"
  shows "digit (s[length s - 1 - k := c]) m = (if m = k then bit_of c else digit s m)"
  using assms by (auto simp: digit_def nth_list_update)

lemma fill_bits_step:
  assumes "v > 0" "p < length s"
  shows "fill_bits s v (int p) =
    fill_bits (s[p := (if v mod 2 = 0 then CHR ''0'' else CHR ''1'')]) (v div 2) (int p - 1)"
  using assms by (subst fill_bits.simps) simp

lemma fill_bits_digits:
  assumes "length s = bits" "k \<le> bits" "\<forall>m. k \<le> m \<longrightarrow> m < bits \<longrightarrow> digit s m = 0"
    and "0 \<le> v" "v < 2 ^ (bits - k)"
  shows "\<exists>s'. fill_bits s v (int bits - 1 - int k) = Inr s' \<and> length s' = bits \<and>
    (\<forall>m < bits. digit s' m = (if m < k then digit s m else (v div 2 ^ (m - k)) mod 2))"
  using assms
proof (induction "bits - k" arbitrary: k s v)
  case 0
  then show ?case by (subst fill_bits.simps) simp
next
  case (Suc d)
  show ?case
  proof (cases "v = 0")
    case True
    with Suc.prems show ?thesis by (subst fill_bits.simps) auto
  next
    case False
    let ?c = "if v mod 2 = 0 then CHR ''0'' else CHR ''1''"
    let ?s = "s[bits - 1 - k := ?c]"
    have k: "k < bits" "d = bits - Suc k" using Suc.hyps(2) by auto
    have idx: "int bits - 1 - int k = int (bits - 1 - k)" "bits - 1 - k < bits"
      "int bits - 1 - int k - 1 = int bits - 1 - int (Suc k)" using k by auto
    have step: "fill_bits s v (int bits - 1 - int k) = fill_bits ?s (v div 2) (int bits - 1 - int (Suc k))"
      using fill_bits_step [of v "bits - 1 - k" s] False Suc.prems(1,4) idx(2)
      by (simp only: idx(1) [symmetric] idx(3))
    have dg: "digit ?s m = (if m = k then v mod 2 else digit s m)" if "m < bits" for m
      using digit_update [of k s m ?c] that k Suc.prems(1) by (auto simp: bit_of_def)
    have "2 ^ (bits - k) = 2 * (2 :: int) ^ (bits - Suc k)"
      using k by (simp add: Suc_diff_Suc flip: power_Suc)
    then have "v div 2 < 2 ^ (bits - Suc k)" using Suc.prems(5) by linarith
    then obtain s' where s': "fill_bits ?s (v div 2) (int bits - 1 - int (Suc k)) = Inr s'"
      "length s' = bits"
      "\<forall>m < bits. digit s' m = (if m < Suc k then digit ?s m else (v div 2 div 2 ^ (m - Suc k)) mod 2)"
      using Suc.hyps(1) [of "Suc k" ?s "v div 2"] Suc.prems k dg by auto
    have "v div 2 div 2 ^ (m - Suc k) = v div 2 ^ (m - k)" if "k < m" for m
      using that by (simp add: zdiv_zmult2_eq [symmetric] Suc_diff_Suc flip: power_Suc)
    with s' step dg show ?thesis
      by (intro exI [of _ s']) (auto simp: less_Suc_eq)
  qed
qed

lemma intToBinaryString_digits:
  assumes "0 \<le> i" "i < 2 ^ bits"
  shows "\<exists>s. intToBinaryString i bits = Inr s \<and> length s = bits \<and>
    (\<forall>m < bits. digit s m = (i div 2 ^ m) mod 2)"
proof -
  have z: "\<forall>m. 0 \<le> m \<longrightarrow> m < bits \<longrightarrow> digit (replicate bits (CHR ''0'')) m = 0"
    by (simp add: digit_def bit_of_def)
  show ?thesis
    using fill_bits_digits [of "replicate bits (CHR ''0'')" bits 0 i] z assms
    by (simp add: intToBinaryString_def)
qed

lemma bits_of_int_range: "(\<Sum>k < w. ((i :: int) div 2 ^ (m + k)) mod 2 * 2 ^ k) = (i div 2 ^ m) mod 2 ^ w"
proof (induction w)
  case (Suc w)
  have "i div 2 ^ (m + w) = i div 2 ^ m div 2 ^ w"
    by (simp add: power_add zdiv_zmult2_eq)
  moreover have "(i div 2 ^ m) mod (2 ^ w * 2) =
      2 ^ w * ((i div 2 ^ m) div 2 ^ w mod 2) + (i div 2 ^ m) mod 2 ^ w"
    by (rule zmod_zmult2_eq) simp
  ultimately show ?case using Suc by (simp add: mult.commute)
qed simp

lemma range_value_of_digits:
  assumes "\<forall>m < length s. digit s m = (i div 2 ^ m) mod 2" "m + w \<le> length s"
  shows "range_value s m w = (i div 2 ^ m) mod 2 ^ w"
proof -
  have "range_value s m w = (\<Sum>k < w. (i div 2 ^ (m + k)) mod 2 * 2 ^ k)"
    unfolding range_value_def using assms by (intro sum.cong) auto
  then show ?thesis by (simp add: bits_of_int_range)
qed

text \<open>
  C35. Round trip of the binary conversions. Every number below \<open>2 ^ bits\<close> is printed in exactly \<open>bits\<close> digits
  without leaving the buffer; reading the string back (with the size the callers pass) gives the
  number again, and reading the bit range \<open>start..stop\<close> gives exactly that bit field of it.
\<close>

theorem intToBinaryString_roundtrip:
  assumes "0 \<le> i" "i < 2 ^ bits" "start \<le> stop" "stop < bits"
  shows "\<exists>s. intToBinaryString i bits = Inr s \<and> length s = bits \<and>
    binaryStringToInt s (int bits + 1) = Inr i \<and>
    binaryStringRangeToInt s (int start) (int stop) = Inr ((i div 2 ^ start) mod 2 ^ (stop - start + 1))"
proof -
  from intToBinaryString_digits [OF assms(1,2)] obtain s where
    s: "intToBinaryString i bits = Inr s" "length s = bits" "\<forall>m < bits. digit s m = (i div 2 ^ m) mod 2"
    by blast
  have "range_value s 0 bits = i"
    using range_value_of_digits [of s i 0 bits] s assms(1,2) by simp
  moreover have "range_value s start (Suc stop - start) = (i div 2 ^ start) mod 2 ^ (stop - start + 1)"
    using range_value_of_digits [of s i start "Suc stop - start"] s assms(3,4) by (simp add: Suc_diff_le)
  ultimately show ?thesis
    using s binaryStringToInt_value [of s] binaryStringRangeToInt_value [of start stop s] assms(3,4)
    by (intro exI [of _ s]) auto
qed

theorem intToBinaryString_roundtrip_witness:
  "\<exists>s. intToBinaryString 81 8 = Inr s \<and> length s = 8 \<and> binaryStringToInt s (int 8 + 1) = Inr 81 \<and>
     binaryStringRangeToInt s (int 2) (int 5) = Inr ((81 div 2 ^ 2) mod 2 ^ (5 - 2 + 1))"
  by (rule intToBinaryString_roundtrip) simp_all

text \<open>A number that needs more digits is written through the front of the buffer.\<close>

lemma intToBinaryString_overflow: "intToBinaryString 4 2 = Inl Out_Of_Bounds"
  by (simp add: intToBinaryString_def fill_bits.simps)

end
