(* ===== verification/Trace_Gen.thy ===== *)
theory Trace_Gen
  imports Binary_String
begin

text \<open>
  The trace generators: \<open>trace.c\<close>, \<open>friendlyTrace.c\<close> and \<open>adverseTrace.c\<close> of Assignment 5 and the
  differing \<open>realisticTrace\<close> of Lab 6. A generator returns the lines it writes to its file. \<open>BITWIDTH\<close> is the
  parameter \<open>bits\<close> (16 in Assignment 5, 8 in Lab 6). The random source is a parameter: \<open>rnd r\<close> is the value of
  the \<open>r\<close>-th call of \<open>rand\<close>, which is never negative. The generators take \<open>int\<close> sizes and ranges.
\<close>

section \<open>Generators\<close>

definition c_mod :: "int \<Rightarrow> int \<Rightarrow> int c_result" where
  "c_mod a b = (if b = 0 then Inl Div_By_Zero else Inr (sgn a * (\<bar>a\<bar> mod \<bar>b\<bar>)))"

text \<open>\<open>intToBinaryString(v % range, BITWIDTH)\<close>\<close>

definition mod_line :: "nat \<Rightarrow> int \<Rightarrow> int \<Rightarrow> string c_result" where
  "mod_line bits v rng = bindE (c_mod v rng) (\<lambda>x. intToBinaryString x bits)"

function trace_from :: "nat \<Rightarrow> int \<Rightarrow> int \<Rightarrow> int \<Rightarrow> string list c_result" where
  "trace_from bits sz rng i =
     (if i < sz
      then bindE (mod_line bits i rng) (\<lambda>l.
           bindE (trace_from bits sz rng (i + 1)) (\<lambda>ls. Inr (l # ls)))
      else Inr [])"
  by pat_completeness auto
termination
  by (relation "measure (\<lambda>(bits, sz, rng, i). nat (sz - i))") auto

definition Trace :: "nat \<Rightarrow> int \<Rightarrow> int \<Rightarrow> string list c_result" where
  "Trace bits sz rng = trace_from bits sz rng 0"

definition adverseTrace :: "nat \<Rightarrow> int \<Rightarrow> int \<Rightarrow> string list c_result" where
  "adverseTrace bits sz rng = trace_from bits sz rng 0"

function random_from :: "(nat \<Rightarrow> nat) \<Rightarrow> nat \<Rightarrow> int \<Rightarrow> int \<Rightarrow> int \<Rightarrow> string list c_result" where
  "random_from rnd bits sz rng i =
     (if i < sz
      then bindE (mod_line bits (int (rnd (nat i))) rng) (\<lambda>l.
           bindE (random_from rnd bits sz rng (i + 1)) (\<lambda>ls. Inr (l # ls)))
      else Inr [])"
  by pat_completeness auto
termination
  by (relation "measure (\<lambda>(rnd, bits, sz, rng, i). nat (sz - i))") auto

definition randomTrace :: "(nat \<Rightarrow> nat) \<Rightarrow> nat \<Rightarrow> int \<Rightarrow> int \<Rightarrow> string list c_result" where
  "randomTrace rnd bits sz rng = random_from rnd bits sz rng 0"

function single_from :: "nat \<Rightarrow> int \<Rightarrow> int \<Rightarrow> int \<Rightarrow> string list c_result" where
  "single_from bits sz v i =
     (if i < sz
      then bindE (intToBinaryString v bits) (\<lambda>l.
           bindE (single_from bits sz v (i + 1)) (\<lambda>ls. Inr (l # ls)))
      else Inr [])"
  by pat_completeness auto
termination
  by (relation "measure (\<lambda>(bits, sz, v, i). nat (sz - i))") auto

definition singleTrace :: "nat \<Rightarrow> int \<Rightarrow> int \<Rightarrow> string list c_result" where
  "singleTrace bits sz v = single_from bits sz v 0"

text \<open>The inner loop \<open>for (j = 0; j < 10 && i < size; j++, i += 3)\<close> writes the same three lines each time round.\<close>

function repeat3 :: "string list \<Rightarrow> int \<Rightarrow> int \<Rightarrow> int \<Rightarrow> string list \<times> int" where
  "repeat3 bins sz j i =
     (if j < 10 \<and> i < sz
      then let rest = repeat3 bins sz (j + 1) (i + 3) in (bins @ fst rest, snd rest)
      else ([], i))"
  by pat_completeness auto
termination
  by (relation "measure (\<lambda>(bins, sz, j, i). nat (10 - j))") auto

declare trace_from.simps [simp del] random_from.simps [simp del] single_from.simps [simp del]
  repeat3.simps [simp del]

lemma repeat3_progress:
  "j \<le> 10 \<Longrightarrow> i \<le> snd (repeat3 bins sz j i)"
proof (induction bins sz j i rule: repeat3.induct)
  case (1 bins sz j i)
  show ?case
  proof (cases "j < 10 \<and> i < sz")
    case True
    with 1 have "i + 3 \<le> snd (repeat3 bins sz (j + 1) (i + 3))" by simp
    with True show ?thesis by (subst repeat3.simps) (simp add: Let_def)
  next
    case False
    then show ?thesis by (auto simp: repeat3.simps [of bins sz j i])
  qed
qed

lemma repeat3_first: "i < sz \<Longrightarrow> i + 3 \<le> snd (repeat3 bins sz 0 i)"
  using repeat3_progress [of 1 "i + 3" bins sz]
  by (subst repeat3.simps) (simp add: Let_def)

definition three_lines :: "(nat \<Rightarrow> nat) \<Rightarrow> nat \<Rightarrow> int \<Rightarrow> nat \<Rightarrow> string list c_result" where
  "three_lines rnd bits rng r =
     bindE (mod_line bits (int (rnd r)) rng) (\<lambda>b1.
     bindE (mod_line bits (int (rnd (r + 1))) rng) (\<lambda>b2.
     bindE (mod_line bits (int (rnd (r + 2))) rng) (\<lambda>b3. Inr [b1, b2, b3])))"

function realistic_from :: "(nat \<Rightarrow> nat) \<Rightarrow> nat \<Rightarrow> int \<Rightarrow> int \<Rightarrow> nat \<Rightarrow> int \<Rightarrow> string list c_result" where
  "realistic_from rnd bits sz rng r i =
     (if i < sz
      then if rnd r mod 2 = 0
        then bindE (mod_line bits (int (rnd (r + 1))) rng) (\<lambda>l.
             bindE (realistic_from rnd bits sz rng (r + 2) (i + 1)) (\<lambda>ls. Inr (l # ls)))
        else bindE (three_lines rnd bits rng (r + 1)) (\<lambda>bins.
             bindE (realistic_from rnd bits sz rng (r + 4) (snd (repeat3 bins sz 0 i))) (\<lambda>ls.
             Inr (fst (repeat3 bins sz 0 i) @ ls)))
      else Inr [])"
  by pat_completeness auto
termination
proof (relation "measure (\<lambda>(rnd, bits, sz, rng, r, i). nat (sz - i))")
  show "((rnd :: nat \<Rightarrow> nat, bits :: nat, sz, rng :: int, r + 4 :: nat, snd (repeat3 bins sz 0 i)), rnd, bits, sz, rng, r, i)
      \<in> measure (\<lambda>(rnd, bits, sz, rng, r, i). nat (sz - i))"
    if "i < sz" for rnd bits sz rng r i and bins :: "string list"
    using repeat3_first [OF that, of bins] that by simp
qed auto

definition realisticTrace :: "(nat \<Rightarrow> nat) \<Rightarrow> nat \<Rightarrow> int \<Rightarrow> int \<Rightarrow> string list c_result" where
  "realisticTrace rnd bits sz rng = realistic_from rnd bits sz rng 0 0"

function friendly_from :: "(nat \<Rightarrow> nat) \<Rightarrow> nat \<Rightarrow> int \<Rightarrow> int \<Rightarrow> nat \<Rightarrow> int \<Rightarrow> string list c_result" where
  "friendly_from rnd bits sz rng r i =
     (if i < sz
      then bindE (three_lines rnd bits rng r) (\<lambda>bins.
           bindE (friendly_from rnd bits sz rng (r + 3) (snd (repeat3 bins sz 0 i))) (\<lambda>ls.
           Inr (fst (repeat3 bins sz 0 i) @ ls)))
      else Inr [])"
  by pat_completeness auto
termination
proof (relation "measure (\<lambda>(rnd, bits, sz, rng, r, i). nat (sz - i))")
  show "((rnd :: nat \<Rightarrow> nat, bits :: nat, sz, rng :: int, r + 3 :: nat, snd (repeat3 bins sz 0 i)), rnd, bits, sz, rng, r, i)
      \<in> measure (\<lambda>(rnd, bits, sz, rng, r, i). nat (sz - i))"
    if "i < sz" for rnd bits sz rng r i and bins :: "string list"
    using repeat3_first [OF that, of bins] that by simp
qed auto

definition friendlyTrace :: "(nat \<Rightarrow> nat) \<Rightarrow> nat \<Rightarrow> int \<Rightarrow> int \<Rightarrow> string list c_result" where
  "friendlyTrace rnd bits sz rng = friendly_from rnd bits sz rng 0 0"

text \<open>The version of Lab 6 also counts every round of the outer loop, so a repeated group advances \<open>i\<close> by one more.\<close>

function lab6_realistic_from :: "(nat \<Rightarrow> nat) \<Rightarrow> nat \<Rightarrow> int \<Rightarrow> int \<Rightarrow> nat \<Rightarrow> int \<Rightarrow> string list c_result" where
  "lab6_realistic_from rnd bits sz rng r i =
     (if i < sz
      then if rnd r mod 2 = 0
        then bindE (mod_line bits (int (rnd (r + 1))) rng) (\<lambda>l.
             bindE (lab6_realistic_from rnd bits sz rng (r + 2) (i + 1)) (\<lambda>ls. Inr (l # ls)))
        else bindE (three_lines rnd bits rng (r + 1)) (\<lambda>bins.
             bindE (lab6_realistic_from rnd bits sz rng (r + 4) (snd (repeat3 bins sz 0 i) + 1)) (\<lambda>ls.
             Inr (fst (repeat3 bins sz 0 i) @ ls)))
      else Inr [])"
  by pat_completeness auto
termination
proof (relation "measure (\<lambda>(rnd, bits, sz, rng, r, i). nat (sz - i))")
  show "((rnd :: nat \<Rightarrow> nat, bits :: nat, sz, rng :: int, r + 4 :: nat, snd (repeat3 bins sz 0 i) + 1), rnd, bits, sz, rng, r, i)
      \<in> measure (\<lambda>(rnd, bits, sz, rng, r, i). nat (sz - i))"
    if "i < sz" for rnd bits sz rng r i and bins :: "string list"
    using repeat3_first [OF that, of bins] that by simp
qed auto

definition lab6_realisticTrace :: "(nat \<Rightarrow> nat) \<Rightarrow> nat \<Rightarrow> int \<Rightarrow> int \<Rightarrow> string list c_result" where
  "lab6_realisticTrace rnd bits sz rng = lab6_realistic_from rnd bits sz rng 0 0"

declare realistic_from.simps [simp del] friendly_from.simps [simp del]
  lab6_realistic_from.simps [simp del]

section \<open>What the generators write\<close>

text \<open>A line that the simulators can read: \<open>bits\<close> binary digits of a number in range.\<close>

definition good_line :: "nat \<Rightarrow> int \<Rightarrow> string \<Rightarrow> bool" where
  "good_line bits rng l \<longleftrightarrow> length l = bits \<and>
     (\<exists>v. 0 \<le> v \<and> v < rng \<and> intToBinaryString v bits = Inr l)"

lemma intToBinaryString_good:
  assumes "0 \<le> v" "v < rng" "rng \<le> 2 ^ bits"
  shows "\<exists>l. intToBinaryString v bits = Inr l \<and> good_line bits rng l"
proof -
  have "v < 2 ^ bits" using assms by linarith
  from intToBinaryString_digits [OF assms(1) this] assms show ?thesis
    unfolding good_line_def by blast
qed

lemma mod_line_good:
  assumes "0 \<le> v" "0 < rng" "rng \<le> 2 ^ bits"
  shows "\<exists>l. mod_line bits v rng = Inr l \<and> good_line bits rng l"
proof -
  have "c_mod v rng = Inr (v mod rng)"
    using assms by (auto simp: c_mod_def sgn_if)
  then show ?thesis
    using intToBinaryString_good [of "v mod rng" rng bits] assms
    by (simp add: mod_line_def)
qed

lemma three_lines_good:
  assumes "0 < rng" "rng \<le> 2 ^ bits"
  shows "\<exists>bins. three_lines rnd bits rng r = Inr bins \<and> length bins = 3 \<and>
    (\<forall>l \<in> set bins. good_line bits rng l)"
  using mod_line_good [OF _ assms, of "int (rnd r)"] mod_line_good [OF _ assms, of "int (rnd (r + 1))"]
    mod_line_good [OF _ assms, of "int (rnd (r + 2))"]
  by (auto simp: three_lines_def)

lemma trace_from_lines:
  assumes "0 \<le> i" "i \<le> sz" "0 < rng" "rng \<le> 2 ^ bits"
  shows "\<exists>ls. trace_from bits sz rng i = Inr ls \<and> length ls = nat (sz - i) \<and>
    (\<forall>k < length ls. intToBinaryString ((i + int k) mod rng) bits = Inr (ls ! k))"
  using assms
proof (induction bits sz rng i rule: trace_from.induct)
  case (1 bits sz rng i)
  show ?case
  proof (cases "i < sz")
    case True
    have ln: "mod_line bits i rng = intToBinaryString (i mod rng) bits"
      using 1 by (auto simp: mod_line_def c_mod_def sgn_if)
    obtain l where l: "mod_line bits i rng = Inr l"
      using mod_line_good [of i rng bits] 1 by auto
    obtain ls where ls: "trace_from bits sz rng (i + 1) = Inr ls" "length ls = nat (sz - (i + 1))"
      "\<forall>k < length ls. intToBinaryString ((i + 1 + int k) mod rng) bits = Inr (ls ! k)"
      using "1.IH" [OF True] "1.prems" True by auto
    have "intToBinaryString ((i + int k) mod rng) bits = Inr ((l # ls) ! k)" if "k < length (l # ls)" for k
      using that ls(3) l ln by (cases k) (auto simp: algebra_simps)
    with True l ls show ?thesis by (auto simp: trace_from.simps [of bits sz rng i])
  next
    case False
    with "1.prems" show ?thesis by (subst trace_from.simps) auto
  qed
qed

lemma repeat3_lines:
  assumes "length bins = 3" "i < sz + 3" "j \<le> 10"
  shows "int (length (fst (repeat3 bins sz j i))) = snd (repeat3 bins sz j i) - i \<and>
    snd (repeat3 bins sz j i) < sz + 3 \<and> set (fst (repeat3 bins sz j i)) \<subseteq> set bins"
  using assms
proof (induction bins sz j i rule: repeat3.induct)
  case (1 bins sz j i)
  show ?case
  proof (cases "j < 10 \<and> i < sz")
    case True
    with 1 have "int (length (fst (repeat3 bins sz (j + 1) (i + 3)))) = snd (repeat3 bins sz (j + 1) (i + 3)) - (i + 3)"
      "snd (repeat3 bins sz (j + 1) (i + 3)) < sz + 3"
      "set (fst (repeat3 bins sz (j + 1) (i + 3))) \<subseteq> set bins"
      by auto
    with True "1.prems"(1) show ?thesis
      by (auto simp: Let_def repeat3.simps [of bins sz j i])
  next
    case False
    with "1.prems" show ?thesis by (auto simp: repeat3.simps [of bins sz j i])
  qed
qed

lemma realistic_from_lines:
  assumes "i < sz + 3" "0 < rng" "rng \<le> 2 ^ bits"
  shows "\<exists>ls. realistic_from rnd bits sz rng r i = Inr ls \<and>
    (\<forall>l \<in> set ls. good_line bits rng l) \<and>
    sz \<le> i + int (length ls) \<and> i + int (length ls) < sz + 3"
  using assms
proof (induction rnd bits sz rng r i rule: realistic_from.induct)
  case (1 rnd bits sz rng r i)
  show ?case
  proof (cases "i < sz")
    case True
    note isz = True
    show ?thesis
    proof (cases "rnd r mod 2 = 0")
      case True
      obtain l where l: "mod_line bits (int (rnd (r + 1))) rng = Inr l" "good_line bits rng l"
        using mod_line_good [of "int (rnd (r + 1))" rng bits] "1.prems" by auto
      from "1.IH"(1) [OF isz True] "1.prems" isz l show ?thesis
        by (auto simp: True realistic_from.simps [of rnd bits sz rng r i])
    next
      case False
      obtain bins where b: "three_lines rnd bits rng (r + 1) = Inr bins" "length bins = 3"
        "\<forall>l \<in> set bins. good_line bits rng l"
        using three_lines_good [of rng bits rnd "r + 1"] "1.prems" by auto
      note rp = repeat3_lines [OF b(2), of i sz 0] 
      from "1.IH"(2) [OF isz False, of bins] "1.prems" rp obtain ls where
        "realistic_from rnd bits sz rng (r + 4) (snd (repeat3 bins sz 0 i)) = Inr ls"
        "\<forall>l \<in> set ls. good_line bits rng l"
        "sz \<le> snd (repeat3 bins sz 0 i) + int (length ls)"
        "snd (repeat3 bins sz 0 i) + int (length ls) < sz + 3" by auto
      with isz False b rp "1.prems" show ?thesis
        by (auto simp: realistic_from.simps [of rnd bits sz rng r i])
    qed
  next
    case False
    with "1.prems" show ?thesis by (auto simp: realistic_from.simps [of rnd bits sz rng r i])
  qed
qed



lemma Trace_lines:
  assumes "0 \<le> sz" "0 < rng" "rng \<le> 2 ^ bits"
  shows "\<exists>ls. Trace bits sz rng = Inr ls \<and> length ls = nat sz \<and>
    (\<forall>k < length ls. intToBinaryString (int k mod rng) bits = Inr (ls ! k))"
  using trace_from_lines [of 0 sz rng bits] assms by (simp add: Trace_def)

text \<open>The Lab 6 variant can fall short of the requested number of lines.\<close>

lemma lab6_realistic_short:
  "lab6_realisticTrace (\<lambda>_. 1) 8 31 256 = Inr (replicate 30 ''00000001'')"
  by code_simp

end
