(* ===== verification/Cache_Interface.thy ===== *)
theory Cache_Interface
  imports Binary_String
begin

text \<open>
  What the cache simulators (\<open>CacheSimulator/simulator.c\<close> of Assignment 5 and \<open>simulator.c\<close> of Lab 6; the
  two set-associative ones of Assignment 5 start from the same text) have in common: the scoreboard, loading a trace file and the
  main loop; and two contracts. \<open>cache_program\<close> says what every simulator promises of its scoreboard,
  \<open>direct_mapped\<close> what a direct-mapped cache promises of its contents. \<open>ADDRESSES\<close> and \<open>BITWIDTH\<close>, which
  the sources invite the user to change, are parameters.
\<close>

section \<open>Scoreboard\<close>

record score =
  cacheHit :: int
  cacheMisses :: int
  totalLatency :: int

definition costOfCacheHit :: int where "costOfCacheHit = 1"

definition costOfCacheMiss :: int where "costOfCacheMiss = 100"

definition incrementCacheMiss :: "'a score_scheme \<Rightarrow> 'a score_scheme" where
  "incrementCacheMiss s =
     s\<lparr>cacheMisses := cacheMisses s + 1, totalLatency := totalLatency s + costOfCacheMiss\<rparr>"

definition incrementCacheHit :: "'a score_scheme \<Rightarrow> 'a score_scheme" where
  "incrementCacheHit s =
     s\<lparr>cacheHit := cacheHit s + 1, totalLatency := totalLatency s + costOfCacheHit\<rparr>"

section \<open>Loading a trace\<close>

text \<open>\<open>fgets\<close> with a buffer of \<open>Suc k\<close> bytes takes at most \<open>k\<close> characters, stopping after a newline.\<close>

abbreviation newline :: char where "newline \<equiv> CHR 0x0A"

fun fgets_take :: "nat \<Rightarrow> string \<Rightarrow> string \<times> string" where
  "fgets_take 0 s = ([], s)"
| "fgets_take (Suc k) [] = ([], [])"
| "fgets_take (Suc k) (c # s) =
     (if c = newline then ([c], s) else let (t, r) = fgets_take k s in (c # t, r))"

lemma fgets_take_append: "fst (fgets_take k s) @ snd (fgets_take k s) = s"
  by (induction k s rule: fgets_take.induct) (auto split: prod.splits)

lemma fgets_take_shrinks: "s \<noteq> [] \<Longrightarrow> length (snd (fgets_take (Suc k) s)) < length s"
proof (cases s)
  case (Cons c t)
  have "length (snd (fgets_take k t)) \<le> length t"
    using fgets_take_append [of k t] by (metis length_append le_add2)
  with Cons show ?thesis by (auto split: prod.splits)
qed simp

lemma fgets_take_length: "length (fst (fgets_take k s)) \<le> k"
  by (induction k s rule: fgets_take.induct) (auto split: prod.splits)

text \<open>
  The loading loop. The buffer has \<open>BITWIDTH + 2\<close> bytes. The character before the terminating NUL is cut
  off, whatever it is; the row index must stay below \<open>ADDRESSES\<close>, the number of rows.
\<close>

function load_from :: "nat \<Rightarrow> string list \<Rightarrow> nat \<Rightarrow> string \<Rightarrow> string list c_result" where
  "load_from bits rows pos file =
     (if file = [] then Inr rows
      else let chunk = fst (fgets_take (Suc bits) file); rest = snd (fgets_take (Suc bits) file);
               str = takeWhile (\<lambda>c. c \<noteq> nul) chunk
           in guardE (str \<noteq> []) Out_Of_Bounds
              (bindE (arr_set rows pos (butlast str)) (\<lambda>rows'. load_from bits rows' (pos + 1) rest)))"
  by pat_completeness auto
termination
  by (relation "measure (\<lambda>(bits, rows, pos, file). length file)") (auto simp: fgets_take_shrinks)

definition loadTrace :: "nat \<Rightarrow> nat \<Rightarrow> string option \<Rightarrow> string list c_result" where
  "loadTrace bits addresses file =
     bindE (deref file) (\<lambda>f. load_from bits (replicate addresses []) 0 f)"

declare load_from.simps [simp del]

text \<open>
  A trace file as the generators write it: every line has \<open>bits\<close> characters, none of them a newline or a
  NUL, and ends in a newline. Loading it gives the lines back, the rows after them stay empty; a file with
  more lines than rows is written past the array.
\<close>

definition trace_file :: "string list \<Rightarrow> string" where
  "trace_file ls = concat (map (\<lambda>l. l @ [newline]) ls)"

definition trace_line :: "nat \<Rightarrow> string \<Rightarrow> bool" where
  "trace_line bits l \<longleftrightarrow> length l = bits \<and> newline \<notin> set l \<and> nul \<notin> set l"

lemma fgets_take_line:
  assumes "newline \<notin> set l"
  shows "fgets_take (Suc (length l)) (l @ newline # r) = (l @ [newline], r)"
  using assms by (induction l) auto

lemma load_from_line:
  assumes "trace_line bits l"
  shows "load_from bits rows pos (trace_file (l # ls)) =
    bindE (arr_set rows pos l) (\<lambda>rows'. load_from bits rows' (pos + 1) (trace_file ls))"
proof -
  have l: "newline \<notin> set l" "nul \<notin> set l" "bits = length l" using assms by (auto simp: trace_line_def)
  have "takeWhile (\<lambda>c. c \<noteq> nul) (l @ [newline]) = l @ [newline]"
    using l(2) by (subst takeWhile_eq_all_conv) auto
  with fgets_take_line [OF l(1), of "trace_file ls"] l(3) show ?thesis
    by (subst load_from.simps) (simp add: trace_file_def)
qed

lemma load_from_lines:
  assumes "\<forall>l \<in> set ls. trace_line bits l" "pos + length ls \<le> length rows"
  shows "load_from bits rows pos (trace_file ls) =
    Inr (take pos rows @ ls @ drop (pos + length ls) rows)"
  using assms
proof (induction ls arbitrary: rows pos)
  case Nil
  then show ?case by (subst load_from.simps) (simp add: trace_file_def)
next
  case (Cons l ls)
  have "load_from bits (rows[pos := l]) (pos + 1) (trace_file ls) =
      Inr (take (pos + 1) (rows[pos := l]) @ ls @ drop (pos + 1 + length ls) (rows[pos := l]))"
    using Cons.prems by (intro Cons.IH) auto
  with Cons.prems show ?case
    by (simp add: load_from_line take_Suc_conv_app_nth)
qed

lemma loadTrace_lines:
  assumes "\<forall>l \<in> set ls. trace_line bits l" "length ls \<le> addresses"
  shows "loadTrace bits addresses (Some (trace_file ls)) = Inr (ls @ replicate (addresses - length ls) [])"
  using assms load_from_lines [of ls bits 0 "replicate addresses []"] by (simp add: loadTrace_def)

lemma load_from_overflow:
  assumes "\<forall>l \<in> set ls. trace_line bits l" "length rows < pos + length ls" "pos \<le> length rows"
  shows "load_from bits rows pos (trace_file ls) = Inl Out_Of_Bounds"
  using assms
proof (induction ls arbitrary: rows pos)
  case (Cons l ls)
  then show ?case
    by (cases "pos < length rows") (auto simp: load_from_line arr_set_def)
qed simp

section \<open>The main loop\<close>

text \<open>
  \<open>scanf\<close> after each step takes the next answer of the user; at the end of the input it leaves \<open>run\<close> as it is.
\<close>

definition ask_user :: "char \<Rightarrow> char list \<Rightarrow> char \<times> char list" where
  "ask_user run answers =
     (if run = CHR ''a'' then (run, answers)
      else case answers of [] \<Rightarrow> (run, []) | c # cs \<Rightarrow> (c, cs))"

definition stepSimulator :: "nat \<Rightarrow> nat" where
  "stepSimulator pc = pc + 1"

function sim_loop :: "nat \<Rightarrow> (nat \<Rightarrow> 's \<Rightarrow> 's c_result) \<Rightarrow> char list \<Rightarrow> char \<Rightarrow> nat \<Rightarrow> 's \<Rightarrow>
    (nat \<times> 's) c_result" where
  "sim_loop addresses check answers run pc s =
     (if (run = CHR ''y'' \<or> run = CHR ''a'') \<and> pc < addresses
      then bindE (check pc s) (\<lambda>s'.
           sim_loop addresses check (snd (ask_user run answers)) (fst (ask_user run answers))
             (stepSimulator pc) s')
      else Inr (pc, s))"
  by pat_completeness auto
termination
  by (relation "measure (\<lambda>(addresses, check, answers, run, pc, s). addresses - pc)")
    (auto simp: stepSimulator_def)

declare sim_loop.simps [simp del]

text \<open>
  How many steps the user's answers allow when \<open>n\<close> addresses are left. An invariant of every step, indexed
  by the program counter, holds when the loop is left, which is after that many steps.
\<close>

fun steps_taken :: "char \<Rightarrow> char list \<Rightarrow> nat \<Rightarrow> nat" where
  "steps_taken run answers 0 = 0"
| "steps_taken run answers (Suc n) =
     (if run = CHR ''y'' \<or> run = CHR ''a''
      then Suc (steps_taken (fst (ask_user run answers)) (snd (ask_user run answers)) n) else 0)"

lemma steps_taken_all: "steps_taken (CHR ''a'') answers n = n"
  by (induction n) (simp_all add: ask_user_def)

lemma steps_taken_le: "steps_taken run answers n \<le> n"
  by (induction run answers n rule: steps_taken.induct) auto

lemma sim_loop_invariant:
  assumes step: "\<And>pc s. P pc s \<Longrightarrow> pc < addresses \<Longrightarrow> \<exists>s'. check pc s = Inr s' \<and> P (Suc pc) s'"
    and "P pc s" "pc \<le> addresses"
  shows "\<exists>s'. sim_loop addresses check answers run pc s =
      Inr (pc + steps_taken run answers (addresses - pc), s') \<and> P (pc + steps_taken run answers (addresses - pc)) s'"
  using assms(2,3)
proof (induction "addresses - pc" arbitrary: pc s answers run)
  case 0
  then show ?case by (subst sim_loop.simps) auto
next
  case (Suc d)
  show ?case
  proof (cases "run = CHR ''y'' \<or> run = CHR ''a''")
    case True
    have lt: "pc < addresses" "d = addresses - Suc pc" "addresses - pc = Suc (addresses - Suc pc)"
      using Suc.hyps(2) by auto
    from step [OF Suc.prems(1) lt(1)] obtain s1 where s1: "check pc s = Inr s1" "P (Suc pc) s1" by blast
    show ?thesis
      using Suc.hyps(1) [OF lt(2) s1(2), of "snd (ask_user run answers)" "fst (ask_user run answers)"] lt True s1
      by (subst sim_loop.simps) (simp add: stepSimulator_def lt(3))
  next
    case False
    with Suc.prems Suc.hyps(2) [symmetric] show ?thesis by (subst sim_loop.simps) auto
  qed
qed

section \<open>Contracts\<close>

definition scored_hit :: "'a score_scheme \<Rightarrow> 'a score_scheme \<Rightarrow> bool" where
  "scored_hit s s' \<longleftrightarrow> cacheHit s' = cacheHit s + 1 \<and> cacheMisses s' = cacheMisses s \<and>
     totalLatency s' = totalLatency s + costOfCacheHit"

definition scored_miss :: "'a score_scheme \<Rightarrow> 'a score_scheme \<Rightarrow> bool" where
  "scored_miss s s' \<longleftrightarrow> cacheHit s' = cacheHit s \<and> cacheMisses s' = cacheMisses s + 1 \<and>
     totalLatency s' = totalLatency s + costOfCacheMiss"

lemma scored_increments [simp]:
  "scored_hit s (incrementCacheHit s)" "scored_miss s (incrementCacheMiss s)"
  by (simp_all add: scored_hit_def scored_miss_def incrementCacheHit_def incrementCacheMiss_def)

text \<open>Every access is scored once: the counts add up to the accesses and the latency to their costs.\<close>

definition balanced :: "nat \<Rightarrow> 'a score_scheme \<Rightarrow> bool" where
  "balanced n s \<longleftrightarrow> 0 \<le> cacheHit s \<and> 0 \<le> cacheMisses s \<and>
     cacheHit s + cacheMisses s = int n \<and>
     totalLatency s = costOfCacheHit * cacheHit s + costOfCacheMiss * cacheMisses s"

lemma balanced_step:
  assumes "balanced n s" "scored_hit s s' \<or> scored_miss s s'"
  shows "balanced (Suc n) s'"
  using assms by (auto simp: balanced_def scored_hit_def scored_miss_def algebra_simps)

locale cache_program =
  fixes wf :: "'a score_scheme \<Rightarrow> bool"
    and check :: "nat \<Rightarrow> 'a score_scheme \<Rightarrow> 'a score_scheme c_result"
    and addresses :: nat
  assumes check_ok: "wf s \<Longrightarrow> pc < addresses \<Longrightarrow>
    \<exists>s'. check pc s = Inr s' \<and> wf s' \<and> (scored_hit s s' \<or> scored_miss s s')"
begin

lemma run_balanced:
  assumes "wf s" "balanced pc s" "pc \<le> addresses"
  shows "\<exists>s'. sim_loop addresses check answers run pc s =
      Inr (pc + steps_taken run answers (addresses - pc), s') \<and>
    (wf s' \<and> balanced (pc + steps_taken run answers (addresses - pc)) s')"
proof (rule sim_loop_invariant)
  fix pc s assume "wf s \<and> balanced pc s" "pc < addresses"
  then show "\<exists>s'. check pc s = Inr s' \<and> wf s' \<and> balanced (Suc pc) s'"
    using check_ok [of s pc] balanced_step by blast
qed (use assms in auto)

end

text \<open>
  A direct-mapped cache. The address at \<open>pc\<close> belongs to one slot; it hits if that slot holds it, and after
  the access the slot holds it in any case.
\<close>

fun line_after :: "(string \<Rightarrow> nat) \<Rightarrow> string list \<Rightarrow> nat \<Rightarrow> nat \<Rightarrow> string option" where
  "line_after slot tr 0 = (\<lambda>_. None)"
| "line_after slot tr (Suc n) = (line_after slot tr n)(slot (tr ! n) \<mapsto> tr ! n)"

text \<open>An access repeats the latest earlier access to its slot.\<close>

definition reuse_hit :: "(string \<Rightarrow> nat) \<Rightarrow> string list \<Rightarrow> nat \<Rightarrow> bool" where
  "reuse_hit slot tr i \<longleftrightarrow>
     (\<exists>j < i. tr ! j = tr ! i \<and> (\<forall>m. j < m \<longrightarrow> m < i \<longrightarrow> slot (tr ! m) \<noteq> slot (tr ! i)))"

lemma line_after_iff:
  "line_after slot tr n (slot a) = Some a \<longleftrightarrow>
   (\<exists>j < n. tr ! j = a \<and> (\<forall>m. j < m \<longrightarrow> m < n \<longrightarrow> slot (tr ! m) \<noteq> slot a))"
proof (induction n)
  case (Suc n)
  show ?case
  proof (cases "slot (tr ! n) = slot a")
    case True
    have "tr ! n = a" if "j < Suc n" "tr ! j = a" "\<forall>m. j < m \<longrightarrow> m < Suc n \<longrightarrow> slot (tr ! m) \<noteq> slot a" for j
      using that True by (metis less_Suc_eq)
    with True show ?thesis by (auto intro!: exI [of _ n])
  next
    case False
    then have "line_after slot tr (Suc n) (slot a) = line_after slot tr n (slot a)" by simp
    moreover have "tr ! n \<noteq> a" using False by blast
    ultimately show ?thesis using Suc False by (metis less_Suc_eq)
  qed
qed simp

definition hits_upto :: "(string \<Rightarrow> nat) \<Rightarrow> string list \<Rightarrow> nat \<Rightarrow> int" where
  "hits_upto slot tr n = int (card {i. i < n \<and> reuse_hit slot tr i})"

lemma hits_upto_Suc:
  "hits_upto slot tr (Suc n) = hits_upto slot tr n + (if reuse_hit slot tr n then 1 else 0)"
proof -
  have "{i. i < Suc n \<and> reuse_hit slot tr i} =
      (if reuse_hit slot tr n then insert n {i. i < n \<and> reuse_hit slot tr i}
       else {i. i < n \<and> reuse_hit slot tr i})"
    by (auto simp: less_Suc_eq)
  then show ?thesis by (simp add: hits_upto_def)
qed

locale direct_mapped =
  fixes wf :: "'a score_scheme \<Rightarrow> bool"
    and check :: "nat \<Rightarrow> 'a score_scheme \<Rightarrow> 'a score_scheme c_result"
    and tr :: "string list"
    and slot :: "string \<Rightarrow> nat"
    and line :: "'a score_scheme \<Rightarrow> nat \<Rightarrow> string option"
  assumes check_hit: "wf s \<Longrightarrow> pc < length tr \<Longrightarrow> line s (slot (tr ! pc)) = Some (tr ! pc) \<Longrightarrow>
      \<exists>s'. check pc s = Inr s' \<and> wf s' \<and> scored_hit s s' \<and> line s' = line s"
    and check_miss: "wf s \<Longrightarrow> pc < length tr \<Longrightarrow> line s (slot (tr ! pc)) \<noteq> Some (tr ! pc) \<Longrightarrow>
      \<exists>s'. check pc s = Inr s' \<and> wf s' \<and> scored_miss s s' \<and>
        line s' = (line s)(slot (tr ! pc) \<mapsto> tr ! pc)"

sublocale direct_mapped \<subseteq> cache_program wf check "length tr"
proof unfold_locales
  fix s pc assume *: "wf s" "pc < length tr"
  show "\<exists>s'. check pc s = Inr s' \<and> wf s' \<and> (scored_hit s s' \<or> scored_miss s s')"
  proof (cases "line s (slot (tr ! pc)) = Some (tr ! pc)")
    case True
    from check_hit [OF * True] show ?thesis by auto
  next
    case False
    from check_miss [OF * False] show ?thesis by auto
  qed
qed

context direct_mapped
begin

lemma check_line:
  assumes "wf s" "pc < length tr" "line s = line_after slot tr pc" "cacheHit s = hits_upto slot tr pc"
  shows "\<exists>s'. check pc s = Inr s' \<and> wf s' \<and> line s' = line_after slot tr (Suc pc) \<and>
    cacheHit s' = hits_upto slot tr (Suc pc)"
proof (cases "line s (slot (tr ! pc)) = Some (tr ! pc)")
  case True
  then have "reuse_hit slot tr pc" by (simp add: assms(3) line_after_iff reuse_hit_def)
  moreover obtain s' where "check pc s = Inr s'" "wf s'" "scored_hit s s'" "line s' = line s"
    using check_hit [OF assms(1,2) True] by blast
  moreover have "line_after slot tr (Suc pc) = line_after slot tr pc"
    using True by (simp add: assms(3) map_upd_triv)
  ultimately show ?thesis using assms(3,4) by (auto simp: scored_hit_def hits_upto_Suc)
next
  case False
  then have "\<not> reuse_hit slot tr pc" by (auto simp: assms(3) line_after_iff reuse_hit_def)
  moreover obtain s' where "check pc s = Inr s'" "wf s'" "scored_miss s s'"
      "line s' = (line s)(slot (tr ! pc) \<mapsto> tr ! pc)"
    using check_miss [OF assms(1,2) False] by blast
  ultimately show ?thesis using assms(3,4) by (auto simp: scored_miss_def hits_upto_Suc)
qed

lemma run_hits:
  assumes "wf s" "line s = (\<lambda>_. None)" "cacheHit s = 0"
  shows "\<exists>s'. sim_loop (length tr) check answers run 0 s =
      Inr (0 + steps_taken run answers (length tr - 0), s') \<and>
    (wf s' \<and> line s' = line_after slot tr (0 + steps_taken run answers (length tr - 0)) \<and>
     cacheHit s' = hits_upto slot tr (0 + steps_taken run answers (length tr - 0)))"
proof (rule sim_loop_invariant)
  fix pc s
  assume "wf s \<and> line s = line_after slot tr pc \<and> cacheHit s = hits_upto slot tr pc" "pc < length tr"
  then show "\<exists>s'. check pc s = Inr s' \<and> wf s' \<and> line s' = line_after slot tr (Suc pc) \<and>
      cacheHit s' = hits_upto slot tr (Suc pc)"
    using check_line by blast
qed (use assms in \<open>auto simp: hits_upto_def\<close>)

end

text \<open>Bit fields of a trace line as indices.\<close>

lemma bit_field_index:
  assumes "length l = bits" "m + 1 < bits"
  shows "\<exists>k < 4. binaryStringRangeToInt l (int m) (int m + 1) = Inr (int k) \<and> int k = range_value l m 2"
proof -
  have "binaryStringRangeToInt l (int m) (int (Suc m)) = Inr (range_value l m 2)"
    using binaryStringRangeToInt_value [of m "Suc m" l] assms by simp
  moreover have "0 \<le> range_value l m 2" "range_value l m 2 < 4"
    using range_value_bounds [of l m 2] by auto
  ultimately show ?thesis
    by (intro exI [of _ "nat (range_value l m 2)"]) (auto simp: add.commute)
qed

end
