(* ===== verification/Cache_Direct.thy ===== *)
theory Cache_Direct
  imports Cache_Interface
begin

text \<open>
  The two direct-mapped simulators: \<open>CacheSimulator/simulator.c\<close> of Assignment 5 (four sets of four lines,
  the line chosen by address bits 0-1 and the set by bits 2-3) and \<open>Lab6_CacheSimulator/simulator.c\<close>
  (four lines, chosen by bits 1-2). The trace held in \<open>instructionCache\<close> is the parameter \<open>tr\<close>, the program
  counter the parameter \<open>pc\<close>. A cache line is the string stored in it, the empty string at the start,
  as C initialises globals. \<open>drawCache\<close> changes nothing; its model returns the numbers it prints.
\<close>

section \<open>Two-dimensional arrays\<close>

definition get2 :: "'a list list \<Rightarrow> int \<Rightarrow> int \<Rightarrow> 'a c_result" where
  "get2 m i j = bindE (arr_get m (nat i)) (\<lambda>row. arr_get row (nat j))"

definition set2 :: "'a list list \<Rightarrow> int \<Rightarrow> int \<Rightarrow> 'a \<Rightarrow> 'a list list c_result" where
  "set2 m i j v = bindE (arr_get m (nat i)) (\<lambda>row.
     bindE (arr_set row (nat j) v) (\<lambda>row'. arr_set m (nat i) row'))"

section \<open>Assignment 5: simulator.c\<close>

record a5_cache = score +
  cacheSet :: "string list list"
  cacheOccupied :: "int list list"

definition a5_lineIndex :: "string \<Rightarrow> int c_result" where
  "a5_lineIndex l = binaryStringRangeToInt l 0 1"

definition a5_setIndex :: "string \<Rightarrow> int c_result" where
  "a5_setIndex l = binaryStringRangeToInt l 2 3"

definition a5_ReplacementPolicy :: "string list \<Rightarrow> nat \<Rightarrow> a5_cache \<Rightarrow> a5_cache c_result" where
  "a5_ReplacementPolicy tr pc s =
     bindE (arr_get tr pc) (\<lambda>l.
     bindE (a5_lineIndex l) (\<lambda>li.
     bindE (a5_setIndex l) (\<lambda>si.
     bindE (set2 (cacheOccupied s) si li 1) (\<lambda>occ.
     bindE (set2 (cacheSet s) si li l) (\<lambda>cs.
     Inr (incrementCacheMiss (s\<lparr>cacheOccupied := occ, cacheSet := cs\<rparr>)))))))"

definition a5_evictionPolicy :: "string list \<Rightarrow> nat \<Rightarrow> a5_cache \<Rightarrow> a5_cache c_result" where
  "a5_evictionPolicy tr pc s =
     bindE (arr_get tr pc) (\<lambda>l.
     bindE (a5_lineIndex l) (\<lambda>li.
     bindE (a5_setIndex l) (\<lambda>si.
     bindE (get2 (cacheSet s) si li) (\<lambda>old.
     if old = l then Inr (incrementCacheHit s)
     else bindE (set2 (cacheSet s) si li l) (\<lambda>cs.
          Inr (incrementCacheMiss (s\<lparr>cacheSet := cs\<rparr>)))))))"

definition a5_checkCache :: "string list \<Rightarrow> nat \<Rightarrow> a5_cache \<Rightarrow> a5_cache c_result" where
  "a5_checkCache tr pc s =
     bindE (arr_get tr pc) (\<lambda>l.
     bindE (a5_lineIndex l) (\<lambda>li.
     bindE (a5_setIndex l) (\<lambda>si.
     bindE (get2 (cacheOccupied s) si li) (\<lambda>occ.
     if occ = 0 then a5_ReplacementPolicy tr pc s
     else if occ = 1 then a5_evictionPolicy tr pc s
     else Inr s))))"

definition a5_drawCache :: "string list \<Rightarrow> nat \<Rightarrow> a5_cache \<Rightarrow> (int list \<times> string list list) c_result" where
  "a5_drawCache tr pc s =
     bindE (arr_get tr pc) (\<lambda>l.
     bindE (a5_lineIndex l) (\<lambda>li.
     bindE (a5_setIndex l) (\<lambda>si.
     bindE (binaryStringRangeToInt l 4 15) (\<lambda>tag.
     bindE (binaryStringToInt l 17) (\<lambda>v.
     Inr ([cacheHit s, cacheMisses s, totalLatency s, v, tag, si, li], cacheSet s))))))"

definition a5_iteration :: "string list \<Rightarrow> nat \<Rightarrow> a5_cache \<Rightarrow> a5_cache c_result" where
  "a5_iteration tr pc s =
     bindE (a5_checkCache tr pc s) (\<lambda>s'. bindE (a5_drawCache tr pc s') (\<lambda>_. Inr s'))"

definition a5_init :: a5_cache where
  "a5_init = \<lparr>cacheHit = 0, cacheMisses = 0, totalLatency = 0,
     cacheSet = replicate 4 (replicate 4 []), cacheOccupied = replicate 4 (replicate 4 0)\<rparr>"

definition a5_main :: "nat \<Rightarrow> string option \<Rightarrow> char list \<Rightarrow> (nat \<times> a5_cache) c_result" where
  "a5_main addresses file answers =
     bindE (loadTrace 16 addresses file) (\<lambda>tr.
     sim_loop addresses (a5_iteration tr) answers (CHR ''y'') 0 a5_init)"

section \<open>Lab 6: simulator.c\<close>

record lab6_cache = score +
  cacheLines :: "string list"
  lineOccupied :: "int list"

definition lab6_index :: "string \<Rightarrow> int c_result" where
  "lab6_index l = binaryStringRangeToInt l 1 2"

definition lab6_ReplacementPolicy :: "string list \<Rightarrow> nat \<Rightarrow> lab6_cache \<Rightarrow> lab6_cache c_result" where
  "lab6_ReplacementPolicy tr pc s =
     bindE (arr_get tr pc) (\<lambda>l.
     bindE (lab6_index l) (\<lambda>i.
     bindE (arr_set (lineOccupied s) (nat i) 1) (\<lambda>occ.
     bindE (arr_set (cacheLines s) (nat i) l) (\<lambda>ls.
     Inr (incrementCacheMiss (s\<lparr>lineOccupied := occ, cacheLines := ls\<rparr>))))))"

definition lab6_evictionPolicy :: "string list \<Rightarrow> nat \<Rightarrow> lab6_cache \<Rightarrow> lab6_cache c_result" where
  "lab6_evictionPolicy tr pc s =
     bindE (arr_get tr pc) (\<lambda>l.
     bindE (lab6_index l) (\<lambda>i.
     bindE (arr_get (cacheLines s) (nat i)) (\<lambda>old.
     if old = l then Inr (incrementCacheHit s)
     else bindE (arr_set (cacheLines s) (nat i) l) (\<lambda>ls.
          Inr (incrementCacheMiss (s\<lparr>cacheLines := ls\<rparr>))))))"

definition lab6_checkCache :: "string list \<Rightarrow> nat \<Rightarrow> lab6_cache \<Rightarrow> lab6_cache c_result" where
  "lab6_checkCache tr pc s =
     bindE (arr_get tr pc) (\<lambda>l.
     bindE (lab6_index l) (\<lambda>i.
     bindE (arr_get (lineOccupied s) (nat i)) (\<lambda>occ.
     if occ = 0 then lab6_ReplacementPolicy tr pc s
     else if occ = 1 then lab6_evictionPolicy tr pc s
     else Inr s)))"

text \<open>The percentage that Lab 6 prints is computed with integer division before it becomes a \<open>float\<close>.\<close>

definition lab6_cachePercent :: "lab6_cache \<Rightarrow> int c_result" where
  "lab6_cachePercent s =
     (if cacheHit s + cacheMisses s = 0 then Inl Div_By_Zero
      else Inr (cacheMisses s div (cacheHit s + cacheMisses s) * 100))"

definition lab6_drawCache :: "string list \<Rightarrow> nat \<Rightarrow> lab6_cache \<Rightarrow> (int list \<times> string list) c_result" where
  "lab6_drawCache tr pc s =
     bindE (arr_get tr pc) (\<lambda>l.
     bindE (binaryStringToInt l 9) (\<lambda>v.
     bindE (lab6_index l) (\<lambda>i.
     bindE (lab6_cachePercent s) (\<lambda>pct.
     Inr ([cacheHit s, cacheMisses s, totalLatency s, v, i, pct], cacheLines s)))))"

definition lab6_iteration :: "string list \<Rightarrow> nat \<Rightarrow> lab6_cache \<Rightarrow> lab6_cache c_result" where
  "lab6_iteration tr pc s =
     bindE (lab6_checkCache tr pc s) (\<lambda>s'. bindE (lab6_drawCache tr pc s') (\<lambda>_. Inr s'))"

definition lab6_init :: lab6_cache where
  "lab6_init = \<lparr>cacheHit = 0, cacheMisses = 0, totalLatency = 0,
     cacheLines = replicate 4 [], lineOccupied = replicate 4 0\<rparr>"

definition lab6_main :: "nat \<Rightarrow> string option \<Rightarrow> char list \<Rightarrow> (nat \<times> lab6_cache) c_result" where
  "lab6_main addresses file answers =
     bindE (loadTrace 8 addresses file) (\<lambda>tr.
     sim_loop addresses (lab6_iteration tr) answers (CHR ''y'') 0 lab6_init)"

section \<open>The Assignment 5 simulator is a direct-mapped cache\<close>

definition trace_ok :: "nat \<Rightarrow> string list \<Rightarrow> bool" where
  "trace_ok bits tr \<longleftrightarrow> (\<forall>l \<in> set tr. length l = bits)"

definition matrix :: "nat \<Rightarrow> nat \<Rightarrow> 'a list list \<Rightarrow> bool" where
  "matrix n k m \<longleftrightarrow> length m = n \<and> (\<forall>i < n. length (m ! i) = k)"

lemma get2_in: "matrix n k m \<Longrightarrow> i < n \<Longrightarrow> j < k \<Longrightarrow> get2 m (int i) (int j) = Inr (m ! i ! j)"
  by (simp add: get2_def matrix_def)

lemma set2_in:
  "matrix n k m \<Longrightarrow> i < n \<Longrightarrow> j < k \<Longrightarrow> set2 m (int i) (int j) v = Inr (m[i := (m ! i)[j := v]])"
  by (simp add: set2_def matrix_def)

lemma matrix_update: "matrix n k m \<Longrightarrow> i < n \<Longrightarrow> matrix n k (m[i := (m ! i)[j := v]])"
  by (auto simp: matrix_def nth_list_update)

lemma nth_matrix_update:
  assumes "matrix n k m" "i < n" "j < k" "i' < n" "j' < k"
  shows "m[i := (m ! i)[j := v]] ! i' ! j' = (if i' = i \<and> j' = j then v else m ! i' ! j')"
  using assms by (auto simp: matrix_def nth_list_update)

definition a5_wf :: "a5_cache \<Rightarrow> bool" where
  "a5_wf s \<longleftrightarrow> matrix 4 4 (cacheSet s) \<and> matrix 4 4 (cacheOccupied s) \<and>
     (\<forall>i < 4. \<forall>j < 4. cacheOccupied s ! i ! j = 0 \<or> cacheOccupied s ! i ! j = 1) \<and>
     0 \<le> cacheHit s \<and> 0 \<le> cacheMisses s"

text \<open>The slot of an address is its low four bits: set number times four plus line number.\<close>

definition a5_slot :: "string \<Rightarrow> nat" where
  "a5_slot l = nat (range_value l 2 2) * 4 + nat (range_value l 0 2)"

definition a5_line :: "a5_cache \<Rightarrow> nat \<Rightarrow> string option" where
  "a5_line s k =
     (if k < 16 \<and> cacheOccupied s ! (k div 4) ! (k mod 4) = 1
      then Some (cacheSet s ! (k div 4) ! (k mod 4)) else None)"

lemma a5_indices:
  assumes "length l = 16"
  obtains i j where "i < 4" "j < 4" "a5_setIndex l = Inr (int i)" "a5_lineIndex l = Inr (int j)"
    "a5_slot l = i * 4 + j"
proof -
  obtain j where j: "j < 4" "binaryStringRangeToInt l 0 1 = Inr (int j)" "int j = range_value l 0 2"
    using bit_field_index [of l 16 0] assms by auto
  obtain i where i: "i < 4" "binaryStringRangeToInt l 2 3 = Inr (int i)" "int i = range_value l 2 2"
    using bit_field_index [of l 16 2] assms by auto
  have "a5_slot l = i * 4 + j" by (simp add: a5_slot_def i(3) [symmetric] j(3) [symmetric])
  with i(1,2) j(1,2) show thesis
    by (intro that [of i j]) (simp_all add: a5_setIndex_def a5_lineIndex_def)
qed

lemma a5_line_slot:
  assumes "i < 4" "j < 4"
  shows "a5_line s (i * 4 + j) =
    (if cacheOccupied s ! i ! j = 1 then Some (cacheSet s ! i ! j) else None)"
  using assms by (simp add: a5_line_def)

lemma a5_draw_ok:
  assumes "length (tr ! pc) = 16" "pc < length tr"
  shows "\<exists>out. a5_drawCache tr pc s = Inr out"
proof -
  obtain i j where "a5_setIndex (tr ! pc) = Inr (int i)" "a5_lineIndex (tr ! pc) = Inr (int j)"
    using a5_indices [OF assms(1)] by metis
  moreover have "binaryStringRangeToInt (tr ! pc) 4 15 = Inr (range_value (tr ! pc) 4 12)"
    using binaryStringRangeToInt_value [of 4 15 "tr ! pc"] assms by simp
  moreover have "binaryStringToInt (tr ! pc) 17 = Inr (range_value (tr ! pc) 0 16)"
    using binaryStringToInt_value [of "tr ! pc"] assms by simp
  ultimately show ?thesis using assms by (simp add: a5_drawCache_def)
qed

lemma a5_wf_score [simp]:
  "a5_wf s \<Longrightarrow> a5_wf (incrementCacheHit s)" "a5_wf s \<Longrightarrow> a5_wf (incrementCacheMiss s)"
  by (auto simp: a5_wf_def incrementCacheHit_def incrementCacheMiss_def)

lemma a5_line_score [simp]:
  "a5_line (incrementCacheHit s) = a5_line s" "a5_line (incrementCacheMiss s) = a5_line s"
  by (auto simp: a5_line_def incrementCacheHit_def incrementCacheMiss_def)

lemma a5_line_updI:
  assumes "i < 4" "j < 4"
    and "\<And>i' j'. i' < 4 \<Longrightarrow> j' < 4 \<Longrightarrow> (i', j') \<noteq> (i, j) \<Longrightarrow>
      cacheOccupied s' ! i' ! j' = cacheOccupied s ! i' ! j' \<and> cacheSet s' ! i' ! j' = cacheSet s ! i' ! j'"
    and "cacheOccupied s' ! i ! j = 1" "cacheSet s' ! i ! j = v"
  shows "a5_line s' = (a5_line s)(i * 4 + j \<mapsto> v)"
proof
  fix k
  have "k \<noteq> i * 4 + j \<Longrightarrow> (k div 4, k mod 4) \<noteq> (i, j)"
    by (metis div_mult_mod_eq prod.inject)
  moreover have "k < 16 \<Longrightarrow> k div 4 < 4" by simp
  ultimately show "a5_line s' k = ((a5_line s)(i * 4 + j \<mapsto> v)) k"
    using assms(3) [of "k div 4" "k mod 4"] assms(1,2,4,5)
    by (cases "k = i * 4 + j"; cases "k < 16") (simp_all add: a5_line_def)
qed

lemma a5_check_replace:
  assumes wf: "a5_wf s" and l: "length (tr ! pc) = 16" "pc < length tr"
    and empty: "a5_line s (a5_slot (tr ! pc)) = None"
  shows "\<exists>s'. a5_checkCache tr pc s = Inr s' \<and> a5_wf s' \<and> scored_miss s s' \<and>
    a5_line s' = (a5_line s)(a5_slot (tr ! pc) \<mapsto> tr ! pc)"
proof -
  obtain i j where ij: "i < 4" "j < 4" "a5_setIndex (tr ! pc) = Inr (int i)"
    "a5_lineIndex (tr ! pc) = Inr (int j)" "a5_slot (tr ! pc) = i * 4 + j"
    using a5_indices [OF l(1)] by metis
  from wf have m: "matrix 4 4 (cacheSet s)" "matrix 4 4 (cacheOccupied s)"
    and occ: "cacheOccupied s ! i ! j = 0"
    using empty ij by (auto simp: a5_wf_def a5_line_slot split: if_splits)
  let ?s = "s\<lparr>cacheOccupied := (cacheOccupied s)[i := (cacheOccupied s ! i)[j := 1]],
      cacheSet := (cacheSet s)[i := (cacheSet s ! i)[j := tr ! pc]]\<rparr>"
  have "a5_checkCache tr pc s = Inr (incrementCacheMiss ?s)"
    using l ij m occ by (simp add: a5_checkCache_def a5_ReplacementPolicy_def get2_in set2_in)
  moreover have "a5_wf ?s"
    using wf m ij by (auto simp: a5_wf_def matrix_update nth_matrix_update)
  moreover have "a5_line ?s = (a5_line s)(a5_slot (tr ! pc) \<mapsto> tr ! pc)"
    unfolding ij(5) using ij(1,2) m by (intro a5_line_updI) (auto simp: nth_matrix_update)
  moreover have "scored_miss s (incrementCacheMiss ?s)"
    by (simp add: scored_miss_def incrementCacheMiss_def)
  ultimately show ?thesis by auto
qed

lemma a5_check_evict:
  assumes wf: "a5_wf s" and l: "length (tr ! pc) = 16" "pc < length tr"
    and full: "a5_line s (a5_slot (tr ! pc)) = Some v"
  shows "\<exists>s'. a5_checkCache tr pc s = Inr s' \<and> a5_wf s' \<and>
    (if v = tr ! pc then scored_hit s s' \<and> a5_line s' = a5_line s
     else scored_miss s s' \<and> a5_line s' = (a5_line s)(a5_slot (tr ! pc) \<mapsto> tr ! pc))"
proof -
  obtain i j where ij: "i < 4" "j < 4" "a5_setIndex (tr ! pc) = Inr (int i)"
    "a5_lineIndex (tr ! pc) = Inr (int j)" "a5_slot (tr ! pc) = i * 4 + j"
    using a5_indices [OF l(1)] by metis
  from wf have m: "matrix 4 4 (cacheSet s)" "matrix 4 4 (cacheOccupied s)"
    and occ: "cacheOccupied s ! i ! j = 1" "cacheSet s ! i ! j = v"
    using full ij by (auto simp: a5_wf_def a5_line_slot split: if_splits)
  let ?s = "s\<lparr>cacheSet := (cacheSet s)[i := (cacheSet s ! i)[j := tr ! pc]]\<rparr>"
  have run: "a5_checkCache tr pc s =
      Inr (if v = tr ! pc then incrementCacheHit s else incrementCacheMiss ?s)"
    using l ij m occ by (simp add: a5_checkCache_def a5_evictionPolicy_def get2_in set2_in)
  have "a5_wf ?s"
    using wf m ij by (auto simp: a5_wf_def matrix_update nth_matrix_update)
  moreover have "a5_line ?s = (a5_line s)(a5_slot (tr ! pc) \<mapsto> tr ! pc)"
    unfolding ij(5) using ij(1,2) m occ by (intro a5_line_updI) (auto simp: nth_matrix_update)
  moreover have "scored_miss s (incrementCacheMiss ?s)"
    by (simp add: scored_miss_def incrementCacheMiss_def)
  ultimately show ?thesis using run wf by simp
qed

lemma a5_iteration_check:
  assumes "length (tr ! pc) = 16" "pc < length tr"
  shows "a5_iteration tr pc s = a5_checkCache tr pc s"
  using a5_draw_ok [OF assms] by (cases "a5_checkCache tr pc s") (auto simp: a5_iteration_def, metis bindE_Inr)

lemma trace_ok_nth: "trace_ok bits tr \<Longrightarrow> pc < length tr \<Longrightarrow> length (tr ! pc) = bits"
  by (simp add: trace_ok_def)

interpretation a5: direct_mapped "\<lambda>s. a5_wf s \<and> trace_ok 16 tr" "a5_iteration tr" tr a5_slot a5_line
  for tr
proof unfold_locales
  fix s pc
  assume wf: "a5_wf s \<and> trace_ok 16 tr" and pc: "pc < length tr"
  have l: "length (tr ! pc) = 16" using wf pc by (simp add: trace_ok_nth)
  note it = a5_iteration_check [OF l pc]
  show "\<exists>s'. a5_iteration tr pc s = Inr s' \<and> (a5_wf s' \<and> trace_ok 16 tr) \<and> scored_hit s s' \<and> a5_line s' = a5_line s"
    if "a5_line s (a5_slot (tr ! pc)) = Some (tr ! pc)"
    using a5_check_evict [OF _ l pc that] wf by (auto simp: it)
  show "\<exists>s'. a5_iteration tr pc s = Inr s' \<and> (a5_wf s' \<and> trace_ok 16 tr) \<and> scored_miss s s' \<and>
      a5_line s' = (a5_line s)(a5_slot (tr ! pc) \<mapsto> tr ! pc)"
    if ne: "a5_line s (a5_slot (tr ! pc)) \<noteq> Some (tr ! pc)"
  proof (cases "a5_line s (a5_slot (tr ! pc))")
    case None
    with a5_check_replace [OF _ l pc None] wf show ?thesis by (auto simp: it)
  next
    case (Some v)
    with ne a5_check_evict [OF _ l pc Some] wf show ?thesis by (auto simp: it)
  qed
qed

lemma a5_init_wf: "a5_wf a5_init" "a5_line a5_init = (\<lambda>_. None)" "cacheHit a5_init = 0" "balanced 0 a5_init"
  by (auto simp: a5_wf_def a5_init_def matrix_def a5_line_def balanced_def fun_eq_iff)

section \<open>The Lab 6 simulator is a direct-mapped cache\<close>

definition lab6_wf :: "lab6_cache \<Rightarrow> bool" where
  "lab6_wf s \<longleftrightarrow> length (cacheLines s) = 4 \<and> length (lineOccupied s) = 4 \<and>
     (\<forall>i < 4. lineOccupied s ! i = 0 \<or> lineOccupied s ! i = 1) \<and>
     0 \<le> cacheHit s \<and> 0 \<le> cacheMisses s"

definition lab6_slot :: "string \<Rightarrow> nat" where
  "lab6_slot l = nat (range_value l 1 2)"

definition lab6_line :: "lab6_cache \<Rightarrow> nat \<Rightarrow> string option" where
  "lab6_line s k = (if k < 4 \<and> lineOccupied s ! k = 1 then Some (cacheLines s ! k) else None)"

lemma lab6_index_in:
  assumes "length l = 8"
  shows "lab6_index l = Inr (int (lab6_slot l))" "lab6_slot l < 4"
  using bit_field_index [of l 8 1] assms by (auto simp: lab6_index_def lab6_slot_def)

lemma lab6_check:
  assumes wf: "lab6_wf s" and l: "length (tr ! pc) = 8" "pc < length tr"
  shows "\<exists>s'. lab6_checkCache tr pc s = Inr s' \<and> lab6_wf s' \<and>
    (if lab6_line s (lab6_slot (tr ! pc)) = Some (tr ! pc) then scored_hit s s' \<and> lab6_line s' = lab6_line s
     else scored_miss s s' \<and> lab6_line s' = (lab6_line s)(lab6_slot (tr ! pc) \<mapsto> tr ! pc))"
proof -
  let ?k = "lab6_slot (tr ! pc)"
  have occ: "lineOccupied s ! ?k = 0 \<or> lineOccupied s ! ?k = 1"
    using wf lab6_index_in [OF l(1)] by (simp add: lab6_wf_def)
  then show ?thesis
  proof
    assume "lineOccupied s ! ?k = 0"
    with wf l lab6_index_in [OF l(1)] show ?thesis
      by (auto simp: lab6_checkCache_def lab6_ReplacementPolicy_def lab6_wf_def lab6_line_def fun_eq_iff
          scored_miss_def incrementCacheMiss_def nth_list_update)
  next
    assume "lineOccupied s ! ?k = 1"
    with wf l lab6_index_in [OF l(1)] show ?thesis
      by (auto simp: lab6_checkCache_def lab6_evictionPolicy_def lab6_wf_def lab6_line_def fun_eq_iff
          scored_miss_def incrementCacheMiss_def scored_hit_def incrementCacheHit_def nth_list_update)
  qed
qed

lemma lab6_draw_ok:
  assumes "length (tr ! pc) = 8" "pc < length tr" "cacheHit s + cacheMisses s \<noteq> 0"
  shows "\<exists>out. lab6_drawCache tr pc s = Inr out"
proof -
  have "binaryStringToInt (tr ! pc) 9 = Inr (range_value (tr ! pc) 0 8)"
    using binaryStringToInt_value [of "tr ! pc"] assms by simp
  with assms lab6_index_in [OF assms(1)] show ?thesis
    by (simp add: lab6_drawCache_def lab6_cachePercent_def)
qed

interpretation lab6: direct_mapped "\<lambda>s. lab6_wf s \<and> trace_ok 8 tr" "lab6_iteration tr" tr lab6_slot lab6_line
  for tr
proof -
  have it: "\<exists>s'. lab6_iteration tr pc s = Inr s' \<and> (lab6_wf s' \<and> trace_ok 8 tr) \<and>
      (if lab6_line s (lab6_slot (tr ! pc)) = Some (tr ! pc) then scored_hit s s' \<and> lab6_line s' = lab6_line s
       else scored_miss s s' \<and> lab6_line s' = (lab6_line s)(lab6_slot (tr ! pc) \<mapsto> tr ! pc))"
    if wf: "lab6_wf s \<and> trace_ok 8 tr" and pc: "pc < length tr" for s pc
  proof -
    have l: "length (tr ! pc) = 8" using wf pc by (simp add: trace_ok_nth)
    obtain s' where s': "lab6_checkCache tr pc s = Inr s'" "lab6_wf s'"
      "if lab6_line s (lab6_slot (tr ! pc)) = Some (tr ! pc) then scored_hit s s' \<and> lab6_line s' = lab6_line s
       else scored_miss s s' \<and> lab6_line s' = (lab6_line s)(lab6_slot (tr ! pc) \<mapsto> tr ! pc)"
      using lab6_check [OF _ l pc] wf by blast
    have "cacheHit s' + cacheMisses s' \<noteq> 0"
      using s'(3) wf by (auto simp: scored_hit_def scored_miss_def lab6_wf_def split: if_splits)
    from lab6_draw_ok [OF l pc this] s' wf show ?thesis by (auto simp: lab6_iteration_def)
  qed
  show "direct_mapped (\<lambda>s. lab6_wf s \<and> trace_ok 8 tr) (lab6_iteration tr) tr lab6_slot lab6_line"
    by unfold_locales (use it in fastforce)+
qed

lemma lab6_init_wf:
  "lab6_wf lab6_init" "lab6_line lab6_init = (\<lambda>_. None)" "cacheHit lab6_init = 0" "balanced 0 lab6_init"
  by (auto simp: lab6_wf_def lab6_init_def lab6_line_def balanced_def fun_eq_iff)

lemma trace_lines_ok: "\<forall>l \<in> set tr. trace_line bits l \<Longrightarrow> trace_ok bits tr"
  by (simp add: trace_ok_def trace_line_def)





end
