(* ===== verification/Xv6_Pipe.thy ===== *)
theory Xv6_Pipe
  imports Fifo_Interface
begin

text \<open>
  The pipes of xv6 (\<open>pipe.c\<close>). \<open>nread\<close> and \<open>nwrite\<close> are 32-bit counters that only ever grow and wrap
  around; the buffer index is their value modulo 512. A call runs under the lock of the pipe from
  \<open>acquire\<close> to the next \<open>sleep\<close> or \<open>release\<close>; \<open>pipewrite_from\<close> and \<open>piperead_run\<close> are one such run, so that
  a call is a run followed by further runs, one after each wakeup. An outcome says whether the call
  returned or went to sleep and which channels it woke.

  The second half puts any number of processes around one pipe and interleaves their runs.
\<close>

section \<open>The pipe and its operations\<close>

definition PIPESIZE :: u32 where "PIPESIZE = 512"

record pipe =
  p_data :: "u8 list"
  nread :: u32
  nwrite :: u32
  readopen :: int
  writeopen :: int

text \<open>The part of \<open>pipealloc\<close> that initialises the page \<open>kalloc\<close> returned, whose bytes are arbitrary.\<close>

definition pipe_init :: "u8 list \<Rightarrow> pipe" where
  "pipe_init page = \<lparr>p_data = page, nread = 0, nwrite = 0, readopen = 1, writeopen = 1\<rparr>"

datatype chan = Chan_nread | Chan_nwrite

datatype 'r outcome = Returned pipe 'r "chan list" | Asleep pipe int "chan list"

text \<open>\<open>p->data[p->nwrite++ % PIPESIZE] = c\<close> and \<open>p->data[p->nread++ % PIPESIZE]\<close>\<close>

definition pipe_store :: "u8 \<Rightarrow> pipe \<Rightarrow> pipe c_result" where
  "pipe_store c p =
     bindE (arr_set (p_data p) (unat (nwrite p mod PIPESIZE)) c) (\<lambda>d.
     Inr (p\<lparr>p_data := d, nwrite := nwrite p + 1\<rparr>))"

definition pipe_take :: "pipe \<Rightarrow> (u8 \<times> pipe) c_result" where
  "pipe_take p =
     bindE (arr_get (p_data p) (unat (nread p mod PIPESIZE))) (\<lambda>c.
     Inr (c, p\<lparr>nread := nread p + 1\<rparr>))"

definition pipe_full :: "pipe \<Rightarrow> bool" where
  "pipe_full p \<longleftrightarrow> nwrite p = nread p + PIPESIZE"

definition pipe_empty :: "pipe \<Rightarrow> bool" where
  "pipe_empty p \<longleftrightarrow> nread p = nwrite p"

text \<open>\<open>pipewrite\<close> from byte \<open>i\<close> on, up to its return or the next \<open>sleep\<close>.\<close>

function pipewrite_from :: "bool \<Rightarrow> u8 list \<Rightarrow> int \<Rightarrow> int \<Rightarrow> pipe \<Rightarrow> int outcome c_result" where
  "pipewrite_from killed addr n i p =
     (if i < n
      then if pipe_full p
           then if readopen p = 0 \<or> killed then Inr (Returned p (-1) [])
                else Inr (Asleep p i [Chan_nread])
           else bindE (arr_get addr (nat i)) (\<lambda>c.
                bindE (pipe_store c p) (\<lambda>p'.
                pipewrite_from killed addr n (i + 1) p'))
      else Inr (Returned p n [Chan_nread]))"
  by pat_completeness auto
termination
  by (relation "measure (\<lambda>(killed, addr, n, i, p). nat (n - i))") auto

definition pipewrite :: "bool \<Rightarrow> pipe \<Rightarrow> u8 list \<Rightarrow> int \<Rightarrow> int outcome c_result" where
  "pipewrite killed p addr n = pipewrite_from killed addr n 0 p"

text \<open>The copying loop of \<open>piperead\<close> from byte \<open>i\<close> on; it collects what is stored into \<open>addr\<close>.\<close>

function piperead_copy :: "int \<Rightarrow> int \<Rightarrow> pipe \<Rightarrow> (u8 list \<times> pipe) c_result" where
  "piperead_copy n i p =
     (if i < n
      then if pipe_empty p then Inr ([], p)
           else bindE (pipe_take p) (\<lambda>(c, p').
                bindE (piperead_copy n (i + 1) p') (\<lambda>(cs, p''). Inr (c # cs, p'')))
      else Inr ([], p))"
  by pat_completeness auto
termination
  by (relation "measure (\<lambda>(n, i, p). nat (n - i))") auto

text \<open>A run of \<open>piperead\<close>; the result is its return value and the bytes stored into \<open>addr\<close>.\<close>

definition piperead :: "bool \<Rightarrow> pipe \<Rightarrow> int \<Rightarrow> (int \<times> u8 list) outcome c_result" where
  "piperead killed p n =
     (if pipe_empty p \<and> writeopen p \<noteq> 0
      then if killed then Inr (Returned p (-1, []) [])
           else Inr (Asleep p 0 [])
      else bindE (piperead_copy n 0 p) (\<lambda>(cs, p').
           Inr (Returned p' (int (length cs), cs) [Chan_nwrite])))"

text \<open>\<open>pipeclose\<close>: the new pipe, \<open>None\<close> once it has been freed, and the channel woken.\<close>

definition pipeclose :: "pipe \<Rightarrow> bool \<Rightarrow> pipe option \<times> chan list" where
  "pipeclose p writable =
     (let p' = (if writable then p\<lparr>writeopen := 0\<rparr> else p\<lparr>readopen := 0\<rparr>);
          ch = (if writable then [Chan_nread] else [Chan_nwrite])
      in if readopen p' = 0 \<and> writeopen p' = 0 then (None, ch) else (Some p', ch))"

declare pipewrite_from.simps [simp del] piperead_copy.simps [simp del]

section \<open>The buffer is a bounded FIFO\<close>

definition pipe_wf :: "pipe \<Rightarrow> bool" where
  "pipe_wf p \<longleftrightarrow> length (p_data p) = 512 \<and> unat (nwrite p - nread p) \<le> 512"

definition pipe_contents :: "pipe \<Rightarrow> u8 list" where
  "pipe_contents p =
     map (\<lambda>i. p_data p ! ((unat (nread p) + i) mod 512)) [0..<unat (nwrite p - nread p)]"

lemma length_pipe_contents [simp]: "length (pipe_contents p) = unat (nwrite p - nread p)"
  by (simp add: pipe_contents_def)

text \<open>The size of the buffer divides 2^32, so the index survives the wrap-around of the counters.\<close>

lemma pipe_index: "unat (a mod PIPESIZE) = unat a mod 512"
  by (simp add: PIPESIZE_def unat_mod_distrib)

lemma pipe_index_Suc: "unat ((a :: u32) + 1) mod 512 = Suc (unat a) mod 512"
proof -
  have "unat (a + 1) = Suc (unat a) mod 2 ^ 32" by (simp add: unat_word_ariths)
  then show ?thesis by (simp add: mod_mod_cancel)
qed

lemma pipe_index_diff:
  fixes a b :: u32
  shows "unat a mod 512 = (unat b + unat (a - b)) mod 512"
proof -
  have "unat a = (unat b + unat (a - b)) mod 2 ^ 32"
    using unat_word_ariths(1) [of b "a - b"] by simp
  then show ?thesis by (simp add: mod_mod_cancel)
qed

lemma pipe_full_iff: "pipe_full p \<longleftrightarrow> unat (nwrite p - nread p) = 512"
proof -
  have "pipe_full p \<longleftrightarrow> nwrite p - nread p = 512"
    by (auto simp: pipe_full_def PIPESIZE_def algebra_simps)
  also have "\<dots> \<longleftrightarrow> unat (nwrite p - nread p) = 512"
    by (simp add: word_unat_eq_iff)
  finally show ?thesis .
qed

lemma pipe_empty_iff: "pipe_empty p \<longleftrightarrow> pipe_contents p = []"
proof -
  have "pipe_empty p \<longleftrightarrow> unat (nwrite p - nread p) = 0"
    by (auto simp: pipe_empty_def unat_eq_0)
  then show ?thesis by (metis length_pipe_contents length_0_conv)
qed

lemma pipe_store_room:
  assumes wf: "pipe_wf p" and room: "\<not> pipe_full p"
  shows "\<exists>p'. pipe_store c p = Inr p' \<and> pipe_wf p' \<and> pipe_contents p' = pipe_contents p @ [c] \<and>
    readopen p' = readopen p \<and> writeopen p' = writeopen p"
proof -
  let ?n = "unat (nwrite p - nread p)" and ?k = "unat (nwrite p) mod 512"
  let ?p = "p\<lparr>p_data := (p_data p)[?k := c], nwrite := nwrite p + 1\<rparr>"
  have n: "?n < 512" using wf room by (auto simp: pipe_wf_def pipe_full_iff)
  have k: "?k = (unat (nread p) + ?n) mod 512" by (rule pipe_index_diff)
  have "nwrite p - nread p < 512" using n by (simp add: word_less_nat_alt)
  then have n': "unat (nwrite p + 1 - nread p) = Suc ?n"
    by (metis add_diff_eq add.commute unat_Suc_no_wrap diff_add_eq)
  have run: "pipe_store c p = Inr ?p" using wf by (simp add: pipe_store_def pipe_index pipe_wf_def)
  have "(p_data p)[?k := c] ! ((unat (nread p) + i) mod 512) = p_data p ! ((unat (nread p) + i) mod 512)"
    if "i < ?n" for i
    using that n mod_add_eq_iff_small [of i 512 ?n "unat (nread p)"] by (simp add: k)
  moreover have "(p_data p)[?k := c] ! ((unat (nread p) + ?n) mod 512) = c"
    using wf by (simp add: k [symmetric] pipe_wf_def)
  ultimately have "pipe_contents ?p = pipe_contents p @ [c]"
    by (simp add: pipe_contents_def n')
  with run n n' wf show ?thesis by (auto simp: pipe_wf_def)
qed

lemma pipe_take_some:
  assumes wf: "pipe_wf p" and ne: "pipe_contents p = c # cs"
  shows "\<exists>p'. pipe_take p = Inr (c, p') \<and> pipe_wf p' \<and> pipe_contents p' = cs \<and>
    readopen p' = readopen p \<and> writeopen p' = writeopen p"
proof -
  let ?n = "unat (nwrite p - nread p)"
  let ?p = "p\<lparr>nread := nread p + 1\<rparr>"
  have pos: "nwrite p - nread p \<noteq> 0"
    using ne length_pipe_contents [of p] by (metis length_0_conv list.distinct(1) unat_0)
  then have n: "0 < ?n" by (simp add: unat_gt_0)
  have n': "unat (nwrite p - (nread p + 1)) = ?n - 1"
    using unat_dec_no_wrap [OF pos] by (simp add: diff_diff_eq)
  have up: "[0..<?n] = 0 # map Suc [0..<?n - 1]"
    using n by (simp add: upt_conv_Cons map_Suc_upt)
  have shift: "(unat (nread p + 1) + i) mod 512 = (unat (nread p) + Suc i) mod 512" for i
    using pipe_index_Suc [of "nread p"] by (metis add_Suc_right add_Suc mod_add_left_eq)
  have "pipe_contents p = p_data p ! (unat (nread p) mod 512) # pipe_contents ?p"
    by (simp add: pipe_contents_def up n' shift comp_def)
  with ne wf n n' show ?thesis
    by (auto simp: pipe_take_def pipe_index pipe_wf_def)
qed

definition pipe_put :: "u8 \<Rightarrow> pipe \<Rightarrow> pipe option" where
  "pipe_put c p =
     (if pipe_full p then None else case pipe_store c p of Inl e \<Rightarrow> None | Inr p' \<Rightarrow> Some p')"

definition pipe_get :: "pipe \<Rightarrow> (u8 \<times> pipe) option" where
  "pipe_get p =
     (if pipe_empty p then None else case pipe_take p of Inl e \<Rightarrow> None | Inr r \<Rightarrow> Some r)"

interpretation pipeq: bounded_fifo pipe_wf pipe_contents "\<lambda>_. 512" pipe_put pipe_get
proof unfold_locales
  fix p :: pipe and c :: u8
  assume wf: "pipe_wf p"
  then show "length (pipe_contents p) \<le> 512" by (simp add: pipe_wf_def)
  show "pipe_put c p = None" if "length (pipe_contents p) = 512"
    using that by (simp add: pipe_put_def pipe_full_iff)
  show "\<exists>p'. pipe_put c p = Some p' \<and> pipe_wf p' \<and> pipe_contents p' = pipe_contents p @ [c] \<and> 512 = 512"
    if "length (pipe_contents p) < 512"
  proof -
    from that have "\<not> pipe_full p" by (simp add: pipe_full_iff)
    with pipe_store_room [OF wf this, of c] show ?thesis by (auto simp: pipe_put_def)
  qed
  show "pipe_get p = None" if "pipe_contents p = []"
    using that by (simp add: pipe_get_def pipe_empty_iff)
  show "\<exists>p'. pipe_get p = Some (x, p') \<and> pipe_wf p' \<and> pipe_contents p' = xs \<and> 512 = 512"
    if "pipe_contents p = x # xs" for x xs
    using pipe_take_some [OF wf that] that by (auto simp: pipe_get_def pipe_empty_iff)
qed

section \<open>What a run of a call does\<close>

lemma pipewrite_from_run:
  assumes "pipe_wf p" "0 \<le> i" "i \<le> n" "n \<le> int (length addr)"
    and "k = min (nat (n - i)) (512 - length (pipe_contents p))"
  shows "\<exists>p'. pipe_wf p' \<and> pipe_contents p' = pipe_contents p @ take k (drop (nat i) addr) \<and>
    readopen p' = readopen p \<and> writeopen p' = writeopen p \<and>
    pipewrite_from killed addr n i p =
      Inr (if nat (n - i) \<le> 512 - length (pipe_contents p) then Returned p' n [Chan_nread]
           else if readopen p = 0 \<or> killed then Returned p' (-1) []
           else Asleep p' (i + int k) [Chan_nread])"
  using assms
proof (induction "nat (n - i)" arbitrary: i p k)
  case 0
  then show ?case by (subst pipewrite_from.simps) auto
next
  case (Suc d)
  have i: "i < n" "d = nat (n - (i + 1))" "nat (n - i) = Suc (nat (n - (i + 1)))" using Suc.hyps(2) by auto
  show ?case
  proof (cases "pipe_full p")
    case True
    with i Suc.prems show ?thesis
      by (subst pipewrite_from.simps) (auto simp: pipe_full_iff)
  next
    case False
    with Suc.prems(1) have room: "length (pipe_contents p) < 512" by (auto simp: pipe_wf_def pipe_full_iff)
    let ?c = "addr ! nat i"
    have ni: "nat i < length addr" "nat (i + 1) = Suc (nat i)" using i Suc.prems by auto
    obtain p1 where p1: "pipe_store ?c p = Inr p1" "pipe_wf p1" "pipe_contents p1 = pipe_contents p @ [?c]"
      "readopen p1 = readopen p" "writeopen p1 = writeopen p"
      using pipe_store_room [OF Suc.prems(1) False] by blast
    have step: "pipewrite_from killed addr n i p = pipewrite_from killed addr n (i + 1) p1"
      by (subst pipewrite_from.simps) (simp add: i(1) False ni p1(1))
    define k1 where "k1 = min (nat (n - (i + 1))) (512 - length (pipe_contents p1))"
    have k: "k = Suc k1" using Suc.prems(5) room by (simp add: k1_def i(3) p1(3))
    have "0 \<le> i + 1" "i + 1 \<le> n" using Suc.prems(2) i by auto
    from Suc.hyps(1) [OF i(2) p1(2) this Suc.prems(4) k1_def] obtain p' where
      "pipe_wf p'" "pipe_contents p' = pipe_contents p1 @ take k1 (drop (nat (i + 1)) addr)"
      "readopen p' = readopen p1" "writeopen p' = writeopen p1"
      "pipewrite_from killed addr n (i + 1) p1 =
        Inr (if nat (n - (i + 1)) \<le> 512 - length (pipe_contents p1) then Returned p' n [Chan_nread]
             else if readopen p1 = 0 \<or> killed then Returned p' (-1) []
             else Asleep p' (i + 1 + int k1) [Chan_nread])" by blast
    moreover have "drop (nat i) addr = ?c # drop (nat (i + 1)) addr"
      using ni by (simp add: Cons_nth_drop_Suc)
    moreover have "nat (n - (i + 1)) \<le> 512 - length (pipe_contents p1) \<longleftrightarrow>
        nat (n - i) \<le> 512 - length (pipe_contents p)"
      using room by (auto simp: i(3) p1(3))
    ultimately show ?thesis using p1(3,4,5) by (intro exI [of _ p']) (simp add: step k algebra_simps)
  qed
qed

lemma piperead_copy_run:
  assumes "pipe_wf p" "i \<le> n" "k = min (nat (n - i)) (length (pipe_contents p))"
  shows "\<exists>p'. piperead_copy n i p = Inr (take k (pipe_contents p), p') \<and> pipe_wf p' \<and>
    pipe_contents p' = drop k (pipe_contents p) \<and> readopen p' = readopen p \<and> writeopen p' = writeopen p"
  using assms
proof (induction "nat (n - i)" arbitrary: i p k)
  case 0
  then show ?case by (subst piperead_copy.simps) auto
next
  case (Suc d)
  have i: "i < n" "d = nat (n - (i + 1))" "nat (n - i) = Suc (nat (n - (i + 1)))" using Suc.hyps(2) by auto
  show ?case
  proof (cases "pipe_contents p")
    case Nil
    with i Suc.prems show ?thesis by (subst piperead_copy.simps) (simp add: pipe_empty_iff)
  next
    case (Cons c cs)
    from pipe_take_some [OF Suc.prems(1) Cons] obtain p1 where
      p1: "pipe_take p = Inr (c, p1)" "pipe_wf p1" "pipe_contents p1 = cs"
        "readopen p1 = readopen p" "writeopen p1 = writeopen p" by blast
    define k1 where "k1 = min (nat (n - (i + 1))) (length (pipe_contents p1))"
    have k: "k = Suc k1" using Suc.prems(3) by (simp only: k1_def i(3) p1(3) Cons) simp
    have "i + 1 \<le> n" using i by simp
    from Suc.hyps(1) [OF i(2) p1(2) this k1_def] obtain p' where
      "piperead_copy n (i + 1) p1 = Inr (take k1 cs, p')" "pipe_wf p'" "pipe_contents p' = drop k1 cs"
      "readopen p' = readopen p1" "writeopen p' = writeopen p1" by (auto simp: p1(3))
    with p1 i Cons k show ?thesis
      by (subst piperead_copy.simps) (simp add: pipe_empty_iff)
  qed
qed

section \<open>Processes around one pipe\<close>

text \<open>
  A process is outside the pipe, inside \<open>pipewrite\<close> with its buffer and position, or inside \<open>piperead\<close> with
  its count; the last component of the two says whether it sleeps (writers sleep on \<open>nwrite\<close>, readers
  on \<open>nread\<close>). \<open>sent\<close> and \<open>received\<close> record the bytes that went in and out. A step is a call, one run under
  the lock, or the closing of an end that no process is using, as the reference counts of \<open>file.c\<close>
  ensure. Whether a process has been killed when it looks is decided by the step, and only in a
  system where \<open>kills\<close> is set.
\<close>

datatype pproc = Outside | Writing "u8 list" int bool | Reading int bool

record pipe_sys =
  the_pipe :: pipe
  procs :: "nat \<Rightarrow> pproc"
  sent :: "u8 list"
  received :: "u8 list"

definition wake :: "chan list \<Rightarrow> (nat \<Rightarrow> pproc) \<Rightarrow> nat \<Rightarrow> pproc" where
  "wake chs f k =
     (case f k of
        Outside \<Rightarrow> Outside
      | Writing buf i z \<Rightarrow> Writing buf i (z \<and> Chan_nwrite \<notin> set chs)
      | Reading n z \<Rightarrow> Reading n (z \<and> Chan_nread \<notin> set chs))"

definition stored :: "pipe \<Rightarrow> pipe \<Rightarrow> u8 list \<Rightarrow> int \<Rightarrow> u8 list" where
  "stored p p' buf i = take (length (pipe_contents p') - length (pipe_contents p)) (drop (nat i) buf)"

inductive pipe_step :: "bool \<Rightarrow> pipe_sys \<Rightarrow> pipe_sys \<Rightarrow> bool" for kills :: bool where
  call_write: "procs s k = Outside \<Longrightarrow> writeopen (the_pipe s) \<noteq> 0 \<Longrightarrow>
    pipe_step kills s (s\<lparr>procs := (procs s)(k := Writing buf 0 False)\<rparr>)"
| write_returns: "procs s k = Writing buf i False \<Longrightarrow> (killed \<longrightarrow> kills) \<Longrightarrow>
    pipewrite_from killed buf (int (length buf)) i (the_pipe s) = Inr (Returned p' r chs) \<Longrightarrow>
    pipe_step kills s (s\<lparr>the_pipe := p', procs := wake chs ((procs s)(k := Outside)),
      sent := sent s @ stored (the_pipe s) p' buf i\<rparr>)"
| write_sleeps: "procs s k = Writing buf i False \<Longrightarrow> (killed \<longrightarrow> kills) \<Longrightarrow>
    pipewrite_from killed buf (int (length buf)) i (the_pipe s) = Inr (Asleep p' i' chs) \<Longrightarrow>
    pipe_step kills s (s\<lparr>the_pipe := p', procs := wake chs ((procs s)(k := Writing buf i' True)),
      sent := sent s @ stored (the_pipe s) p' buf i\<rparr>)"
| call_read: "procs s k = Outside \<Longrightarrow> readopen (the_pipe s) \<noteq> 0 \<Longrightarrow> 0 \<le> n \<Longrightarrow>
    pipe_step kills s (s\<lparr>procs := (procs s)(k := Reading n False)\<rparr>)"
| read_returns: "procs s k = Reading n False \<Longrightarrow> (killed \<longrightarrow> kills) \<Longrightarrow>
    piperead killed (the_pipe s) n = Inr (Returned p' (r, cs) chs) \<Longrightarrow>
    pipe_step kills s (s\<lparr>the_pipe := p', procs := wake chs ((procs s)(k := Outside)),
      received := received s @ cs\<rparr>)"
| read_sleeps: "procs s k = Reading n False \<Longrightarrow> (killed \<longrightarrow> kills) \<Longrightarrow>
    piperead killed (the_pipe s) n = Inr (Asleep p' i' chs) \<Longrightarrow>
    pipe_step kills s (s\<lparr>the_pipe := p', procs := wake chs ((procs s)(k := Reading n True))\<rparr>)"
| close_write: "\<forall>k buf i z. procs s k \<noteq> Writing buf i z \<Longrightarrow>
    pipeclose (the_pipe s) True = (Some p', chs) \<Longrightarrow>
    pipe_step kills s (s\<lparr>the_pipe := p', procs := wake chs (procs s)\<rparr>)"
| close_read: "\<forall>k n z. procs s k \<noteq> Reading n z \<Longrightarrow>
    pipeclose (the_pipe s) False = (Some p', chs) \<Longrightarrow>
    pipe_step kills s (s\<lparr>the_pipe := p', procs := wake chs (procs s)\<rparr>)"

definition pipe_start :: "u8 list \<Rightarrow> pipe_sys" where
  "pipe_start page = \<lparr>the_pipe = pipe_init page, procs = (\<lambda>_. Outside), sent = [], received = []\<rparr>"

abbreviation pipe_reachable :: "bool \<Rightarrow> u8 list \<Rightarrow> pipe_sys \<Rightarrow> bool" where
  "pipe_reachable kills page \<equiv> (pipe_step kills)\<^sup>*\<^sup>* (pipe_start page)"

text \<open>The invariant of a process: what its position is within, and why it sleeps.\<close>

definition proc_ok :: "bool \<Rightarrow> pipe \<Rightarrow> pproc \<Rightarrow> bool" where
  "proc_ok kills p c =
     (case c of
        Outside \<Rightarrow> True
      | Writing buf i z \<Rightarrow> 0 \<le> i \<and> i \<le> int (length buf) \<and> writeopen p \<noteq> 0 \<and>
          (z \<longrightarrow> pipe_full p \<and> readopen p \<noteq> 0)
      | Reading n z \<Rightarrow> 0 \<le> n \<and> readopen p \<noteq> 0 \<and>
          (z \<longrightarrow> kills \<or> pipe_empty p \<and> writeopen p \<noteq> 0))"

definition sys_ok :: "bool \<Rightarrow> pipe_sys \<Rightarrow> bool" where
  "sys_ok kills s \<longleftrightarrow> pipe_wf (the_pipe s) \<and> sent s = received s @ pipe_contents (the_pipe s) \<and>
     (\<forall>k. proc_ok kills (the_pipe s) (procs s k))"

lemma sys_okD:
  assumes "sys_ok kills s"
  shows "pipe_wf (the_pipe s)" "sent s = received s @ pipe_contents (the_pipe s)"
    "proc_ok kills (the_pipe s) (procs s k)"
  using assms by (auto simp: sys_ok_def)

text \<open>
  A run keeps the invariant of the other processes if it wakes everybody whose reason to sleep it may
  have removed.
\<close>

lemma proc_ok_wake:
  assumes "proc_ok kills p (f k)"
    and "readopen p' = readopen p" "writeopen p' = writeopen p"
    and "Chan_nwrite \<in> set chs \<or> (pipe_full p \<longrightarrow> pipe_full p')"
    and "Chan_nread \<in> set chs \<or> kills \<or> readopen p = 0 \<or> (pipe_empty p \<longrightarrow> pipe_empty p')"
  shows "proc_ok kills p' (wake chs f k)"
  using assms by (cases "f k") (auto simp: proc_ok_def wake_def)

lemma write_run_ok:
  assumes ok: "sys_ok kills s" and k: "procs s k = Writing buf i False" and "killed \<longrightarrow> kills"
    and c: "c = (case out of Returned p' r chs \<Rightarrow> Outside | Asleep p' i' chs \<Rightarrow> Writing buf i' True)"
    and run: "pipewrite_from killed buf (int (length buf)) i (the_pipe s) = Inr out"
    and out: "p' = (case out of Returned q r chs \<Rightarrow> q | Asleep q i' chs \<Rightarrow> q)"
      "chs = (case out of Returned q r chs \<Rightarrow> chs | Asleep q i' chs \<Rightarrow> chs)"
  shows "sys_ok kills (s\<lparr>the_pipe := p', procs := wake chs ((procs s)(k := c)),
    sent := sent s @ stored (the_pipe s) p' buf i\<rparr>)"
proof -
  let ?p = "the_pipe s" and ?n = "int (length buf)"
  have i: "0 \<le> i" "i \<le> ?n" using sys_okD(3) [OF ok, of k] k by (simp_all add: proc_ok_def)
  define m where "m = min (nat (?n - i)) (512 - length (pipe_contents ?p))"
  obtain q where q: "pipe_wf q" "pipe_contents q = pipe_contents ?p @ take m (drop (nat i) buf)"
    "readopen q = readopen ?p" "writeopen q = writeopen ?p"
    "out = (if nat (?n - i) \<le> 512 - length (pipe_contents ?p) then Returned q ?n [Chan_nread]
      else if readopen ?p = 0 \<or> killed then Returned q (-1) [] else Asleep q (i + int m) [Chan_nread])"
    using pipewrite_from_run [OF sys_okD(1) [OF ok] i order_refl m_def, of killed] run by auto
  then have p': "p' = q" using out(1) by auto
  have m: "m \<le> nat (?n - i)" by (simp add: m_def)
  have new: "stored ?p p' buf i = take m (drop (nat i) buf)"
    using m i by (simp add: stored_def p' q(2) min_def del: length_pipe_contents)
  have full: "pipe_full ?p \<longrightarrow> pipe_full p'"
    by (simp add: p' pipe_full_iff q(2) flip: length_pipe_contents) (simp add: m_def)
  have wake: "Chan_nread \<in> set chs \<or> kills \<or> readopen ?p = 0"
    using out(2) q(5) assms(3) by auto
  have "proc_ok kills p' (wake chs ((procs s)(k := c)) j)" for j
  proof (cases "j = k")
    case False
    have "proc_ok kills p' (wake chs (procs s) j)"
      using sys_okD(3) [OF ok, of j] full wake q by (intro proc_ok_wake) (auto simp: p')
    with False show ?thesis by (simp add: wake_def)
  next
    case True
    have "c = Outside \<or> (c = Writing buf (i + int m) True \<and> readopen ?p \<noteq> 0 \<and> m = 512 - length (pipe_contents ?p)
        \<and> chs = [Chan_nread])"
      using c out(2) q(5) by (auto simp: m_def)
    moreover have "writeopen ?p \<noteq> 0" using sys_okD(3) [OF ok, of k] k by (simp add: proc_ok_def)
    moreover have "pipe_full q" if "m = 512 - length (pipe_contents ?p)" "c \<noteq> Outside"
    proof -
      have "length (pipe_contents q) = 512"
        using that i m sys_okD(1) [OF ok] c q(5) unfolding q(2)
        by (auto simp: pipe_wf_def split: if_splits)
      then show ?thesis by (simp add: pipe_full_iff)
    qed
    ultimately show ?thesis
      using True i m q(3,4) by (auto simp: wake_def proc_ok_def p')
  qed
  then show ?thesis using sys_okD [OF ok] q p' new by (simp add: sys_ok_def)
qed

lemma read_returns_ok:
  assumes ok: "sys_ok kills s" and k: "procs s k = Reading n False"
    and run: "piperead killed (the_pipe s) n = Inr (Returned p' (r, cs) chs)"
  shows "sys_ok kills (s\<lparr>the_pipe := p', procs := wake chs ((procs s)(k := Outside)),
    received := received s @ cs\<rparr>)"
proof -
  let ?p = "the_pipe s"
  have n: "0 \<le> n" using sys_okD(3) [OF ok, of k] k by (simp add: proc_ok_def)
  define m where "m = min (nat (n - 0)) (length (pipe_contents ?p))"
  obtain q where q: "piperead_copy n 0 ?p = Inr (take m (pipe_contents ?p), q)" "pipe_wf q"
    "pipe_contents q = drop m (pipe_contents ?p)" "readopen q = readopen ?p" "writeopen q = writeopen ?p"
    using piperead_copy_run [OF sys_okD(1) [OF ok] n m_def] by blast
  have cases: "p' = ?p \<and> cs = [] \<or> p' = q \<and> cs = take m (pipe_contents ?p) \<and> chs = [Chan_nwrite]"
    using run q(1) by (auto simp: piperead_def split: if_splits)
  have empty: "pipe_empty ?p \<longrightarrow> pipe_empty p'"
    using cases q(3) by (auto simp: pipe_empty_iff)
  have "proc_ok kills p' (wake chs ((procs s)(k := Outside)) j)" for j
  proof (cases "j = k")
    case False
    have "proc_ok kills p' (wake chs (procs s) j)"
      using sys_okD(3) [OF ok, of j] cases empty q by (intro proc_ok_wake [where p = ?p]) auto
    with False show ?thesis by (simp add: wake_def)
  qed (simp add: wake_def proc_ok_def)
  then show ?thesis using sys_okD [OF ok] q cases by (auto simp: sys_ok_def)
qed

lemma read_sleeps_ok:
  assumes ok: "sys_ok kills s" and k: "procs s k = Reading n False"
    and run: "piperead killed (the_pipe s) n = Inr (Asleep p' i' chs)"
  shows "sys_ok kills (s\<lparr>the_pipe := p', procs := wake chs ((procs s)(k := Reading n True))\<rparr>)"
proof -
  have p': "p' = the_pipe s" "chs = []" "pipe_empty p'" "writeopen p' \<noteq> 0"
    using run by (auto simp: piperead_def bindE_def split: if_splits sum.splits)
  have "proc_ok kills p' (wake chs ((procs s)(k := Reading n True)) j)" for j
    using sys_okD(3) [OF ok, of j] k p'
    by (cases "procs s j") (auto simp: wake_def proc_ok_def)
  then show ?thesis using sys_okD [OF ok] p' by (simp add: sys_ok_def)
qed

lemma pipe_close_ok:
  assumes ok: "sys_ok kills s" and close: "pipeclose (the_pipe s) w = (Some p', chs)"
    and unused: "w \<Longrightarrow> \<forall>k buf i z. procs s k \<noteq> Writing buf i z" "\<not> w \<Longrightarrow> \<forall>k n z. procs s k \<noteq> Reading n z"
  shows "sys_ok kills (s\<lparr>the_pipe := p', procs := wake chs (procs s)\<rparr>)"
proof -
  have p': "p' = (if w then (the_pipe s)\<lparr>writeopen := 0\<rparr> else (the_pipe s)\<lparr>readopen := 0\<rparr>)"
    "chs = (if w then [Chan_nread] else [Chan_nwrite])"
    using close by (auto simp: pipeclose_def Let_def split: if_splits)
  have "proc_ok kills p' (wake chs (procs s) j)" for j
    using sys_okD(3) [OF ok, of j] unused p'
    by (cases "procs s j"; cases w) (auto simp: wake_def proc_ok_def pipe_full_def pipe_empty_def)
  then show ?thesis using sys_okD [OF ok] p' by (simp add: sys_ok_def pipe_wf_def pipe_contents_def)
qed

lemma pipe_step_ok: "pipe_step kills s s' \<Longrightarrow> sys_ok kills s \<Longrightarrow> sys_ok kills s'"
proof (induction rule: pipe_step.induct)
  case (call_write s k buf)
  then show ?case by (auto simp: sys_ok_def proc_ok_def)
next
  case (write_returns s k buf i killed p' r chs)
  from write_run_ok [OF write_returns(4,1,2) refl write_returns(3)] show ?case by simp
next
  case (write_sleeps s k buf i killed p' i' chs)
  from write_run_ok [OF write_sleeps(4,1,2) refl write_sleeps(3)] show ?case by simp
next
  case (call_read s k n)
  then show ?case by (auto simp: sys_ok_def proc_ok_def)
next
  case (read_returns s k n killed p' r cs chs)
  then show ?case by (blast intro: read_returns_ok)
next
  case (read_sleeps s k n killed p' i' chs)
  then show ?case by (blast intro: read_sleeps_ok)
next
  case (close_write s p' chs)
  then show ?case using pipe_close_ok [of kills s True] by blast
next
  case (close_read s p' chs)
  then show ?case using pipe_close_ok [of kills s False] by blast
qed

lemma pipe_start_ok: "length page = 512 \<Longrightarrow> sys_ok kills (pipe_start page)"
  by (simp add: sys_ok_def pipe_start_def pipe_init_def pipe_wf_def pipe_contents_def proc_ok_def)

lemma pipe_reachable_ok:
  assumes "length page = 512" "pipe_reachable kills page s"
  shows "sys_ok kills s"
  using assms(2) by (induction rule: rtranclp_induct) (auto intro: pipe_start_ok assms(1) pipe_step_ok)

text \<open>
  C12. Whatever the number of readers and writers, the interleaving of their calls, the sleeps and the
  killed processes, a pipe is a stream: the bytes received so far and then the at most 512 bytes in the
  buffer are exactly the bytes sent, in order, across every wrap-around of the 32-bit counters.
\<close>

theorem pipe_stream:
  assumes "length page = 512" "pipe_reachable kills page s"
  shows "sent s = received s @ pipe_contents (the_pipe s) \<and> length (pipe_contents (the_pipe s)) \<le> 512"
  using sys_okD(1,2) [OF pipe_reachable_ok [OF assms]] by (simp add: pipe_wf_def)

theorem pipe_stream_witness:
  "\<exists>s. pipe_reachable True (replicate 512 0) s \<and> procs s 7 = Writing [1, 2] 0 False \<and>
     sent s = received s @ pipe_contents (the_pipe s)"
proof -
  let ?s = "(pipe_start (replicate 512 0))\<lparr>procs := (\<lambda>_. Outside)(7 := Writing [1, 2] 0 False)\<rparr>"
  have "pipe_step True (pipe_start (replicate 512 0)) ?s"
    using pipe_step.call_write [of "pipe_start (replicate 512 0)" 7 True "[1, 2]"]
    by (simp add: pipe_start_def pipe_init_def)
  then have r: "pipe_reachable True (replicate 512 0) ?s" by (rule r_into_rtranclp)
  moreover have "sent ?s = received ?s @ pipe_contents (the_pipe ?s)"
    using pipe_stream [OF _ r] by simp
  ultimately show ?thesis by (intro exI [of _ ?s]) simp
qed

text \<open>
  C13. As long as no process is killed there is no lost wakeup: a writer sleeps only while the buffer is full
  and somebody can still read, a reader only while the buffer is empty and somebody can still write. So
  a reader and a writer never sleep at the same time.
\<close>

theorem pipe_no_lost_wakeup:
  assumes "length page = 512" "pipe_reachable False page s"
  shows "(procs s k = Writing buf i True \<longrightarrow> pipe_full (the_pipe s) \<and> readopen (the_pipe s) \<noteq> 0) \<and>
    (procs s j = Reading n True \<longrightarrow> pipe_empty (the_pipe s) \<and> writeopen (the_pipe s) \<noteq> 0) \<and>
    \<not> (procs s k = Writing buf i True \<and> procs s j = Reading n True)"
proof -
  have "proc_ok False (the_pipe s) (procs s k)" "proc_ok False (the_pipe s) (procs s j)"
    using sys_okD(3) [OF pipe_reachable_ok [OF assms]] by blast+
  moreover have "\<not> (pipe_full (the_pipe s) \<and> pipe_empty (the_pipe s))"
    by (auto simp: pipe_full_def pipe_empty_def PIPESIZE_def)
  ultimately show ?thesis by (auto simp: proc_ok_def)
qed

lemma reader_asleep_reachable:
  assumes "length page = 512"
  shows "\<exists>s. pipe_reachable kills page s \<and> procs s = (\<lambda>_. Outside)(0 := Reading 1 True) \<and>
    the_pipe s = pipe_init page \<and> sent s = [] \<and> received s = []"
proof -
  let ?s0 = "pipe_start page"
  let ?s1 = "?s0\<lparr>procs := (\<lambda>_. Outside)(0 := Reading 1 False)\<rparr>"
  let ?s2 = "?s0\<lparr>procs := (\<lambda>_. Outside)(0 := Reading 1 True)\<rparr>"
  have 1: "pipe_step kills ?s0 ?s1"
    using pipe_step.call_read [of ?s0 0 1 kills] by (simp add: pipe_start_def pipe_init_def)
  have "piperead False (pipe_init page) 1 = Inr (Asleep (pipe_init page) 0 [])"
    by (simp add: piperead_def pipe_empty_def pipe_init_def)
  then have "pipe_step kills ?s1 (?s1\<lparr>the_pipe := pipe_init page, procs := wake [] ((procs ?s1)(0 := Reading 1 True))\<rparr>)"
    by (intro pipe_step.read_sleeps [of _ _ _ False]) (simp_all add: pipe_start_def)
  moreover have "wake [] ((\<lambda>_. Outside)(0 := Reading 1 True)) = (\<lambda>_. Outside)(0 := Reading 1 True)"
    by (auto simp: wake_def fun_eq_iff)
  ultimately have "pipe_step kills ?s1 ?s2" by (simp add: pipe_start_def)
  with 1 have "pipe_reachable kills page ?s2" by (meson converse_rtranclp_into_rtranclp r_into_rtranclp)
  then show ?thesis by (intro exI [of _ ?s2]) (simp add: pipe_start_def)
qed

theorem pipe_no_lost_wakeup_witness:
  "\<exists>s. pipe_reachable False (replicate 512 0) s \<and> procs s 0 = Reading 1 True \<and> pipe_empty (the_pipe s)"
proof -
  obtain s where s: "pipe_reachable False (replicate 512 0) s" "procs s = (\<lambda>_. Outside)(0 := Reading 1 True)"
    using reader_asleep_reachable [of "replicate 512 0" False] by auto
  have "pipe_empty (the_pipe s)"
    using pipe_no_lost_wakeup [OF _ s(1), of 0 "[]" 0 0 1] s(2) by simp
  with s show ?thesis by (intro exI [of _ s]) simp
qed

text \<open>
  With killed processes a wakeup can be lost. A writer that fills the buffer and then finds itself killed
  returns without waking the readers: the reader of the empty pipe that it found asleep sleeps on although
  512 bytes are waiting and no other process is inside the pipe.
\<close>

theorem killed_writer_strands_reader:
  assumes "length page = 512" "512 < length buf"
  shows "\<exists>s. pipe_reachable True page s \<and> procs s = (\<lambda>_. Outside)(0 := Reading 1 True) \<and>
    pipe_contents (the_pipe s) = take 512 buf"
proof -
  obtain s where s: "pipe_reachable True page s" "procs s = (\<lambda>_. Outside)(0 := Reading 1 True)"
    "the_pipe s = pipe_init page"
    using reader_asleep_reachable [OF assms(1)] by blast
  let ?s1 = "s\<lparr>procs := (procs s)(1 := Writing buf 0 False)\<rparr>"
  have 1: "pipe_step True s ?s1"
    using s by (intro pipe_step.call_write) (simp_all add: pipe_init_def)
  have init: "pipe_wf (pipe_init page)" "pipe_contents (pipe_init page) = []"
    using assms(1) by (simp_all add: pipe_wf_def pipe_contents_def pipe_init_def)
  obtain p' where p': "pipe_contents p' = take 512 buf"
    "pipewrite_from True buf (int (length buf)) 0 (pipe_init page) = Inr (Returned p' (-1) [])"
    using pipewrite_from_run [OF init(1), of 0 "int (length buf)" buf _ True] assms(2) init(2) by auto
  let ?s2 = "?s1\<lparr>the_pipe := p', procs := wake [] ((procs ?s1)(1 := Outside)),
    sent := sent ?s1 @ stored (the_pipe ?s1) p' buf 0\<rparr>"
  have "pipe_step True ?s1 ?s2"
    using p'(2) s(3) by (intro pipe_step.write_returns [of _ _ _ _ True]) simp_all
  with 1 s(1) have "pipe_reachable True page ?s2" by (meson rtranclp.rtrancl_into_rtrancl)
  moreover have "procs ?s2 = (\<lambda>_. Outside)(0 := Reading 1 True)"
    by (auto simp: wake_def s(2) fun_eq_iff)
  ultimately show ?thesis using p'(1) by (intro exI [of _ ?s2]) simp
qed

theorem killed_writer_strands_reader_witness:
  "\<exists>s. pipe_reachable True (replicate 512 0) s \<and> procs s = (\<lambda>_. Outside)(0 := Reading 1 True) \<and>
     pipe_contents (the_pipe s) = replicate 512 7"
  using killed_writer_strands_reader [of "replicate 512 0" "replicate 513 7"] by simp

end
