(* ===== verification/Xv6_Grep.thy ===== *)
theory Xv6_Grep
  imports Prelude
begin

text \<open>
  The user program \<open>grep.c\<close> of xv6. A C string is a list of characters without its terminating NUL;
  reading the character at its end gives NUL. \<open>match\<close>, \<open>matchhere\<close> and \<open>matchstar\<close> return \<open>int\<close> in the source and
  \<open>bool\<close> here. \<open>grep\<close> takes the bytes its descriptor will deliver and the numbers of bytes the successive
  calls of \<open>read\<close> have ready (\<open>read\<close> returns at most what it is asked for, and 0 at the end of the file).
\<close>

abbreviation nul_char :: char where "nul_char \<equiv> CHR 0x00"
abbreviation newline_char :: char where "newline_char \<equiv> CHR 0x0A"

section \<open>The matcher\<close>

definition char_at :: "string \<Rightarrow> nat \<Rightarrow> char" where
  "char_at s i = (if i < length s then s ! i else nul_char)"

function matchhere :: "string \<Rightarrow> string \<Rightarrow> bool" and matchstar :: "char \<Rightarrow> string \<Rightarrow> string \<Rightarrow> bool" where
  "matchhere re str =
     (if re = [] then True
      else if char_at re 1 = CHR ''*'' then matchstar (char_at re 0) (drop 2 re) str
      else if char_at re 0 = CHR ''$'' \<and> length re = 1 then str = []
      else if str \<noteq> [] \<and> (char_at re 0 = CHR ''.'' \<or> char_at re 0 = char_at str 0)
      then matchhere (drop 1 re) (drop 1 str)
      else False)"
| "matchstar c re str =
     (if matchhere re str then True
      else if str \<noteq> [] \<and> (char_at str 0 = c \<or> c = CHR ''.'') then matchstar c re (drop 1 str)
      else False)"
  by pat_completeness auto
termination
proof (relation "measure (\<lambda>x. case x of Inl (re, str) \<Rightarrow> length re + length str
    | Inr (c, re, str) \<Rightarrow> Suc (length re + length str))")
  fix re str :: string
  assume "re \<noteq> []" "char_at re 1 = CHR ''*''"
  then have "1 < length re" by (auto simp: char_at_def split: if_splits)
  then show "(Inr (char_at re 0, drop 2 re, str), Inl (re, str)) \<in>
      measure (\<lambda>x. case x of Inl (re, str) \<Rightarrow> length re + length str
        | Inr (c, re, str) \<Rightarrow> Suc (length re + length str))" by simp
qed (auto simp: neq_Nil_conv)

declare matchhere.simps [simp del] matchstar.simps [simp del]

function match_loop :: "string \<Rightarrow> string \<Rightarrow> bool" where
  "match_loop re str =
     (if matchhere re str then True else if str \<noteq> [] then match_loop re (drop 1 str) else False)"
  by pat_completeness auto
termination
  by (relation "measure (\<lambda>(re, str). length str)") auto

declare match_loop.simps [simp del]

definition match :: "string \<Rightarrow> string \<Rightarrow> bool" where
  "match re str =
     (if char_at re 0 = CHR ''^'' then matchhere (drop 1 re) str else match_loop re str)"

section \<open>The line loop\<close>

text \<open>
  The inner loop from \<open>p\<close> on, \<open>s\<close> being the bytes of the buffer from there: what it writes and how far \<open>p\<close> moves.
\<close>

function grep_scan :: "string \<Rightarrow> string \<Rightarrow> string \<times> nat" where
  "grep_scan pattern s =
     (let t = takeWhile (\<lambda>c. c \<noteq> nul_char) s; l = takeWhile (\<lambda>c. c \<noteq> newline_char) t
      in if newline_char \<in> set t
         then let (out, k) = grep_scan pattern (drop (length l + 1) s)
              in ((if match pattern l then l @ [newline_char] else []) @ out, length l + 1 + k)
         else ([], 0))"
  by pat_completeness auto
termination
proof (relation "measure (\<lambda>(pattern, s). length s)", goal_cases)
  case (2 pattern s t l)
  then have "s \<noteq> []" by auto
  then show ?case by simp
qed simp

declare grep_scan.simps [simp del]

definition sizeof_buf :: nat where "sizeof_buf = 1024"

text \<open>The outer loop; \<open>buf\<close> is the first \<open>m\<close> bytes of the buffer.\<close>

primrec grep_loop :: "string \<Rightarrow> string \<Rightarrow> nat list \<Rightarrow> string \<Rightarrow> string" where
  "grep_loop pattern buf [] input = []"
| "grep_loop pattern buf (r # rs) input =
     (let n = min r (min (sizeof_buf - length buf - 1) (length input))
      in if n = 0 then []
         else let b = buf @ take n input;
                  (out, k) = grep_scan pattern b;
                  rest = (if k = 0 then [] else drop k b)
              in out @ grep_loop pattern rest rs (drop n input))"

definition grep :: "string \<Rightarrow> nat list \<Rightarrow> string \<Rightarrow> string" where
  "grep pattern rs input = grep_loop pattern [] rs input"

section \<open>What a pattern means\<close>

text \<open>A pattern as a list of items and the words it matches; \<open>r\<close> is the text that follows the match.\<close>

datatype item = Lit char | Any | Star char | End_Of_Text

fun items :: "string \<Rightarrow> item list" where
  "items [] = []"
| "items [c] = (if c = CHR ''$'' then [End_Of_Text] else if c = CHR ''.'' then [Any] else [Lit c])"
| "items (c # d # re) =
     (if d = CHR ''*'' then Star c # items re
      else (if c = CHR ''.'' then Any else Lit c) # items (d # re))"

inductive matches :: "item list \<Rightarrow> string \<Rightarrow> string \<Rightarrow> bool" where
  stop: "matches [] [] r"
| lit: "matches is w r \<Longrightarrow> matches (Lit c # is) (c # w) r"
| any: "matches is w r \<Longrightarrow> matches (Any # is) (c # w) r"
| star: "matches is w r \<Longrightarrow> \<forall>x \<in> set u. x = c \<or> c = CHR ''.'' \<Longrightarrow> matches (Star c # is) (u @ w) r"
| eot: "matches is w [] \<Longrightarrow> matches (End_Of_Text # is) w []"

inductive_simps matches_simps:
  "matches [] w r" "matches (Lit c # is) w r" "matches (Any # is) w r" "matches (Star c # is) w r"
  "matches (End_Of_Text # is) w r"

definition matches_prefix :: "item list \<Rightarrow> string \<Rightarrow> bool" where
  "matches_prefix is str \<longleftrightarrow> (\<exists>w r. str = w @ r \<and> matches is w r)"

lemma matches_prefix_Nil [simp]: "matches_prefix [] str"
  by (simp add: matches_prefix_def matches_simps)

lemma matches_prefix_Lit [simp]:
  "matches_prefix (Lit c # is) str \<longleftrightarrow> (\<exists>t. str = c # t \<and> matches_prefix is t)"
  unfolding matches_prefix_def matches_simps by (metis append_Cons)

lemma matches_prefix_Any [simp]:
  "matches_prefix (Any # is) str \<longleftrightarrow> (\<exists>c t. str = c # t \<and> matches_prefix is t)"
  unfolding matches_prefix_def matches_simps by (metis append_Cons)

lemma matches_prefix_Star:
  "matches_prefix (Star c # is) str \<longleftrightarrow>
   (\<exists>u t. str = u @ t \<and> (\<forall>x \<in> set u. x = c \<or> c = CHR ''.'') \<and> matches_prefix is t)"
proof
  assume "matches_prefix (Star c # is) str"
  then obtain w r where wr: "str = w @ r" "matches (Star c # is) w r" by (auto simp: matches_prefix_def)
  from wr(2) obtain u w' where "w = u @ w'" "matches is w' r" "\<forall>x \<in> set u. x = c \<or> c = CHR ''.''"
    by cases
  with wr(1) show "\<exists>u t. str = u @ t \<and> (\<forall>x \<in> set u. x = c \<or> c = CHR ''.'') \<and> matches_prefix is t"
    by (intro exI [of _ u] exI [of _ "w' @ r"]) (auto simp: matches_prefix_def)
next
  assume "\<exists>u t. str = u @ t \<and> (\<forall>x \<in> set u. x = c \<or> c = CHR ''.'') \<and> matches_prefix is t"
  then obtain u w r where "str = (u @ w) @ r" "\<forall>x \<in> set u. x = c \<or> c = CHR ''.''" "matches is w r"
    by (auto simp: matches_prefix_def)
  then show "matches_prefix (Star c # is) str"
    unfolding matches_prefix_def by (blast intro: matches.star)
qed

lemma matches_prefix_Eot [simp]: "matches_prefix [End_Of_Text] str \<longleftrightarrow> str = []"
  by (simp add: matches_prefix_def matches_simps)

lemma matches_prefix_Star_step:
  "matches_prefix (Star c # is) str \<longleftrightarrow> matches_prefix is str \<or>
   (\<exists>x t. str = x # t \<and> (x = c \<or> c = CHR ''.'') \<and> matches_prefix (Star c # is) t)"
proof
  assume "matches_prefix (Star c # is) str"
  then obtain u t where u: "str = u @ t" "\<forall>x \<in> set u. x = c \<or> c = CHR ''.''" "matches_prefix is t"
    by (auto simp: matches_prefix_Star)
  show "matches_prefix is str \<or>
    (\<exists>x t. str = x # t \<and> (x = c \<or> c = CHR ''.'') \<and> matches_prefix (Star c # is) t)"
  proof (cases u)
    case (Cons x u')
    with u have "matches_prefix (Star c # is) (u' @ t)" by (auto simp: matches_prefix_Star)
    with Cons u show ?thesis by auto
  qed (use u in simp)
next
  assume "matches_prefix is str \<or>
    (\<exists>x t. str = x # t \<and> (x = c \<or> c = CHR ''.'') \<and> matches_prefix (Star c # is) t)"
  then show "matches_prefix (Star c # is) str"
  proof
    assume "matches_prefix is str"
    then show ?thesis unfolding matches_prefix_Star by (intro exI [of _ "[]"] exI [of _ str]) simp
  next
    assume "\<exists>x t. str = x # t \<and> (x = c \<or> c = CHR ''.'') \<and> matches_prefix (Star c # is) t"
    then obtain x t u v where "str = x # t" "x = c \<or> c = CHR ''.''" "t = u @ v"
      "\<forall>y \<in> set u. y = c \<or> c = CHR ''.''" "matches_prefix is v"
      by (auto simp: matches_prefix_Star)
    then show ?thesis unfolding matches_prefix_Star by (rule_tac x = "x # u" in exI, rule_tac x = v in exI) auto
  qed
qed

lemma matcher_correct:
  "matchhere re str = matches_prefix (items re) str"
  "matchstar c re str = matches_prefix (Star c # items re) str"
proof (induction re str and c re str rule: matchhere_matchstar.induct)
  case (1 re str)
  consider "re = []" | c where "re = [c]" | c d re' where "re = c # d # re'"
    by (metis neq_Nil_conv)
  then show ?case
  proof cases
    case 2
    then show ?thesis using 1 by (subst matchhere.simps) (cases str; auto simp: char_at_def)
  next
    case 3
    then show ?thesis using 1 by (subst matchhere.simps) (cases str; auto simp: char_at_def)
  qed (subst matchhere.simps, simp)
next
  case (2 c re str)
  then show ?case
    by (subst matchstar.simps, subst matches_prefix_Star_step) (cases str; auto simp: char_at_def)
qed

lemma match_loop_correct: "match_loop re str \<longleftrightarrow> (\<exists>u v. str = u @ v \<and> matches_prefix (items re) v)"
proof (induction str)
  case Nil
  then show ?case by (subst match_loop.simps) (simp add: matcher_correct)
next
  case (Cons c str)
  have "(\<exists>u v. c # str = u @ v \<and> matches_prefix (items re) v) \<longleftrightarrow>
      matches_prefix (items re) (c # str) \<or> (\<exists>u v. str = u @ v \<and> matches_prefix (items re) v)"
    by (metis append_Cons append_Nil list.exhaust list.sel(3) tl_append2)
  with Cons show ?case by (subst match_loop.simps) (simp add: matcher_correct)
qed

text \<open>
  C23. \<open>match\<close> decides its regular expressions: it always returns, and answers yes exactly when some part of
  the text (a prefix of it, if the pattern starts with \<open>^\<close>) is in the language of the pattern, where \<open>.\<close>
  stands for any character, \<open>c*\<close> for any number of \<open>c\<close> and a final \<open>$\<close> for the end of the str.
\<close>

theorem match_correct:
  "match re str \<longleftrightarrow>
     (if re \<noteq> [] \<and> hd re = CHR ''^'' then \<exists>w r. str = w @ r \<and> matches (items (tl re)) w r
      else \<exists>u w r. str = u @ w @ r \<and> matches (items re) w r)"
proof -
  have any: "match_loop re str \<longleftrightarrow> (\<exists>u w r. str = u @ w @ r \<and> matches (items re) w r)"
    by (auto simp: match_loop_correct matches_prefix_def)
  have first: "char_at re 0 = CHR ''^'' \<longleftrightarrow> re \<noteq> [] \<and> hd re = CHR ''^''"
    by (cases re) (simp_all add: char_at_def)
  have here: "matchhere (drop 1 re) str \<longleftrightarrow> (\<exists>w r. str = w @ r \<and> matches (items (tl re)) w r)"
    by (simp add: matcher_correct matches_prefix_def drop_Suc)
  show ?thesis unfolding match_def first here any ..
qed

section \<open>The lines grep prints\<close>

definition file_of :: "string list \<Rightarrow> string" where
  "file_of ls = concat (map (\<lambda>l. l @ [newline_char]) ls)"

definition text_line :: "string \<Rightarrow> bool" where
  "text_line l \<longleftrightarrow> newline_char \<notin> set l \<and> nul_char \<notin> set l"

lemma file_of_simps [simp]:
  "file_of [] = []" "file_of (l # ls) = l @ newline_char # file_of ls" "file_of (ls @ ls') = file_of ls @ file_of ls'"
  by (simp_all add: file_of_def)

lemma takeWhile_line: "newline_char \<notin> set l \<Longrightarrow> takeWhile (\<lambda>c. c \<noteq> newline_char) (l @ newline_char # r) = l"
  by (induction l) auto

lemma file_of_no_nul: "\<forall>l \<in> set ls. text_line l \<Longrightarrow> nul_char \<notin> set (file_of ls)"
  by (induction ls) (auto simp: text_line_def)

lemma grep_scan_lines:
  assumes "\<forall>l \<in> set ls. text_line l" "text_line part"
  shows "grep_scan pattern (file_of ls @ part) = (file_of (filter (match pattern) ls), length (file_of ls))"
  using assms
proof (induction ls)
  case Nil
  then show ?case by (subst grep_scan.simps) (auto simp: text_line_def Let_def dest: set_takeWhileD)
next
  case (Cons l ls)
  let ?s = "l @ newline_char # file_of ls @ part"
  have nul: "nul_char \<notin> set ?s"
    using Cons.prems file_of_no_nul [of ls] by (auto simp: text_line_def)
  then have t: "takeWhile (\<lambda>c. c \<noteq> nul_char) ?s = ?s" by (subst takeWhile_eq_all_conv) auto
  have l: "takeWhile (\<lambda>c. c \<noteq> newline_char) ?s = l"
    using Cons.prems by (simp add: text_line_def takeWhile_line)
  from Cons show ?case
    by (subst grep_scan.simps) (simp add: t l)
qed

lemma take_file_of:
  "\<exists>ls1 ls2 part. ls = ls1 @ ls2 \<and> take k (file_of ls) = file_of ls1 @ part \<and>
     part @ drop k (file_of ls) = file_of ls2 \<and> (\<forall>l ls2'. ls2 = l # ls2' \<longrightarrow> set part \<subseteq> set l) \<and>
     (ls2 = [] \<longrightarrow> part = []) \<and>
     (\<forall>l ls'. ls = l # ls' \<longrightarrow> length l < k \<longrightarrow> ls1 \<noteq> [])"
proof (induction ls arbitrary: k)
  case (Cons l ls)
  show ?case
  proof (cases "length l < k")
    case False
    then show ?thesis
      by (intro exI [of _ "[]"] exI [of _ "l # ls"] exI [of _ "take k l"]) (auto dest: in_set_takeD)
  next
    case True
    from Cons.IH [of "k - length l - 1"] obtain ls1 ls2 part where
      IH: "ls = ls1 @ ls2" "take (k - length l - 1) (file_of ls) = file_of ls1 @ part"
        "part @ drop (k - length l - 1) (file_of ls) = file_of ls2"
        "\<forall>l ls2'. ls2 = l # ls2' \<longrightarrow> set part \<subseteq> set l" "ls2 = [] \<longrightarrow> part = []" by blast
    obtain j where k: "k - length l = Suc j" using True by (cases "k - length l") auto
    show ?thesis
      by (rule exI [of _ "l # ls1"], rule exI [of _ ls2], rule exI [of _ part])
        (use True k IH in \<open>auto simp: take_Cons' drop_Cons'\<close>)
  qed
qed simp

lemma carry_short:
  assumes "carry @ input = l @ newline_char # r" "newline_char \<notin> set carry"
  shows "length carry \<le> length l" "input \<noteq> []"
proof -
  show "length carry \<le> length l"
  proof (rule ccontr)
    assume "\<not> ?thesis"
    then have "carry ! length l = (carry @ input) ! length l" by (simp add: nth_append)
    then have "carry ! length l = newline_char" by (simp add: assms(1))
    with \<open>\<not> ?thesis\<close> assms(2) show False by (metis not_le nth_mem)
  qed
  show "input \<noteq> []" using assms by auto
qed

lemma grep_loop_lines:
  assumes "carry @ input = file_of ls" "newline_char \<notin> set carry"
    and "\<forall>l \<in> set ls. text_line l \<and> length l < 1023" "\<forall>r \<in> set rs. 1023 \<le> r" "length input < length rs"
  shows "grep_loop pattern carry rs input = file_of (filter (match pattern) ls)"
  using assms
proof (induction rs arbitrary: carry input ls)
  case (Cons r rs)
  show ?case
  proof (cases ls)
    case Nil
    with Cons.prems show ?thesis by simp
  next
    case (Cons l ls')
    have short: "length carry \<le> length l" "input \<noteq> []"
      using carry_short [of carry input l "file_of ls'"] Cons Cons.prems(1,2) by auto
    have l: "length l < 1023" using Cons Cons.prems(3) by simp
    define n where "n = min r (min (sizeof_buf - length carry - 1) (length input))"
    have n: "n = min (1023 - length carry) (length input)" "0 < n"
      using Cons.prems(4) short l by (auto simp: n_def sizeof_buf_def)
    have b: "carry @ take n input = take 1023 (file_of ls)" "drop n input = drop 1023 (file_of ls)"
      using short(1) l by (auto simp: n(1) Cons.prems(1) [symmetric] min_def)
    obtain ls1 ls2 part where split: "ls = ls1 @ ls2" "take 1023 (file_of ls) = file_of ls1 @ part"
        "part @ drop 1023 (file_of ls) = file_of ls2" "\<forall>l ls2'. ls2 = l # ls2' \<longrightarrow> set part \<subseteq> set l"
        "ls2 = [] \<longrightarrow> part = []" "\<forall>l ls'. ls = l # ls' \<longrightarrow> length l < 1023 \<longrightarrow> ls1 \<noteq> []"
      using take_file_of [of ls 1023] by blast
    have part: "text_line part"
      using Cons.prems(3) split(1,4,5) by (cases ls2) (auto simp: text_line_def)
    have scan: "grep_scan pattern (carry @ take n input) =
        (file_of (filter (match pattern) ls1), length (file_of ls1))"
      unfolding b(1) split(2) using Cons.prems(3) part by (intro grep_scan_lines) (auto simp: split(1))
    have ne: "length (file_of ls1) \<noteq> 0"
      using split(6) Cons l by (cases ls1) auto
    have "part @ drop n input = file_of ls2" using split(3) b(2) by simp
    moreover have "length (drop n input) < length rs" using Cons.prems(5) n(2) short(2) by (cases input) auto
    ultimately have "grep_loop pattern part rs (drop n input) = file_of (filter (match pattern) ls2)"
      using Cons.prems(3,4) part by (intro Cons.IH) (auto simp: split(1) text_line_def)
    moreover have "drop (length (file_of ls1)) (carry @ take n input) = part"
      unfolding b(1) split(2) by simp
    moreover have "grep_loop pattern carry (r # rs) input = file_of (filter (match pattern) ls1) @
        grep_loop pattern (drop (length (file_of ls1)) (carry @ take n input)) rs (drop n input)"
      unfolding grep_loop.simps n_def [symmetric] Let_def scan using ne n(2) by simp
    ultimately show ?thesis by (simp only: split(1) filter_append file_of_simps)
  qed
qed simp

text \<open>
  C24. On a file of complete lines, each shorter than the buffer allows (1022 characters), read in full
  buffers, \<open>grep\<close> prints exactly the matching lines, complete and in order.
\<close>

theorem grep_prints_matching_lines:
  assumes "\<forall>l \<in> set ls. text_line l \<and> length l < 1023"
    and "\<forall>r \<in> set rs. 1023 \<le> r" "length (file_of ls) < length rs"
  shows "grep pattern rs (file_of ls) = file_of (filter (match pattern) ls)"
  using grep_loop_lines [of "[]" "file_of ls" ls rs pattern] assms by (simp add: grep_def)

theorem grep_prints_matching_lines_witness:
  "grep ''ab*c'' (replicate 20 1023) (file_of [''xabbc'', ''ab'', ''ac'']) =
    file_of (filter (match ''ab*c'') [''xabbc'', ''ab'', ''ac''])"
  using grep_prints_matching_lines [of "[''xabbc'', ''ab'', ''ac'']" "replicate 20 1023" "''ab*c''"]
  by (simp add: text_line_def)

text \<open>
  Short reads lose data: the part of a line that a read ends in the middle of is thrown away when the buffer
  holds no newline, and the rest of the line is then taken for a line of its own.
\<close>

theorem grep_short_read_loses_line:
  "match ''^bc'' ''abc'' = False \<and> grep ''^bc'' [1, 1023, 1023] (file_of [''abc'']) = file_of [''bc'']"
  by code_simp

end
