(* ===== verification/Xv6_String.thy ===== *)
theory Xv6_String
  imports Prelude
begin

text \<open>
  The string and memory routines of xv6: \<open>string.c\<close> of the kernel and \<open>ulib.c\<close> of the user library, with
  the two string instructions of \<open>x86.h\<close> they rest on. Memory is a byte for each of the 2^32 addresses;
  pointers are 32-bit words that wrap around. A loop that only stops at a byte it finds in memory is
  a \<open>partial_function (option)\<close>, where \<open>None\<close> is a loop that never stops.
\<close>

type_synonym mem = "u32 \<Rightarrow> u8"

section \<open>x86.h: the string instructions\<close>

fun stosb :: "mem \<Rightarrow> u32 \<Rightarrow> u32 \<Rightarrow> nat \<Rightarrow> mem" where
  "stosb m a d 0 = m"
| "stosb m a d (Suc k) = stosb (m(a := ucast d)) (a + 1) d k"

definition store4 :: "mem \<Rightarrow> u32 \<Rightarrow> u32 \<Rightarrow> mem" where
  "store4 m a d = m(a := ucast d, a + 1 := ucast (drop_bit 8 d),
     a + 2 := ucast (drop_bit 16 d), a + 3 := ucast (drop_bit 24 d))"

fun stosl :: "mem \<Rightarrow> u32 \<Rightarrow> u32 \<Rightarrow> nat \<Rightarrow> mem" where
  "stosl m a d 0 = m"
| "stosl m a d (Suc k) = stosl (store4 m a d) (a + 4) d k"

section \<open>string.c\<close>

unbundle bit_operations_syntax

definition memset :: "mem \<Rightarrow> u32 \<Rightarrow> u32 \<Rightarrow> u32 \<Rightarrow> mem" where
  "memset m dst c n =
     (if sint dst mod 4 = 0 \<and> n mod 4 = 0
      then let c' = c AND 0xFF
           in stosl m dst (push_bit 24 c' OR push_bit 16 c' OR push_bit 8 c' OR c') (unat (n div 4))
      else stosb m dst c (unat n))"

fun memcmp_loop :: "mem \<Rightarrow> u32 \<Rightarrow> u32 \<Rightarrow> nat \<Rightarrow> int" where
  "memcmp_loop m s1 s2 0 = 0"
| "memcmp_loop m s1 s2 (Suc k) =
     (if m s1 \<noteq> m s2 then uint (m s1) - uint (m s2) else memcmp_loop m (s1 + 1) (s2 + 1) k)"

definition memcmp :: "mem \<Rightarrow> u32 \<Rightarrow> u32 \<Rightarrow> u32 \<Rightarrow> int" where
  "memcmp m v1 v2 n = memcmp_loop m v1 v2 (unat n)"

fun copy_up :: "mem \<Rightarrow> u32 \<Rightarrow> u32 \<Rightarrow> nat \<Rightarrow> mem" where
  "copy_up m d s 0 = m"
| "copy_up m d s (Suc k) = copy_up (m(d := m s)) (d + 1) (s + 1) k"

fun copy_down :: "mem \<Rightarrow> u32 \<Rightarrow> u32 \<Rightarrow> nat \<Rightarrow> mem" where
  "copy_down m d s 0 = m"
| "copy_down m d s (Suc k) = copy_down (m(d - 1 := m (s - 1))) (d - 1) (s - 1) k"

definition memmove :: "mem \<Rightarrow> u32 \<Rightarrow> u32 \<Rightarrow> u32 \<Rightarrow> mem" where
  "memmove m dst src n =
     (if src < dst \<and> src + n > dst then copy_down m (dst + n) (src + n) (unat n)
      else copy_up m dst src (unat n))"

definition memcpy :: "mem \<Rightarrow> u32 \<Rightarrow> u32 \<Rightarrow> u32 \<Rightarrow> mem" where
  "memcpy m dst src n = memmove m dst src n"

fun strncmp_loop :: "mem \<Rightarrow> u32 \<Rightarrow> u32 \<Rightarrow> nat \<Rightarrow> int" where
  "strncmp_loop m p q 0 = 0"
| "strncmp_loop m p q (Suc k) =
     (if m p \<noteq> 0 \<and> m p = m q then strncmp_loop m (p + 1) (q + 1) k
      else uint (m p) - uint (m q))"

definition strncmp :: "mem \<Rightarrow> u32 \<Rightarrow> u32 \<Rightarrow> u32 \<Rightarrow> int" where
  "strncmp m p q n = strncmp_loop m p q (unat n)"

fun zero_loop :: "mem \<Rightarrow> u32 \<Rightarrow> nat \<Rightarrow> mem" where
  "zero_loop m s 0 = m"
| "zero_loop m s (Suc k) = zero_loop (m(s := 0)) (s + 1) k"

fun strncpy_loop :: "mem \<Rightarrow> u32 \<Rightarrow> u32 \<Rightarrow> nat \<Rightarrow> mem" where
  "strncpy_loop m s t 0 = m"
| "strncpy_loop m s t (Suc k) =
     (let m' = m(s := m t)
      in if m t \<noteq> 0 then strncpy_loop m' (s + 1) (t + 1) k else zero_loop m' (s + 1) k)"

definition strncpy :: "mem \<Rightarrow> u32 \<Rightarrow> u32 \<Rightarrow> int \<Rightarrow> mem" where
  "strncpy m s t n = strncpy_loop m s t (nat n)"

text \<open>The loop of \<open>safestrcpy\<close> with \<open>k\<close> the value of \<open>--n\<close> at the test; after it \<open>*s = 0\<close>.\<close>

fun safestrcpy_loop :: "mem \<Rightarrow> u32 \<Rightarrow> u32 \<Rightarrow> nat \<Rightarrow> mem" where
  "safestrcpy_loop m s t 0 = m(s := 0)"
| "safestrcpy_loop m s t (Suc k) =
     (let m' = m(s := m t)
      in if m t \<noteq> 0 then safestrcpy_loop m' (s + 1) (t + 1) k else m'(s + 1 := 0))"

definition safestrcpy :: "mem \<Rightarrow> u32 \<Rightarrow> u32 \<Rightarrow> int \<Rightarrow> mem" where
  "safestrcpy m s t n = (if n \<le> 0 then m else safestrcpy_loop m s t (nat n - 1))"

partial_function (option) strlen_from :: "mem \<Rightarrow> u32 \<Rightarrow> int \<Rightarrow> int option" where
  "strlen_from m s n = (if m (s + of_int n) \<noteq> 0 then strlen_from m s (n + 1) else Some n)"

definition strlen :: "mem \<Rightarrow> u32 \<Rightarrow> int option" where
  "strlen m s = strlen_from m s 0"

section \<open>ulib.c\<close>

partial_function (option) strcpy :: "mem \<Rightarrow> u32 \<Rightarrow> u32 \<Rightarrow> mem option" where
  "strcpy m s t = (if m t \<noteq> 0 then strcpy (m(s := m t)) (s + 1) (t + 1) else Some (m(s := m t)))"

partial_function (option) strcmp :: "mem \<Rightarrow> u32 \<Rightarrow> u32 \<Rightarrow> int option" where
  "strcmp m p q =
     (if m p \<noteq> 0 \<and> m p = m q then strcmp m (p + 1) (q + 1) else Some (uint (m p) - uint (m q)))"

definition ulib_memset :: "mem \<Rightarrow> u32 \<Rightarrow> u32 \<Rightarrow> u32 \<Rightarrow> mem" where
  "ulib_memset m dst c n = stosb m dst c (unat n)"

partial_function (option) strchr :: "mem \<Rightarrow> u32 \<Rightarrow> u8 \<Rightarrow> u32 option option" where
  "strchr m s c =
     (if m s = 0 then Some None else if m s = c then Some (Some s) else strchr m (s + 1) c)"

text \<open>\<open>gets\<close> reads from the bytes still to come on descriptor 0; \<open>[]\<close> is end of file. It also returns the rest.\<close>

function gets_loop :: "mem \<Rightarrow> u32 \<Rightarrow> int \<Rightarrow> int \<Rightarrow> u8 list \<Rightarrow> mem \<times> int \<times> u8 list" where
  "gets_loop m buf mx i input =
     (if i + 1 < mx
      then case input of
             [] \<Rightarrow> (m, i, [])
           | c # rest \<Rightarrow>
              let m' = m(buf + of_int i := c)
              in if c = 10 \<or> c = 13 then (m', i + 1, rest) else gets_loop m' buf mx (i + 1) rest
      else (m, i, input))"
  by pat_completeness auto
termination
  by (relation "measure (\<lambda>(m, buf, mx, i, input). nat (mx - i))") auto

definition gets :: "mem \<Rightarrow> u32 \<Rightarrow> int \<Rightarrow> u8 list \<Rightarrow> mem \<times> u8 list" where
  "gets m buf mx input =
     (case gets_loop m buf mx 0 input of (m', i, rest) \<Rightarrow> (m'(buf + of_int i := 0), rest))"

definition in_int :: "int \<Rightarrow> bool" where
  "in_int x \<longleftrightarrow> - 2147483648 \<le> x \<and> x \<le> 2147483647"

partial_function (option) atoi_from :: "mem \<Rightarrow> u32 \<Rightarrow> int \<Rightarrow> int c_result option" where
  "atoi_from m s n =
     (if 48 \<le> uint (m s) \<and> uint (m s) \<le> 57
      then (if in_int (n * 10) \<and> in_int (n * 10 + uint (m s))
            then atoi_from m (s + 1) (n * 10 + uint (m s) - 48)
            else Some (Inl Int_Overflow))
      else Some (Inr n))"

definition atoi :: "mem \<Rightarrow> u32 \<Rightarrow> int c_result option" where
  "atoi m s = atoi_from m s 0"

definition ulib_memmove :: "mem \<Rightarrow> u32 \<Rightarrow> u32 \<Rightarrow> int \<Rightarrow> mem" where
  "ulib_memmove m vdst vsrc n = copy_up m vdst vsrc (nat n)"

declare gets_loop.simps [simp del]

section \<open>Filling memory\<close>

text \<open>The \<open>k\<close> bytes from \<open>a\<close> on, around the end of the address space where they run over it.\<close>

definition in_range :: "u32 \<Rightarrow> u32 \<Rightarrow> nat \<Rightarrow> bool" where
  "in_range x a k \<longleftrightarrow> unat (x - a) < k"

lemma unat_minus_step:
  fixes x :: u32
  assumes "x \<noteq> 0"
  shows "unat (x - 1) = unat x - 1" "0 < unat x"
  using assms by (auto simp: unat_dec_no_wrap unat_gt_0)

lemma in_range_Suc:
  assumes "Suc k \<le> 2 ^ 32"
  shows "in_range x a (Suc k) \<longleftrightarrow> x = a \<or> in_range x (a + 1) k"
    and "\<not> in_range a (a + 1) k"
proof -
  have top: "unat (- 1 :: u32) = 2 ^ 32 - 1"
    by (simp add: unsigned_minus_1_eq_mask mask_eq_exp_minus_1)
  show "\<not> in_range a (a + 1) k" using assms by (simp add: in_range_def top)
  show "in_range x a (Suc k) \<longleftrightarrow> x = a \<or> in_range x (a + 1) k"
  proof (cases "x = a")
    case False
    then have "x - a \<noteq> 0" by simp
    from unat_minus_step [OF this] have "unat (x - (a + 1)) = unat (x - a) - 1" "0 < unat (x - a)"
      by (simp_all add: algebra_simps)
    with False show ?thesis by (auto simp: in_range_def)
  qed (simp add: in_range_def)
qed

lemma in_range_no_wrap:
  assumes "unat a + k \<le> 2 ^ 32"
  shows "in_range x a k \<longleftrightarrow> unat a \<le> unat x \<and> unat x < unat a + k"
  using assms u32_bound(1) [of x] u32_bound(1) [of a]
  by (auto simp: in_range_def unat_sub_if')

lemma stosb_spec:
  assumes "k \<le> 2 ^ 32"
  shows "stosb m a d k = (\<lambda>x. if in_range x a k then ucast d else m x)"
  using assms
proof (induction k arbitrary: m a)
  case (Suc k)
  then have "stosb m a d (Suc k) = (\<lambda>x. if in_range x (a + 1) k then ucast d else (m(a := ucast d)) x)"
    by simp
  with Suc.prems show ?case by (auto simp: in_range_Suc fun_eq_iff)
qed (simp add: in_range_def)

lemma stosb_add: "stosb m a d (j + k) = stosb (stosb m a d j) (a + of_nat j) d k"
  by (induction j arbitrary: m a) (simp_all add: algebra_simps)

lemma stosl_stosb:
  assumes "\<And>m a. store4 m a w = stosb m a d 4"
  shows "stosl m a w k = stosb m a d (4 * k)"
  by (induction k arbitrary: m a) (simp_all add: assms stosb_add)

lemma stosb_four:
  "stosb m a d 4 = m(a := ucast d, a + 1 := ucast d, a + 2 := ucast d, a + 3 := ucast d)"
  by (simp add: eval_nat_numeral add.commute)

lemma fill_word_bytes:
  fixes c :: u32
  defines "c' \<equiv> c AND 0xFF"
  defines "w \<equiv> push_bit 24 c' OR push_bit 16 c' OR push_bit 8 c' OR c'"
  shows "store4 m a w = stosb m a c 4"
proof -
  have mask: "c AND 0xFF = take_bit 8 c" by (simp add: take_bit_eq_mask mask_eq_exp_minus_1)
  have "(ucast (drop_bit j w) :: u8) = ucast c" if "j \<in> {0, 8, 16, 24}" for j
    by (rule bit_word_eqI) (use that in \<open>auto simp: w_def c'_def mask bit_simps\<close>)
  from this [of 0] this [of 8] this [of 16] this [of 24] show ?thesis
    by (simp add: store4_def stosb_four)
qed

lemma memset_spec:
  "memset m dst c n = (\<lambda>x. if in_range x dst (unat n) then ucast c else m x)"
proof (cases "sint dst mod 4 = 0 \<and> n mod 4 = 0")
  case True
  have "unat (n mod 4) = unat n mod 4" "unat (n div 4) = unat n div 4"
    by (simp_all add: unat_mod_distrib unat_div_distrib)
  with True have n: "4 * unat (n div 4) = unat n" by auto
  have "memset m dst c n = stosb m dst c (4 * unat (n div 4))"
    using True stosl_stosb [OF fill_word_bytes] by (simp add: memset_def Let_def)
  with n show ?thesis using stosb_spec [OF u32_bound(2)] by simp
next
  case False
  then have "memset m dst c n = stosb m dst c (unat n)" unfolding memset_def by (rule if_not_P)
  then show ?thesis using stosb_spec [OF u32_bound(2)] by simp
qed

section \<open>Moving memory\<close>

text \<open>The move that both copying loops are to perform: every byte comes from the memory before the move.\<close>

definition moved :: "mem \<Rightarrow> u32 \<Rightarrow> u32 \<Rightarrow> nat \<Rightarrow> mem" where
  "moved m d s k = (\<lambda>x. if in_range x d k then m (s + (x - d)) else m x)"

lemma copy_up_moved:
  assumes "k \<le> 2 ^ 32" "d = s \<or> \<not> in_range d s k"
  shows "copy_up m d s k = moved m d s k"
  using assms
proof (induction k arbitrary: m d s)
  case (Suc k)
  have le: "k \<le> 2 ^ 32" and apart: "d + 1 = s + 1 \<or> \<not> in_range (d + 1) (s + 1) k"
    using Suc.prems by (auto simp: in_range_def)
  have "moved (m(d := m s)) (d + 1) (s + 1) k x = moved m d s (Suc k) x" for x
  proof (cases "x \<noteq> d \<and> in_range x (d + 1) k")
    case True
    then have "in_range x d (Suc k)" using Suc.prems(1) by (simp add: in_range_Suc)
    moreover have "s + (x - d) \<noteq> d"
    proof
      assume "s + (x - d) = d"
      then have "d - s = x - d" by (simp add: algebra_simps)
      with \<open>in_range x d (Suc k)\<close> Suc.prems(2) True show False by (auto simp: in_range_def)
    qed
    moreover have "s + 1 + (x - (d + 1)) = s + (x - d)" by simp
    ultimately show ?thesis using True by (simp add: moved_def)
  next
    case False
    with Suc.prems(1) show ?thesis by (auto simp: moved_def in_range_Suc)
  qed
  with Suc.IH [OF le apart] show ?case by (simp add: fun_eq_iff)
qed (simp add: moved_def in_range_def)

lemma copy_down_moved:
  assumes "k \<le> 2 ^ 32" "s = d \<or> \<not> in_range s d k"
  shows "copy_down m (d + of_nat k) (s + of_nat k) k = moved m d s k"
  using assms
proof (induction k arbitrary: m)
  case (Suc k)
  let ?m = "m(d + of_nat k := m (s + of_nat k))"
  have le: "k \<le> 2 ^ 32" and apart: "s = d \<or> \<not> in_range s d k"
    using Suc.prems by (auto simp: in_range_def)
  have k: "unat (of_nat k :: u32) = k" using Suc.prems(1) by (simp add: unat_of_nat)
  have "moved ?m d s k x = moved m d s (Suc k) x" for x
  proof (cases "in_range x d k")
    case True
    have "s + (x - d) \<noteq> d + of_nat k \<or> s = d"
    proof (rule ccontr)
      assume a: "\<not> ?thesis"
      then have "s - d = of_nat k - (x - d)" by (simp add: algebra_simps)
      moreover have "x - d \<le> of_nat k" using True k by (simp add: in_range_def word_le_nat_alt)
      ultimately have "unat (s - d) = k - unat (x - d)" using unat_sub k by metis
      with a Suc.prems(2) show False by (auto simp: in_range_def)
    qed
    moreover have "x \<noteq> d + of_nat k" using True k by (auto simp: in_range_def)
    ultimately show ?thesis using True by (auto simp: moved_def in_range_def)
  next
    case False
    have "in_range x d (Suc k) \<longleftrightarrow> x = d + of_nat k"
    proof
      assume "in_range x d (Suc k)"
      with False have "unat (x - d) = k" by (simp add: in_range_def)
      then have "x - d = of_nat k" using k by (simp add: word_unat_eq_iff)
      then show "x = d + of_nat k" by (simp add: algebra_simps)
    qed (simp add: in_range_def k)
    with False show ?thesis by (auto simp: moved_def)
  qed
  then have "moved ?m d s k = moved m d s (Suc k)" by blast
  moreover have "copy_down m (d + of_nat (Suc k)) (s + of_nat (Suc k)) (Suc k) =
      copy_down ?m (d + of_nat k) (s + of_nat k) k" by (simp add: algebra_simps)
  ultimately show ?case using Suc.IH [OF le apart] by metis
qed (simp add: moved_def in_range_def)

lemma moved_self: "moved m d d k = m"
  by (auto simp: moved_def fun_eq_iff)

text \<open>
  C32. The kernel's \<open>memmove\<close> is correct for overlapping ranges too: whenever neither range runs over
  the end of the address space, the destination receives the bytes the source had before the call and
  nothing else changes.
\<close>

theorem memmove_correct:
  assumes "unat dst + unat n \<le> 2 ^ 32" "unat src + unat n < 2 ^ 32"
  shows "memmove m dst src n =
    (\<lambda>x. if unat dst \<le> unat x \<and> unat x < unat dst + unat n then m (src + (x - dst)) else m x)"
proof -
  have "memmove m dst src n = moved m dst src (unat n)"
  proof (cases "src < dst \<and> src + n > dst")
    case True
    have "\<not> in_range src dst (unat n)"
      using True assms(1) by (simp add: in_range_no_wrap word_less_nat_alt)
    then show ?thesis
      using True copy_down_moved [OF u32_bound(2), of src dst n] by (simp add: memmove_def)
  next
    case False
    have "unat (src + n) = unat src + unat n"
      using assms(2) by (simp add: unat_word_ariths)
    with False have "dst = src \<or> \<not> in_range dst src (unat n)"
      using assms(2) by (auto simp: in_range_no_wrap word_less_nat_alt word_unat_eq_iff)
    then show ?thesis
      using False copy_up_moved [OF u32_bound(2)] by (simp add: memmove_def if_not_P)
  qed
  then show ?thesis by (simp add: moved_def in_range_no_wrap [OF assms(1)])
qed

theorem memmove_correct_witness:
  "memmove (\<lambda>a. ucast a) 0x1002 0x1000 8 =
    (\<lambda>x. if 0x1002 \<le> unat x \<and> unat x < 0x1002 + 8 then ucast (0x1000 + (x - 0x1002)) else ucast x)"
  using memmove_correct [of "0x1002" 8 "0x1000" ucast] by simp

text \<open>The user library always copies upwards: right when the destination does not start inside the source.\<close>

lemma ulib_memmove_spec:
  assumes "0 \<le> n" "n \<le> 2 ^ 32" "vdst = vsrc \<or> \<not> in_range vdst vsrc (nat n)"
  shows "ulib_memmove m vdst vsrc n = moved m vdst vsrc (nat n)"
  using assms by (simp add: ulib_memmove_def copy_up_moved)

lemma ulib_memset_agrees: "ulib_memset m dst c n = memset m dst c n"
  by (simp only: ulib_memset_def memset_spec stosb_spec [OF u32_bound(2)])

section \<open>Strings\<close>

definition bytes :: "mem \<Rightarrow> u32 \<Rightarrow> nat \<Rightarrow> u8 list" where
  "bytes m a k = map (\<lambda>i. m (a + of_nat i)) [0..<k]"

text \<open>The string in a field of \<open>k\<close> bytes: up to the first NUL, or the whole field.\<close>

definition field_string :: "mem \<Rightarrow> u32 \<Rightarrow> nat \<Rightarrow> u8 list" where
  "field_string m a k = takeWhile (\<lambda>c. c \<noteq> 0) (bytes m a k)"

lemma bytes_Suc [simp]: "bytes m a (Suc k) = m a # bytes m (a + 1) k"
  by (simp add: bytes_def upt_conv_Cons map_Suc_upt [symmetric] comp_def algebra_simps del: upt_Suc)

lemma length_bytes [simp]: "length (bytes m a k) = k"
  by (simp add: bytes_def)

lemma bytes_0 [simp]: "bytes m a 0 = []"
  by (simp add: bytes_def)

lemma field_string_simps [simp]:
  "field_string m a 0 = []"
  "field_string m a (Suc k) = (if m a = 0 then [] else m a # field_string m (a + 1) k)"
  by (simp_all add: field_string_def)

lemma length_field_string: "length (field_string m a k) \<le> k"
  by (simp add: field_string_def length_takeWhile_le [THEN order_trans])

lemma in_range_of_nat: "i < k \<Longrightarrow> k \<le> 2 ^ 32 \<Longrightarrow> in_range (a + of_nat i) a k"
  by (simp add: in_range_def unat_of_nat)

lemma bytes_cong:
  assumes "\<And>x. in_range x a k \<Longrightarrow> m x = m' x" "k \<le> 2 ^ 32"
  shows "bytes m a k = bytes m' a k" "field_string m a k = field_string m' a k"
proof -
  show "bytes m a k = bytes m' a k" using assms by (simp add: bytes_def in_range_of_nat)
  then show "field_string m a k = field_string m' a k" by (simp add: field_string_def)
qed

lemma strncmp_loop_zero: "strncmp_loop m p q k = 0 \<longleftrightarrow> field_string m p k = field_string m q k"
  by (induction k arbitrary: p q) (auto simp: word_uint_eq_iff)

lemma strncmp_loop_less: "strncmp_loop m p q k < 0 \<longleftrightarrow> ord_class.lexordp (field_string m p k) (field_string m q k)"
proof (induction k arbitrary: p q)
  case (Suc k)
  have "uint (m p) - uint (m q) < 0 \<longleftrightarrow> m p < m q" "m q \<noteq> 0 \<Longrightarrow> 0 < m q"
    by (simp add: word_less_def) (simp add: word_gt_0)
  with Suc show ?case by (auto simp: less_imp_not_less)
qed simp

text \<open>
  C38. \<open>strncmp\<close> orders the strings in the two fields: it is 0 exactly when they are equal and negative exactly
  when the first comes first in the order of unsigned bytes.
\<close>

theorem strncmp_orders:
  "(strncmp m p q n = 0 \<longleftrightarrow> field_string m p (unat n) = field_string m q (unat n)) \<and>
   (strncmp m p q n < 0 \<longleftrightarrow> ord_class.lexordp (field_string m p (unat n)) (field_string m q (unat n)))"
  by (simp add: strncmp_def strncmp_loop_zero strncmp_loop_less)

lemma zero_loop_stosb: "zero_loop m s k = stosb m s 0 k"
  by (induction k arbitrary: m s) simp_all

lemma strncpy_loop_outside:
  "k \<le> 2 ^ 32 \<Longrightarrow> \<not> in_range x s k \<Longrightarrow> strncpy_loop m s t k x = m x"
  by (induction k arbitrary: m s t)
    (auto simp: in_range_Suc Let_def zero_loop_stosb stosb_spec)

lemma bytes_stosb_zero: "k \<le> 2 ^ 32 \<Longrightarrow> bytes (stosb m s 0 k) s k = replicate k 0"
  by (auto simp: bytes_def stosb_spec in_range_of_nat intro: nth_equalityI)

lemma strncpy_loop_inside:
  assumes "k \<le> 2 ^ 32" "\<forall>x. in_range x s k \<longrightarrow> \<not> in_range x t k"
  shows "bytes (strncpy_loop m s t k) s k =
    field_string m t k @ replicate (k - length (field_string m t k)) 0"
  using assms
proof (induction k arbitrary: m s t)
  case (Suc k)
  let ?m = "m(s := m t)"
  have k: "k \<le> 2 ^ 32" and next_disj: "\<forall>x. in_range x (s + 1) k \<longrightarrow> \<not> in_range x (t + 1) k"
    using Suc.prems by (auto simp: in_range_Suc)
  have same: "field_string ?m (t + 1) k = field_string m (t + 1) k"
    using Suc.prems by (intro bytes_cong) (auto simp: in_range_Suc)
  have s: "\<not> in_range s (s + 1) k" using Suc.prems(1) by (rule in_range_Suc(2))
  show ?case
  proof (cases "m t = 0")
    case True
    with s k show ?thesis
      by (simp add: zero_loop_stosb bytes_stosb_zero) (simp add: stosb_spec)
  next
    case False
    have "bytes (strncpy_loop ?m (s + 1) (t + 1) k) (s + 1) k =
        field_string m (t + 1) k @ replicate (k - length (field_string m (t + 1) k)) 0"
      using Suc.IH [OF k next_disj] same by metis
    with False s k show ?thesis by (simp add: Let_def strncpy_loop_outside)
  qed
qed simp

lemma safestrcpy_loop_outside:
  "Suc k \<le> 2 ^ 32 \<Longrightarrow> \<not> in_range x s (Suc k) \<Longrightarrow> safestrcpy_loop m s t k x = m x"
proof (induction k arbitrary: m s t)
  case (Suc k)
  then have "x \<noteq> s" "\<not> in_range x (s + 1) (Suc k)" by (auto simp: in_range_Suc)
  moreover from this have "x \<noteq> s + 1" by (auto simp: in_range_def)
  ultimately show ?case using Suc by (simp add: Let_def)
qed (auto simp: in_range_def)

lemma safestrcpy_loop_inside:
  assumes "Suc k \<le> 2 ^ 32" "\<forall>x. in_range x s (Suc k) \<longrightarrow> \<not> in_range x t k"
  shows "field_string (safestrcpy_loop m s t k) s (Suc k) = field_string m t k"
  using assms
proof (induction k arbitrary: m s t)
  case (Suc k)
  let ?m = "m(s := m t)"
  have k: "Suc k \<le> 2 ^ 32" "k \<le> 2 ^ 32" and next_disj: "\<forall>x. in_range x (s + 1) (Suc k) \<longrightarrow> \<not> in_range x (t + 1) k"
    using Suc.prems by (auto simp: in_range_Suc)
  have same: "field_string ?m (t + 1) k = field_string m (t + 1) k"
    using Suc.prems k by (intro bytes_cong) (auto simp: in_range_Suc)
  have s: "\<not> in_range s (s + 1) (Suc k)" using Suc.prems(1) by (rule in_range_Suc(2))
  then have s': "s \<noteq> s + 1" by (auto simp: in_range_def)
  show ?case
  proof (cases "m t = 0")
    case True
    with s' show ?thesis by (simp add: Let_def)
  next
    case False
    have "safestrcpy_loop m s t (Suc k) s = m t"
      using False s k by (simp add: Let_def safestrcpy_loop_outside del: in_range_Suc)
    moreover have "field_string (safestrcpy_loop m s t (Suc k)) (s + 1) (Suc k) = field_string m (t + 1) k"
      using False Suc.IH [OF k(1) next_disj, of ?m] same by (simp only: safestrcpy_loop.simps Let_def if_True not_False_eq_True)
    ultimately show ?thesis using False field_string_simps(2) by metis
  qed
qed simp

text \<open>
  C37. Copying a string into a field it does not overlap. \<open>strncpy\<close> fills the field with the source string,
  cut to the field, padded with NULs (so a string as long as the field is left unterminated);
  \<open>safestrcpy\<close> leaves a terminated string that is the source cut to one byte less than the field.
  Neither writes outside the field.
\<close>

theorem string_copies:
  assumes "0 < n" "n \<le> 2 ^ 32" "\<forall>x. in_range x s (nat n) \<longrightarrow> \<not> in_range x t (nat n)"
  shows "bytes (strncpy m s t n) s (nat n) =
      field_string m t (nat n) @ replicate (nat n - length (field_string m t (nat n))) 0 \<and>
    field_string (safestrcpy m s t n) s (nat n) = field_string m t (nat n - 1) \<and>
    (\<forall>x. \<not> in_range x s (nat n) \<longrightarrow> strncpy m s t n x = m x \<and> safestrcpy m s t n x = m x)"
proof -
  obtain k where k: "nat n = Suc k" "Suc k \<le> 2 ^ 32" using assms(1,2) by (cases "nat n") auto
  have "\<forall>x. in_range x s (Suc k) \<longrightarrow> \<not> in_range x t k"
    using assms(3) by (auto simp: k in_range_def)
  with assms k show ?thesis
    by (simp add: strncpy_def safestrcpy_def strncpy_loop_inside safestrcpy_loop_inside
        strncpy_loop_outside safestrcpy_loop_outside del: bytes_Suc field_string_simps strncpy_loop.simps)
qed

theorem string_copies_witness:
  "field_string (safestrcpy (\<lambda>_. 65) 0x2000 0x1000 4) 0x2000 4 = [65, 65, 65]"
proof -
  have "\<forall>x. in_range x 0x2000 (nat 4) \<longrightarrow> \<not> in_range x 0x1000 (nat 4)"
    by (simp add: in_range_no_wrap)
  then have "field_string (safestrcpy (\<lambda>_. 65) 0x2000 0x1000 4) 0x2000 (nat 4) =
      field_string (\<lambda>_. 65) 0x1000 (nat 4 - 1)"
    by (intro string_copies [THEN conjunct2, THEN conjunct1]) simp_all
  also have "\<dots> = [65, 65, 65]" by (simp add: numeral_3_eq_3)
  finally show ?thesis by simp
qed

text \<open>The loops that look for a NUL: on a terminated string they stop, with the expected result.\<close>

definition terminated :: "mem \<Rightarrow> u32 \<Rightarrow> nat \<Rightarrow> bool" where
  "terminated m s k \<longleftrightarrow> (\<forall>i < k. m (s + of_nat i) \<noteq> 0) \<and> m (s + of_nat k) = 0"

lemma terminated_Suc: "terminated m s (Suc k) \<longleftrightarrow> m s \<noteq> 0 \<and> terminated m (s + 1) k"
proof -
  have "(\<forall>i < Suc k. m (s + of_nat i) \<noteq> 0) \<longleftrightarrow> m s \<noteq> 0 \<and> (\<forall>i < k. m (s + 1 + of_nat i) \<noteq> 0)"
    by (auto simp: less_Suc_eq_0_disj algebra_simps)
  then show ?thesis by (auto simp: terminated_def algebra_simps)
qed

lemma strlen_from_terminated: "terminated m s (n + k) \<Longrightarrow> strlen_from m s (int n) = Some (int (n + k))"
proof (induction k arbitrary: n)
  case 0
  then show ?case by (subst strlen_from.simps) (simp add: terminated_def)
next
  case (Suc k)
  then have "m (s + of_nat n) \<noteq> 0" by (simp add: terminated_def)
  with Suc.IH [of "Suc n"] Suc.prems show ?case
    by (subst strlen_from.simps) (simp add: algebra_simps)
qed

lemma strlen_terminated: "terminated m s k \<Longrightarrow> strlen m s = Some (int k)"
  using strlen_from_terminated [of m s 0 k] by (simp add: strlen_def)

lemma strcmp_terminated:
  assumes "terminated m p k" "terminated m q l"
  shows "\<exists>r. strcmp m p q = Some r \<and> (r = 0 \<longleftrightarrow> bytes m p k = bytes m q l)"
  using assms
proof (induction k arbitrary: p q l)
  case 0
  then show ?case
    by (subst strcmp.simps) (cases l; auto simp: terminated_def bytes_def word_uint_eq_iff)
next
  case (Suc k)
  show ?case
  proof (cases "m p = m q")
    case True
    then obtain l' where "l = Suc l'" "terminated m (q + 1) l'"
      using Suc.prems by (cases l) (auto simp: terminated_Suc, simp add: terminated_def)
    with Suc True show ?thesis by (subst strcmp.simps) (auto simp: terminated_Suc)
  next
    case False
    with Suc.prems show ?thesis
      by (subst strcmp.simps) (cases l; auto simp: terminated_Suc word_uint_eq_iff)
  qed
qed

end
