(* ===== verification/Pool_Interface.thy ===== *)
theory Pool_Interface
  imports Prelude
begin

text \<open>
  The contract of an allocator of interchangeable resources: physical pages (\<open>kalloc.c\<close>), disk blocks
  and inodes (\<open>fs.c\<close>), file structures (\<open>file.c\<close>). Clients take a resource, use it and give it back; the state
  of the allocator may live in the very memory it hands out, so \<open>touch r\<close> says what the holder of \<open>r\<close> may do
  to the state. Whatever well-behaved clients do, no resource is handed out twice and none is lost.
\<close>

inductive pool_step :: "('s \<Rightarrow> ('r \<times> 's) option) \<Rightarrow> ('r \<Rightarrow> 's \<Rightarrow> 's option) \<Rightarrow> ('r \<Rightarrow> 's \<Rightarrow> 's \<Rightarrow> bool) \<Rightarrow>
    'r set \<times> 's \<Rightarrow> 'r set \<times> 's \<Rightarrow> bool"
  for alloc :: "'s \<Rightarrow> ('r \<times> 's) option" and release :: "'r \<Rightarrow> 's \<Rightarrow> 's option"
    and touch :: "'r \<Rightarrow> 's \<Rightarrow> 's \<Rightarrow> bool" where
  take: "alloc s = Some (r, s') \<Longrightarrow> pool_step alloc release touch (held, s) (insert r held, s')"
| give: "r \<in> held \<Longrightarrow> release r s = Some s' \<Longrightarrow> pool_step alloc release touch (held, s) (held - {r}, s')"
| use: "r \<in> held \<Longrightarrow> touch r s s' \<Longrightarrow> pool_step alloc release touch (held, s) (held, s')"

locale resource_pool =
  fixes wf :: "'s \<Rightarrow> bool"
    and free :: "'s \<Rightarrow> 'r set"
    and valid :: "'r \<Rightarrow> bool"
    and alloc :: "'s \<Rightarrow> ('r \<times> 's) option"
    and release :: "'r \<Rightarrow> 's \<Rightarrow> 's option"
    and touch :: "'r \<Rightarrow> 's \<Rightarrow> 's \<Rightarrow> bool"
  assumes free_valid: "wf s \<Longrightarrow> r \<in> free s \<Longrightarrow> valid r"
    and alloc_none: "wf s \<Longrightarrow> alloc s = None \<longleftrightarrow> free s = {}"
    and alloc_some: "wf s \<Longrightarrow> alloc s = Some (r, s') \<Longrightarrow> r \<in> free s \<and> wf s' \<and> free s' = free s - {r}"
    and release_ok: "wf s \<Longrightarrow> valid r \<Longrightarrow> r \<notin> free s \<Longrightarrow>
      \<exists>s'. release r s = Some s' \<and> wf s' \<and> free s' = insert r (free s)"
    and touch_ok: "wf s \<Longrightarrow> valid r \<Longrightarrow> r \<notin> free s \<Longrightarrow> touch r s s' \<Longrightarrow> wf s' \<and> free s' = free s"
begin

definition pool_ok :: "'r set \<times> 's \<Rightarrow> bool" where
  "pool_ok hs \<longleftrightarrow> wf (snd hs) \<and> fst hs \<inter> free (snd hs) = {} \<and> (\<forall>r \<in> fst hs. valid r)"

lemma step_conserves:
  assumes "pool_step alloc release touch hs hs'" "pool_ok hs"
  shows "pool_ok hs' \<and> fst hs' \<union> free (snd hs') = fst hs \<union> free (snd hs)"
  using assms
proof (induction rule: pool_step.induct)
  case (take s r s' held)
  then have "r \<in> free s" "wf s'" "free s' = free s - {r}"
    using alloc_some by (auto simp: pool_ok_def)
  with take show ?case using free_valid by (auto simp: pool_ok_def)
next
  case (give r held s s')
  then have "wf s'" "free s' = insert r (free s)"
    using release_ok [of s r] by (auto simp: pool_ok_def)
  with give show ?case by (auto simp: pool_ok_def)
next
  case (use r held s s')
  then have "wf s'" "free s' = free s" using touch_ok [of s r s'] by (auto simp: pool_ok_def)
  with use show ?case by (auto simp: pool_ok_def)
qed

lemma run_conserves:
  assumes "(pool_step alloc release touch)\<^sup>*\<^sup>* hs hs'" "pool_ok hs"
  shows "pool_ok hs' \<and> fst hs' \<union> free (snd hs') = fst hs \<union> free (snd hs)"
  using assms(1)
proof (induction rule: rtranclp_induct)
  case (step hs1 hs2)
  then show ?case using step_conserves [of hs1 hs2] by simp
qed (use assms(2) in simp)

text \<open>A request fails only when everything is held; a resource that is handed out is held by nobody.\<close>

lemma alloc_fresh:
  assumes "pool_ok (held, s)" "alloc s = Some (r, s')"
  shows "r \<notin> held"
  using assms alloc_some by (auto simp: pool_ok_def)

lemma give_never_fails:
  assumes "pool_ok (held, s)" "r \<in> held"
  shows "\<exists>s'. release r s = Some s'"
  using assms release_ok [of s r] by (auto simp: pool_ok_def)

end

end
