(* ===== verification/Xv6_Kalloc.thy ===== *)
theory Xv6_Kalloc
  imports Xv6_String Pool_Interface
begin

text \<open>
  The physical page allocator of xv6 (\<open>kalloc.c\<close>). The free pages form a linked list whose pointers are the
  first four bytes of the pages themselves, so the state is the memory and the head of the list.
  \<open>kend\<close> is the linker's \<open>end\<close>, the first address after the kernel. \<open>acquire\<close> and \<open>release\<close> of \<open>kmem.lock\<close>, taken once
  \<open>use_lock\<close> is set, make each operation atomic.
\<close>

unbundle bit_operations_syntax

section \<open>mmu.h and memlayout.h\<close>

definition PGSIZE :: u32 where "PGSIZE = 4096"
definition KERNBASE :: u32 where "KERNBASE = 0x80000000"
definition PHYSTOP :: u32 where "PHYSTOP = 0xE000000"

definition PGROUNDUP :: "u32 \<Rightarrow> u32" where
  "PGROUNDUP sz = (sz + PGSIZE - 1) AND NOT (PGSIZE - 1)"

definition PGROUNDDOWN :: "u32 \<Rightarrow> u32" where
  "PGROUNDDOWN a = a AND NOT (PGSIZE - 1)"

definition V2P :: "u32 \<Rightarrow> u32" where "V2P a = a - KERNBASE"
definition P2V :: "u32 \<Rightarrow> u32" where "P2V a = a + KERNBASE"

section \<open>kalloc.c\<close>

record kmem =
  use_lock :: int
  freelist :: u32
  km_mem :: mem

definition load4 :: "mem \<Rightarrow> u32 \<Rightarrow> u32" where
  "load4 m a = ucast (m a) OR push_bit 8 (ucast (m (a + 1))) OR
     push_bit 16 (ucast (m (a + 2))) OR push_bit 24 (ucast (m (a + 3)))"

definition kfree :: "u32 \<Rightarrow> u32 \<Rightarrow> kmem \<Rightarrow> kmem c_result" where
  "kfree kend v s =
     (if v mod PGSIZE \<noteq> 0 \<or> v < kend \<or> V2P v \<ge> PHYSTOP then Inl (Panic ''kfree'')
      else let m1 = memset (km_mem s) v 1 PGSIZE;
               m2 = store4 m1 v (freelist s)
           in Inr (s\<lparr>km_mem := m2, freelist := v\<rparr>))"

definition kalloc :: "kmem \<Rightarrow> u32 \<times> kmem" where
  "kalloc s =
     (let r = freelist s
      in if r \<noteq> 0 then (r, s\<lparr>freelist := load4 (km_mem s) r\<rparr>) else (r, s))"

partial_function (option) freerange_from :: "u32 \<Rightarrow> u32 \<Rightarrow> u32 \<Rightarrow> kmem \<Rightarrow> kmem c_result option" where
  "freerange_from kend vend p s =
     (if p + PGSIZE \<le> vend
      then (case kfree kend p s of
              Inl e \<Rightarrow> Some (Inl e)
            | Inr s' \<Rightarrow> freerange_from kend vend (p + PGSIZE) s')
      else Some (Inr s))"

definition freerange :: "u32 \<Rightarrow> u32 \<Rightarrow> u32 \<Rightarrow> kmem \<Rightarrow> kmem c_result option" where
  "freerange kend vstart vend s = freerange_from kend vend (PGROUNDUP vstart) s"

definition kinit1 :: "u32 \<Rightarrow> u32 \<Rightarrow> u32 \<Rightarrow> kmem \<Rightarrow> kmem c_result option" where
  "kinit1 kend vstart vend s = freerange kend vstart vend (s\<lparr>use_lock := 0\<rparr>)"

definition kinit2 :: "u32 \<Rightarrow> u32 \<Rightarrow> u32 \<Rightarrow> kmem \<Rightarrow> kmem c_result option" where
  "kinit2 kend vstart vend s =
     (case freerange kend vstart vend s of
        None \<Rightarrow> None
      | Some (Inl e) \<Rightarrow> Some (Inl e)
      | Some (Inr s') \<Rightarrow> Some (Inr (s'\<lparr>use_lock := 1\<rparr>)))"

section \<open>Pages\<close>

definition page_valid :: "u32 \<Rightarrow> u32 \<Rightarrow> bool" where
  "page_valid kend v \<longleftrightarrow> v mod PGSIZE = 0 \<and> kend \<le> v \<and> V2P v < PHYSTOP"

abbreviation in_page :: "u32 \<Rightarrow> u32 \<Rightarrow> bool" where
  "in_page x p \<equiv> in_range x p 4096"

lemma page_aligned_nat: "v mod PGSIZE = 0 \<longleftrightarrow> unat v mod 4096 = 0"
  by (simp add: PGSIZE_def word_unat_eq_iff unat_mod_distrib)

lemma page_no_wrap:
  assumes "p mod PGSIZE = 0"
  shows "unat p + 4096 \<le> 2 ^ 32"
proof -
  have "unat p mod 4096 = 0" using assms by (simp add: page_aligned_nat)
  then obtain k where "unat p = 4096 * k" by auto
  with u32_bound(1) [of p] show ?thesis by simp
qed

lemma in_page_iff: "p mod PGSIZE = 0 \<Longrightarrow> in_page x p \<longleftrightarrow> unat x div 4096 = unat p div 4096"
proof -
  assume p: "p mod PGSIZE = 0"
  then have "unat p mod 4096 = 0" by (simp add: page_aligned_nat)
  with in_range_no_wrap [OF page_no_wrap [OF p], of x] show ?thesis
    by (auto simp: div_nat_eqI)
qed

lemma pages_disjoint:
  assumes "p mod PGSIZE = 0" "q mod PGSIZE = 0" "in_page x p" "in_page x q"
  shows "p = q"
proof -
  have "unat p div 4096 = unat q div 4096" using assms by (simp add: in_page_iff)
  moreover have "unat p mod 4096 = 0" "unat q mod 4096 = 0" using assms by (simp_all add: page_aligned_nat)
  ultimately have "unat p = unat q" by (metis div_mult_mod_eq)
  then show ?thesis by (simp add: word_unat_eq_iff)
qed

lemma in_page_offset:
  assumes "k < 4096"
  shows "in_page (p + of_nat k) p"
  using assms by (simp add: in_range_def unat_of_nat)

lemma in_page_word: "in_page p p" "in_page (p + 1) p" "in_page (p + 2) p" "in_page (p + 3) p"
  by (simp_all add: in_range_def)

lemma load4_cong: "(\<And>x. in_page x p \<Longrightarrow> m x = m' x) \<Longrightarrow> load4 m p = load4 m' p"
  by (simp add: load4_def in_page_word)

lemma load4_store4: "load4 (store4 m a w) a = w"
proof -
  have "a + 1 \<noteq> a" "a + 2 \<noteq> a" "a + 3 \<noteq> a" "a + 2 \<noteq> a + 1" "a + 3 \<noteq> a + 1" "a + 3 \<noteq> a + 2"
    by simp_all
  then have "load4 (store4 m a w) a = ucast (ucast w :: u8) OR push_bit 8 (ucast (ucast (drop_bit 8 w) :: u8)) OR
      push_bit 16 (ucast (ucast (drop_bit 16 w) :: u8)) OR push_bit 24 (ucast (ucast (drop_bit 24 w) :: u8))"
    by (simp add: load4_def store4_def)
  also have "\<dots> = w"
  proof (rule bit_word_eqI)
    fix n assume "n < LENGTH(32)"
    then consider "n < 8" | "8 \<le> n" "n < 16" | "16 \<le> n" "n < 24" | "24 \<le> n" "n < 32" by force
    then show "bit (ucast (ucast w :: u8) OR push_bit 8 (ucast (ucast (drop_bit 8 w) :: u8)) OR
      push_bit 16 (ucast (ucast (drop_bit 16 w) :: u8)) OR push_bit 24 (ucast (ucast (drop_bit 24 w) :: u8)) :: u32) n = bit w n"
      by cases (auto simp: bit_simps)
  qed
  finally show ?thesis .
qed

lemma store4_outside: "\<not> in_page x p \<Longrightarrow> store4 m p w x = m x"
  using in_page_word [of p] by (auto simp: store4_def)

lemma unat_round_down: "unat (a AND NOT (PGSIZE - 1)) = unat a div 4096 * 4096"
proof -
  have mask: "PGSIZE - 1 = mask 12" by (simp add: PGSIZE_def mask_eq_exp_minus_1)
  have "a AND NOT (PGSIZE - 1) = push_bit 12 (drop_bit 12 a)"
    unfolding mask by (rule bit_word_eqI) (auto simp: bit_simps)
  then have "unat (a AND NOT (PGSIZE - 1)) = take_bit 32 (unat a div 4096 * 4096)"
    using u32_bound(1) [of a]
    by (simp only: unsigned_push_bit_eq unsigned_drop_bit_eq)
      (simp add: push_bit_eq_mult drop_bit_eq_div take_bit_eq_mod)
  also have "\<dots> = unat a div 4096 * 4096"
    using u32_bound(1) [of a] div_times_less_eq_dividend [of "unat a" 4096]
    by (simp add: take_bit_eq_mod)
  finally show ?thesis .
qed

lemma unat_PGROUNDDOWN: "unat (PGROUNDDOWN a) = unat a div 4096 * 4096"
  by (simp add: PGROUNDDOWN_def unat_round_down)

lemma unat_PGROUNDUP:
  assumes "unat a + 4095 < 2 ^ 32"
  shows "unat (PGROUNDUP a) = (unat a + 4095) div 4096 * 4096"
proof -
  have "unat (a + PGSIZE - 1) = unat a + 4095"
    using assms by (simp add: PGSIZE_def unat_word_ariths)
  then show ?thesis by (simp add: PGROUNDUP_def unat_round_down)
qed

section \<open>The free list\<close>

text \<open>The list of free pages that starts at \<open>p\<close> in memory \<open>m\<close>.\<close>

fun chain :: "mem \<Rightarrow> u32 \<Rightarrow> u32 list \<Rightarrow> bool" where
  "chain m p [] \<longleftrightarrow> p = 0"
| "chain m p (q # qs) \<longleftrightarrow> p = q \<and> q \<noteq> 0 \<and> chain m (load4 m q) qs"

definition free_pages :: "u32 \<Rightarrow> kmem \<Rightarrow> u32 list \<Rightarrow> bool" where
  "free_pages kend s ps \<longleftrightarrow> chain (km_mem s) (freelist s) ps \<and> distinct ps \<and> (\<forall>p \<in> set ps. page_valid kend p)"

lemma chain_cong:
  "chain m p ps \<Longrightarrow> (\<And>q x. q \<in> set ps \<Longrightarrow> in_page x q \<Longrightarrow> m x = m' x) \<Longrightarrow> chain m' p ps"
proof (induction ps arbitrary: p)
  case (Cons q qs)
  have "load4 m q = load4 m' q" using Cons.prems(2) by (intro load4_cong) auto
  with Cons show ?case by auto
qed simp

lemma chain_unique: "chain m p ps \<Longrightarrow> chain m p qs \<Longrightarrow> ps = qs"
proof (induction ps arbitrary: p qs)
  case Nil
  then show ?case by (cases qs) auto
next
  case (Cons q ps)
  then show ?case by (cases qs) auto
qed

lemma free_pages_unique: "free_pages kend s ps \<Longrightarrow> free_pages kend s qs \<Longrightarrow> ps = qs"
  by (auto simp: free_pages_def intro: chain_unique)

lemma page_valid_aligned: "page_valid kend p \<Longrightarrow> p mod PGSIZE = 0"
  by (simp add: page_valid_def)

lemma kfree_valid:
  assumes "page_valid kend v"
  shows "kfree kend v s = Inr (s\<lparr>km_mem := store4 (memset (km_mem s) v 1 PGSIZE) v (freelist s), freelist := v\<rparr>)"
  using assms by (auto simp: kfree_def page_valid_def Let_def)

lemma kfree_mem_outside:
  assumes "\<not> in_page x v"
  shows "store4 (memset m v 1 PGSIZE) v w x = m x"
  using assms by (simp add: store4_outside memset_spec PGSIZE_def)

lemma kfree_ok:
  assumes ps: "free_pages kend s ps" and v: "page_valid kend v" "v \<notin> set ps" and "kend \<noteq> 0"
  shows "\<exists>s'. kfree kend v s = Inr s' \<and> free_pages kend s' (v # ps) \<and>
    (\<forall>x. \<not> in_page x v \<longrightarrow> km_mem s' x = km_mem s x) \<and> use_lock s' = use_lock s"
proof -
  let ?m = "store4 (memset (km_mem s) v 1 PGSIZE) v (freelist s)"
  have "chain ?m (freelist s) ps"
  proof (rule chain_cong)
    show "chain (km_mem s) (freelist s) ps" using ps by (simp add: free_pages_def)
    fix q x assume q: "q \<in> set ps" "in_page x q"
    then have "page_valid kend q" using ps by (auto simp: free_pages_def)
    then have "\<not> in_page x v" using q v pages_disjoint page_valid_aligned by metis
    then show "km_mem s x = ?m x" by (simp add: kfree_mem_outside)
  qed
  moreover have "v \<noteq> 0" using v(1) assms(4) by (auto simp: page_valid_def)
  ultimately have "free_pages kend (s\<lparr>km_mem := ?m, freelist := v\<rparr>) (v # ps)"
    using ps v by (simp add: free_pages_def load4_store4)
  then show ?thesis by (simp add: kfree_valid [OF v(1)] kfree_mem_outside)
qed

lemma kfree_panics: "\<not> page_valid kend v \<Longrightarrow> kfree kend v s = Inl (Panic ''kfree'')"
  unfolding kfree_def page_valid_def by (rule if_P) (auto simp: not_le not_less dvd_eq_mod_eq_0)

lemma kalloc_empty: "free_pages kend s [] \<Longrightarrow> kalloc s = (0, s)"
  by (simp add: free_pages_def kalloc_def Let_def)

lemma kalloc_page:
  assumes "free_pages kend s (p # ps)"
  shows "\<exists>s'. kalloc s = (p, s') \<and> p \<noteq> 0 \<and> free_pages kend s' ps \<and> km_mem s' = km_mem s"
  using assms by (auto simp: free_pages_def kalloc_def Let_def)

section \<open>The page allocator is a pool\<close>

definition kmem_wf :: "u32 \<Rightarrow> kmem \<Rightarrow> bool" where
  "kmem_wf kend s \<longleftrightarrow> kend \<noteq> 0 \<and> (\<exists>ps. free_pages kend s ps)"

definition kmem_free :: "u32 \<Rightarrow> kmem \<Rightarrow> u32 set" where
  "kmem_free kend s = {p. \<exists>ps. free_pages kend s ps \<and> p \<in> set ps}"

definition kmem_alloc :: "kmem \<Rightarrow> (u32 \<times> kmem) option" where
  "kmem_alloc s = (case kalloc s of (r, s') \<Rightarrow> if r = 0 then None else Some (r, s'))"

definition kmem_release :: "u32 \<Rightarrow> u32 \<Rightarrow> kmem \<Rightarrow> kmem option" where
  "kmem_release kend p s = (case kfree kend p s of Inl e \<Rightarrow> None | Inr s' \<Rightarrow> Some s')"

text \<open>The holder of a page may write anything into it.\<close>

definition writes_page :: "u32 \<Rightarrow> kmem \<Rightarrow> kmem \<Rightarrow> bool" where
  "writes_page p s s' \<longleftrightarrow> use_lock s' = use_lock s \<and> freelist s' = freelist s \<and>
     (\<forall>x. \<not> in_page x p \<longrightarrow> km_mem s' x = km_mem s x)"

lemma kmem_free_pages: "free_pages kend s ps \<Longrightarrow> kmem_free kend s = set ps"
  by (auto simp: kmem_free_def dest: free_pages_unique)

lemma writes_page_ok:
  assumes "free_pages kend s ps" "page_valid kend p" "p \<notin> set ps" "writes_page p s s'"
  shows "free_pages kend s' ps"
proof -
  have "chain (km_mem s') (freelist s) ps"
  proof (rule chain_cong)
    show "chain (km_mem s) (freelist s) ps" using assms(1) by (simp add: free_pages_def)
    fix q x assume q: "q \<in> set ps" "in_page x q"
    then have "page_valid kend q" using assms(1) by (auto simp: free_pages_def)
    then have "\<not> in_page x p" using q assms(2,3) pages_disjoint page_valid_aligned by metis
    then show "km_mem s x = km_mem s' x" using assms(4) by (simp add: writes_page_def)
  qed
  with assms show ?thesis by (simp add: free_pages_def writes_page_def)
qed

interpretation kpool: resource_pool "kmem_wf kend" "kmem_free kend" "page_valid kend" kmem_alloc
    "kmem_release kend" writes_page for kend
proof unfold_locales
  fix s s' :: kmem and r :: u32
  assume "kmem_wf kend s"
  then obtain ps where ps: "free_pages kend s ps" and kend: "kend \<noteq> 0" by (auto simp: kmem_wf_def)
  have free: "kmem_free kend s = set ps" using ps by (rule kmem_free_pages)
  show "r \<in> kmem_free kend s \<Longrightarrow> page_valid kend r"
    using ps by (auto simp: free free_pages_def)
  show "kmem_alloc s = None \<longleftrightarrow> kmem_free kend s = {}"
    using ps kalloc_empty kalloc_page by (cases ps) (fastforce simp: free kmem_alloc_def)+
  show "r \<in> kmem_free kend s \<and> kmem_wf kend s' \<and> kmem_free kend s' = kmem_free kend s - {r}"
    if "kmem_alloc s = Some (r, s')"
  proof (cases ps)
    case Nil
    with that ps show ?thesis by (simp add: kmem_alloc_def kalloc_empty)
  next
    case (Cons p qs)
    with ps kalloc_page obtain s1 where "kalloc s = (p, s1)" "free_pages kend s1 qs" by blast
    with that have "r = p" "free_pages kend s' qs" by (auto simp: kmem_alloc_def split: if_splits)
    with Cons ps kend kmem_free_pages [OF \<open>free_pages kend s' qs\<close>] show ?thesis
      by (auto simp: free kmem_wf_def free_pages_def)
  qed
  show "\<exists>s'. kmem_release kend r s = Some s' \<and> kmem_wf kend s' \<and> kmem_free kend s' = insert r (kmem_free kend s)"
    if "page_valid kend r" "r \<notin> kmem_free kend s"
  proof -
    from kfree_ok [OF ps that(1) _ kend] that(2) obtain s1 where
      "kfree kend r s = Inr s1" "free_pages kend s1 (r # ps)" by (auto simp: free)
    then show ?thesis using kend kmem_free_pages by (fastforce simp: kmem_release_def free kmem_wf_def)
  qed
  show "kmem_wf kend s' \<and> kmem_free kend s' = kmem_free kend s"
    if "page_valid kend r" "r \<notin> kmem_free kend s" "writes_page r s s'"
    using writes_page_ok [OF ps that(1) _ that(3)] that(2) kend kmem_free_pages
    by (auto simp: free kmem_wf_def)
qed

text \<open>The \<open>n\<close> pages from \<open>p\<close> on.\<close>

definition pages_from :: "u32 \<Rightarrow> nat \<Rightarrow> u32 list" where
  "pages_from p n = map (\<lambda>i. p + of_nat i * PGSIZE) [0..<n]"

lemma pages_from_Suc: "pages_from p (Suc n) = p # pages_from (p + PGSIZE) n"
  by (simp add: pages_from_def upt_conv_Cons map_Suc_upt [symmetric] comp_def algebra_simps del: upt_Suc)

lemma freerange_from_pages:
  assumes "free_pages kend s ps" "kend \<noteq> 0"
    and "unat p + n * 4096 \<le> unat vend" "unat vend < unat p + n * 4096 + 4096"
    and "unat vend \<le> 0x8E000000" "kend \<le> p" "KERNBASE \<le> p" "p mod PGSIZE = 0"
    and "\<forall>q \<in> set ps. unat q < unat p"
  shows "\<exists>s'. freerange_from kend vend p s = Some (Inr s') \<and> free_pages kend s' (rev (pages_from p n) @ ps) \<and>
    use_lock s' = use_lock s"
  using assms
proof (induction n arbitrary: p s ps)
  case 0
  have "unat (p + PGSIZE) = unat p + 4096"
    using 0 by (simp add: PGSIZE_def unat_word_ariths)
  then have "\<not> p + PGSIZE \<le> vend" using 0 by (simp add: word_le_nat_alt)
  with 0 show ?case by (subst freerange_from.simps) (simp add: pages_from_def)
next
  case (Suc n)
  have next_p: "unat (p + PGSIZE) = unat p + 4096"
    using Suc.prems by (simp add: PGSIZE_def unat_word_ariths)
  have guard: "p + PGSIZE \<le> vend" using Suc.prems next_p by (simp add: word_le_nat_alt)
  have "unat (V2P p) < unat PHYSTOP"
    using Suc.prems by (simp add: V2P_def KERNBASE_def PHYSTOP_def word_le_nat_alt unat_sub)
  then have valid: "page_valid kend p"
    using Suc.prems by (simp add: page_valid_def word_less_nat_alt)
  from kfree_ok [OF Suc.prems(1) valid _ Suc.prems(2)] Suc.prems(9) obtain s1 where
    s1: "kfree kend p s = Inr s1" "free_pages kend s1 (p # ps)" "use_lock s1 = use_lock s" by fastforce
  have al: "(p + PGSIZE) mod PGSIZE = 0"
    using Suc.prems(8) next_p by (simp add: page_aligned_nat)
  have lo: "kend \<le> p + PGSIZE" "KERNBASE \<le> p + PGSIZE"
    using Suc.prems(6,7) next_p by (simp_all add: word_le_nat_alt)
  have hi: "unat (p + PGSIZE) + n * 4096 \<le> unat vend" "unat vend < unat (p + PGSIZE) + n * 4096 + 4096"
    using Suc.prems(3,4) next_p by simp_all
  have "\<forall>q \<in> set (p # ps). unat q < unat (p + PGSIZE)" using Suc.prems(9) next_p by fastforce
  from Suc.IH [OF s1(2) Suc.prems(2) hi Suc.prems(5) lo al this] obtain s' where
    "freerange_from kend vend (p + PGSIZE) s1 = Some (Inr s')"
    "free_pages kend s' (rev (pages_from (p + PGSIZE) n) @ p # ps)" "use_lock s' = use_lock s1" by blast
  with s1 guard show ?case by (subst freerange_from.simps) (simp add: pages_from_Suc)
qed

text \<open>
  C14. Started by \<open>kinit1\<close> on a range of kernel memory, the allocator holds exactly the whole pages of the range.
  From then on, however its users allocate, free and overwrite the pages they hold, no page is
  handed out while somebody holds it, every page is either held or free, and freeing never fails.
\<close>

theorem kalloc_safe:
  assumes "kend \<noteq> 0" "unat vstart + 4095 < 2 ^ 32" "p = PGROUNDUP vstart"
    and "unat p + n * 4096 \<le> unat vend" "unat vend < unat p + n * 4096 + 4096"
    and "unat vend \<le> 0x8E000000" "kend \<le> p" "KERNBASE \<le> p" "freelist s0 = 0"
  shows "\<exists>s1. kinit1 kend vstart vend s0 = Some (Inr s1) \<and>
    (\<forall>held s. (pool_step kmem_alloc (kmem_release kend) writes_page)\<^sup>*\<^sup>* ({}, s1) (held, s) \<longrightarrow>
      held \<union> kmem_free kend s = set (pages_from p n) \<and>
      (\<forall>r s'. kmem_alloc s = Some (r, s') \<longrightarrow> r \<notin> held \<and> r \<in> set (pages_from p n)) \<and>
      (kmem_alloc s = None \<longrightarrow> held = set (pages_from p n)) \<and>
      (\<forall>r \<in> held. \<exists>s'. kmem_release kend r s = Some s'))"
proof -
  have "unat p mod 4096 = 0" using assms(2,3) by (simp add: unat_PGROUNDUP)
  then have "p mod PGSIZE = 0" by (simp add: page_aligned_nat)
  moreover have "free_pages kend (s0\<lparr>use_lock := 0\<rparr>) []" using assms(9) by (simp add: free_pages_def)
  ultimately obtain s1 where s1: "kinit1 kend vstart vend s0 = Some (Inr s1)"
    "free_pages kend s1 (rev (pages_from p n))"
    using freerange_from_pages [of kend "s0\<lparr>use_lock := 0\<rparr>" "[]" p n vend] assms
    by (auto simp: kinit1_def freerange_def)
  have wf: "kmem_wf kend s1" using s1(2) assms(1) by (auto simp: kmem_wf_def)
  then have "kpool.pool_ok kend ({}, s1)" by (simp add: kpool.pool_ok_def)
  note run = kpool.run_conserves [OF _ this]
  have free1: "kmem_free kend s1 = set (pages_from p n)" using kmem_free_pages [OF s1(2)] by simp
  show ?thesis
  proof (intro exI [of _ s1] conjI allI impI s1(1))
    fix held s assume steps: "(pool_step kmem_alloc (kmem_release kend) writes_page)\<^sup>*\<^sup>* ({}, s1) (held, s)"
    from run [OF steps] have ok: "kpool.pool_ok kend (held, s)"
      and all: "held \<union> kmem_free kend s = set (pages_from p n)" by (simp_all add: free1)
    have wf: "kmem_wf kend s" using ok by (simp add: kpool.pool_ok_def)
    show "held \<union> kmem_free kend s = set (pages_from p n)" by (rule all)
    show "r \<notin> held" "r \<in> set (pages_from p n)" if "kmem_alloc s = Some (r, s')" for r s'
      using kpool.alloc_fresh [OF ok that] kpool.alloc_some [OF wf that] all by auto
    show "held = set (pages_from p n)" if "kmem_alloc s = None"
      using kpool.alloc_none [OF wf] that all by simp
    show "\<forall>r \<in> held. \<exists>s'. kmem_release kend r s = Some s'"
      using kpool.give_never_fails [OF ok] by blast
  qed
qed

theorem kalloc_safe_witness:
  "\<exists>s1. kinit1 0x80110000 0x80110010 0x80114000 \<lparr>use_lock = 0, freelist = 0, km_mem = (\<lambda>_. 0)\<rparr> = Some (Inr s1) \<and>
    kmem_free 0x80110000 s1 = set (pages_from 0x80111000 3)"
proof -
  let ?s0 = "\<lparr>use_lock = 0, freelist = 0, km_mem = (\<lambda>_. 0)\<rparr>"
  have p: "0x80111000 = PGROUNDUP 0x80110010" by (simp add: PGROUNDUP_def PGSIZE_def)
  obtain s1 where "kinit1 0x80110000 0x80110010 0x80114000 ?s0 = Some (Inr s1)"
    "\<forall>held s. (pool_step kmem_alloc (kmem_release 0x80110000) writes_page)\<^sup>*\<^sup>* ({}, s1) (held, s) \<longrightarrow>
      held \<union> kmem_free 0x80110000 s = set (pages_from 0x80111000 3)"
    using kalloc_safe [OF _ _ p, of "0x80110000" 3 "0x80114000" ?s0] by (auto simp: KERNBASE_def)
  then show ?thesis by auto
qed

end
