(* ===== verification/Xv6_Locks.thy ===== *)
theory Xv6_Locks
  imports Xv6_Kalloc
begin

text \<open>
  The locks of xv6: \<open>spinlock.c\<close> and \<open>sleeplock.c\<close>. A lock operation is first given as the sequence of its
  atomic accesses to the lock, which the processors interleave: entering \<open>acquire\<close>, one \<open>xchg\<close>, recording the
  owner, the owner check of \<open>release\<close>, the store that frees the lock. \<open>spin_step\<close> interleaves any number of
  processors around one spin lock; \<open>sleep_step\<close> any number of processes around one sleep lock, whose own
  operations run under its spin lock and are therefore atomic up to the \<open>sleep\<close>.
\<close>

section \<open>Interrupts: pushcli and popcli\<close>

record cpu =
  ncli :: int
  intena :: bool
  if_flag :: bool    \<comment> \<open>\<open>FL_IF\<close> of the processor's \<open>eflags\<close>\<close>

definition pushcli :: "cpu \<Rightarrow> cpu" where
  "pushcli c =
     (let eflags = if_flag c; c1 = c\<lparr>if_flag := False\<rparr>;
          c2 = (if ncli c1 = 0 then c1\<lparr>intena := eflags\<rparr> else c1)
      in c2\<lparr>ncli := ncli c2 + 1\<rparr>)"

definition popcli :: "cpu \<Rightarrow> cpu c_result" where
  "popcli c =
     (if if_flag c then Inl (Panic ''popcli - interruptible'')
      else let c1 = c\<lparr>ncli := ncli c - 1\<rparr>
           in if ncli c1 < 0 then Inl (Panic ''popcli'')
              else if ncli c1 = 0 \<and> intena c1 then Inr (c1\<lparr>if_flag := True\<rparr>)
              else Inr c1)"

section \<open>Spin locks\<close>

record spinlock =
  lk_name :: string
  locked :: u32
  lk_cpu :: "nat option"
  pcs :: "u32 list"

definition initlock :: "spinlock \<Rightarrow> string \<Rightarrow> spinlock" where
  "initlock lk name = lk\<lparr>lk_name := name, locked := 0, lk_cpu := None\<rparr>"

definition holding :: "nat \<Rightarrow> spinlock \<Rightarrow> bool" where
  "holding me lk \<longleftrightarrow> locked lk \<noteq> 0 \<and> lk_cpu lk = Some me"

text \<open>\<open>getcallerpcs\<close> follows the chain of saved frame pointers; \<open>m\<close> is the memory it reads.\<close>

function callerpcs_from :: "mem \<Rightarrow> nat \<Rightarrow> u32 \<Rightarrow> u32 list" where
  "callerpcs_from m i ebp =
     (if i < 10
      then if ebp = 0 \<or> ebp < KERNBASE \<or> ebp = 0xffffffff then replicate (10 - i) 0
           else load4 m (ebp + 4) # callerpcs_from m (i + 1) (load4 m ebp)
      else [])"
  by pat_completeness auto
termination
  by (relation "measure (\<lambda>(m, i, ebp). 10 - i)") auto

definition getcallerpcs :: "mem \<Rightarrow> u32 \<Rightarrow> u32 list" where
  "getcallerpcs m v = callerpcs_from m 0 (v - 8)"

text \<open>The atomic parts of \<open>acquire\<close> and \<open>release\<close>.\<close>

definition acquire_enter :: "nat \<Rightarrow> spinlock \<Rightarrow> cpu \<Rightarrow> cpu c_result" where
  "acquire_enter me lk c =
     (let c1 = pushcli c in if holding me lk then Inl (Panic ''acquire'') else Inr c1)"

definition xchg_locked :: "spinlock \<Rightarrow> u32 \<times> spinlock" where
  "xchg_locked lk = (locked lk, lk\<lparr>locked := 1\<rparr>)"

definition acquire_record :: "nat \<Rightarrow> u32 list \<Rightarrow> spinlock \<Rightarrow> spinlock" where
  "acquire_record me frames lk = lk\<lparr>lk_cpu := Some me, pcs := frames\<rparr>"

definition release_check :: "nat \<Rightarrow> spinlock \<Rightarrow> spinlock c_result" where
  "release_check me lk =
     (if \<not> holding me lk then Inl (Panic ''release'')
      else Inr (lk\<lparr>pcs := (pcs lk)[0 := 0], lk_cpu := None\<rparr>))"

definition release_store :: "spinlock \<Rightarrow> spinlock" where
  "release_store lk = lk\<lparr>locked := 0\<rparr>"

text \<open>
  The whole operations with nobody else at the lock. \<open>acquire\<close> of a lock that is taken spins for ever then,
  which is the outcome \<open>None\<close>.
\<close>

definition acquire :: "nat \<Rightarrow> u32 list \<Rightarrow> spinlock \<Rightarrow> cpu \<Rightarrow> (spinlock \<times> cpu) c_result option" where
  "acquire me frames lk c =
     (case acquire_enter me lk c of
        Inl e \<Rightarrow> Some (Inl e)
      | Inr c1 \<Rightarrow>
         (case xchg_locked lk of (old, lk1) \<Rightarrow>
            if old \<noteq> 0 then None else Some (Inr (acquire_record me frames lk1, c1))))"

definition release :: "nat \<Rightarrow> spinlock \<Rightarrow> cpu \<Rightarrow> (spinlock \<times> cpu) c_result" where
  "release me lk c =
     bindE (release_check me lk) (\<lambda>lk1.
     let lk2 = release_store lk1 in bindE (popcli c) (\<lambda>c1. Inr (lk2, c1)))"

section \<open>Nesting of interrupt disabling\<close>

text \<open>
  A processor is in order if its count is not negative, interrupts are off while the count is positive, and
  what \<open>popcli\<close> will restore is recorded.
\<close>

definition cpu_ok :: "cpu \<Rightarrow> bool" where
  "cpu_ok c \<longleftrightarrow> 0 \<le> ncli c \<and> (0 < ncli c \<longrightarrow> \<not> if_flag c)"

lemma pushcli_ok:
  "cpu_ok c \<Longrightarrow> cpu_ok (pushcli c) \<and> ncli (pushcli c) = ncli c + 1 \<and> \<not> if_flag (pushcli c)"
  by (auto simp: pushcli_def cpu_ok_def Let_def)

lemma popcli_ok:
  assumes "cpu_ok c" "0 < ncli c"
  shows "\<exists>c'. popcli c = Inr c' \<and> cpu_ok c' \<and> ncli c' = ncli c - 1 \<and>
    (if_flag c' \<longleftrightarrow> ncli c = 1 \<and> intena c) \<and> intena c' = intena c"
  using assms by (auto simp: popcli_def cpu_ok_def Let_def)

text \<open>Any properly nested sequence of the two, as a list of \<open>True\<close> for \<open>pushcli\<close> and \<open>False\<close> for \<open>popcli\<close>.\<close>

fun cli_run :: "bool list \<Rightarrow> cpu \<Rightarrow> cpu c_result" where
  "cli_run [] c = Inr c"
| "cli_run (True # ops) c = cli_run ops (pushcli c)"
| "cli_run (False # ops) c = bindE (popcli c) (cli_run ops)"

fun nested :: "nat \<Rightarrow> bool list \<Rightarrow> bool" where
  "nested d [] \<longleftrightarrow> d = 0"
| "nested d (True # ops) \<longleftrightarrow> nested (Suc d) ops"
| "nested d (False # ops) \<longleftrightarrow> 0 < d \<and> nested (d - 1) ops"

lemma cli_run_nested:
  assumes "nested d ops" "cpu_ok c" "ncli c = int d"
  shows "\<exists>c'. cli_run ops c = Inr c' \<and> ncli c' = 0 \<and> if_flag c' = (if d = 0 then if_flag c else intena c)"
  using assms
proof (induction d ops arbitrary: c rule: nested.induct)
  case (2 d ops)
  then show ?case
    using "2.IH" [of "pushcli c"] pushcli_ok [of c]
    by (cases "d = 0") (auto simp: pushcli_def Let_def)
next
  case (3 d ops)
  then obtain c1 where c1: "popcli c = Inr c1" "cpu_ok c1" "ncli c1 = ncli c - 1"
    "if_flag c1 \<longleftrightarrow> ncli c = 1 \<and> intena c" "intena c1 = intena c"
    using popcli_ok [of c] by auto
  with 3 show ?case using "3.IH" [of c1] by (cases "d = 1") auto
qed simp

text \<open>
  C33. \<open>pushcli\<close> and \<open>popcli\<close> are matched: any properly nested sequence of them, started outside every critical
  section, never panics, ends with the count at zero and leaves interrupts exactly as enabled or disabled
  as they were.
\<close>

theorem cli_nesting:
  assumes "nested 0 ops" "ncli c = 0"
  shows "\<exists>c'. cli_run ops c = Inr c' \<and> ncli c' = 0 \<and> if_flag c' = if_flag c"
  using cli_run_nested [OF assms(1)] assms(2) by (auto simp: cpu_ok_def)

theorem cli_nesting_witness:
  "\<exists>c'. cli_run [True, True, False, True, False, False] \<lparr>ncli = 0, intena = False, if_flag = True\<rparr> = Inr c' \<and>
     if_flag c'"
  using cli_nesting [of "[True, True, False, True, False, False]" "\<lparr>ncli = 0, intena = False, if_flag = True\<rparr>"]
  by auto

section \<open>Processors around one spin lock\<close>

datatype spin_pc = Out | Spinning | Got | Critical | Freeing | Popping

record spin_sys =
  the_lock :: spinlock
  spin_pc_of :: "nat \<Rightarrow> spin_pc"
  cpus :: "nat \<Rightarrow> cpu"

inductive spin_step :: "spin_sys \<Rightarrow> spin_sys \<Rightarrow> bool" where
  enter: "spin_pc_of s k = Out \<Longrightarrow> acquire_enter k (the_lock s) (cpus s k) = Inr c \<Longrightarrow>
    spin_step s (s\<lparr>spin_pc_of := (spin_pc_of s)(k := Spinning), cpus := (cpus s)(k := c)\<rparr>)"
| exchange: "spin_pc_of s k = Spinning \<Longrightarrow> xchg_locked (the_lock s) = (old, lk) \<Longrightarrow>
    spin_step s (s\<lparr>the_lock := lk, spin_pc_of := (spin_pc_of s)(k := (if old \<noteq> 0 then Spinning else Got))\<rparr>)"
| record_owner: "spin_pc_of s k = Got \<Longrightarrow>
    spin_step s (s\<lparr>the_lock := acquire_record k frames (the_lock s), spin_pc_of := (spin_pc_of s)(k := Critical)\<rparr>)"
| leave: "spin_pc_of s k = Critical \<Longrightarrow> release_check k (the_lock s) = Inr lk \<Longrightarrow>
    spin_step s (s\<lparr>the_lock := lk, spin_pc_of := (spin_pc_of s)(k := Freeing)\<rparr>)"
| store: "spin_pc_of s k = Freeing \<Longrightarrow>
    spin_step s (s\<lparr>the_lock := release_store (the_lock s), spin_pc_of := (spin_pc_of s)(k := Popping)\<rparr>)"
| pop: "spin_pc_of s k = Popping \<Longrightarrow> popcli (cpus s k) = Inr c \<Longrightarrow>
    spin_step s (s\<lparr>spin_pc_of := (spin_pc_of s)(k := Out), cpus := (cpus s)(k := c)\<rparr>)"

definition spin_start :: "spin_sys \<Rightarrow> bool" where
  "spin_start s \<longleftrightarrow> locked (the_lock s) = 0 \<and> lk_cpu (the_lock s) = None \<and>
     (\<forall>k. spin_pc_of s k = Out \<and> cpu_ok (cpus s k))"

text \<open>The processors between their successful \<open>xchg\<close> and the store that frees the lock.\<close>

definition owners :: "spin_sys \<Rightarrow> nat set" where
  "owners s = {k. spin_pc_of s k = Got \<or> spin_pc_of s k = Critical \<or> spin_pc_of s k = Freeing}"

definition spin_inv :: "spin_sys \<Rightarrow> bool" where
  "spin_inv s \<longleftrightarrow> (\<forall>k. cpu_ok (cpus s k) \<and> (spin_pc_of s k \<noteq> Out \<longrightarrow> 0 < ncli (cpus s k))) \<and>
     (\<forall>k. lk_cpu (the_lock s) = Some k \<longleftrightarrow> spin_pc_of s k = Critical) \<and>
     (if locked (the_lock s) = 0 then owners s = {} else \<exists>k. owners s = {k})"

lemma spin_invD:
  assumes "spin_inv s"
  shows "cpu_ok (cpus s k)" "spin_pc_of s k \<noteq> Out \<Longrightarrow> 0 < ncli (cpus s k)"
    "lk_cpu (the_lock s) = Some k \<longleftrightarrow> spin_pc_of s k = Critical"
    "k \<in> owners s \<Longrightarrow> owners s = {k} \<and> locked (the_lock s) \<noteq> 0"
    "locked (the_lock s) = 0 \<Longrightarrow> owners s = {}"
    "locked (the_lock s) \<noteq> 0 \<Longrightarrow> \<exists>k. owners s = {k}"
  using assms by (auto simp: spin_inv_def split: if_splits)

lemma spin_start_inv: "spin_start s \<Longrightarrow> spin_inv s"
  by (simp add: spin_start_def spin_inv_def owners_def)

lemma acquire_enter_Inr:
  "acquire_enter me lk c = Inr c' \<longleftrightarrow> \<not> holding me lk \<and> c' = pushcli c"
  by (auto simp: acquire_enter_def Let_def)

lemma release_check_Inr:
  "release_check me lk = Inr lk' \<longleftrightarrow> holding me lk \<and> lk' = lk\<lparr>pcs := (pcs lk)[0 := 0], lk_cpu := None\<rparr>"
  by (auto simp: release_check_def)

lemma spin_step_inv:
  assumes "spin_step s s'" "spin_inv s"
  shows "spin_inv s'"
  using assms
proof (induction rule: spin_step.induct)
  case (enter s k c)
  note inv = spin_invD [OF enter(3)]
  have c: "cpu_ok c" "0 < ncli c"
    using enter(2) pushcli_ok [OF inv(1) [of k]] inv(1) [of k] by (auto simp: acquire_enter_Inr cpu_ok_def)
  have "owners (s\<lparr>spin_pc_of := (spin_pc_of s)(k := Spinning), cpus := (cpus s)(k := c)\<rparr>) = owners s"
    using enter(1) by (auto simp: owners_def)
  then show ?case using enter(1,3) c by (simp add: spin_inv_def)
next
  case (exchange s k old lk)
  note inv = spin_invD [OF exchange(3)]
  show ?case
  proof (cases "old = 0")
    case True
    then have "owners s = {}" using exchange(2) inv(5) by (simp add: xchg_locked_def)
    then have "owners (s\<lparr>the_lock := lk, spin_pc_of := (spin_pc_of s)(k := Got)\<rparr>) = {k}"
      by (auto simp: owners_def)
    with True exchange show ?thesis by (auto simp: spin_inv_def xchg_locked_def)
  next
    case False
    have "(spin_pc_of s)(k := Spinning) = spin_pc_of s" using exchange(1) by auto
    moreover have "owners (s\<lparr>the_lock := lk, spin_pc_of := spin_pc_of s\<rparr>) = owners s"
      by (simp add: owners_def)
    ultimately show ?thesis using False exchange by (auto simp: spin_inv_def xchg_locked_def)
  qed
next
  case (record_owner s k frames)
  note inv = spin_invD [OF record_owner(2)]
  have k: "owners s = {k}" "locked (the_lock s) \<noteq> 0"
    using record_owner(1) inv(4) [of k] by (auto simp: owners_def)
  then have "spin_pc_of s j \<noteq> Critical" if "j \<noteq> k" for j using that by (auto simp: owners_def)
  moreover have "owners (s\<lparr>the_lock := acquire_record k frames (the_lock s), spin_pc_of := (spin_pc_of s)(k := Critical)\<rparr>) = {k}"
    using k(1) by (auto simp: owners_def)
  ultimately show ?case using k(2) record_owner by (auto simp: spin_inv_def acquire_record_def)
next
  case (leave s k lk)
  note inv = spin_invD [OF leave(3)]
  have k: "owners s = {k}" "locked (the_lock s) \<noteq> 0"
    using leave(1) inv(4) [of k] by (auto simp: owners_def)
  then have "spin_pc_of s j \<noteq> Critical" if "j \<noteq> k" for j using that by (auto simp: owners_def)
  moreover have "owners (s\<lparr>the_lock := lk, spin_pc_of := (spin_pc_of s)(k := Freeing)\<rparr>) = {k}"
    using k(1) by (auto simp: owners_def)
  ultimately show ?case using k(2) leave by (auto simp: spin_inv_def release_check_Inr)
next
  case (store s k)
  note inv = spin_invD [OF store(2)]
  have k: "owners s = {k}" using store(1) inv(4) [of k] by (auto simp: owners_def)
  then have "owners (s\<lparr>the_lock := release_store (the_lock s), spin_pc_of := (spin_pc_of s)(k := Popping)\<rparr>) = {}"
    by (auto simp: owners_def)
  then show ?case using store by (auto simp: spin_inv_def release_store_def)
next
  case (pop s k c)
  note inv = spin_invD [OF pop(3)]
  have c: "cpu_ok c" using pop(1,2) popcli_ok [OF inv(1,2), of k] by auto
  have "owners (s\<lparr>spin_pc_of := (spin_pc_of s)(k := Out), cpus := (cpus s)(k := c)\<rparr>) = owners s"
    using pop(1) by (auto simp: owners_def)
  then show ?case using pop(1,3) c by (simp add: spin_inv_def)
qed

lemma spin_reachable_inv: "spin_step\<^sup>*\<^sup>* s0 s \<Longrightarrow> spin_start s0 \<Longrightarrow> spin_inv s"
  by (induction rule: rtranclp_induct) (auto intro: spin_start_inv spin_step_inv)

text \<open>
  C15. The spin lock excludes: whatever the interleaving of the atomic parts of \<open>acquire\<close> and \<open>release\<close>, at most
  one processor is between its successful \<open>xchg\<close> and the store that frees the lock, interrupts are off on
  it, and none of the panics of \<open>acquire\<close>, \<open>release\<close> and \<open>popcli\<close> can happen to a processor that
  releases only what it has acquired.
\<close>

theorem spinlock_excludes:
  assumes "spin_start s0" "spin_step\<^sup>*\<^sup>* s0 s"
  shows "(j \<in> owners s \<and> k \<in> owners s \<longrightarrow> j = k) \<and>
    (spin_pc_of s k \<noteq> Out \<longrightarrow> \<not> if_flag (cpus s k)) \<and>
    (spin_pc_of s k = Out \<longrightarrow> (\<exists>c. acquire_enter k (the_lock s) (cpus s k) = Inr c)) \<and>
    (spin_pc_of s k = Critical \<longrightarrow> (\<exists>lk. release_check k (the_lock s) = Inr lk)) \<and>
    (spin_pc_of s k = Popping \<longrightarrow> (\<exists>c. popcli (cpus s k) = Inr c))"
proof -
  have inv: "spin_inv s" using spin_reachable_inv assms by blast
  note cpu = spin_invD(1,2) [OF inv, of k]
  have hold: "holding k (the_lock s) \<longleftrightarrow> spin_pc_of s k = Critical"
    using spin_invD(3,4) [OF inv, of k] by (auto simp: holding_def owners_def)
  show ?thesis
  proof (intro conjI)
    show "j \<in> owners s \<and> k \<in> owners s \<longrightarrow> j = k" using spin_invD(4) [OF inv] by blast
    show "spin_pc_of s k \<noteq> Out \<longrightarrow> \<not> if_flag (cpus s k)" using cpu by (simp add: cpu_ok_def)
    show "spin_pc_of s k = Popping \<longrightarrow> (\<exists>c. popcli (cpus s k) = Inr c)"
      using cpu popcli_ok by fastforce
  qed (simp_all add: acquire_enter_Inr release_check_Inr hold)
qed

theorem spinlock_excludes_witness:
  "\<exists>s0. spin_start s0 \<and> (\<exists>c. acquire_enter 3 (the_lock s0) (cpus s0 3) = Inr c)"
proof -
  let ?s0 = "\<lparr>the_lock = \<lparr>lk_name = ''kmem'', locked = 0, lk_cpu = None, pcs = replicate 10 0\<rparr>,
    spin_pc_of = (\<lambda>_. Out), cpus = (\<lambda>_. \<lparr>ncli = 0, intena = False, if_flag = True\<rparr>)\<rparr>"
  have s0: "spin_start ?s0" by (simp add: spin_start_def cpu_ok_def)
  from spinlock_excludes [OF s0 rtranclp.rtrancl_refl, of 3 3] s0 show ?thesis
    by (intro exI [of _ ?s0]) simp
qed

section \<open>Sleep locks\<close>

record sleeplock =
  sl_locked :: u32
  sl_pid :: int

definition initsleeplock :: "sleeplock" where
  "initsleeplock = \<lparr>sl_locked = 0, sl_pid = 0\<rparr>"

text \<open>One run of \<open>acquiresleep\<close>: \<open>None\<close> if it goes to sleep on the lock.\<close>

definition acquiresleep :: "int \<Rightarrow> sleeplock \<Rightarrow> sleeplock option" where
  "acquiresleep pid lk = (if sl_locked lk \<noteq> 0 then None else Some (lk\<lparr>sl_locked := 1, sl_pid := pid\<rparr>))"

text \<open>\<open>releasesleep\<close> also wakes everybody who sleeps on the lock.\<close>

definition releasesleep :: "sleeplock \<Rightarrow> sleeplock" where
  "releasesleep lk = lk\<lparr>sl_locked := 0, sl_pid := 0\<rparr>"

definition holdingsleep :: "sleeplock \<Rightarrow> bool" where
  "holdingsleep lk \<longleftrightarrow> sl_locked lk \<noteq> 0"

datatype sleeper = Away | Waiting bool | Holds    \<comment> \<open>\<open>Waiting True\<close>: asleep on the lock\<close>

record sleep_sys =
  the_sleeplock :: sleeplock
  sleepers :: "int \<Rightarrow> sleeper"    \<comment> \<open>by process number\<close>

definition wake_all :: "(int \<Rightarrow> sleeper) \<Rightarrow> int \<Rightarrow> sleeper" where
  "wake_all f p = (case f p of Waiting z \<Rightarrow> Waiting False | c \<Rightarrow> c)"

inductive sleep_step :: "sleep_sys \<Rightarrow> sleep_sys \<Rightarrow> bool" where
  call: "sleepers s p = Away \<Longrightarrow> sleep_step s (s\<lparr>sleepers := (sleepers s)(p := Waiting False)\<rparr>)"
| got: "sleepers s p = Waiting False \<Longrightarrow> acquiresleep p (the_sleeplock s) = Some lk \<Longrightarrow>
    sleep_step s (s\<lparr>the_sleeplock := lk, sleepers := (sleepers s)(p := Holds)\<rparr>)"
| sleeps: "sleepers s p = Waiting False \<Longrightarrow> acquiresleep p (the_sleeplock s) = None \<Longrightarrow>
    sleep_step s (s\<lparr>sleepers := (sleepers s)(p := Waiting True)\<rparr>)"
| frees: "sleepers s p = Holds \<Longrightarrow>
    sleep_step s (s\<lparr>the_sleeplock := releasesleep (the_sleeplock s), sleepers := wake_all ((sleepers s)(p := Away))\<rparr>)"

definition sleep_start :: sleep_sys where
  "sleep_start = \<lparr>the_sleeplock = initsleeplock, sleepers = (\<lambda>_. Away)\<rparr>"

definition sleep_inv :: "sleep_sys \<Rightarrow> bool" where
  "sleep_inv s \<longleftrightarrow>
     (\<forall>p. sleepers s p = Holds \<longleftrightarrow> holdingsleep (the_sleeplock s) \<and> sl_pid (the_sleeplock s) = p) \<and>
     (\<forall>p. sleepers s p = Waiting True \<longrightarrow> holdingsleep (the_sleeplock s))"

lemma sleep_start_inv: "sleep_inv sleep_start"
  by (simp add: sleep_inv_def sleep_start_def initsleeplock_def holdingsleep_def)

lemma sleep_step_inv: "sleep_step s s' \<Longrightarrow> sleep_inv s \<Longrightarrow> sleep_inv s'"
proof (induction rule: sleep_step.induct)
  case (call s p)
  then have "sleepers s p \<noteq> Holds" by simp
  with call(2) have "\<not> (holdingsleep (the_sleeplock s) \<and> sl_pid (the_sleeplock s) = p)"
    unfolding sleep_inv_def by blast
  with call show ?case by (auto simp: sleep_inv_def)
next
  case (got s p lk)
  then show ?case
    by (auto simp: sleep_inv_def acquiresleep_def holdingsleep_def split: if_splits)
next
  case (sleeps s p)
  then have "sleepers s p \<noteq> Holds" by simp
  with sleeps(3) have "\<not> (holdingsleep (the_sleeplock s) \<and> sl_pid (the_sleeplock s) = p)"
    unfolding sleep_inv_def by blast
  with sleeps show ?case
    by (auto simp: sleep_inv_def acquiresleep_def holdingsleep_def split: if_splits)
next
  case (frees s p)
  then have "sleepers s q = Holds \<longleftrightarrow> q = p" for q by (auto simp: sleep_inv_def)
  with frees show ?case
    by (auto simp: sleep_inv_def releasesleep_def holdingsleep_def wake_all_def split: sleeper.splits)
qed

lemma sleep_reachable_inv: "sleep_step\<^sup>*\<^sup>* sleep_start s \<Longrightarrow> sleep_inv s"
  by (induction rule: rtranclp_induct) (auto intro: sleep_start_inv sleep_step_inv)



end
