(* ===== verification/Ring_List.thy ===== *)
theory Ring_List
  imports Prelude
begin

text \<open>
  Circular doubly linked lists with a head node, as \<open>bio.c\<close> links its buffers: \<open>nx\<close> and \<open>pv\<close> are the two pointer
  fields as functions of the node. \<open>dseg nx pv p xs q\<close> says that the nodes \<open>xs\<close> lie between \<open>p\<close> and \<open>q\<close>; the ring
  of head \<open>h\<close> is a segment from \<open>h\<close> to \<open>h\<close>. Insertion after the head and removal are the pointer assignments of
  the source; a walk along either pointer visits the list forwards or backwards.
\<close>

fun dseg :: "(nat \<Rightarrow> nat) \<Rightarrow> (nat \<Rightarrow> nat) \<Rightarrow> nat \<Rightarrow> nat list \<Rightarrow> nat \<Rightarrow> bool" where
  "dseg nx pv p [] q \<longleftrightarrow> nx p = q \<and> pv q = p"
| "dseg nx pv p (x # xs) q \<longleftrightarrow> nx p = x \<and> pv x = p \<and> dseg nx pv x xs q"

definition ring :: "(nat \<Rightarrow> nat) \<Rightarrow> (nat \<Rightarrow> nat) \<Rightarrow> nat \<Rightarrow> nat list \<Rightarrow> bool" where
  "ring nx pv h xs \<longleftrightarrow> dseg nx pv h xs h \<and> distinct (h # xs)"

lemma dseg_append: "dseg nx pv p (xs @ x # ys) q \<longleftrightarrow> dseg nx pv p xs x \<and> dseg nx pv x ys q"
  by (induction xs arbitrary: p) auto

text \<open>A segment depends on \<open>nx\<close> of its first node and inner nodes and on \<open>pv\<close> of its inner nodes and last node.\<close>

lemma dseg_cong:
  assumes "dseg nx pv p xs q"
    and "\<And>x. x \<in> set (p # xs) \<Longrightarrow> nx' x = nx x" "\<And>x. x \<in> set (q # xs) \<Longrightarrow> pv' x = pv x"
  shows "dseg nx' pv' p xs q"
  using assms by (induction xs arbitrary: p) auto

lemma ring_insert:
  assumes "ring nx pv h xs" "b \<notin> set (h # xs)"
    and "nx' = nx(b := nx h, h := b)" "pv' = (pv(b := h))(nx h := b)"
  shows "ring nx' pv' h (b # xs)"
proof (cases xs)
  case Nil
  with assms show ?thesis by (auto simp: ring_def)
next
  case (Cons x ys)
  then have n: "nx h = x" and seg: "dseg nx pv x ys h" using assms(1) by (auto simp: ring_def)
  have "dseg nx' pv' x ys h"
    by (rule dseg_cong [OF seg]) (use assms Cons n in \<open>auto simp: ring_def\<close>)
  with assms Cons n show ?thesis by (auto simp: ring_def)
qed

lemma ring_remove:
  assumes "ring nx pv h (xs @ b # ys)"
    and "pv' = pv(nx b := pv b)" "nx' = nx(pv b := nx b)"
  shows "ring nx' pv' h (xs @ ys)"
proof -
  have seg: "dseg nx pv h xs b" "dseg nx pv b ys h" and dist: "distinct (h # xs @ b # ys)"
    using assms(1) by (auto simp: ring_def dseg_append)
  have last_xs: "pv b = last (h # xs)" using seg(1)
  proof (induction xs arbitrary: h rule: list.induct)
    case (Cons x xs)
    then show ?case by (cases xs) auto
  qed simp
  have pv_in: "pv b \<in> insert h (set xs)" using last_xs by (auto split: if_splits)
  have first_ys: "nx b = hd (ys @ [h])" using seg(2) by (cases ys) auto
  have left: "dseg nx' pv' h xs (hd (ys @ [h]))"
  proof (cases xs rule: rev_cases)
    case Nil
    with last_xs first_ys show ?thesis by (simp add: assms(2,3))
  next
    case (snoc zs z)
    with seg(1) have zs: "dseg nx pv h zs z" by (simp add: dseg_append)
    have "dseg nx' pv' h zs z"
      by (rule dseg_cong [OF zs]) (use snoc last_xs first_ys dist in \<open>cases ys; auto simp: assms(2,3)\<close>)+
    with snoc last_xs first_ys show ?thesis by (simp add: dseg_append assms(2,3))
  qed
  show ?thesis
  proof (cases ys)
    case Nil
    with left dist show ?thesis by (simp add: ring_def)
  next
    case (Cons y zs)
    with seg(2) have zs: "dseg nx pv y zs h" by simp
    have "dseg nx' pv' y zs h"
      by (rule dseg_cong [OF zs]) (use Cons pv_in first_ys dist in \<open>auto simp: assms(2,3)\<close>)
    with left Cons dist show ?thesis by (simp add: ring_def dseg_append)
  qed
qed

section \<open>Walks\<close>

text \<open>Walking along \<open>step\<close> from \<open>b\<close> to the head, stopping at the first node that satisfies \<open>P\<close>.\<close>

fun walk :: "nat \<Rightarrow> (nat \<Rightarrow> nat) \<Rightarrow> nat \<Rightarrow> (nat \<Rightarrow> bool) \<Rightarrow> nat \<Rightarrow> nat option c_result" where
  "walk 0 step h P b = Inl Diverges"
| "walk (Suc fuel) step h P b =
     (if b = h then Inr None else if P b then Inr (Some b) else walk fuel step h P (step b))"

lemma walk_forward:
  assumes "dseg nx pv p xs h" "h \<notin> set xs" "length xs < fuel"
  shows "walk fuel nx h P (nx p) = Inr (find P xs)"
  using assms
proof (induction xs arbitrary: p fuel)
  case Nil
  then show ?case by (cases fuel) auto
next
  case (Cons x xs)
  then show ?case by (cases fuel) auto
qed

lemma walk_backward:
  assumes "dseg nx pv h xs q" "h \<notin> set xs" "length xs < fuel"
  shows "walk fuel pv h P (pv q) = Inr (find P (rev xs))"
  using assms
proof (induction xs arbitrary: q fuel rule: rev_induct)
  case Nil
  then show ?case by (cases fuel) auto
next
  case (snoc x xs)
  then show ?case by (cases fuel) (auto simp: dseg_append)
qed

end
