(* ===== verification/Block_Bytes.thy ===== *)
theory Block_Bytes
  imports Prelude
begin

text \<open>
  Little-endian integers inside a byte array, as the kernel reads and writes the fields of the structures
  it overlays on disk blocks: \<open>get16\<close>, \<open>get32\<close> read at a byte offset, \<open>put16\<close>, \<open>put32\<close> write there, and \<open>splice\<close> is
  \<open>memmove\<close> into a buffer. Out of range the value is irrelevant: the clients stay inside their block.
\<close>

unbundle bit_operations_syntax

type_synonym block = "u8 list"

definition get16 :: "u8 list \<Rightarrow> nat \<Rightarrow> u16" where
  "get16 d k = ucast (d ! k) OR push_bit 8 (ucast (d ! (k + 1)))"

definition put16 :: "u8 list \<Rightarrow> nat \<Rightarrow> u16 \<Rightarrow> u8 list" where
  "put16 d k w = d[k := ucast w, k + 1 := ucast (drop_bit 8 w)]"

definition get32 :: "u8 list \<Rightarrow> nat \<Rightarrow> u32" where
  "get32 d k = ucast (d ! k) OR push_bit 8 (ucast (d ! (k + 1))) OR
     push_bit 16 (ucast (d ! (k + 2))) OR push_bit 24 (ucast (d ! (k + 3)))"

definition put32 :: "u8 list \<Rightarrow> nat \<Rightarrow> u32 \<Rightarrow> u8 list" where
  "put32 d k w = d[k := ucast w, k + 1 := ucast (drop_bit 8 w),
     k + 2 := ucast (drop_bit 16 w), k + 3 := ucast (drop_bit 24 w)]"

definition splice :: "u8 list \<Rightarrow> nat \<Rightarrow> u8 list \<Rightarrow> u8 list" where
  "splice d k xs = take k d @ xs @ drop (k + length xs) d"

lemma length_put16 [simp]: "length (put16 d k w) = length d"
  by (simp add: put16_def)

lemma length_put32 [simp]: "length (put32 d k w) = length d"
  by (simp add: put32_def)

lemma length_splice [simp]: "k + length xs \<le> length d \<Longrightarrow> length (splice d k xs) = length d"
  by (simp add: splice_def)

lemma word16_bytes:
  fixes w :: u16
  shows "ucast (ucast w :: u8) OR push_bit 8 (ucast (ucast (drop_bit 8 w) :: u8)) = w"
proof (rule bit_word_eqI)
  fix n assume "n < LENGTH(16)"
  then consider "n < 8" | "8 \<le> n" "n < 16" by force
  then show "bit (ucast (ucast w :: u8) OR push_bit 8 (ucast (ucast (drop_bit 8 w) :: u8)) :: u16) n = bit w n"
    by cases (auto simp: bit_simps)
qed

lemma word32_bytes:
  fixes w :: u32
  shows "ucast (ucast w :: u8) OR push_bit 8 (ucast (ucast (drop_bit 8 w) :: u8)) OR
    push_bit 16 (ucast (ucast (drop_bit 16 w) :: u8)) OR push_bit 24 (ucast (ucast (drop_bit 24 w) :: u8)) = w"
proof (rule bit_word_eqI)
  fix n assume "n < LENGTH(32)"
  then consider "n < 8" | "8 \<le> n" "n < 16" | "16 \<le> n" "n < 24" | "24 \<le> n" "n < 32" by force
  then show "bit (ucast (ucast w :: u8) OR push_bit 8 (ucast (ucast (drop_bit 8 w) :: u8)) OR
    push_bit 16 (ucast (ucast (drop_bit 16 w) :: u8)) OR push_bit 24 (ucast (ucast (drop_bit 24 w) :: u8)) :: u32) n = bit w n"
    by cases (auto simp: bit_simps)
qed

lemma get16_put16 [simp]: "k + 1 < length d \<Longrightarrow> get16 (put16 d k w) k = w"
  by (simp add: get16_def put16_def word16_bytes)

lemma get32_put32 [simp]: "k + 3 < length d \<Longrightarrow> get32 (put32 d k w) k = w"
  by (simp add: get32_def put32_def word32_bytes)

text \<open>A read sees only its own bytes.\<close>

lemma get32_cong:
  assumes "\<And>i. i < 4 \<Longrightarrow> d ! (k + i) = e ! (k + i)"
  shows "get32 d k = get32 e k"
  using assms [of 0] assms [of 1] assms [of 2] assms [of 3] by (simp add: get32_def)

lemma get16_cong:
  assumes "\<And>i. i < 2 \<Longrightarrow> d ! (k + i) = e ! (k + i)"
  shows "get16 d k = get16 e k"
  using assms [of 0] assms [of 1] by (simp add: get16_def)

lemma nth_put32: "i < k \<or> k + 4 \<le> i \<Longrightarrow> put32 d k w ! i = d ! i"
  by (auto simp: put32_def)

lemma nth_put16: "i < k \<or> k + 2 \<le> i \<Longrightarrow> put16 d k w ! i = d ! i"
  by (auto simp: put16_def)

lemma get32_put32_other: "j + 4 \<le> k \<or> k + 4 \<le> j \<Longrightarrow> get32 (put32 d k w) j = get32 d j"
  by (rule get32_cong) (auto simp: nth_put32)

lemma get32_put16_other: "j + 4 \<le> k \<or> k + 2 \<le> j \<Longrightarrow> get32 (put16 d k w) j = get32 d j"
  by (rule get32_cong) (auto simp: nth_put16)

lemma get16_put32_other: "j + 2 \<le> k \<or> k + 4 \<le> j \<Longrightarrow> get16 (put32 d k w) j = get16 d j"
  by (rule get16_cong) (auto simp: nth_put32)

lemma get16_put16_other: "j + 2 \<le> k \<or> k + 2 \<le> j \<Longrightarrow> get16 (put16 d k w) j = get16 d j"
  by (rule get16_cong) (auto simp: nth_put16)

lemma nth_splice:
  assumes "k + length xs \<le> length d" "i < length d"
  shows "splice d k xs ! i = (if k \<le> i \<and> i < k + length xs then xs ! (i - k) else d ! i)"
  using assms by (auto simp: splice_def nth_append min_def)

end
