(* ===== verification/Block_Interface.thy ===== *)
theory Block_Interface
  imports Block_Bytes
begin

text \<open>
  What the buffer cache promises to the code above it: a store of blocks that can be read, written through
  to the disk, or pinned (changed in memory only, to be written later). The locale \<open>block_cache\<close> states the
  laws; a run of operations then returns what the same run on a plain array of blocks returns.
\<close>

datatype block_op = Rd u32 | Wr u32 block | Pin u32 block

fun op_block :: "block_op \<Rightarrow> u32" where
  "op_block (Rd b) = b" | "op_block (Wr b d) = b" | "op_block (Pin b d) = b"

fun op_data_ok :: "nat \<Rightarrow> block_op \<Rightarrow> bool" where
  "op_data_ok n (Rd b) = True" | "op_data_ok n (Wr b d) = (length d = n)" | "op_data_ok n (Pin b d) = (length d = n)"

fun op_pins :: "block_op \<Rightarrow> u32 set" where
  "op_pins (Pin b d) = {b}" | "op_pins _ = {}"

text \<open>The operations on a plain array: the blocks read, and the array afterwards.\<close>

fun spec_ops :: "block_op list \<Rightarrow> (u32 \<Rightarrow> block) \<Rightarrow> block list \<times> (u32 \<Rightarrow> block)" where
  "spec_ops [] m = ([], m)"
| "spec_ops (Rd b # ops) m = (let (ds, m') = spec_ops ops m in (m b # ds, m'))"
| "spec_ops (Wr b d # ops) m = spec_ops ops (m(b := d))"
| "spec_ops (Pin b d # ops) m = spec_ops ops (m(b := d))"

text \<open>The operations on a cache given by its three calls.\<close>

fun run_ops :: "(u32 \<Rightarrow> 's \<Rightarrow> (block \<times> 's) c_result) \<Rightarrow> (u32 \<Rightarrow> block \<Rightarrow> 's \<Rightarrow> 's c_result) \<Rightarrow>
    (u32 \<Rightarrow> block \<Rightarrow> 's \<Rightarrow> 's c_result) \<Rightarrow> block_op list \<Rightarrow> 's \<Rightarrow> (block list \<times> 's) c_result" where
  "run_ops rd wr pin [] s = Inr ([], s)"
| "run_ops rd wr pin (Rd b # ops) s =
     bindE (rd b s) (\<lambda>(d, s1). bindE (run_ops rd wr pin ops s1) (\<lambda>(ds, s2). Inr (d # ds, s2)))"
| "run_ops rd wr pin (Wr b d # ops) s = bindE (wr b d s) (run_ops rd wr pin ops)"
| "run_ops rd wr pin (Pin b d # ops) s = bindE (pin b d s) (run_ops rd wr pin ops)"

locale block_cache =
  fixes ok :: "'s \<Rightarrow> bool" and size_of :: "'s \<Rightarrow> nat" and view_of :: "'s \<Rightarrow> u32 \<Rightarrow> block"
    and disk_of :: "'s \<Rightarrow> u32 \<Rightarrow> block" and pins :: "'s \<Rightarrow> u32 set" and capacity :: nat and bsize :: nat
    and rd :: "u32 \<Rightarrow> 's \<Rightarrow> (block \<times> 's) c_result" and wr :: "u32 \<Rightarrow> block \<Rightarrow> 's \<Rightarrow> 's c_result"
    and pin :: "u32 \<Rightarrow> block \<Rightarrow> 's \<Rightarrow> 's c_result"
  assumes finite_pins: "ok s \<Longrightarrow> finite (pins s)"
    and coherent: "ok s \<Longrightarrow> b \<notin> pins s \<Longrightarrow> view_of s b = disk_of s b"
    and rd_law: "ok s \<Longrightarrow> unat b < size_of s \<Longrightarrow> card (pins s) < capacity \<Longrightarrow>
      \<exists>s'. rd b s = Inr (view_of s b, s') \<and> ok s' \<and> size_of s' = size_of s \<and> view_of s' = view_of s \<and>
        disk_of s' = disk_of s \<and> pins s' = pins s"
    and wr_law: "ok s \<Longrightarrow> unat b < size_of s \<Longrightarrow> card (pins s) < capacity \<Longrightarrow> length d = bsize \<Longrightarrow>
      \<exists>s'. wr b d s = Inr s' \<and> ok s' \<and> size_of s' = size_of s \<and> view_of s' = (view_of s)(b := d) \<and>
        disk_of s' = (disk_of s)(b := d) \<and> pins s' = pins s - {b}"
    and pin_law: "ok s \<Longrightarrow> unat b < size_of s \<Longrightarrow> card (pins s) < capacity \<Longrightarrow> length d = bsize \<Longrightarrow>
      \<exists>s'. pin b d s = Inr s' \<and> ok s' \<and> size_of s' = size_of s \<and> view_of s' = (view_of s)(b := d) \<and>
        disk_of s' = disk_of s \<and> pins s' = insert b (pins s)"
begin

lemma run_refines:
  assumes "ok s" "\<forall>x \<in> set ops. unat (op_block x) < size_of s \<and> op_data_ok bsize x"
    and "card (pins s \<union> \<Union> (op_pins ` set ops)) < capacity"
  shows "\<exists>s'. run_ops rd wr pin ops s = Inr (fst (spec_ops ops (view_of s)), s') \<and> ok s' \<and>
    view_of s' = snd (spec_ops ops (view_of s)) \<and> pins s' \<subseteq> pins s \<union> \<Union> (op_pins ` set ops)"
  using assms
proof (induction ops arbitrary: s)
  case Nil
  then show ?case by simp
next
  case (Cons x ops)
  let ?P = "pins s \<union> \<Union> (op_pins ` set (x # ops))"
  have fin: "finite ?P"
  proof -
    have "finite (op_pins y)" for y by (cases y) auto
    then show ?thesis using finite_pins [OF Cons.prems(1)] by blast
  qed
  have "card (pins s) \<le> card ?P" by (rule card_mono [OF fin]) blast
  then have cap: "card (pins s) < capacity" using Cons.prems(3) by simp
  have step: ?case
    if s1: "ok s1" "size_of s1 = size_of s" "pins s1 \<subseteq> pins s \<union> op_pins x"
      and next_run: "\<And>ds s'. run_ops rd wr pin ops s1 = Inr (ds, s') \<Longrightarrow>
        run_ops rd wr pin (x # ops) s = Inr (pre @ ds, s')"
      and sp: "fst (spec_ops (x # ops) (view_of s)) = pre @ fst (spec_ops ops (view_of s1))"
        "snd (spec_ops (x # ops) (view_of s)) = snd (spec_ops ops (view_of s1))" for s1 pre
  proof -
    have sub: "pins s1 \<union> \<Union> (op_pins ` set ops) \<subseteq> ?P" using s1(3) by auto
    have "card (pins s1 \<union> \<Union> (op_pins ` set ops)) < capacity"
      using card_mono [OF fin sub] Cons.prems(3) by simp
    with Cons.IH [of s1] s1 Cons.prems(2) obtain s' where s':
      "run_ops rd wr pin ops s1 = Inr (fst (spec_ops ops (view_of s1)), s')" "ok s'"
      "view_of s' = snd (spec_ops ops (view_of s1))" "pins s' \<subseteq> pins s1 \<union> \<Union> (op_pins ` set ops)"
      by auto
    then have "pins s' \<subseteq> ?P" using sub by (rule_tac order_trans) simp
    with next_run [OF s'(1)] sp s'(2,3) show ?thesis by (intro exI [of _ s']) simp
  qed
  show ?case
  proof (cases x)
    case (Rd b)
    with rd_law [OF Cons.prems(1) _ cap, of b] Cons.prems(2) obtain s1 where s1:
      "rd b s = Inr (view_of s b, s1)" "ok s1" "size_of s1 = size_of s" "view_of s1 = view_of s" "pins s1 = pins s"
      by auto
    then show ?thesis by (intro step [of s1 "[view_of s b]"]) (auto simp: Rd split: prod.splits)
  next
    case (Wr b d)
    with wr_law [OF Cons.prems(1) _ cap, of b d] Cons.prems(2) obtain s1 where s1:
      "wr b d s = Inr s1" "ok s1" "size_of s1 = size_of s" "view_of s1 = (view_of s)(b := d)" "pins s1 = pins s - {b}"
      by auto
    then show ?thesis by (intro step [of s1 "[]"]) (auto simp: Wr)
  next
    case (Pin b d)
    with pin_law [OF Cons.prems(1) _ cap, of b d] Cons.prems(2) obtain s1 where s1:
      "pin b d s = Inr s1" "ok s1" "size_of s1 = size_of s" "view_of s1 = (view_of s)(b := d)" "pins s1 = insert b (pins s)"
      by auto
    then show ?thesis by (intro step [of s1 "[]"]) (auto simp: Pin)
  qed
qed

end

end
