(* ===== verification/Xv6_Bio.thy ===== *)
theory Xv6_Bio
  imports Ring_List Block_Interface Xv6_Locks
begin

text \<open>
  The buffer cache of xv6 (\<open>bio.c\<close>) over the memory disk of \<open>memide.c\<close>. Buffers are numbered from 0 to \<open>NBUF - 1\<close>;
  number \<open>NBUF\<close> is the list head. The links are pointers (\<open>b_prev\<close>, \<open>b_next\<close>). \<open>disk_writes\<close> records every write
  to the disk in order. The operations run to their end or stop where the process would sleep on a
  buffer that somebody else holds (\<open>Blocked\<close>); the spin lock of the cache makes their list walks atomic.
\<close>

unbundle bit_operations_syntax

section \<open>Buffers\<close>

definition NBUF :: nat where "NBUF = 30"
definition BSIZE :: nat where "BSIZE = 512"

definition B_VALID :: u32 where "B_VALID = 2"
definition B_DIRTY :: u32 where "B_DIRTY = 4"

record buf =
  b_flags :: u32
  b_dev :: u32
  b_blockno :: u32
  b_lock :: sleeplock
  b_refcnt :: u32
  b_prev :: nat
  b_next :: nat
  b_data :: block

record bcache =
  bufs :: "nat \<Rightarrow> buf"
  memdisk :: "u32 \<Rightarrow> block"
  disksize :: nat
  disk_writes :: "(u32 \<times> block) list"

abbreviation bhead :: nat where "bhead \<equiv> NBUF"

definition upd_buf :: "nat \<Rightarrow> (buf \<Rightarrow> buf) \<Rightarrow> bcache \<Rightarrow> bcache" where
  "upd_buf i f s = s\<lparr>bufs := (bufs s)(i := f (bufs s i))\<rparr>"

text \<open>The four assignments that link a buffer in behind the head, and the two that take it out.\<close>

definition link_front :: "nat \<Rightarrow> bcache \<Rightarrow> bcache" where
  "link_front b s =
     (let s1 = upd_buf b (\<lambda>x. x\<lparr>b_next := b_next (bufs s bhead)\<rparr>) s;
          s2 = upd_buf b (\<lambda>x. x\<lparr>b_prev := bhead\<rparr>) s1;
          s3 = upd_buf (b_next (bufs s2 bhead)) (\<lambda>x. x\<lparr>b_prev := b\<rparr>) s2
      in upd_buf bhead (\<lambda>x. x\<lparr>b_next := b\<rparr>) s3)"

definition unlink :: "nat \<Rightarrow> bcache \<Rightarrow> bcache" where
  "unlink b s =
     (let s1 = upd_buf (b_next (bufs s b)) (\<lambda>x. x\<lparr>b_prev := b_prev (bufs s b)\<rparr>) s
      in upd_buf (b_prev (bufs s1 b)) (\<lambda>x. x\<lparr>b_next := b_next (bufs s1 b)\<rparr>) s1)"

fun binit_from :: "nat \<Rightarrow> nat \<Rightarrow> bcache \<Rightarrow> bcache" where
  "binit_from 0 b s = s"
| "binit_from (Suc k) b s =
     binit_from k (Suc b) (link_front b (upd_buf b (\<lambda>x. x\<lparr>b_lock := initsleeplock\<rparr>) s))"

definition binit :: "bcache \<Rightarrow> bcache" where
  "binit s =
     binit_from NBUF 0 (upd_buf bhead (\<lambda>x. x\<lparr>b_prev := bhead, b_next := bhead\<rparr>) s)"

section \<open>memide.c\<close>

definition iderw :: "nat \<Rightarrow> bcache \<Rightarrow> bcache c_result" where
  "iderw i s =
     (let b = bufs s i
      in if \<not> holdingsleep (b_lock b) then Inl (Panic ''iderw: buf not locked'')
         else if b_flags b AND (B_VALID OR B_DIRTY) = B_VALID then Inl (Panic ''iderw: nothing to do'')
         else if b_dev b \<noteq> 1 then Inl (Panic ''iderw: request not for disk 1'')
         else if unat (b_blockno b) \<ge> disksize s then Inl (Panic ''iderw: block out of range'')
         else if b_flags b AND B_DIRTY \<noteq> 0
         then Inr (upd_buf i (\<lambda>x. x\<lparr>b_flags := (b_flags x AND NOT B_DIRTY) OR B_VALID\<rparr>)
                (s\<lparr>memdisk := (memdisk s)(b_blockno b := b_data b),
                   disk_writes := disk_writes s @ [(b_blockno b, b_data b)]\<rparr>))
         else Inr (upd_buf i (\<lambda>x. x\<lparr>b_data := memdisk s (b_blockno b), b_flags := b_flags x OR B_VALID\<rparr>) s))"

section \<open>bio.c\<close>

definition lock_buf :: "int \<Rightarrow> nat \<Rightarrow> bcache \<Rightarrow> bcache c_result" where
  "lock_buf pid i s =
     (case acquiresleep pid (b_lock (bufs s i)) of
        None \<Rightarrow> Inl Blocked
      | Some lk \<Rightarrow> Inr (upd_buf i (\<lambda>x. x\<lparr>b_lock := lk\<rparr>) s))"

definition bget :: "int \<Rightarrow> u32 \<Rightarrow> u32 \<Rightarrow> bcache \<Rightarrow> (nat \<times> bcache) c_result" where
  "bget pid dev blockno s =
     bindE (walk (NBUF + 1) (\<lambda>i. b_next (bufs s i)) bhead
              (\<lambda>i. b_dev (bufs s i) = dev \<and> b_blockno (bufs s i) = blockno) (b_next (bufs s bhead)))
       (\<lambda>r. case r of
          Some b \<Rightarrow>
            bindE (lock_buf pid b (upd_buf b (\<lambda>x. x\<lparr>b_refcnt := b_refcnt x + 1\<rparr>) s)) (\<lambda>s'. Inr (b, s'))
        | None \<Rightarrow>
            bindE (walk (NBUF + 1) (\<lambda>i. b_prev (bufs s i)) bhead
                     (\<lambda>i. b_refcnt (bufs s i) = 0 \<and> b_flags (bufs s i) AND B_DIRTY = 0) (b_prev (bufs s bhead)))
              (\<lambda>r. case r of
                 Some b \<Rightarrow>
                   bindE (lock_buf pid b (upd_buf b (\<lambda>x. x\<lparr>b_dev := dev, b_blockno := blockno,
                            b_flags := 0, b_refcnt := 1\<rparr>) s)) (\<lambda>s'. Inr (b, s'))
               | None \<Rightarrow> Inl (Panic ''bget: no buffers'')))"

definition bread :: "int \<Rightarrow> u32 \<Rightarrow> u32 \<Rightarrow> bcache \<Rightarrow> (nat \<times> bcache) c_result" where
  "bread pid dev blockno s =
     bindE (bget pid dev blockno s) (\<lambda>(b, s1).
     if b_flags (bufs s1 b) AND B_VALID = 0
     then bindE (iderw b s1) (\<lambda>s2. Inr (b, s2))
     else Inr (b, s1))"

definition bwrite :: "nat \<Rightarrow> bcache \<Rightarrow> bcache c_result" where
  "bwrite b s =
     (if \<not> holdingsleep (b_lock (bufs s b)) then Inl (Panic ''bwrite'')
      else iderw b (upd_buf b (\<lambda>x. x\<lparr>b_flags := b_flags x OR B_DIRTY\<rparr>) s))"

definition brelse :: "nat \<Rightarrow> bcache \<Rightarrow> bcache c_result" where
  "brelse b s =
     (if \<not> holdingsleep (b_lock (bufs s b)) then Inl (Panic ''brelse'')
      else let s1 = upd_buf b (\<lambda>x. x\<lparr>b_lock := releasesleep (b_lock x)\<rparr>) s;
               s2 = upd_buf b (\<lambda>x. x\<lparr>b_refcnt := b_refcnt x - 1\<rparr>) s1
           in if b_refcnt (bufs s2 b) = 0 then Inr (link_front b (unlink b s2)) else Inr s2)"

text \<open>How the callers use a buffer: read it; replace its data and write it through; replace its data and pin it.\<close>

definition read_block :: "int \<Rightarrow> u32 \<Rightarrow> bcache \<Rightarrow> (block \<times> bcache) c_result" where
  "read_block pid b s =
     bindE (bread pid 1 b s) (\<lambda>(i, s1).
     bindE (brelse i s1) (\<lambda>s2. Inr (b_data (bufs s1 i), s2)))"

definition write_block :: "int \<Rightarrow> u32 \<Rightarrow> block \<Rightarrow> bcache \<Rightarrow> bcache c_result" where
  "write_block pid b d s =
     bindE (bread pid 1 b s) (\<lambda>(i, s1).
     bindE (bwrite i (upd_buf i (\<lambda>x. x\<lparr>b_data := d\<rparr>) s1)) (\<lambda>s2. brelse i s2))"

definition pin_block :: "int \<Rightarrow> u32 \<Rightarrow> block \<Rightarrow> bcache \<Rightarrow> bcache c_result" where
  "pin_block pid b d s =
     bindE (bread pid 1 b s) (\<lambda>(i, s1).
     brelse i (upd_buf i (\<lambda>x. x\<lparr>b_data := d, b_flags := b_flags x OR B_DIRTY\<rparr>) s1))"

section \<open>Flags\<close>

lemma bit_flags [simp]: "bit B_VALID n \<longleftrightarrow> n = 1" "bit B_DIRTY n \<longleftrightarrow> n = 2"
proof -
  have V: "B_VALID = 2 ^ 1" and D: "B_DIRTY = 2 ^ 2" by (simp_all add: B_VALID_def B_DIRTY_def)
  have *: "bit (2 ^ m :: u32) n \<longleftrightarrow> n = m" if "m < 32" for m
    using that by (auto simp: bit_exp_iff possible_bit_word)
  show "bit B_VALID n \<longleftrightarrow> n = 1" "bit B_DIRTY n \<longleftrightarrow> n = 2" unfolding V D by (rule *, simp)+
qed

lemma flag_bits:
  "f AND B_VALID = 0 \<longleftrightarrow> \<not> bit f 1" "f AND B_DIRTY = 0 \<longleftrightarrow> \<not> bit f 2"
  "f AND (B_VALID OR B_DIRTY) = B_VALID \<longleftrightarrow> bit f 1 \<and> \<not> bit f 2"
proof -
  show "f AND B_VALID = 0 \<longleftrightarrow> \<not> bit f 1"
    using and_exp_eq_0_iff_not_bit [of f 1] by (simp add: B_VALID_def)
  show "f AND B_DIRTY = 0 \<longleftrightarrow> \<not> bit f 2"
    using and_exp_eq_0_iff_not_bit [of f 2] by (simp add: B_DIRTY_def)
  show "f AND (B_VALID OR B_DIRTY) = B_VALID \<longleftrightarrow> bit f 1 \<and> \<not> bit f 2"
  proof
    assume *: "f AND (B_VALID OR B_DIRTY) = B_VALID"
    have "bit (f AND (B_VALID OR B_DIRTY)) 1" "\<not> bit (f AND (B_VALID OR B_DIRTY)) 2"
      unfolding * by simp_all
    then show "bit f 1 \<and> \<not> bit f 2" by (simp add: bit_and_iff bit_or_iff)
  next
    assume *: "bit f 1 \<and> \<not> bit f 2"
    show "f AND (B_VALID OR B_DIRTY) = B_VALID"
    proof (rule bit_word_eqI)
      fix n
      show "bit (f AND (B_VALID OR B_DIRTY)) n \<longleftrightarrow> bit B_VALID n"
        using * by (cases "n = 1"; cases "n = 2") (simp_all add: bit_and_iff bit_or_iff)
    qed
  qed
qed

lemma flags_nonzero [simp]: "B_VALID \<noteq> 0" "B_DIRTY \<noteq> 0"
  by (simp_all add: B_VALID_def B_DIRTY_def)

lemma flag_bit_simps [simp]:
  "bit (f OR B_VALID) (Suc 0)" "bit (f OR B_VALID) 2 \<longleftrightarrow> bit f 2"
  "bit (f OR B_DIRTY) 2" "bit (f OR B_DIRTY) (Suc 0) \<longleftrightarrow> bit f 1"
  "\<not> bit (f AND NOT B_DIRTY) 2" "bit (f AND NOT B_DIRTY) (Suc 0) \<longleftrightarrow> bit f 1"
  by (simp_all add: bit_and_iff bit_or_iff bit_not_iff)

section \<open>The list of buffers\<close>

abbreviation nx_of :: "bcache \<Rightarrow> nat \<Rightarrow> nat" where "nx_of s \<equiv> \<lambda>i. b_next (bufs s i)"
abbreviation pv_of :: "bcache \<Rightarrow> nat \<Rightarrow> nat" where "pv_of s \<equiv> \<lambda>i. b_prev (bufs s i)"

definition mru :: "bcache \<Rightarrow> nat list \<Rightarrow> bool" where
  "mru s xs \<longleftrightarrow> ring (nx_of s) (pv_of s) bhead xs"

lemma bufs_upd_buf [simp]: "bufs (upd_buf i f s) = (bufs s)(i := f (bufs s i))"
  by (simp add: upd_buf_def)

lemma upd_buf_other [simp]:
  "memdisk (upd_buf i f s) = memdisk s" "disksize (upd_buf i f s) = disksize s"
  "disk_writes (upd_buf i f s) = disk_writes s"
  by (simp_all add: upd_buf_def)

lemma mru_links: "nx_of s' = nx_of s \<Longrightarrow> pv_of s' = pv_of s \<Longrightarrow> mru s' xs \<longleftrightarrow> mru s xs"
  by (simp add: mru_def)

lemma mru_upd_buf:
  assumes "b_next (f (bufs s i)) = b_next (bufs s i)" "b_prev (f (bufs s i)) = b_prev (bufs s i)"
  shows "mru (upd_buf i f s) xs \<longleftrightarrow> mru s xs"
  using assms by (intro mru_links) (auto simp: fun_eq_iff)

lemma nx_link_front: "b \<noteq> bhead \<Longrightarrow> nx_of (link_front b s) = (nx_of s)(b := nx_of s bhead, bhead := b)"
  by (auto simp: link_front_def Let_def fun_eq_iff)

lemma pv_link_front:
  "b \<noteq> bhead \<Longrightarrow> pv_of (link_front b s) = (pv_of s)(b := bhead, nx_of s bhead := b)"
  by (auto simp: link_front_def Let_def fun_eq_iff)

lemma link_front_mru: "mru s xs \<Longrightarrow> b \<notin> set (bhead # xs) \<Longrightarrow> mru (link_front b s) (b # xs)"
  unfolding mru_def by (rule ring_insert [of "nx_of s" "pv_of s"]) (auto simp: nx_link_front pv_link_front)

lemma unlink_mru: "mru s (xs @ b # ys) \<Longrightarrow> mru (unlink b s) (xs @ ys)"
proof -
  assume *: "mru s (xs @ b # ys)"
  then have ne: "nx_of s b \<noteq> b" "pv_of s b \<noteq> b"
    by (cases ys; cases xs rule: rev_cases; auto simp: mru_def ring_def dseg_append)+
  show ?thesis
    using * unfolding mru_def
    by (rule ring_remove) (use ne in \<open>auto simp: unlink_def Let_def fun_eq_iff\<close>)
qed

text \<open>Relinking touches the pointers only.\<close>

lemma link_front_fields [simp]:
  "b_flags (bufs (link_front b s) i) = b_flags (bufs s i)"
  "b_dev (bufs (link_front b s) i) = b_dev (bufs s i)"
  "b_blockno (bufs (link_front b s) i) = b_blockno (bufs s i)"
  "b_lock (bufs (link_front b s) i) = b_lock (bufs s i)"
  "b_refcnt (bufs (link_front b s) i) = b_refcnt (bufs s i)"
  "b_data (bufs (link_front b s) i) = b_data (bufs s i)"
  "memdisk (link_front b s) = memdisk s" "disksize (link_front b s) = disksize s"
  "disk_writes (link_front b s) = disk_writes s"
  unfolding link_front_def Let_def by (simp_all add: upd_buf_def)

lemma unlink_fields [simp]:
  "b_flags (bufs (unlink b s) i) = b_flags (bufs s i)"
  "b_dev (bufs (unlink b s) i) = b_dev (bufs s i)"
  "b_blockno (bufs (unlink b s) i) = b_blockno (bufs s i)"
  "b_lock (bufs (unlink b s) i) = b_lock (bufs s i)"
  "b_refcnt (bufs (unlink b s) i) = b_refcnt (bufs s i)"
  "b_data (bufs (unlink b s) i) = b_data (bufs s i)"
  "memdisk (unlink b s) = memdisk s" "disksize (unlink b s) = disksize s"
  "disk_writes (unlink b s) = disk_writes s"
  unfolding unlink_def Let_def by (simp_all add: upd_buf_def)

lemmas relink_simps = link_front_fields unlink_fields

lemma relink_mru:
  assumes "mru s xs" "b \<in> set xs"
  shows "mru (link_front b (unlink b s)) (b # remove1 b xs)"
proof -
  obtain ys zs where xs: "xs = ys @ b # zs" "b \<notin> set ys" using split_list_first [OF assms(2)] by blast
  have "distinct (bhead # xs)" using assms(1) by (simp add: mru_def ring_def)
  then have "b \<notin> set (bhead # ys @ zs)" using xs by auto
  with link_front_mru [OF unlink_mru] assms(1) xs show ?thesis by (simp add: remove1_append)
qed

lemma binit_from_mru:
  assumes "mru s (rev [0..<b])" "b + k = NBUF"
  shows "mru (binit_from k b s) (rev [0..<NBUF])"
  using assms
proof (induction k arbitrary: b s)
  case (Suc k)
  have "mru (upd_buf b (\<lambda>x. x\<lparr>b_lock := initsleeplock\<rparr>) s) (rev [0..<b])"
    using Suc.prems(1) by (simp add: mru_upd_buf)
  then have "mru (link_front b (upd_buf b (\<lambda>x. x\<lparr>b_lock := initsleeplock\<rparr>) s)) (b # rev [0..<b])"
    using Suc.prems(2) by (intro link_front_mru) auto
  with Suc show ?case by simp
qed simp

lemma binit_mru: "mru (binit s) (rev [0..<NBUF])"
  unfolding binit_def by (rule binit_from_mru) (simp_all add: mru_def ring_def)

section \<open>The invariant\<close>

text \<open>
  \<open>H\<close> is the set of buffers that are held (locked, between \<open>bread\<close> and \<open>brelse\<close>). A buffer that is not held is
  unreferenced and unlocked, and if it is valid and clean its data is the disk's. A dirty buffer is valid; a valid
  one is of disk 1, and of it alone, and in range. No two buffers cache the same block.
\<close>

abbreviation valid_buf :: "buf \<Rightarrow> bool" where "valid_buf b \<equiv> bit (b_flags b) (Suc 0)"
abbreviation dirty_buf :: "buf \<Rightarrow> bool" where "dirty_buf b \<equiv> bit (b_flags b) 2"

definition buf_ok :: "bool \<Rightarrow> bcache \<Rightarrow> buf \<Rightarrow> bool" where
  "buf_ok held s b \<longleftrightarrow>
     (sl_locked (b_lock b) \<noteq> 0 \<longleftrightarrow> held) \<and> b_refcnt b = (if held then 1 else 0) \<and>
     length (b_data b) = BSIZE \<and> (dirty_buf b \<longrightarrow> valid_buf b) \<and> (held \<longrightarrow> valid_buf b) \<and>
     (valid_buf b \<longleftrightarrow> b_dev b = 1) \<and> (valid_buf b \<longrightarrow> unat (b_blockno b) < disksize s) \<and>
     (\<not> held \<and> valid_buf b \<and> \<not> dirty_buf b \<longrightarrow> b_data b = memdisk s (b_blockno b))"

definition one_copy :: "bcache \<Rightarrow> bool" where
  "one_copy s \<longleftrightarrow> (\<forall>i<NBUF. \<forall>j<NBUF. i \<noteq> j \<longrightarrow> b_dev (bufs s i) = 1 \<longrightarrow> b_dev (bufs s j) = 1 \<longrightarrow>
     b_blockno (bufs s i) \<noteq> b_blockno (bufs s j))"

definition bok :: "nat set \<Rightarrow> bcache \<Rightarrow> bool" where
  "bok H s \<longleftrightarrow> (\<exists>xs. mru s xs \<and> set xs = {..<NBUF}) \<and> H \<subseteq> {..<NBUF} \<and>
     (\<forall>i<NBUF. buf_ok (i \<in> H) s (bufs s i)) \<and> one_copy s \<and> (\<forall>b. length (memdisk s b) = BSIZE)"

text \<open>What a reader sees of a block: the cached copy if there is one. The dirty buffers pin their blocks.\<close>

definition cached :: "bcache \<Rightarrow> u32 \<Rightarrow> nat option" where
  "cached s b = find (\<lambda>i. valid_buf (bufs s i) \<and> b_blockno (bufs s i) = b) [0..<NBUF]"

definition view :: "bcache \<Rightarrow> u32 \<Rightarrow> block" where
  "view s b = (case cached s b of Some i \<Rightarrow> b_data (bufs s i) | None \<Rightarrow> memdisk s b)"

definition pinned :: "bcache \<Rightarrow> u32 set" where
  "pinned s = {b_blockno (bufs s i) |i. i < NBUF \<and> dirty_buf (bufs s i)}"

lemma bokD:
  assumes "bok H s"
  shows "\<exists>xs. mru s xs \<and> set xs = {..<NBUF}" "i \<in> H \<Longrightarrow> i < NBUF" "H \<subseteq> {..<NBUF}"
    "i < NBUF \<Longrightarrow> buf_ok (i \<in> H) s (bufs s i)" "one_copy s" "length (memdisk s b) = BSIZE"
  using assms by (auto simp: bok_def)

lemma one_copyD:
  "one_copy s \<Longrightarrow> i < NBUF \<Longrightarrow> j < NBUF \<Longrightarrow> b_dev (bufs s i) = 1 \<Longrightarrow> b_dev (bufs s j) = 1 \<Longrightarrow>
     b_blockno (bufs s i) = b_blockno (bufs s j) \<Longrightarrow> i = j"
  unfolding one_copy_def by metis

lemma bok_valid:
  assumes "bok H s" "i < NBUF" "valid_buf (bufs s i)"
  shows "b_dev (bufs s i) = 1" "unat (b_blockno (bufs s i)) < disksize s"
  using bokD(4) [OF assms(1,2)] assms(3) by (auto simp: buf_ok_def)

lemma bok_held:
  assumes "bok H s" "i \<in> H"
  shows "i < NBUF" "valid_buf (bufs s i)" "b_dev (bufs s i) = 1" "unat (b_blockno (bufs s i)) < disksize s"
    "holdingsleep (b_lock (bufs s i))" "b_refcnt (bufs s i) = 1" "length (b_data (bufs s i)) = BSIZE"
  using bokD(4) [OF assms(1), of i] bokD(2) [OF assms] assms(2) by (auto simp: buf_ok_def holdingsleep_def)

lemma bok_free:
  assumes "bok H s" "i < NBUF" "i \<notin> H"
  shows "sl_locked (b_lock (bufs s i)) = 0" "b_refcnt (bufs s i) = 0" "length (b_data (bufs s i)) = BSIZE"
    "dirty_buf (bufs s i) \<Longrightarrow> valid_buf (bufs s i)"
    "valid_buf (bufs s i) \<Longrightarrow> \<not> dirty_buf (bufs s i) \<Longrightarrow> b_data (bufs s i) = memdisk s (b_blockno (bufs s i))"
  using bokD(4) [OF assms(1,2)] assms(3) by (auto simp: buf_ok_def)

lemma view_cached:
  assumes "bok H s" "i < NBUF" "valid_buf (bufs s i)"
  shows "view s (b_blockno (bufs s i)) = b_data (bufs s i)"
proof -
  have "cached s (b_blockno (bufs s i)) \<noteq> None"
    using assms(2,3) by (auto simp: cached_def find_None_iff)
  then obtain j where j: "cached s (b_blockno (bufs s i)) = Some j" by blast
  then have "j < NBUF" "valid_buf (bufs s j)" "b_blockno (bufs s j) = b_blockno (bufs s i)"
    by (auto simp: cached_def find_Some_iff)
  with one_copyD [OF bokD(5) [OF assms(1)], of i j] bok_valid [OF assms(1)] assms(2,3) have "j = i" by simp
  with j show ?thesis by (simp add: view_def)
qed

lemma view_uncached: "(\<And>i. i < NBUF \<Longrightarrow> valid_buf (bufs s i) \<Longrightarrow> b_blockno (bufs s i) \<noteq> b) \<Longrightarrow> view s b = memdisk s b"
proof -
  assume *: "\<And>i. i < NBUF \<Longrightarrow> valid_buf (bufs s i) \<Longrightarrow> b_blockno (bufs s i) \<noteq> b"
  have "cached s b = None" unfolding cached_def find_None_iff using * by auto
  then show ?thesis by (simp add: view_def)
qed

lemma view_length: "bok H s \<Longrightarrow> length (view s b) = BSIZE"
proof -
  assume ok: "bok H s"
  show ?thesis
  proof (cases "\<exists>i<NBUF. valid_buf (bufs s i) \<and> b_blockno (bufs s i) = b")
    case True
    then obtain i where "i < NBUF" "valid_buf (bufs s i)" "b_blockno (bufs s i) = b" by blast
    with view_cached [OF ok, of i] bokD(4) [OF ok, of i] show ?thesis by (simp add: buf_ok_def)
  next
    case False
    then have "view s b = memdisk s b" by (intro view_uncached) auto
    with bokD(6) [OF ok] show ?thesis by simp
  qed
qed

lemma view_unpinned:
  assumes "bok {} s" "b \<notin> pinned s"
  shows "view s b = memdisk s b"
proof (cases "\<exists>i<NBUF. valid_buf (bufs s i) \<and> b_blockno (bufs s i) = b")
  case True
  then obtain i where i: "i < NBUF" "valid_buf (bufs s i)" "b_blockno (bufs s i) = b" by blast
  then have "\<not> dirty_buf (bufs s i)" using assms(2) by (auto simp: pinned_def)
  with i view_cached [OF assms(1), of i] bok_free(5) [OF assms(1), of i] show ?thesis by simp
next
  case False
  then show ?thesis by (intro view_uncached) auto
qed

text \<open>One buffer replaced.\<close>

definition put_buf :: "nat \<Rightarrow> buf \<Rightarrow> bcache \<Rightarrow> bcache" where
  "put_buf i b s = upd_buf i (\<lambda>_. b) s"

lemma upd_put: "upd_buf i f s = put_buf i (f (bufs s i)) s"
  by (simp add: upd_buf_def put_buf_def)

lemma put_buf_fields [simp]:
  "bufs (put_buf i b s) = (bufs s)(i := b)" "memdisk (put_buf i b s) = memdisk s"
  "disksize (put_buf i b s) = disksize s" "disk_writes (put_buf i b s) = disk_writes s"
  "put_buf i b' (put_buf i b s) = put_buf i b' s"
  by (simp_all add: put_buf_def upd_buf_def)

lemma put_buf_bok:
  assumes "bok H s" "i < NBUF" "b_next b = b_next (bufs s i)" "b_prev b = b_prev (bufs s i)"
    and "buf_ok h s b"
    and "\<And>j. j < NBUF \<Longrightarrow> j \<noteq> i \<Longrightarrow> b_dev (bufs s j) = 1 \<Longrightarrow> b_dev b = 1 \<Longrightarrow> b_blockno (bufs s j) \<noteq> b_blockno b"
  shows "bok (if h then insert i H else H - {i}) (put_buf i b s)"
proof -
  obtain xs where "mru s xs" "set xs = {..<NBUF}" using bokD(1) [OF assms(1)] by blast
  moreover have "mru (put_buf i b s) xs \<longleftrightarrow> mru s xs"
    unfolding put_buf_def by (rule mru_upd_buf) (simp_all add: assms)
  moreover have "one_copy (put_buf i b s)"
    using bokD(5) [OF assms(1)] assms(6) unfolding one_copy_def by auto metis+
  moreover have "buf_ok (j \<in> (if h then insert i H else H - {i})) (put_buf i b s) (bufs (put_buf i b s) j)"
    if "j < NBUF" for j
    using bokD(4) [OF assms(1) that] assms(5) by (cases "j = i") (auto simp: buf_ok_def)
  ultimately show ?thesis
    using bokD(3,6) [OF assms(1)] assms(2) unfolding bok_def by auto
qed

section \<open>bread\<close>

lemma mru_all:
  assumes "mru s xs" "set xs = {..<NBUF}"
  shows "dseg (nx_of s) (pv_of s) bhead xs bhead" "bhead \<notin> set xs" "length xs < NBUF + 1" "distinct xs"
proof -
  show "dseg (nx_of s) (pv_of s) bhead xs bhead" "bhead \<notin> set xs" and d: "distinct xs"
    using assms(1) by (auto simp: mru_def ring_def)
  from distinct_card [OF d] assms(2) show "length xs < NBUF + 1" by simp
qed

lemma bget_walks:
  assumes "mru s xs" "set xs = {..<NBUF}"
  shows "bget pid dev blockno s =
    (case find (\<lambda>i. b_dev (bufs s i) = dev \<and> b_blockno (bufs s i) = blockno) xs of
       Some b \<Rightarrow> bindE (lock_buf pid b (upd_buf b (\<lambda>x. x\<lparr>b_refcnt := b_refcnt x + 1\<rparr>) s)) (\<lambda>s'. Inr (b, s'))
     | None \<Rightarrow>
         (case find (\<lambda>i. b_refcnt (bufs s i) = 0 \<and> b_flags (bufs s i) AND B_DIRTY = 0) (rev xs) of
            Some b \<Rightarrow> bindE (lock_buf pid b (upd_buf b (\<lambda>x. x\<lparr>b_dev := dev, b_blockno := blockno,
                        b_flags := 0, b_refcnt := 1\<rparr>) s)) (\<lambda>s'. Inr (b, s'))
          | None \<Rightarrow> Inl (Panic ''bget: no buffers'')))"
  unfolding bget_def walk_forward [OF mru_all(1-3) [OF assms]] walk_backward [OF mru_all(1-3) [OF assms]] by simp

lemma lock_buf_free:
  "sl_locked (b_lock (bufs s i)) = 0 \<Longrightarrow>
     lock_buf pid i s = Inr (upd_buf i (\<lambda>x. x\<lparr>b_lock := (b_lock x)\<lparr>sl_locked := 1, sl_pid := pid\<rparr>\<rparr>) s)"
  by (simp add: lock_buf_def acquiresleep_def upd_buf_def)

definition same_disk :: "bcache \<Rightarrow> bcache \<Rightarrow> bool" where
  "same_disk s s' \<longleftrightarrow> memdisk s' = memdisk s \<and> disksize s' = disksize s \<and> disk_writes s' = disk_writes s"

text \<open>The buffer \<open>bread\<close> returns on a hit and on a miss.\<close>

definition hit_buf :: "int \<Rightarrow> buf \<Rightarrow> buf" where
  "hit_buf pid b = b\<lparr>b_refcnt := 1, b_lock := (b_lock b)\<lparr>sl_locked := 1, sl_pid := pid\<rparr>\<rparr>"

definition miss_buf :: "int \<Rightarrow> u32 \<Rightarrow> block \<Rightarrow> buf \<Rightarrow> buf" where
  "miss_buf pid blockno d b = b\<lparr>b_dev := 1, b_blockno := blockno, b_refcnt := 1,
     b_lock := (b_lock b)\<lparr>sl_locked := 1, sl_pid := pid\<rparr>, b_data := d, b_flags := B_VALID\<rparr>"

lemma bread_hit:
  assumes ok: "bok H s" and i: "i < NBUF" "i \<notin> H" "b_dev (bufs s i) = 1" "b_blockno (bufs s i) = b"
  shows "bread pid 1 b s = Inr (i, put_buf i (hit_buf pid (bufs s i)) s)"
proof -
  obtain xs where xs: "mru s xs" "set xs = {..<NBUF}" using bokD(1) [OF ok] by blast
  have "find (\<lambda>i. b_dev (bufs s i) = 1 \<and> b_blockno (bufs s i) = b) xs \<noteq> None"
    unfolding find_None_iff using i xs(2) by auto
  then obtain j where j: "find (\<lambda>i. b_dev (bufs s i) = 1 \<and> b_blockno (bufs s i) = b) xs = Some j" by blast
  then have jp: "b_dev (bufs s j) = 1 \<and> b_blockno (bufs s j) = b" "j \<in> set xs"
    by (auto simp: find_Some_iff)
  then have "j = i" using one_copyD [OF bokD(5) [OF ok], of j i] i xs(2) by auto
  moreover have "valid_buf (bufs s i)" using bokD(4) [OF ok i(1)] i(3) by (simp add: buf_ok_def)
  ultimately show ?thesis
    using j bok_free(1,2) [OF ok i(1,2)]
    by (simp add: bread_def bget_walks [OF xs] lock_buf_free flag_bits upd_put hit_buf_def)
qed

lemma bread_miss:
  assumes ok: "bok H s" and b: "unat b < disksize s"
    and none: "\<And>i. i < NBUF \<Longrightarrow> b_dev (bufs s i) = 1 \<Longrightarrow> b_blockno (bufs s i) \<noteq> b"
    and xs: "mru s xs" "set xs = {..<NBUF}"
    and i: "find (\<lambda>i. b_refcnt (bufs s i) = 0 \<and> \<not> dirty_buf (bufs s i)) (rev xs) = Some i"
  shows "bread pid 1 b s = Inr (i, put_buf i (miss_buf pid b (memdisk s b) (bufs s i)) s)"
    and "i < NBUF" "i \<notin> H" "\<not> dirty_buf (bufs s i)"
proof -
  from find_SomeD [OF i] have "i \<in> set (rev xs)" and ip: "b_refcnt (bufs s i) = 0 \<and> \<not> dirty_buf (bufs s i)"
    by simp_all
  then show lt: "i < NBUF" and nd: "\<not> dirty_buf (bufs s i)" using xs(2) by auto
  show nH: "i \<notin> H" using bok_held(6) [OF ok, of i] ip by auto
  have "find (\<lambda>i. b_dev (bufs s i) = 1 \<and> b_blockno (bufs s i) = b) xs = None"
    unfolding find_None_iff using none xs(2) by auto
  then show "bread pid 1 b s = Inr (i, put_buf i (miss_buf pid b (memdisk s b) (bufs s i)) s)"
    using i b bok_free(1) [OF ok lt nH]
    by (simp add: bread_def bget_walks [OF xs] lock_buf_free flag_bits upd_put miss_buf_def iderw_def
        holdingsleep_def Let_def)
qed

lemma view_cong:
  assumes "\<And>i. i < NBUF \<Longrightarrow> b_flags (bufs s' i) = b_flags (bufs s i)"
    "\<And>i. i < NBUF \<Longrightarrow> b_blockno (bufs s' i) = b_blockno (bufs s i)"
    "\<And>i. i < NBUF \<Longrightarrow> b_data (bufs s' i) = b_data (bufs s i)" "memdisk s' = memdisk s"
  shows "view s' = view s"
proof
  fix b
  have "cached s' b = cached s b" unfolding cached_def by (rule find_cong) (auto simp: assms)
  moreover have "i < NBUF" if "cached s b = Some i" for i
    using find_SomeD [OF that [unfolded cached_def]] by simp
  ultimately show "view s' b = view s b" by (auto simp: view_def assms split: option.splits)
qed

lemma pinned_cong:
  assumes "\<And>i. i < NBUF \<Longrightarrow> b_flags (bufs s' i) = b_flags (bufs s i)"
    "\<And>i. i < NBUF \<Longrightarrow> dirty_buf (bufs s i) \<Longrightarrow> b_blockno (bufs s' i) = b_blockno (bufs s i)"
  shows "pinned s' = pinned s"
  unfolding pinned_def using assms by (metis (mono_tags, lifting))

definition bread_post :: "nat set \<Rightarrow> bcache \<Rightarrow> u32 \<Rightarrow> nat \<Rightarrow> bcache \<Rightarrow> bool" where
  "bread_post H s b i s' \<longleftrightarrow> i < NBUF \<and> i \<notin> H \<and> bok (insert i H) s' \<and> same_disk s s' \<and>
     b_blockno (bufs s' i) = b \<and> b_data (bufs s' i) = view s b \<and> view s' = view s \<and> pinned s' = pinned s \<and>
     (dirty_buf (bufs s' i) \<longleftrightarrow> b \<in> pinned s) \<and> (\<forall>j. j \<noteq> i \<longrightarrow> bufs s' j = bufs s j)"

definition room :: "nat set \<Rightarrow> bcache \<Rightarrow> bool" where
  "room H s \<longleftrightarrow> (\<exists>i<NBUF. i \<notin> H \<and> \<not> dirty_buf (bufs s i))"

lemma pinned_dirty:
  assumes "bok H s" "i < NBUF" "valid_buf (bufs s i)"
  shows "b_blockno (bufs s i) \<in> pinned s \<longleftrightarrow> dirty_buf (bufs s i)"
proof
  assume "b_blockno (bufs s i) \<in> pinned s"
  then obtain j where j: "j < NBUF" "dirty_buf (bufs s j)" "b_blockno (bufs s j) = b_blockno (bufs s i)"
    by (auto simp: pinned_def)
  have "valid_buf (bufs s j)" using bokD(4) [OF assms(1) j(1)] j(2) by (simp add: buf_ok_def)
  then have "i = j"
    using one_copyD [OF bokD(5) [OF assms(1)] assms(2) j(1)] bok_valid(1) [OF assms(1)] j assms by simp
  with j show "dirty_buf (bufs s i)" by simp
qed (use assms in \<open>auto simp: pinned_def\<close>)

lemma hit_post:
  assumes ok: "bok H s" and i: "i < NBUF" "i \<notin> H" "b_dev (bufs s i) = 1" "b_blockno (bufs s i) = b"
  shows "bread_post H s b i (put_buf i (hit_buf pid (bufs s i)) s)"
proof -
  have v: "valid_buf (bufs s i)" using bokD(4) [OF ok i(1)] i(3) by (simp add: buf_ok_def)
  have "bok (if True then insert i H else H - {i}) (put_buf i (hit_buf pid (bufs s i)) s)"
  proof (rule put_buf_bok [OF ok i(1)])
    show "buf_ok True s (hit_buf pid (bufs s i))"
      using bokD(4) [OF ok i(1)] i(2) v by (auto simp: buf_ok_def hit_buf_def)
    show "b_blockno (bufs s j) \<noteq> b_blockno (hit_buf pid (bufs s i))"
      if "j < NBUF" "j \<noteq> i" "b_dev (bufs s j) = 1" for j
      using one_copyD [OF bokD(5) [OF ok] that(1) i(1) that(3) i(3)] that(2) by (auto simp: hit_buf_def)
  qed (simp_all add: hit_buf_def)
  moreover have "view (put_buf i (hit_buf pid (bufs s i)) s) = view s"
    by (rule view_cong) (simp_all add: hit_buf_def)
  moreover have "pinned (put_buf i (hit_buf pid (bufs s i)) s) = pinned s"
    by (rule pinned_cong) (simp_all add: hit_buf_def)
  ultimately show ?thesis
    using i view_cached [OF ok i(1) v] pinned_dirty [OF ok i(1) v]
    by (simp add: bread_post_def same_disk_def hit_buf_def)
qed

lemma miss_post:
  assumes ok: "bok H s" and b: "unat b < disksize s"
    and none: "\<And>i. i < NBUF \<Longrightarrow> b_dev (bufs s i) = 1 \<Longrightarrow> b_blockno (bufs s i) \<noteq> b"
    and i: "i < NBUF" "i \<notin> H" "\<not> dirty_buf (bufs s i)"
  shows "bread_post H s b i (put_buf i (miss_buf pid b (memdisk s b) (bufs s i)) s)" (is "bread_post H s b i ?s")
proof -
  have "bok (if True then insert i H else H - {i}) ?s"
    by (rule put_buf_bok [OF ok i(1)])
      (use none b bokD(6) [OF ok] in \<open>auto simp: miss_buf_def buf_ok_def\<close>)
  then have ok': "bok (insert i H) ?s" by simp
  have vb: "view s b = memdisk s b" using none bok_valid [OF ok] by (intro view_uncached) auto
  have "view ?s c = view s c" for c
  proof (cases "\<exists>j<NBUF. valid_buf (bufs ?s j) \<and> b_blockno (bufs ?s j) = c")
    case True
    then obtain j where j: "j < NBUF" "valid_buf (bufs ?s j)" "b_blockno (bufs ?s j) = c" by blast
    from view_cached [OF ok' j(1,2)] view_cached [OF ok j(1)] j vb show ?thesis
      by (cases "j = i") (auto simp: miss_buf_def)
  next
    case False
    then have u: "view ?s c = memdisk s c" by (subst view_uncached) auto
    show ?thesis
    proof (cases "valid_buf (bufs s i) \<and> b_blockno (bufs s i) = c")
      case True
      with view_cached [OF ok i(1)] bok_free(5) [OF ok i(1,2)] i(3) u show ?thesis by simp
    next
      case no: False
      have "b_blockno (bufs s j) \<noteq> c" if j: "j < NBUF" "valid_buf (bufs s j)" for j
      proof (cases "j = i")
        case j_other: False
        then have "bufs ?s j = bufs s j" by simp
        with False j show ?thesis by metis
      qed (use no j in auto)
      with u view_uncached [of s c] show ?thesis by simp
    qed
  qed
  then have "view ?s = view s" by auto
  moreover have "pinned ?s = pinned s"
    using i by (auto simp: pinned_def miss_buf_def)
  moreover have "b \<notin> pinned s"
    using none bokD(4) [OF ok] by (auto simp: pinned_def buf_ok_def)
  ultimately show ?thesis
    using ok' i vb by (simp add: bread_post_def same_disk_def miss_buf_def)
qed

lemma bread_ok:
  assumes ok: "bok H s" and b: "unat b < disksize s" "\<And>i. i \<in> H \<Longrightarrow> b_blockno (bufs s i) \<noteq> b"
    and r: "room H s \<or> b \<in> pinned s"
  obtains i s' where "bread pid 1 b s = Inr (i, s')" "bread_post H s b i s'"
proof (cases "\<exists>i<NBUF. b_dev (bufs s i) = 1 \<and> b_blockno (bufs s i) = b")
  case True
  then obtain i where i: "i < NBUF" "b_dev (bufs s i) = 1" "b_blockno (bufs s i) = b" by blast
  then have "i \<notin> H" using b(2) by auto
  from that [OF bread_hit [OF ok i(1) this i(2,3)] hit_post [OF ok i(1) this i(2,3)]] show ?thesis .
next
  case False
  then have none: "\<And>i. i < NBUF \<Longrightarrow> b_dev (bufs s i) = 1 \<Longrightarrow> b_blockno (bufs s i) \<noteq> b" by auto
  then have "b \<notin> pinned s" using bokD(4) [OF ok] by (auto simp: pinned_def buf_ok_def)
  with r obtain k where k: "k < NBUF" "k \<notin> H" "\<not> dirty_buf (bufs s k)" by (auto simp: room_def)
  obtain xs where xs: "mru s xs" "set xs = {..<NBUF}" using bokD(1) [OF ok] by blast
  have "find (\<lambda>i. b_refcnt (bufs s i) = 0 \<and> \<not> dirty_buf (bufs s i)) (rev xs) \<noteq> None"
    unfolding find_None_iff using k bok_free(2) [OF ok k(1,2)] xs(2) by auto
  then obtain i where i: "find (\<lambda>i. b_refcnt (bufs s i) = 0 \<and> \<not> dirty_buf (bufs s i)) (rev xs) = Some i" by blast
  note m = bread_miss [OF ok b(1) none xs i]
  from that [OF m(1) miss_post [OF ok b(1) none m(2-4)]] show ?thesis .
qed

section \<open>Writing and releasing\<close>

lemma data_ok:
  assumes ok: "bok H s" and i: "i \<in> H" and d: "length d = BSIZE"
  shows "bok H (upd_buf i (\<lambda>x. x\<lparr>b_data := d\<rparr>) s)"
    and "view (upd_buf i (\<lambda>x. x\<lparr>b_data := d\<rparr>) s) = (view s)(b_blockno (bufs s i) := d)"
    and "pinned (upd_buf i (\<lambda>x. x\<lparr>b_data := d\<rparr>) s) = pinned s"
proof -
  let ?s = "upd_buf i (\<lambda>x. x\<lparr>b_data := d\<rparr>) s"
  note h = bok_held [OF ok i]
  have "bok (if True then insert i H else H - {i}) ?s"
    unfolding upd_put
  proof (rule put_buf_bok [OF ok h(1)])
    show "buf_ok True s (bufs s i\<lparr>b_data := d\<rparr>)"
      using bokD(4) [OF ok h(1)] i d by (auto simp: buf_ok_def)
    show "b_blockno (bufs s j) \<noteq> b_blockno (bufs s i\<lparr>b_data := d\<rparr>)"
      if "j < NBUF" "j \<noteq> i" "b_dev (bufs s j) = 1" for j
      using one_copyD [OF bokD(5) [OF ok] that(1) h(1) that(3) h(3)] that(2) by auto
  qed simp_all
  then show ok': "bok H ?s" using i by (simp add: insert_absorb)
  show "pinned ?s = pinned s" by (rule pinned_cong) simp_all
  show "view ?s = (view s)(b_blockno (bufs s i) := d)"
  proof
    fix c
    have c: "cached ?s c = cached s c" unfolding cached_def by (rule find_cong) auto
    show "view ?s c = ((view s)(b_blockno (bufs s i) := d)) c"
    proof (cases "c = b_blockno (bufs s i)")
      case True
      with view_cached [OF ok' h(1)] h show ?thesis by simp
    next
      case False
      then have "cached s c \<noteq> Some i" by (auto simp: cached_def dest!: find_SomeD)
      with c False show ?thesis by (auto simp: view_def split: option.splits)
    qed
  qed
qed

lemma dirty_ok:
  assumes ok: "bok H s" and i: "i \<in> H"
  shows "bok H (upd_buf i (\<lambda>x. x\<lparr>b_flags := b_flags x OR B_DIRTY\<rparr>) s)"
    and "view (upd_buf i (\<lambda>x. x\<lparr>b_flags := b_flags x OR B_DIRTY\<rparr>) s) = view s"
    and "pinned (upd_buf i (\<lambda>x. x\<lparr>b_flags := b_flags x OR B_DIRTY\<rparr>) s) = insert (b_blockno (bufs s i)) (pinned s)"
proof -
  let ?s = "upd_buf i (\<lambda>x. x\<lparr>b_flags := b_flags x OR B_DIRTY\<rparr>) s"
  note h = bok_held [OF ok i]
  have "bok (if True then insert i H else H - {i}) ?s"
    unfolding upd_put
  proof (rule put_buf_bok [OF ok h(1)])
    show "buf_ok True s (bufs s i\<lparr>b_flags := b_flags (bufs s i) OR B_DIRTY\<rparr>)"
      using bokD(4) [OF ok h(1)] i h by (auto simp: buf_ok_def)
    show "b_blockno (bufs s j) \<noteq> b_blockno (bufs s i\<lparr>b_flags := b_flags (bufs s i) OR B_DIRTY\<rparr>)"
      if "j < NBUF" "j \<noteq> i" "b_dev (bufs s j) = 1" for j
      using one_copyD [OF bokD(5) [OF ok] that(1) h(1) that(3) h(3)] that(2) by auto
  qed simp_all
  then show "bok H ?s" using i by (simp add: insert_absorb)
  show "pinned ?s = insert (b_blockno (bufs s i)) (pinned s)"
    using h(1) by (auto simp: pinned_def split: if_splits)
  have "cached ?s = cached s" unfolding cached_def fun_eq_iff by (intro allI find_cong) auto
  then show "view ?s = view s" by (auto simp: view_def fun_eq_iff split: option.splits)
qed

text \<open>\<open>bwrite\<close> writes the data of a held buffer through to its block and leaves it clean.\<close>

lemma bwrite_ok:
  assumes ok: "bok H s" and i: "i \<in> H"
  obtains s' where "bwrite i s = Inr s'" "bok H s'" "view s' = view s" "disksize s' = disksize s"
    "memdisk s' = (memdisk s)(b_blockno (bufs s i) := b_data (bufs s i))"
    "disk_writes s' = disk_writes s @ [(b_blockno (bufs s i), b_data (bufs s i))]"
    "pinned s' = pinned s - {b_blockno (bufs s i)}" "\<not> dirty_buf (bufs s' i)"
    "\<And>j. b_data (bufs s' j) = b_data (bufs s j)" "\<And>j. b_blockno (bufs s' j) = b_blockno (bufs s j)"
    "\<And>j. j \<noteq> i \<Longrightarrow> b_flags (bufs s' j) = b_flags (bufs s j)"
proof -
  note h = bok_held [OF ok i]
  define b where "b = b_blockno (bufs s i)"
  define f where "f = (b_flags (bufs s i) OR B_DIRTY) AND NOT B_DIRTY OR B_VALID"
  define s1 where "s1 = s\<lparr>memdisk := (memdisk s)(b := b_data (bufs s i)),
     disk_writes := disk_writes s @ [(b, b_data (bufs s i))]\<rparr>"
  define s' where "s' = upd_buf i (\<lambda>x. x\<lparr>b_flags := f\<rparr>) s1"
  have f: "bit f (Suc 0)" "\<not> bit f 2" by (simp_all add: f_def)
  have s': "bufs s' = (bufs s)(i := bufs s i\<lparr>b_flags := f\<rparr>)" "memdisk s' = (memdisk s)(b := b_data (bufs s i))"
    "disksize s' = disksize s" by (simp_all add: s'_def s1_def)
  have bw: "bwrite i s = Inr s'"
    using h by (simp add: bwrite_def iderw_def flag_bits Let_def s'_def s1_def f_def b_def upd_buf_def)
  have other: "b_blockno (bufs s j) \<noteq> b" if "j < NBUF" "j \<noteq> i" "valid_buf (bufs s j)" for j
    using one_copyD [OF bokD(5) [OF ok] that(1) h(1) _ h(3)] bok_valid(1) [OF ok that(1,3)] that(2) by (auto simp: b_def)
  obtain xs where xs: "mru s xs" "set xs = {..<NBUF}" using bokD(1) [OF ok] by blast
  have "mru s' xs \<longleftrightarrow> mru s xs" by (rule mru_links) (auto simp: s')
  moreover have "one_copy s'" using bokD(5) [OF ok] by (auto simp: one_copy_def s')
  moreover have "buf_ok (j \<in> H) s' (bufs s' j)" if "j < NBUF" for j
    using bokD(4) [OF ok that] other [OF that] i h f by (cases "j = i") (auto simp: buf_ok_def s')
  ultimately have ok': "bok H s'"
    using xs bokD(3,6) [OF ok] h(7) unfolding bok_def by (auto simp: s')
  have cached: "cached s' c = cached s c" for c
    unfolding cached_def by (rule find_cong) (use f h in \<open>auto simp: s'\<close>)
  have "cached s b \<noteq> None" unfolding cached_def find_None_iff using h by (auto simp: b_def)
  with cached have "view s' = view s" by (auto simp: view_def s' fun_eq_iff split: option.splits)
  moreover have "pinned s' = pinned s - {b}"
  proof -
    have "b_blockno (bufs s j) \<noteq> b" if "j < NBUF" "j \<noteq> i" "dirty_buf (bufs s j)" for j
      using other [OF that(1,2)] bokD(4) [OF ok that(1)] that(3) by (auto simp: buf_ok_def)
    then show ?thesis using f by (auto simp: pinned_def s' b_def split: if_splits) metis+
  qed
  ultimately show ?thesis
    using that [OF bw ok'] f by (simp add: s' b_def) (simp add: s'_def s1_def b_def)
qed

text \<open>\<open>brelse\<close> gives back a buffer that is dirty or agrees with the disk, and puts it at the front of the list.\<close>

lemma brelse_ok:
  assumes ok: "bok H s" and i: "i \<in> H"
    and d: "dirty_buf (bufs s i) \<or> b_data (bufs s i) = memdisk s (b_blockno (bufs s i))"
  obtains s' where "brelse i s = Inr s'" "bok (H - {i}) s'" "view s' = view s" "pinned s' = pinned s" "same_disk s s'"
    "\<And>j. b_data (bufs s' j) = b_data (bufs s j)" "\<And>j. b_blockno (bufs s' j) = b_blockno (bufs s j)"
    "\<And>j. b_flags (bufs s' j) = b_flags (bufs s j)" "\<And>xs. mru s xs \<Longrightarrow> set xs = {..<NBUF} \<Longrightarrow> mru s' (i # remove1 i xs)"
proof -
  note h = bok_held [OF ok i]
  define s2 where "s2 = put_buf i (bufs s i\<lparr>b_lock := releasesleep (b_lock (bufs s i)), b_refcnt := 0\<rparr>) s"
  define s' where "s' = link_front i (unlink i s2)"
  have br: "brelse i s = Inr s'"
    using h by (simp add: brelse_def Let_def s'_def s2_def upd_put)
  have "bok (if False then insert i H else H - {i}) s2"
    unfolding s2_def
  proof (rule put_buf_bok [OF ok h(1)])
    show "buf_ok False s (bufs s i\<lparr>b_lock := releasesleep (b_lock (bufs s i)), b_refcnt := 0\<rparr>)"
      using bokD(4) [OF ok h(1)] i d by (auto simp: buf_ok_def releasesleep_def)
    show "b_blockno (bufs s j) \<noteq> b_blockno (bufs s i\<lparr>b_lock := releasesleep (b_lock (bufs s i)), b_refcnt := 0\<rparr>)"
      if "j < NBUF" "j \<noteq> i" "b_dev (bufs s j) = 1" for j
      using one_copyD [OF bokD(5) [OF ok] that(1) h(1) that(3) h(3)] that(2) by auto
  qed simp_all
  then have ok2: "bok (H - {i}) s2" by simp
  have relink: "mru s' (i # remove1 i xs)" if "mru s2 xs" "set xs = {..<NBUF}" for xs
    unfolding s'_def by (rule relink_mru) (use that h in auto)
  have set_xs: "set (i # remove1 i xs) = {..<NBUF}" if "mru s2 xs" "set xs = {..<NBUF}" for xs
    using mru_all(4) [OF that] that(2) h(1) by auto
  have "mru s2 xs \<longleftrightarrow> mru s xs" for xs by (rule mru_links) (auto simp: s2_def)
  with relink have fin: "mru s' (i # remove1 i xs)" if "mru s xs" "set xs = {..<NBUF}" for xs using that by simp
  obtain xs where xs: "mru s2 xs" "set xs = {..<NBUF}" using bokD(1) [OF ok2] by blast
  have ok': "bok (H - {i}) s'"
    using relink [OF xs] set_xs [OF xs] bokD(3-6) [OF ok2]
    unfolding bok_def one_copy_def buf_ok_def s'_def by (simp only: relink_simps) blast
  show ?thesis
  proof (rule that [OF br ok'])
    show "view s' = view s" by (rule view_cong) (simp_all add: s'_def s2_def)
    show "pinned s' = pinned s" by (rule pinned_cong) (simp_all add: s'_def s2_def)
    show "same_disk s s'" by (simp add: s'_def s2_def same_disk_def)
    show "\<And>j. b_data (bufs s' j) = b_data (bufs s j)" "\<And>j. b_blockno (bufs s' j) = b_blockno (bufs s j)"
      "\<And>j. b_flags (bufs s' j) = b_flags (bufs s j)" by (simp_all add: s'_def s2_def)
  qed (rule fin)
qed

section \<open>A store of blocks\<close>

lemma brelse_last:
  assumes "bok {i} s" "dirty_buf (bufs s i) \<or> b_data (bufs s i) = memdisk s (b_blockno (bufs s i))"
  obtains s' where "brelse i s = Inr s'" "bok {} s'" "view s' = view s" "pinned s' = pinned s" "same_disk s s'"
proof -
  have "i \<in> {i}" by simp
  from brelse_ok [OF assms(1) this assms(2)] obtain s' where
    "brelse i s = Inr s'" "bok ({i} - {i}) s'" "view s' = view s" "pinned s' = pinned s" "same_disk s s'" .
  then show ?thesis using that [of s'] by simp
qed

lemma read_block_ok:
  assumes ok: "bok {} s" and b: "unat b < disksize s" and r: "room {} s \<or> b \<in> pinned s"
  shows "\<exists>s'. read_block pid b s = Inr (view s b, s') \<and> bok {} s' \<and> disksize s' = disksize s \<and> view s' = view s \<and>
    memdisk s' = memdisk s \<and> pinned s' = pinned s \<and> disk_writes s' = disk_writes s"
proof -
  obtain i s1 where br: "bread pid 1 b s = Inr (i, s1)" and post: "bread_post {} s b i s1"
    using bread_ok [OF ok b _ r] by blast
  then have s1: "bok {i} s1" "b_blockno (bufs s1 i) = b" "b_data (bufs s1 i) = view s b" "view s1 = view s"
    "pinned s1 = pinned s" "memdisk s1 = memdisk s" "disksize s1 = disksize s" "disk_writes s1 = disk_writes s"
    "dirty_buf (bufs s1 i) \<longleftrightarrow> b \<in> pinned s"
    by (simp_all add: bread_post_def same_disk_def)
  have "dirty_buf (bufs s1 i) \<or> b_data (bufs s1 i) = memdisk s1 (b_blockno (bufs s1 i))"
    using view_unpinned [OF ok] s1 by auto
  from brelse_last [OF s1(1) this] obtain s2 where
    "brelse i s1 = Inr s2" "bok {} s2" "view s2 = view s1" "pinned s2 = pinned s1" "same_disk s1 s2" .
  then show ?thesis using br s1 by (simp add: read_block_def same_disk_def)
qed

lemma write_block_ok:
  assumes ok: "bok {} s" and b: "unat b < disksize s" and r: "room {} s \<or> b \<in> pinned s" and d: "length d = BSIZE"
  shows "\<exists>s'. write_block pid b d s = Inr s' \<and> bok {} s' \<and> disksize s' = disksize s \<and> view s' = (view s)(b := d) \<and>
    memdisk s' = (memdisk s)(b := d) \<and> pinned s' = pinned s - {b} \<and> disk_writes s' = disk_writes s @ [(b, d)]"
proof -
  obtain i s1 where br: "bread pid 1 b s = Inr (i, s1)" and post: "bread_post {} s b i s1"
    using bread_ok [OF ok b _ r] by blast
  then have s1: "bok {i} s1" "b_blockno (bufs s1 i) = b" "view s1 = view s" "pinned s1 = pinned s"
    "memdisk s1 = memdisk s" "disksize s1 = disksize s" "disk_writes s1 = disk_writes s"
    by (simp_all add: bread_post_def same_disk_def)
  define t where "t = upd_buf i (\<lambda>x. x\<lparr>b_data := d\<rparr>) s1"
  have t: "bok {i} t" "view t = (view s)(b := d)" "pinned t = pinned s"
    using data_ok [OF s1(1) _ d, of i] s1 by (simp_all add: t_def)
  have tf: "b_blockno (bufs t i) = b" "b_data (bufs t i) = d" "memdisk t = memdisk s" "disk_writes t = disk_writes s"
    "disksize t = disksize s" using s1 by (simp_all add: t_def)
  obtain s2 where s2: "bwrite i t = Inr s2" "bok {i} s2" "view s2 = view t" "disksize s2 = disksize t"
    "memdisk s2 = (memdisk t)(b := d)" "disk_writes s2 = disk_writes t @ [(b, d)]" "pinned s2 = pinned t - {b}"
    "b_data (bufs s2 i) = d" "b_blockno (bufs s2 i) = b"
    using bwrite_ok [OF t(1), of i] unfolding tf by (metis insertI1 tf(1,2))
  have "dirty_buf (bufs s2 i) \<or> b_data (bufs s2 i) = memdisk s2 (b_blockno (bufs s2 i))"
    by (simp add: s2(5,8,9))
  from brelse_last [OF s2(2) this] obtain s3 where
    "brelse i s2 = Inr s3" "bok {} s3" "view s3 = view s2" "pinned s3 = pinned s2" "same_disk s2 s3" .
  then show ?thesis using br s2 t tf s1(5-7) by (simp add: write_block_def same_disk_def flip: t_def)
qed

lemma pin_block_ok:
  assumes ok: "bok {} s" and b: "unat b < disksize s" and r: "room {} s \<or> b \<in> pinned s" and d: "length d = BSIZE"
  shows "\<exists>s'. pin_block pid b d s = Inr s' \<and> bok {} s' \<and> disksize s' = disksize s \<and> view s' = (view s)(b := d) \<and>
    memdisk s' = memdisk s \<and> pinned s' = insert b (pinned s) \<and> disk_writes s' = disk_writes s"
proof -
  obtain i s1 where br: "bread pid 1 b s = Inr (i, s1)" and post: "bread_post {} s b i s1"
    using bread_ok [OF ok b _ r] by blast
  then have s1: "bok {i} s1" "b_blockno (bufs s1 i) = b" "view s1 = view s" "pinned s1 = pinned s"
    "memdisk s1 = memdisk s" "disksize s1 = disksize s" "disk_writes s1 = disk_writes s"
    by (simp_all add: bread_post_def same_disk_def)
  define t where "t = upd_buf i (\<lambda>x. x\<lparr>b_data := d\<rparr>) s1"
  define u where "u = upd_buf i (\<lambda>x. x\<lparr>b_flags := b_flags x OR B_DIRTY\<rparr>) t"
  have t: "bok {i} t" "view t = (view s)(b := d)" "pinned t = pinned s" "b_blockno (bufs t i) = b"
    using data_ok [OF s1(1) _ d, of i] s1 by (simp_all add: t_def)
  have u: "bok {i} u" "view u = (view s)(b := d)" "pinned u = insert b (pinned s)"
    using dirty_ok [OF t(1), of i] t by (simp_all add: u_def)
  have uu: "upd_buf i (\<lambda>x. x\<lparr>b_data := d, b_flags := b_flags x OR B_DIRTY\<rparr>) s1 = u"
    by (simp add: u_def t_def upd_buf_def)
  have "dirty_buf (bufs u i) \<or> b_data (bufs u i) = memdisk u (b_blockno (bufs u i))" by (simp add: u_def)
  from brelse_last [OF u(1) this] obtain s3 where
    "brelse i u = Inr s3" "bok {} s3" "view s3 = view u" "pinned s3 = pinned u" "same_disk u s3" .
  then show ?thesis using br u s1(5-7) by (simp add: pin_block_def uu same_disk_def) (simp add: u_def t_def)
qed

lemma finite_pinned: "finite (pinned s)"
proof -
  have "pinned s \<subseteq> (\<lambda>i. b_blockno (bufs s i)) ` {..<NBUF}" by (auto simp: pinned_def)
  then show ?thesis by (rule finite_subset) simp
qed

lemma card_pinned_room:
  assumes ok: "bok H s" and c: "card (pinned s) + card H < NBUF"
  shows "room H s"
proof (rule ccontr)
  assume "\<not> room H s"
  then have all: "dirty_buf (bufs s i)" if "i < NBUF" "i \<notin> H" for i using that by (auto simp: room_def)
  have fin: "finite H" using bokD(3) [OF ok] finite_subset by blast
  have "inj_on (\<lambda>i. b_blockno (bufs s i)) ({..<NBUF} - H)"
  proof (rule inj_onI)
    fix i j assume i: "i \<in> {..<NBUF} - H" "j \<in> {..<NBUF} - H" "b_blockno (bufs s i) = b_blockno (bufs s j)"
    then have "b_dev (bufs s i) = 1" "b_dev (bufs s j) = 1"
      using bok_free(4) [OF ok] bok_valid(1) [OF ok] all by auto
    with one_copyD [OF bokD(5) [OF ok]] i show "i = j" by auto
  qed
  then have "card ({..<NBUF} - H) = card ((\<lambda>i. b_blockno (bufs s i)) ` ({..<NBUF} - H))" by (simp add: card_image)
  also have "\<dots> \<le> card (pinned s)" using all by (intro card_mono finite_pinned) (auto simp: pinned_def)
  finally have "card ({..<NBUF} - H) \<le> card (pinned s)" .
  moreover have "card ({..<NBUF} - H) = NBUF - card H"
    using bokD(3) [OF ok] fin by (simp add: card_Diff_subset)
  ultimately show False using c by simp
qed

interpretation bcache: block_cache "bok {}" disksize view memdisk pinned NBUF BSIZE
  "read_block pid" "write_block pid" "pin_block pid" for pid
proof unfold_locales
  fix s and b :: u32 and d :: block
  assume ok: "bok {} s"
  then show "finite (pinned s)" by (simp add: finite_pinned)
  show "b \<notin> pinned s \<Longrightarrow> view s b = memdisk s b" by (rule view_unpinned [OF ok])
  assume b: "unat b < disksize s" and "card (pinned s) < NBUF"
  then have r: "room {} s \<or> b \<in> pinned s" using card_pinned_room [OF ok] by simp
  show "\<exists>s'. read_block pid b s = Inr (view s b, s') \<and> bok {} s' \<and> disksize s' = disksize s \<and> view s' = view s \<and>
    memdisk s' = memdisk s \<and> pinned s' = pinned s"
    using read_block_ok [OF ok b r, of pid] by blast
  assume d: "length d = BSIZE"
  show "\<exists>s'. write_block pid b d s = Inr s' \<and> bok {} s' \<and> disksize s' = disksize s \<and> view s' = (view s)(b := d) \<and>
    memdisk s' = (memdisk s)(b := d) \<and> pinned s' = pinned s - {b}"
    using write_block_ok [OF ok b r d, of pid] by blast
  show "\<exists>s'. pin_block pid b d s = Inr s' \<and> bok {} s' \<and> disksize s' = disksize s \<and> view s' = (view s)(b := d) \<and>
    memdisk s' = memdisk s \<and> pinned s' = insert b (pinned s)"
    using pin_block_ok [OF ok b r d, of pid] by blast
qed

section \<open>From boot\<close>

text \<open>The buffers are static data: all zero when \<open>binit\<close> runs.\<close>

definition bss_ok :: "bcache \<Rightarrow> bool" where
  "bss_ok s \<longleftrightarrow> (\<forall>i<NBUF. b_flags (bufs s i) = 0 \<and> b_dev (bufs s i) = 0 \<and> b_refcnt (bufs s i) = 0 \<and>
     length (b_data (bufs s i)) = BSIZE) \<and> (\<forall>b. length (memdisk s b) = BSIZE)"

lemma binit_from_fields:
  "b_flags (bufs (binit_from k b s) i) = b_flags (bufs s i)"
  "b_dev (bufs (binit_from k b s) i) = b_dev (bufs s i)"
  "b_refcnt (bufs (binit_from k b s) i) = b_refcnt (bufs s i)"
  "b_data (bufs (binit_from k b s) i) = b_data (bufs s i)"
  "memdisk (binit_from k b s) = memdisk s" "disksize (binit_from k b s) = disksize s"
  by (induction k b s rule: binit_from.induct) simp_all

lemma binit_from_writes [simp]: "disk_writes (binit_from k b s) = disk_writes s"
  by (induction k b s rule: binit_from.induct) simp_all

lemma binit_from_lock:
  "b_lock (bufs (binit_from k b s) i) = (if b \<le> i \<and> i < b + k then initsleeplock else b_lock (bufs s i))"
  by (induction k b s rule: binit_from.induct) auto

lemma binit_fields:
  "b_flags (bufs (binit s) i) = b_flags (bufs s i)" "b_dev (bufs (binit s) i) = b_dev (bufs s i)"
  "b_refcnt (bufs (binit s) i) = b_refcnt (bufs s i)" "b_data (bufs (binit s) i) = b_data (bufs s i)"
  "memdisk (binit s) = memdisk s" "disksize (binit s) = disksize s"
  "i < NBUF \<Longrightarrow> b_lock (bufs (binit s) i) = initsleeplock"
  by (simp_all add: binit_def binit_from_fields binit_from_lock)

lemma binit_ok:
  assumes "bss_ok s"
  shows "bok {} (binit s)" "pinned (binit s) = {}" "view (binit s) = memdisk s"
proof -
  have "\<exists>xs. mru (binit s) xs \<and> set xs = {..<NBUF}"
    by (rule exI [of _ "rev [0..<NBUF]"]) (auto simp: binit_mru)
  then show "bok {} (binit s)"
    using assms by (auto simp: bok_def buf_ok_def one_copy_def bss_ok_def binit_fields initsleeplock_def)
  show "pinned (binit s) = {}" using assms by (auto simp: pinned_def bss_ok_def binit_fields)
  show "view (binit s) = memdisk s"
  proof
    fix b
    show "view (binit s) b = memdisk s b"
      using assms by (subst view_uncached) (auto simp: bss_ok_def binit_fields)
  qed
qed

abbreviation cache_ops :: "int \<Rightarrow> block_op list \<Rightarrow> bcache \<Rightarrow> (block list \<times> bcache) c_result" where
  "cache_ops pid \<equiv> run_ops (read_block pid) (write_block pid) (pin_block pid)"

definition zero_cache :: bcache where
  "zero_cache = \<lparr>bufs = (\<lambda>_. \<lparr>b_flags = 0, b_dev = 0, b_blockno = 0, b_lock = \<lparr>sl_locked = 0, sl_pid = 0\<rparr>, b_refcnt = 0,
       b_prev = 0, b_next = 0, b_data = replicate BSIZE 0\<rparr>),
     memdisk = (\<lambda>_. replicate BSIZE 0), disksize = 1000, disk_writes = []\<rparr>"

lemma zero_cache_ok: "bss_ok zero_cache" "disksize zero_cache = 1000"
  by (simp_all add: bss_ok_def zero_cache_def)

text \<open>
  C8. The buffer cache is transparent. After \<open>binit\<close>, any sequence of block reads, write-throughs and pinned
  updates (in range, whole blocks, pinning fewer than \<open>NBUF\<close> distinct blocks) runs without a panic and
  without sleeping; the reads return what they would return on a plain array that starts as the disk; every
  block of the final state is as in that array, and the disk itself has it for every block that is not pinned.
\<close>

theorem buffer_cache_transparent:
  assumes "bss_ok s" and "\<forall>x \<in> set ops. unat (op_block x) < disksize s \<and> op_data_ok BSIZE x"
    and "card (\<Union> (op_pins ` set ops)) < NBUF"
  shows "\<exists>s'. cache_ops pid ops (binit s) = Inr (fst (spec_ops ops (memdisk s)), s') \<and>
    bok {} s' \<and> view s' = snd (spec_ops ops (memdisk s)) \<and> pinned s' \<subseteq> \<Union> (op_pins ` set ops) \<and>
    (\<forall>b. b \<notin> pinned s' \<longrightarrow> memdisk s' b = snd (spec_ops ops (memdisk s)) b)"
proof -
  note b = binit_ok [OF assms(1)]
  have "\<exists>s'. cache_ops pid ops (binit s) = Inr (fst (spec_ops ops (view (binit s))), s') \<and> bok {} s' \<and>
    view s' = snd (spec_ops ops (view (binit s))) \<and> pinned s' \<subseteq> pinned (binit s) \<union> \<Union> (op_pins ` set ops)"
    by (rule bcache.run_refines [OF b(1)]) (use assms b(2) in \<open>auto simp: binit_fields\<close>)
  then obtain s' where s': "cache_ops pid ops (binit s) = Inr (fst (spec_ops ops (memdisk s)), s')" "bok {} s'"
    "view s' = snd (spec_ops ops (memdisk s))" "pinned s' \<subseteq> \<Union> (op_pins ` set ops)"
    unfolding b(2,3) by auto
  have "\<forall>b. b \<notin> pinned s' \<longrightarrow> memdisk s' b = snd (spec_ops ops (memdisk s)) b"
    using view_unpinned [OF s'(2)] unfolding s'(3) by auto
  with s' show ?thesis by blast
qed

theorem buffer_cache_transparent_witness:
  "\<exists>s'. cache_ops 1 [Rd 3, Pin 3 (replicate BSIZE 7), Rd 3] (binit zero_cache) =
     Inr ([replicate BSIZE 0, replicate BSIZE 7], s') \<and> pinned s' \<subseteq> {3}"
  using buffer_cache_transparent [OF zero_cache_ok(1), of "[Rd 3, Pin 3 (replicate BSIZE 7), Rd 3]" 1]
  by (simp add: zero_cache_def NBUF_def) blast

section \<open>Least recently used\<close>

text \<open>After reads only: the valid buffers come first in the list, most recently used first.\<close>

definition lru_state :: "bcache \<Rightarrow> u32 list \<Rightarrow> bool" where
  "lru_state s vs \<longleftrightarrow> bok {} s \<and> pinned s = {} \<and>
     (\<exists>xs us. mru s (xs @ us) \<and> set (xs @ us) = {..<NBUF} \<and> (\<forall>i \<in> set xs. valid_buf (bufs s i)) \<and>
        (\<forall>i \<in> set us. \<not> valid_buf (bufs s i)) \<and> map (\<lambda>i. b_blockno (bufs s i)) xs = vs)"

lemma lru_stateI:
  assumes "bok {} s" "pinned s = {}" "mru s (xs @ us)" "set (xs @ us) = {..<NBUF}"
    "\<And>i. i \<in> set xs \<Longrightarrow> valid_buf (bufs s i)" "\<And>i. i \<in> set us \<Longrightarrow> \<not> valid_buf (bufs s i)"
    "map (\<lambda>i. b_blockno (bufs s i)) xs = vs"
  shows "lru_state s vs"
  unfolding lru_state_def using assms by blast

definition lru_touch :: "nat \<Rightarrow> 'a \<Rightarrow> 'a list \<Rightarrow> 'a list" where
  "lru_touch n b l = take n (b # remove1 b l)"

lemma take_remove1:
  "distinct l \<Longrightarrow> take n (b # remove1 b (take n l)) = take n (b # remove1 b l)"
proof (cases n)
  case (Suc m)
  assume d: "distinct l"
  have "take m (remove1 b (take (Suc m) l)) = take m (remove1 b l)" using d
  proof (induction l arbitrary: m)
    case (Cons x l)
    then show ?case by (cases m) (auto simp: take_Suc_conv_app_nth)
  qed simp
  with Suc show ?thesis by simp
qed simp

lemma fold_lru_touch: "fold (lru_touch n) bs [] = take n (rev (remdups bs))"
proof (induction bs rule: rev_induct)
  case (snoc b bs)
  have "rev (remdups (bs @ [b])) = b # remove1 b (rev (remdups bs))"
    by (induction bs) (auto simp: distinct_remove1_removeAll remove1_append)
  with snoc take_remove1 [of "rev (remdups bs)" n b] show ?case by (simp add: lru_touch_def)
qed simp

lemma read_block_relinks:
  assumes ok: "bok {} s" and br: "bread pid 1 b s = Inr (i, put_buf i nb s)" and post: "bread_post {} s b i (put_buf i nb s)"
    and links: "b_next nb = b_next (bufs s i)" "b_prev nb = b_prev (bufs s i)"
    and xs: "mru s xs" "set xs = {..<NBUF}"
  obtains s' where "read_block pid b s = Inr (view s b, s')" "bok {} s'" "pinned s' = pinned s" "same_disk s s'"
    "mru s' (i # remove1 i xs)" "\<And>j. b_flags (bufs s' j) = b_flags (((bufs s)(i := nb)) j)"
    "\<And>j. b_blockno (bufs s' j) = b_blockno (((bufs s)(i := nb)) j)"
proof -
  let ?s = "put_buf i nb s"
  have s1: "bok {i} ?s" "b_data (bufs ?s i) = view s b" "pinned ?s = pinned s" "b_blockno (bufs ?s i) = b" "view ?s = view s"
    "dirty_buf (bufs ?s i) \<longleftrightarrow> b \<in> pinned s"
    using post unfolding bread_post_def by blast+
  have d: "dirty_buf (bufs ?s i) \<or> b_data (bufs ?s i) = memdisk ?s (b_blockno (bufs ?s i))"
    using view_unpinned [OF ok, of b] s1 by auto
  have "mru ?s xs" using xs(1) mru_upd_buf [of "\<lambda>_. nb" s i xs] links unfolding put_buf_def by simp
  have "i \<in> {i}" by simp
  from brelse_ok [OF s1(1) this d] obtain s' where s': "brelse i ?s = Inr s'" "bok ({i} - {i}) s'" "pinned s' = pinned ?s"
    "same_disk ?s s'" "\<And>j. b_blockno (bufs s' j) = b_blockno (bufs ?s j)"
    "\<And>j. b_flags (bufs s' j) = b_flags (bufs ?s j)"
    "\<And>xs. mru ?s xs \<Longrightarrow> set xs = {..<NBUF} \<Longrightarrow> mru s' (i # remove1 i xs)" by metis
  show ?thesis
  proof (rule that)
    show "read_block pid b s = Inr (view s b, s')" using br s'(1) s1(2) by (simp add: read_block_def)
    show "mru s' (i # remove1 i xs)" by (rule s'(7)) fact+
  qed (use s' s1 in \<open>auto simp: same_disk_def\<close>)
qed

lemma blocks_distinct:
  assumes "bok H s" "distinct xs" "set xs \<subseteq> {..<NBUF}" "\<forall>i \<in> set xs. valid_buf (bufs s i)"
  shows "distinct (map (\<lambda>i. b_blockno (bufs s i)) xs)"
  unfolding distinct_map
proof (intro conjI inj_onI assms(2))
  fix i j assume "i \<in> set xs" "j \<in> set xs" "b_blockno (bufs s i) = b_blockno (bufs s j)"
  then show "i = j" using one_copyD [OF bokD(5) [OF assms(1)], of i j] bok_valid(1) [OF assms(1)] assms(3,4) by auto
qed

lemma map_remove1_inj: "inj_on f (insert x (set xs)) \<Longrightarrow> map f (remove1 x xs) = remove1 (f x) (map f xs)"
  by (induction xs) (auto simp: inj_on_def)

lemma read_block_lru:
  assumes l: "lru_state s vs" and b: "unat b < disksize s"
  shows "\<exists>s'. read_block pid b s = Inr (memdisk s b, s') \<and> same_disk s s' \<and> lru_state s' (lru_touch NBUF b vs)"
proof -
  obtain xs us where ok: "bok {} s" and p: "pinned s = {}" and m: "mru s (xs @ us)" and al: "set (xs @ us) = {..<NBUF}"
    and v: "\<forall>i \<in> set xs. valid_buf (bufs s i)" and u: "\<forall>i \<in> set us. \<not> valid_buf (bufs s i)"
    and vs: "map (\<lambda>i. b_blockno (bufs s i)) xs = vs"
    using l by (auto simp: lru_state_def)
  have dist: "distinct (xs @ us)" by (rule mru_all(4) [OF m al])
  have len: "length (xs @ us) = NBUF" using distinct_card [OF dist] al by simp
  have vb: "view s b = memdisk s b" using view_unpinned [OF ok] p by simp
  have dvs: "distinct vs" unfolding vs [symmetric] by (rule blocks_distinct [OF ok]) (use dist al v in auto)
  show ?thesis
  proof (cases "b \<in> set vs")
    case True
    then obtain i where i: "i \<in> set xs" "b_blockno (bufs s i) = b" by (auto simp flip: vs)
    then have i2: "i < NBUF" "b_dev (bufs s i) = 1" using al v bok_valid(1) [OF ok] by auto
    note h = bread_hit [OF ok i2(1) _ i2(2) i(2), of pid] hit_post [OF ok i2(1) _ i2(2) i(2), of pid]
    obtain s' where s': "read_block pid b s = Inr (view s b, s')" "bok {} s'" "pinned s' = pinned s" "same_disk s s'"
      "mru s' (i # remove1 i (xs @ us))" "\<And>j. b_flags (bufs s' j) = b_flags (((bufs s)(i := hit_buf pid (bufs s i))) j)"
      "\<And>j. b_blockno (bufs s' j) = b_blockno (((bufs s)(i := hit_buf pid (bufs s i))) j)"
      by (rule read_block_relinks [OF ok h(1) h(2) _ _ m al]) (auto simp: hit_buf_def)
    have same: "b_flags (bufs s' j) = b_flags (bufs s j)" "b_blockno (bufs s' j) = b_blockno (bufs s j)" for j
      using s'(6,7) [of j] by (auto simp: hit_buf_def)
    have "map (\<lambda>j. b_blockno (bufs s' j)) (i # remove1 i xs) = lru_touch NBUF b vs"
    proof -
      have "map (\<lambda>j. b_blockno (bufs s j)) (remove1 i xs) = remove1 b vs"
        using dvs map_remove1_inj [of "\<lambda>j. b_blockno (bufs s j)" i xs] i
        unfolding vs [symmetric] by (simp add: distinct_map insert_absorb)
      moreover have "length (b # remove1 b vs) \<le> NBUF"
        using len True length_pos_if_in_set [OF True] arg_cong [OF vs, of length] by (simp add: length_remove1)
      ultimately show ?thesis using i by (simp add: lru_touch_def same del: take_Suc_Cons)
    qed
    moreover have "mru s' ((i # remove1 i xs) @ us)" using s'(5) i(1) by (simp add: remove1_append)
    ultimately have "lru_state s' (lru_touch NBUF b vs)"
      using s'(2,3) p al i(1) v u dist
      by (intro lru_stateI [of _ "i # remove1 i xs" us]) (auto simp: same)
    with s' vb show ?thesis by auto
  next
    case False
    have none: "b_blockno (bufs s i) \<noteq> b" if i: "i < NBUF" "b_dev (bufs s i) = 1" for i
    proof -
      have "valid_buf (bufs s i)" using bokD(4) [OF ok i(1)] i(2) by (simp add: buf_ok_def)
      with u have "i \<notin> set us" by auto
      with al i(1) have "i \<in> set xs" by auto
      with False show ?thesis by (auto simp flip: vs)
    qed
    define i where "i = last (xs @ us)"
    have ne: "xs @ us \<noteq> []" using len by (auto simp: NBUF_def)
    have clean: "\<not> dirty_buf (bufs s j)" if "j < NBUF" for j using p that by (auto simp: pinned_def)
    have il: "i < NBUF" using last_in_set [OF ne] unfolding al i_def by simp
    have "find (\<lambda>i. b_refcnt (bufs s i) = 0 \<and> \<not> dirty_buf (bufs s i)) (rev (xs @ us)) = Some i"
      using ne clean [OF il] bok_free(2) [OF ok il] unfolding i_def
      by (cases "xs @ us" rule: rev_cases) auto
    note h = bread_miss(1) [OF ok b none m al this, of pid] miss_post [OF ok b none il _ clean [OF il], of pid]
    obtain s' where s': "read_block pid b s = Inr (view s b, s')" "bok {} s'" "pinned s' = pinned s" "same_disk s s'"
      "mru s' (i # remove1 i (xs @ us))"
      "\<And>j. b_flags (bufs s' j) = b_flags (((bufs s)(i := miss_buf pid b (memdisk s b) (bufs s i))) j)"
      "\<And>j. b_blockno (bufs s' j) = b_blockno (((bufs s)(i := miss_buf pid b (memdisk s b) (bufs s i))) j)"
      by (rule read_block_relinks [OF ok h(1) h(2) _ _ m al]) (auto simp: miss_buf_def)
    have same: "j \<noteq> i \<Longrightarrow> b_flags (bufs s' j) = b_flags (bufs s j)" "j \<noteq> i \<Longrightarrow> b_blockno (bufs s' j) = b_blockno (bufs s j)"
      "b_flags (bufs s' i) = B_VALID" "b_blockno (bufs s' i) = b" for j
      using s'(6,7) [of j] s'(6,7) [of i] by (auto simp: miss_buf_def)
    define ys ws where "ys = (if us = [] then butlast xs else xs)" and "ws = butlast us"
    have split: "xs @ us = ys @ ws @ [i]" "remove1 i (xs @ us) = ys @ ws" "i \<notin> set (ys @ ws)"
    proof -
      show e: "xs @ us = ys @ ws @ [i]" using ne by (auto simp: ys_def ws_def i_def butlast_append)
      then show n: "i \<notin> set (ys @ ws)" using dist by auto
      show "remove1 i (xs @ us) = ys @ ws" unfolding e using n by (simp add: remove1_append)
    qed
    have sub: "set ys \<subseteq> set xs" "set ws \<subseteq> set us" by (auto simp: ys_def ws_def dest: in_set_butlastD)
    have "map (\<lambda>j. b_blockno (bufs s' j)) (i # ys) = lru_touch NBUF b vs"
    proof -
      have "map (\<lambda>j. b_blockno (bufs s' j)) ys = map (\<lambda>j. b_blockno (bufs s j)) ys"
        by (rule map_cong [OF refl], rule same(2)) (use split(3) in auto)
      moreover have "map (\<lambda>j. b_blockno (bufs s j)) ys = take (NBUF - 1) vs"
        using len vs by (cases us) (auto simp: ys_def butlast_conv_take take_map)
      moreover have "remove1 b vs = vs" using False by (simp add: remove1_idem)
      ultimately show ?thesis by (simp add: same lru_touch_def take_Cons' NBUF_def)
    qed
    moreover have "mru s' ((i # ys) @ ws)" using s'(5) unfolding split(2) by simp
    moreover have "set ((i # ys) @ ws) = {..<NBUF}" using al unfolding split(1) by auto
    moreover have "valid_buf (bufs s' j)" if "j \<in> set (i # ys)" for j
      using that v sub(1) same by (cases "j = i") auto
    moreover have "\<not> valid_buf (bufs s' j)" if "j \<in> set ws" for j
      using that u sub(2) same(1) [of j] split(3) by (cases "j = i") auto
    ultimately have "lru_state s' (lru_touch NBUF b vs)"
      using s'(2,3) p by (intro lru_stateI [of _ "i # ys" ws]) auto
    with s' vb show ?thesis by auto
  qed
qed

lemma reads_lru:
  assumes "lru_state s vs" "\<forall>b \<in> set bs. unat b < disksize s"
  shows "\<exists>s'. cache_ops pid (map Rd bs) s = Inr (map (memdisk s) bs, s') \<and> same_disk s s' \<and>
    lru_state s' (fold (lru_touch NBUF) bs vs)"
  using assms
proof (induction bs arbitrary: s vs)
  case Nil
  then show ?case by (simp add: same_disk_def)
next
  case (Cons b bs)
  from read_block_lru [OF Cons.prems(1), of b pid] Cons.prems(2) obtain s1 where s1:
    "read_block pid b s = Inr (memdisk s b, s1)" "same_disk s s1" "lru_state s1 (lru_touch NBUF b vs)" by auto
  from Cons.IH [OF s1(3)] Cons.prems(2) s1(2) obtain s2 where
    "cache_ops pid (map Rd bs) s1 = Inr (map (memdisk s1) bs, s2)" "same_disk s1 s2"
    "lru_state s2 (fold (lru_touch NBUF) bs (lru_touch NBUF b vs))" by (auto simp: same_disk_def)
  with s1 show ?case by (auto simp: same_disk_def)
qed

text \<open>
  C31. The replacement is least recently used. After \<open>binit\<close> and any sequence of block reads, the list of
  buffers holds, from its front, exactly the \<open>NBUF\<close> most recently read distinct blocks, most recent first;
  the remaining buffers are invalid.
\<close>

theorem buffer_cache_lru:
  assumes "bss_ok s" "\<forall>b \<in> set bs. unat b < disksize s"
  shows "\<exists>s' xs us. cache_ops pid (map Rd bs) (binit s) = Inr (map (memdisk s) bs, s') \<and> mru s' (xs @ us) \<and>
    map (\<lambda>i. b_blockno (bufs s' i)) xs = take NBUF (rev (remdups bs)) \<and>
    (\<forall>i \<in> set xs. valid_buf (bufs s' i)) \<and> (\<forall>i \<in> set us. \<not> valid_buf (bufs s' i))"
proof -
  have "lru_state (binit s) []"
    using binit_ok [OF assms(1)] binit_mru [of s] assms(1)
    by (intro lru_stateI [of _ "[]" "rev [0..<NBUF]"]) (auto simp: binit_fields bss_ok_def)
  from reads_lru [OF this, of bs pid] assms(2) show ?thesis
    unfolding fold_lru_touch lru_state_def binit_fields by blast
qed

theorem buffer_cache_lru_witness:
  "\<exists>s' xs us. cache_ops 1 (map Rd [5, 6, 5]) (binit zero_cache) = Inr (map (memdisk zero_cache) [5, 6, 5], s') \<and>
     mru s' (xs @ us) \<and> map (\<lambda>i. b_blockno (bufs s' i)) xs = [5, 6]"
proof -
  have "\<forall>b \<in> set [5, 6, 5 :: u32]. unat b < disksize zero_cache" by (simp add: zero_cache_ok)
  moreover have "take NBUF (rev (remdups [5, 6, 5 :: u32])) = [5, 6]" by (simp add: NBUF_def)
  ultimately show ?thesis using buffer_cache_lru [OF zero_cache_ok(1), of "[5, 6, 5]" 1] by metis
qed

end
