(* ===== verification/Xv6_Log.thy ===== *)
theory Xv6_Log
  imports Xv6_Bio
begin

text \<open>
  The redo log of xv6 (\<open>log.c\<close>) over the buffer cache. The in-memory header is \<open>lh_n\<close>, \<open>lh_block\<close>; the on-disk
  header is the block \<open>lg_start\<close>, read and written as little-endian integers. \<open>disk_writes\<close> of the cache gives
  the order in which blocks reach the disk, so that a crash is a prefix of it. \<open>begin_op\<close> returns \<open>Blocked\<close> where the
  caller would sleep on the log; its loop tests the same conditions again after a wakeup.
\<close>

section \<open>The log\<close>

definition MAXOPBLOCKS :: int where "MAXOPBLOCKS = 10"
definition LOGSIZE :: int where "LOGSIZE = MAXOPBLOCKS * 3"

record log =
  lg_start :: int
  lg_size :: int
  lg_outstanding :: int
  lg_committing :: int
  lg_dev :: u32
  lh_n :: int
  lh_block :: "u32 list"

definition log_block :: "log \<Rightarrow> nat \<Rightarrow> u32" where    \<comment> \<open>\<open>log.start+tail+1\<close>\<close>
  "log_block lg t = word_of_int (lg_start lg + int t + 1)"

definition log_head :: "log \<Rightarrow> u32" where
  "log_head lg = word_of_int (lg_start lg)"

text \<open>The loop bodies of \<open>install_trans\<close> and \<open>write_log\<close>, \<open>k\<close> iterations from index \<open>t\<close>.\<close>

fun install_from :: "int \<Rightarrow> log \<Rightarrow> nat \<Rightarrow> nat \<Rightarrow> bcache \<Rightarrow> bcache c_result" where
  "install_from pid lg 0 t c = Inr c"
| "install_from pid lg (Suc k) t c =
     bindE (bread pid (lg_dev lg) (log_block lg t) c) (\<lambda>(lbuf, c).
     bindE (arr_get (lh_block lg) t) (\<lambda>blk.
     bindE (bread pid (lg_dev lg) blk c) (\<lambda>(dbuf, c).
     bindE (bwrite dbuf (upd_buf dbuf (\<lambda>x. x\<lparr>b_data := b_data (bufs c lbuf)\<rparr>) c)) (\<lambda>c.
     bindE (brelse lbuf c) (\<lambda>c.
     bindE (brelse dbuf c) (\<lambda>c. install_from pid lg k (Suc t) c))))))"

definition install_trans :: "int \<Rightarrow> log \<Rightarrow> bcache \<Rightarrow> bcache c_result" where
  "install_trans pid lg c = install_from pid lg (nat (lh_n lg)) 0 c"

fun write_log_from :: "int \<Rightarrow> log \<Rightarrow> nat \<Rightarrow> nat \<Rightarrow> bcache \<Rightarrow> bcache c_result" where
  "write_log_from pid lg 0 t c = Inr c"
| "write_log_from pid lg (Suc k) t c =
     bindE (bread pid (lg_dev lg) (log_block lg t) c) (\<lambda>(to, c).
     bindE (arr_get (lh_block lg) t) (\<lambda>blk.
     bindE (bread pid (lg_dev lg) blk c) (\<lambda>(from, c).
     bindE (bwrite to (upd_buf to (\<lambda>x. x\<lparr>b_data := b_data (bufs c from)\<rparr>) c)) (\<lambda>c.
     bindE (brelse from c) (\<lambda>c.
     bindE (brelse to c) (\<lambda>c. write_log_from pid lg k (Suc t) c))))))"

definition write_log :: "int \<Rightarrow> log \<Rightarrow> bcache \<Rightarrow> bcache c_result" where
  "write_log pid lg c = write_log_from pid lg (nat (lh_n lg)) 0 c"

fun read_head_from :: "block \<Rightarrow> nat \<Rightarrow> nat \<Rightarrow> u32 list \<Rightarrow> u32 list c_result" where
  "read_head_from d 0 i bl = Inr bl"
| "read_head_from d (Suc k) i bl =
     bindE (arr_set bl i (get32 d (4 + 4 * i))) (\<lambda>bl. read_head_from d k (Suc i) bl)"

definition read_head :: "int \<Rightarrow> log \<Rightarrow> bcache \<Rightarrow> (log \<times> bcache) c_result" where
  "read_head pid lg c =
     bindE (bread pid (lg_dev lg) (log_head lg) c) (\<lambda>(buf, c).
     (let d = b_data (bufs c buf); lg = lg\<lparr>lh_n := sint (get32 d 0)\<rparr>
      in bindE (read_head_from d (nat (lh_n lg)) 0 (lh_block lg)) (\<lambda>bl.
         bindE (brelse buf c) (\<lambda>c. Inr (lg\<lparr>lh_block := bl\<rparr>, c)))))"

fun put_head_from :: "u32 list \<Rightarrow> nat \<Rightarrow> nat \<Rightarrow> block \<Rightarrow> block c_result" where
  "put_head_from bl 0 i d = Inr d"
| "put_head_from bl (Suc k) i d =
     bindE (arr_get bl i) (\<lambda>b. put_head_from bl k (Suc i) (put32 d (4 + 4 * i) b))"

definition write_head :: "int \<Rightarrow> log \<Rightarrow> bcache \<Rightarrow> bcache c_result" where
  "write_head pid lg c =
     bindE (bread pid (lg_dev lg) (log_head lg) c) (\<lambda>(buf, c).
     bindE (put_head_from (lh_block lg) (nat (lh_n lg)) 0
              (put32 (b_data (bufs c buf)) 0 (word_of_int (lh_n lg)))) (\<lambda>d.
     bindE (bwrite buf (upd_buf buf (\<lambda>x. x\<lparr>b_data := d\<rparr>) c)) (\<lambda>c. brelse buf c)))"

definition recover_from_log :: "int \<Rightarrow> log \<Rightarrow> bcache \<Rightarrow> (log \<times> bcache) c_result" where
  "recover_from_log pid lg c =
     bindE (read_head pid lg c) (\<lambda>(lg, c).
     bindE (install_trans pid lg c) (\<lambda>c.
     (let lg = lg\<lparr>lh_n := 0\<rparr> in bindE (write_head pid lg c) (\<lambda>c. Inr (lg, c)))))"

definition commit :: "int \<Rightarrow> log \<Rightarrow> bcache \<Rightarrow> (log \<times> bcache) c_result" where
  "commit pid lg c =
     (if lh_n lg > 0
      then bindE (write_log pid lg c) (\<lambda>c.
           bindE (write_head pid lg c) (\<lambda>c.
           bindE (install_trans pid lg c) (\<lambda>c.
           (let lg = lg\<lparr>lh_n := 0\<rparr> in bindE (write_head pid lg c) (\<lambda>c. Inr (lg, c))))))
      else Inr (lg, c))"

definition begin_op :: "log \<Rightarrow> log c_result" where
  "begin_op lg =
     (if lg_committing lg \<noteq> 0 then Inl Blocked
      else if lh_n lg + (lg_outstanding lg + 1) * MAXOPBLOCKS > LOGSIZE then Inl Blocked
      else Inr (lg\<lparr>lg_outstanding := lg_outstanding lg + 1\<rparr>))"

text \<open>The part of \<open>end_op\<close> before the commit, and the whole of it.\<close>

definition end_op_start :: "log \<Rightarrow> (bool \<times> log) c_result" where
  "end_op_start lg =
     (let lg = lg\<lparr>lg_outstanding := lg_outstanding lg - 1\<rparr>
      in if lg_committing lg \<noteq> 0 then Inl (Panic ''log.committing'')
         else if lg_outstanding lg = 0 then Inr (True, lg\<lparr>lg_committing := 1\<rparr>)
         else Inr (False, lg))"

definition end_op :: "int \<Rightarrow> log \<Rightarrow> bcache \<Rightarrow> (log \<times> bcache) c_result" where
  "end_op pid lg c =
     bindE (end_op_start lg) (\<lambda>(do_commit, lg).
     if do_commit then bindE (commit pid lg c) (\<lambda>(lg, c). Inr (lg\<lparr>lg_committing := 0\<rparr>, c))
     else Inr (lg, c))"

text \<open>The index at which \<open>log_write\<close> stops: that of the block, or \<open>lh_n\<close>.\<close>

fun absorb_at :: "u32 list \<Rightarrow> u32 \<Rightarrow> nat \<Rightarrow> nat \<Rightarrow> nat c_result" where
  "absorb_at bl b 0 i = Inr i"
| "absorb_at bl b (Suc k) i =
     bindE (arr_get bl i) (\<lambda>x. if x = b then Inr i else absorb_at bl b k (Suc i))"

definition log_write :: "log \<Rightarrow> nat \<Rightarrow> bcache \<Rightarrow> (log \<times> bcache) c_result" where
  "log_write lg b c =
     (if lh_n lg \<ge> LOGSIZE \<or> lh_n lg \<ge> lg_size lg - 1 then Inl (Panic ''too big a transaction'')
      else if lg_outstanding lg < 1 then Inl (Panic ''log_write outside of trans'')
      else bindE (absorb_at (lh_block lg) (b_blockno (bufs c b)) (nat (lh_n lg)) 0) (\<lambda>i.
           bindE (arr_set (lh_block lg) i (b_blockno (bufs c b))) (\<lambda>bl.
           Inr (lg\<lparr>lh_block := bl, lh_n := (if int i = lh_n lg then lh_n lg + 1 else lh_n lg)\<rparr>,
                upd_buf b (\<lambda>x. x\<lparr>b_flags := b_flags x OR B_DIRTY\<rparr>) c))))"

text \<open>The use the file system makes of it: read a block, change it, log it, release it.\<close>

definition log_update :: "int \<Rightarrow> u32 \<Rightarrow> block \<Rightarrow> log \<times> bcache \<Rightarrow> (log \<times> bcache) c_result" where
  "log_update pid b d = (\<lambda>(lg, c).
     bindE (bread pid (lg_dev lg) b c) (\<lambda>(i, c).
     bindE (log_write lg i (upd_buf i (\<lambda>x. x\<lparr>b_data := d\<rparr>) c)) (\<lambda>(lg, c).
     bindE (brelse i c) (\<lambda>c. Inr (lg, c)))))"

text \<open>\<open>readsb\<close> of \<open>fs.c\<close>: the super block is a copy of the first bytes of block 1.\<close>

record superblock =
  sb_size :: u32
  sb_nblocks :: u32
  sb_ninodes :: u32
  sb_nlog :: u32
  sb_logstart :: u32
  sb_inodestart :: u32
  sb_bmapstart :: u32

definition superblock_of :: "block \<Rightarrow> superblock" where
  "superblock_of d = \<lparr>sb_size = get32 d 0, sb_nblocks = get32 d 4, sb_ninodes = get32 d 8, sb_nlog = get32 d 12,
     sb_logstart = get32 d 16, sb_inodestart = get32 d 20, sb_bmapstart = get32 d 24\<rparr>"

definition readsb :: "int \<Rightarrow> u32 \<Rightarrow> bcache \<Rightarrow> (superblock \<times> bcache) c_result" where
  "readsb pid dev c =
     bindE (bread pid dev 1 c) (\<lambda>(bp, c).
     bindE (brelse bp c) (\<lambda>c'. Inr (superblock_of (b_data (bufs c bp)), c')))"

text \<open>\<open>sizeof (struct logheader)\<close> is four bytes for \<open>n\<close> and four for each of the \<open>LOGSIZE\<close> entries.\<close>

definition initlog :: "int \<Rightarrow> u32 \<Rightarrow> log \<Rightarrow> bcache \<Rightarrow> (log \<times> bcache) c_result" where
  "initlog pid dev lg c =
     (if 4 + 4 * LOGSIZE \<ge> int BSIZE then Inl (Panic ''initlog: too big logheader'')
      else bindE (readsb pid dev c) (\<lambda>(sb, c).
           recover_from_log pid
             (lg\<lparr>lg_start := sint (sb_logstart sb), lg_size := sint (sb_nlog sb), lg_dev := dev\<rparr>) c))"

section \<open>Writes in order\<close>

fun apply_writes :: "(u32 \<times> block) list \<Rightarrow> (u32 \<Rightarrow> block) \<Rightarrow> u32 \<Rightarrow> block" where
  "apply_writes [] D = D"
| "apply_writes ((b, d) # ws) D = apply_writes ws (D(b := d))"

lemma apply_writes_append [simp]: "apply_writes (xs @ ys) D = apply_writes ys (apply_writes xs D)"
  by (induction xs arbitrary: D) auto

lemma apply_writes_of:
  assumes "\<And>b d. (b, d) \<in> set ws \<Longrightarrow> d = F b"
  shows "apply_writes ws D b = (if b \<in> fst ` set ws then F b else D b)"
  using assms
proof (induction ws D rule: apply_writes.induct)
  case (2 a d ws D)
  have "d = F a" using 2(2) [of a d] by simp
  moreover have "apply_writes ws (D(a := d)) b = (if b \<in> fst ` set ws then F b else (D(a := d)) b)"
    by (rule 2(1)) (rule 2(2), simp)
  ultimately show ?case by auto
qed simp

lemma apply_writes_other: "b \<notin> fst ` set ws \<Longrightarrow> apply_writes ws D b = D b"
  by (induction ws D rule: apply_writes.induct) auto

text \<open>From \<open>c\<close> to \<open>c'\<close> the writes \<open>ws\<close> went through the cache to the disk.\<close>

definition wrote :: "bcache \<Rightarrow> (u32 \<times> block) list \<Rightarrow> bcache \<Rightarrow> bool" where
  "wrote c ws c' \<longleftrightarrow> bok {} c' \<and> disksize c' = disksize c \<and> disk_writes c' = disk_writes c @ ws \<and>
     memdisk c' = apply_writes ws (memdisk c) \<and> view c' = apply_writes ws (view c) \<and>
     pinned c' = pinned c - fst ` set ws"

lemma wrote_nil: "bok {} c \<Longrightarrow> wrote c [] c"
  by (simp add: wrote_def)

lemma wrote_trans: "wrote c ws c' \<Longrightarrow> wrote c' ws' c'' \<Longrightarrow> wrote c (ws @ ws') c''"
  by (auto simp: wrote_def)

lemma wroteD:
  assumes "wrote c ws c'"
  shows "bok {} c'" "disksize c' = disksize c" "disk_writes c' = disk_writes c @ ws" "memdisk c' = apply_writes ws (memdisk c)"
    "view c' = apply_writes ws (view c)" "pinned c' = pinned c - fst ` set ws"
  using assms by (simp_all add: wrote_def)

text \<open>Copying the block \<open>src\<close>, held in buffer \<open>i\<close>, over the block \<open>dst\<close>, held in \<open>j\<close>.\<close>

lemma copy_held:
  assumes ok: "bok {i, j} c" and ne: "i \<noteq> j"
    and clean: "dirty_buf (bufs c i) \<or> b_data (bufs c i) = memdisk c (b_blockno (bufs c i))"
  shows "\<exists>c'. bindE (bwrite j (upd_buf j (\<lambda>x. x\<lparr>b_data := b_data (bufs c i)\<rparr>) c)) (\<lambda>c.
      bindE (brelse i c) (\<lambda>c. brelse j c)) = Inr c' \<and>
    wrote c [(b_blockno (bufs c j), b_data (bufs c i))] c'"
proof -
  let ?d = "b_data (bufs c i)" and ?b = "b_blockno (bufs c j)"
  define t where "t = upd_buf j (\<lambda>x. x\<lparr>b_data := ?d\<rparr>) c"
  have h: "i \<in> {i, j}" "j \<in> {i, j}" by simp_all
  have nb: "b_blockno (bufs c i) \<noteq> ?b"
    using one_copyD [OF bokD(5) [OF ok]] bok_held [OF ok h(1)] bok_held [OF ok h(2)] ne by metis
  have len: "length ?d = BSIZE" by (rule bok_held(7) [OF ok h(1)])
  have t: "bok {i, j} t" "view t = (view c)(?b := ?d)" "pinned t = pinned c"
    using data_ok [OF ok h(2) len] by (simp_all add: t_def)
  have tf: "b_blockno (bufs t k) = b_blockno (bufs c k)" "b_flags (bufs t k) = b_flags (bufs c k)"
    "b_data (bufs t j) = ?d" "b_data (bufs t i) = ?d" "memdisk t = memdisk c" "disk_writes t = disk_writes c"
    "disksize t = disksize c" for k using ne by (simp_all add: t_def)
  obtain c1 where c1: "bwrite j t = Inr c1" "bok {i, j} c1" "view c1 = view t" "disksize c1 = disksize t"
    "memdisk c1 = (memdisk t)(?b := ?d)" "disk_writes c1 = disk_writes t @ [(?b, ?d)]" "pinned c1 = pinned t - {?b}"
    "\<And>k. b_data (bufs c1 k) = b_data (bufs t k)" "\<And>k. b_blockno (bufs c1 k) = b_blockno (bufs t k)"
    "\<And>k. k \<noteq> j \<Longrightarrow> b_flags (bufs c1 k) = b_flags (bufs t k)"
    by (rule bwrite_ok [OF t(1) h(2)]) (simp_all add: tf)
  have ci: "dirty_buf (bufs c1 i) \<or> b_data (bufs c1 i) = memdisk c1 (b_blockno (bufs c1 i))"
    using clean ne nb by (simp add: c1 tf)
  obtain c2 where c2: "brelse i c1 = Inr c2" "bok ({i, j} - {i}) c2" "view c2 = view c1" "pinned c2 = pinned c1"
    "same_disk c1 c2" "\<And>k. b_data (bufs c2 k) = b_data (bufs c1 k)" "\<And>k. b_blockno (bufs c2 k) = b_blockno (bufs c1 k)"
    using brelse_ok [OF c1(2) h(1) ci] by metis
  have ok2: "bok {j} c2" using c2(2) ne by (simp add: insert_Diff_if)
  have "dirty_buf (bufs c2 j) \<or> b_data (bufs c2 j) = memdisk c2 (b_blockno (bufs c2 j))"
    using c2(5) by (simp add: c2(6,7) c1(5,8,9) tf same_disk_def)
  from brelse_last [OF ok2 this] obtain c3 where c3:
    "brelse j c2 = Inr c3" "bok {} c3" "view c3 = view c2" "pinned c3 = pinned c2" "same_disk c2 c3" .
  have "wrote c [(?b, ?d)] c3"
    using c3 c2(3-5) c1(3-7) t tf by (simp add: wrote_def same_disk_def)
  moreover have "bindE (bwrite j t) (\<lambda>c. bindE (brelse i c) (\<lambda>c. brelse j c)) = Inr c3"
    by (simp add: c1(1) c2(1) c3(1))
  ultimately show ?thesis unfolding t_def by blast
qed

lemma two_breads:
  assumes ok: "bok {} c" and a: "unat a < disksize c" "unat b < disksize c" "a \<noteq> b"
    and cap: "card (pinned c) < NBUF" "b \<in> pinned c \<or> card (pinned c) + 1 < NBUF"
  obtains i c1 j c2 where "bread pid 1 a c = Inr (i, c1)" "bread pid 1 b c1 = Inr (j, c2)" "bok {i, j} c2" "i \<noteq> j"
    "b_blockno (bufs c2 i) = a" "b_blockno (bufs c2 j) = b" "b_data (bufs c2 i) = view c a" "b_data (bufs c2 j) = view c b"
    "view c2 = view c" "pinned c2 = pinned c" "same_disk c c2"
    "dirty_buf (bufs c2 i) \<longleftrightarrow> a \<in> pinned c" "dirty_buf (bufs c2 j) \<longleftrightarrow> b \<in> pinned c"
proof -
  have r1: "room {} c \<or> a \<in> pinned c" using card_pinned_room [OF ok] cap(1) by simp
  obtain i c1 where b1: "bread pid 1 a c = Inr (i, c1)" and p1: "bread_post {} c a i c1"
    using bread_ok [OF ok a(1) _ r1] by blast
  have c1: "bok {i} c1" "b_blockno (bufs c1 i) = a" "b_data (bufs c1 i) = view c a" "view c1 = view c"
    "pinned c1 = pinned c" "same_disk c c1" "dirty_buf (bufs c1 i) \<longleftrightarrow> a \<in> pinned c"
    using p1 by (simp_all add: bread_post_def)
  have r2: "room {i} c1 \<or> b \<in> pinned c1" using card_pinned_room [OF c1(1)] cap(2) c1(5) by auto
  have b': "unat b < disksize c1" using a(2) c1(6) by (simp add: same_disk_def)
  have "b_blockno (bufs c1 k) \<noteq> b" if "k \<in> {i}" for k using that a(3) c1(2) by auto
  from bread_ok [OF c1(1) b' this r2] obtain j c2 where b2: "bread pid 1 b c1 = Inr (j, c2)" and p2: "bread_post {i} c1 b j c2"
    by blast
  have "j \<noteq> i" "bufs c2 i = bufs c1 i" using p2 by (auto simp: bread_post_def)
  moreover have "bok {i, j} c2" using p2 by (simp add: bread_post_def insert_commute)
  ultimately show ?thesis
    using that [OF b1 b2] p2 c1 by (auto simp: bread_post_def same_disk_def)
qed

lemma copy_block:
  assumes ok: "bok {} c" and a: "unat src < disksize c" "unat dst < disksize c" "src \<noteq> dst"
    and cap: "card (pinned c) < NBUF"
  shows "dst \<in> pinned c \<or> card (pinned c) + 1 < NBUF \<Longrightarrow>
      \<exists>c'. bindE (bread pid 1 src c) (\<lambda>(i, c). bindE (bread pid 1 dst c) (\<lambda>(j, c).
        bindE (bwrite j (upd_buf j (\<lambda>x. x\<lparr>b_data := b_data (bufs c i)\<rparr>) c)) (\<lambda>c.
        bindE (brelse i c) (\<lambda>c. brelse j c)))) = Inr c' \<and> wrote c [(dst, view c src)] c'" (is "_ \<Longrightarrow> ?A")
    and "src \<in> pinned c \<or> card (pinned c) + 1 < NBUF \<Longrightarrow>
      \<exists>c'. bindE (bread pid 1 dst c) (\<lambda>(j, c). bindE (bread pid 1 src c) (\<lambda>(i, c).
        bindE (bwrite j (upd_buf j (\<lambda>x. x\<lparr>b_data := b_data (bufs c i)\<rparr>) c)) (\<lambda>c.
        bindE (brelse i c) (\<lambda>c. brelse j c)))) = Inr c' \<and> wrote c [(dst, view c src)] c'" (is "_ \<Longrightarrow> ?B")
proof -
  have held: "\<exists>c'. bindE (bwrite j (upd_buf j (\<lambda>x. x\<lparr>b_data := b_data (bufs c2 i)\<rparr>) c2)) (\<lambda>c.
      bindE (brelse i c) (\<lambda>c. brelse j c)) = Inr c' \<and> wrote c [(dst, view c src)] c'"
    if "bok {i, j} c2" "i \<noteq> j" "b_blockno (bufs c2 i) = src" "b_blockno (bufs c2 j) = dst"
      "b_data (bufs c2 i) = view c src" "view c2 = view c" "pinned c2 = pinned c" "same_disk c c2"
      "dirty_buf (bufs c2 i) \<longleftrightarrow> src \<in> pinned c" for i j c2
  proof -
    have "dirty_buf (bufs c2 i) \<or> b_data (bufs c2 i) = memdisk c2 (b_blockno (bufs c2 i))"
      using view_unpinned [OF ok] that(3,5,8,9) by (auto simp: same_disk_def)
    from copy_held [OF that(1,2) this] that(3-8) show ?thesis by (simp add: wrote_def same_disk_def)
  qed
  show ?A if pin: "dst \<in> pinned c \<or> card (pinned c) + 1 < NBUF"
  proof -
    obtain i c1 j c2 where *: "bread pid 1 src c = Inr (i, c1)" "bread pid 1 dst c1 = Inr (j, c2)" "bok {i, j} c2" "i \<noteq> j"
      "b_blockno (bufs c2 i) = src" "b_blockno (bufs c2 j) = dst" "b_data (bufs c2 i) = view c src"
      "view c2 = view c" "pinned c2 = pinned c" "same_disk c c2" "dirty_buf (bufs c2 i) \<longleftrightarrow> src \<in> pinned c"
      by (rule two_breads [OF ok a cap pin])
    with held [OF *(3-11)] show ?thesis by simp
  qed
  show ?B if pin: "src \<in> pinned c \<or> card (pinned c) + 1 < NBUF"
  proof -
    obtain j c1 i c2 where *: "bread pid 1 dst c = Inr (j, c1)" "bread pid 1 src c1 = Inr (i, c2)" "bok {j, i} c2" "j \<noteq> i"
      "b_blockno (bufs c2 j) = dst" "b_blockno (bufs c2 i) = src" "b_data (bufs c2 i) = view c src"
      "view c2 = view c" "pinned c2 = pinned c" "same_disk c c2" "dirty_buf (bufs c2 i) \<longleftrightarrow> src \<in> pinned c"
      by (rule two_breads [OF ok a(2,1) a(3) [symmetric] cap pin])
    have "bok {i, j} c2" "i \<noteq> j" using *(3,4) by (simp_all add: insert_commute)
    from held [OF this *(6,5,7-11)] show ?thesis using *(1,2) by simp
  qed
qed

section \<open>The log region\<close>

definition log_wf :: "log \<Rightarrow> nat \<Rightarrow> bool" where
  "log_wf lg ds \<longleftrightarrow> lg_dev lg = 1 \<and> 0 \<le> lg_start lg \<and> 0 < lg_size lg \<and> lg_start lg + lg_size lg \<le> int ds \<and>
     int ds < 2 ^ 31 \<and> length (lh_block lg) = nat LOGSIZE"

definition in_log :: "log \<Rightarrow> u32 \<Rightarrow> bool" where
  "in_log lg b \<longleftrightarrow> lg_start lg \<le> uint b \<and> uint b < lg_start lg + lg_size lg"

lemma uint_word_of_int_small: "0 \<le> x \<Longrightarrow> x < 2 ^ 31 \<Longrightarrow> uint (word_of_int x :: u32) = x"
  by (simp add: uint_word_of_int)

lemma unat_less_uint: "unat b < n \<longleftrightarrow> uint b < int n" for b :: u32
  by (metis nat_int uint_nat unat_eq_nat_uint zless_nat_eq_int_zless)

lemma log_blockD:
  assumes "log_wf lg ds" "int t < lg_size lg - 1"
  shows "uint (log_block lg t) = lg_start lg + int t + 1" "in_log lg (log_block lg t)"
    "unat (log_block lg t) < ds" "log_block lg t \<noteq> log_head lg"
proof -
  show u: "uint (log_block lg t) = lg_start lg + int t + 1"
    unfolding log_block_def by (rule uint_word_of_int_small) (use assms in \<open>auto simp: log_wf_def\<close>)
  then show "in_log lg (log_block lg t)" "unat (log_block lg t) < ds"
    using assms by (auto simp: in_log_def unat_less_uint log_wf_def)
  have "uint (log_head lg) = lg_start lg"
    unfolding log_head_def by (rule uint_word_of_int_small) (use assms in \<open>auto simp: log_wf_def\<close>)
  with u show "log_block lg t \<noteq> log_head lg" by auto
qed

lemma log_headD:
  assumes "log_wf lg ds"
  shows "in_log lg (log_head lg)" "unat (log_head lg) < ds"
proof -
  have "uint (log_head lg) = lg_start lg"
    unfolding log_head_def by (rule uint_word_of_int_small) (use assms in \<open>auto simp: log_wf_def\<close>)
  then show "in_log lg (log_head lg)" "unat (log_head lg) < ds"
    using assms by (auto simp: in_log_def unat_less_uint log_wf_def)
qed

section \<open>The two copying loops\<close>

text \<open>A set of home blocks that a header may name.\<close>

definition home_ok :: "log \<Rightarrow> nat \<Rightarrow> u32 list \<Rightarrow> bool" where
  "home_ok lg ds bl \<longleftrightarrow> (\<forall>b \<in> set bl. \<not> in_log lg b \<and> unat b < ds) \<and> int (length bl) < lg_size lg \<and>
     int (length bl) \<le> LOGSIZE"

lemma home_okD:
  assumes "log_wf lg ds" "home_ok lg ds bl" "t < length bl"
  shows "unat (bl ! t) < ds" "\<not> in_log lg (bl ! t)" "int t < lg_size lg - 1" "bl ! t \<noteq> log_head lg"
    "s < length bl \<Longrightarrow> bl ! t \<noteq> log_block lg s"
proof -
  show *: "unat (bl ! t) < ds" "\<not> in_log lg (bl ! t)" "int t < lg_size lg - 1"
    using assms nth_mem [OF assms(3)] by (auto simp: home_ok_def)
  show "bl ! t \<noteq> log_head lg" using *(2) log_headD(1) [OF assms(1)] by auto
  show "bl ! t \<noteq> log_block lg s" if "s < length bl"
    using *(2) log_blockD(2) [OF assms(1), of s] that assms(2) by (auto simp: home_ok_def)
qed

lemma upt_step: "[t..<t + Suc k] = t # [Suc t..<Suc t + k]"
  by (simp add: upt_conv_Cons del: upt_Suc)

lemma write_log_from_ok:
  assumes wf: "log_wf lg (disksize c)" and home: "home_ok lg (disksize c) bl" and bl: "take (length bl) (lh_block lg) = bl"
    and ok: "bok {} c" and cap: "card (pinned c) < NBUF" and pin: "set bl \<subseteq> pinned c"
    and t: "t + k = length bl" and ro: "\<And>b. in_log lg b \<Longrightarrow> b \<notin> pinned c"
  shows "\<exists>c'. write_log_from pid lg k t c = Inr c' \<and>
    wrote c (map (\<lambda>i. (log_block lg i, view c (bl ! i))) [t..<t + k]) c'"
  using wf home ok cap pin t ro
proof (induction k arbitrary: t c)
  case 0
  then show ?case by (simp add: wrote_nil)
next
  case (Suc k)
  have tb: "t < length bl" using Suc.prems(6) by simp
  then have blt: "lh_block lg ! t = bl ! t" and tl: "t < length (lh_block lg)"
    using bl by (metis nth_take, metis length_take min_less_iff_conj)
  note h = home_okD [OF Suc.prems(1,2) tb] and l = log_blockD [OF Suc.prems(1) home_okD(3) [OF Suc.prems(1,2) tb]]
  have src: "bl ! t \<in> pinned c" using Suc.prems(5) tb by auto
  then have p: "bl ! t \<in> pinned c \<or> card (pinned c) + 1 < NBUF" by simp
  obtain c1 where step: "bindE (bread pid 1 (log_block lg t) c) (\<lambda>(j, c). bindE (bread pid 1 (bl ! t) c) (\<lambda>(i, c).
        bindE (bwrite j (upd_buf j (\<lambda>x. x\<lparr>b_data := b_data (bufs c i)\<rparr>) c)) (\<lambda>c.
        bindE (brelse i c) (\<lambda>c. brelse j c)))) = Inr c1"
    and w: "wrote c [(log_block lg t, view c (bl ! t))] c1"
    using copy_block(2) [OF Suc.prems(3) h(1) l(3) h(5) [OF tb] Suc.prems(4) p, of pid] by blast
  note wd = wroteD [OF w]
  have pc1: "pinned c1 = pinned c" using wd(6) Suc.prems(7) l(2) by auto
  have vc1: "view c1 (bl ! i) = view c (bl ! i)" if "i < length bl" for i
    using home_okD(5) [OF Suc.prems(1,2) that tb] wd(5) by simp
  have "\<exists>c'. write_log_from pid lg k (Suc t) c1 = Inr c' \<and>
    wrote c1 (map (\<lambda>i. (log_block lg i, view c1 (bl ! i))) [Suc t..<Suc t + k]) c'"
    by (rule Suc.IH) (use Suc.prems wd(1,2) pc1 in auto)
  then obtain c' where c': "write_log_from pid lg k (Suc t) c1 = Inr c'"
    "wrote c1 (map (\<lambda>i. (log_block lg i, view c1 (bl ! i))) [Suc t..<Suc t + k]) c'" by blast
  have eq: "map (\<lambda>i. (log_block lg i, view c1 (bl ! i))) [Suc t..<Suc t + k] =
      map (\<lambda>i. (log_block lg i, view c (bl ! i))) [Suc t..<Suc t + k]"
    by (rule map_cong [OF refl]) (use vc1 Suc.prems(6) in auto)
  have "wrote c (map (\<lambda>i. (log_block lg i, view c (bl ! i))) [t..<t + Suc k]) c'"
    using wrote_trans [OF w c'(2)] unfolding upt_step eq by (simp only: list.map append.simps)
  moreover have "write_log_from pid lg (Suc k) t c = Inr c'"
    using step c'(1) tl Suc.prems(1) blt
    by (auto simp: log_wf_def bindE_def split: sum.splits prod.splits)
  ultimately show ?case by blast
qed

lemma install_from_ok:
  assumes wf: "log_wf lg (disksize c)" and home: "home_ok lg (disksize c) bl" and bl: "take (length bl) (lh_block lg) = bl"
    and ok: "bok {} c" and cap: "card (pinned c) < NBUF"
    and pin: "k > 0 \<Longrightarrow> bl ! t \<in> pinned c \<or> card (pinned c) + 1 < NBUF" and t: "t + k = length bl"
  shows "\<exists>c'. install_from pid lg k t c = Inr c' \<and>
    wrote c (map (\<lambda>i. (bl ! i, view c (log_block lg i))) [t..<t + k]) c'"
  using wf home ok cap pin t
proof (induction k arbitrary: t c)
  case 0
  then show ?case by (simp add: wrote_nil)
next
  case (Suc k)
  have tb: "t < length bl" using Suc.prems(6) by simp
  then have blt: "lh_block lg ! t = bl ! t" and tl: "t < length (lh_block lg)"
    using bl by (metis nth_take, metis length_take min_less_iff_conj)
  note h = home_okD [OF Suc.prems(1,2) tb] and l = log_blockD [OF Suc.prems(1) home_okD(3) [OF Suc.prems(1,2) tb]]
  have p: "bl ! t \<in> pinned c \<or> card (pinned c) + 1 < NBUF" by (rule Suc.prems(5)) simp
  obtain c1 where step: "bindE (bread pid 1 (log_block lg t) c) (\<lambda>(i, c). bindE (bread pid 1 (bl ! t) c) (\<lambda>(j, c).
        bindE (bwrite j (upd_buf j (\<lambda>x. x\<lparr>b_data := b_data (bufs c i)\<rparr>) c)) (\<lambda>c.
        bindE (brelse i c) (\<lambda>c. brelse j c)))) = Inr c1"
    and w: "wrote c [(bl ! t, view c (log_block lg t))] c1"
    using copy_block(1) [OF Suc.prems(3) l(3) h(1) h(5) [OF tb, symmetric] Suc.prems(4) p, of pid] by blast
  note wd = wroteD [OF w]
  have pc1: "card (pinned c1) + 1 < NBUF"
  proof (cases "bl ! t \<in> pinned c")
    case True
    then have "card (pinned c1) < card (pinned c)"
      unfolding wd(6) using finite_pinned by (intro psubset_card_mono) auto
    with Suc.prems(4) show ?thesis by simp
  next
    case False
    with p wd(6) show ?thesis by simp
  qed
  have vc1: "view c1 (log_block lg i) = view c (log_block lg i)" if "i < length bl" for i
    using home_okD(5) [OF Suc.prems(1,2) tb that] wd(5) by simp
  have "\<exists>c'. install_from pid lg k (Suc t) c1 = Inr c' \<and>
    wrote c1 (map (\<lambda>i. (bl ! i, view c1 (log_block lg i))) [Suc t..<Suc t + k]) c'"
    by (rule Suc.IH) (use Suc.prems wd(1,2) pc1 in auto)
  then obtain c' where c': "install_from pid lg k (Suc t) c1 = Inr c'"
    "wrote c1 (map (\<lambda>i. (bl ! i, view c1 (log_block lg i))) [Suc t..<Suc t + k]) c'" by blast
  have eq: "map (\<lambda>i. (bl ! i, view c1 (log_block lg i))) [Suc t..<Suc t + k] =
      map (\<lambda>i. (bl ! i, view c (log_block lg i))) [Suc t..<Suc t + k]"
    by (rule map_cong [OF refl]) (use vc1 Suc.prems(6) in auto)
  have "wrote c (map (\<lambda>i. (bl ! i, view c (log_block lg i))) [t..<t + Suc k]) c'"
    using wrote_trans [OF w c'(2)] unfolding upt_step eq by (simp only: list.map append.simps)
  moreover have "install_from pid lg (Suc k) t c = Inr c'"
    using step c'(1) tl Suc.prems(1) blt
    by (auto simp: log_wf_def bindE_def split: sum.splits prod.splits)
  ultimately show ?case by blast
qed

section \<open>The header\<close>

text \<open>The header data after \<open>write_head\<close>, and what \<open>read_head\<close> finds in it.\<close>

definition head_n :: "block \<Rightarrow> int" where
  "head_n d = sint (get32 d 0)"

definition head_blocks :: "block \<Rightarrow> u32 list" where
  "head_blocks d = map (\<lambda>i. get32 d (4 + 4 * i)) [0..<nat (head_n d)]"

lemma put_head_from_ok:
  assumes "i + k \<le> length bl" "4 + 4 * (i + k) \<le> length d"
  shows "\<exists>d'. put_head_from bl k i d = Inr d' \<and> length d' = length d \<and>
    (\<forall>j. j + 4 \<le> 4 + 4 * i \<longrightarrow> get32 d' j = get32 d j) \<and>
    (\<forall>j. i \<le> j \<longrightarrow> j < i + k \<longrightarrow> get32 d' (4 + 4 * j) = bl ! j)"
  using assms
proof (induction k arbitrary: i d)
  case (Suc k)
  have "\<exists>d'. put_head_from bl k (Suc i) (put32 d (4 + 4 * i) (bl ! i)) = Inr d' \<and>
    length d' = length (put32 d (4 + 4 * i) (bl ! i)) \<and>
    (\<forall>j. j + 4 \<le> 4 + 4 * Suc i \<longrightarrow> get32 d' j = get32 (put32 d (4 + 4 * i) (bl ! i)) j) \<and>
    (\<forall>j. Suc i \<le> j \<longrightarrow> j < Suc i + k \<longrightarrow> get32 d' (4 + 4 * j) = bl ! j)"
    by (rule Suc.IH) (use Suc.prems in auto)
  then obtain d' where d': "put_head_from bl k (Suc i) (put32 d (4 + 4 * i) (bl ! i)) = Inr d'" "length d' = length d"
    "\<And>j. j + 4 \<le> 4 + 4 * Suc i \<Longrightarrow> get32 d' j = get32 (put32 d (4 + 4 * i) (bl ! i)) j"
    "\<And>j. Suc i \<le> j \<Longrightarrow> j < Suc i + k \<Longrightarrow> get32 d' (4 + 4 * j) = bl ! j" by auto
  have "get32 d' (4 + 4 * i) = bl ! i" using d'(3) [of "4 + 4 * i"] Suc.prems by simp
  then have "get32 d' (4 + 4 * j) = bl ! j" if "i \<le> j" "j < i + Suc k" for j
    using d'(4) [of j] that by (cases "j = i") auto
  moreover have "get32 d' j = get32 d j" if "j + 4 \<le> 4 + 4 * i" for j
    using d'(3) [of j] that by (simp add: get32_put32_other)
  ultimately show ?case using d'(1,2) Suc.prems by (intro exI [of _ d']) simp
qed simp

lemma put_head_ok:
  assumes "length d = BSIZE" "length (lh_block lg) = nat LOGSIZE" "0 \<le> lh_n lg" "lh_n lg \<le> LOGSIZE"
  obtains d' where "put_head_from (lh_block lg) (nat (lh_n lg)) 0 (put32 d 0 (word_of_int (lh_n lg))) = Inr d'"
    "length d' = BSIZE" "head_n d' = lh_n lg" "head_blocks d' = take (nat (lh_n lg)) (lh_block lg)"
proof -
  have small: "nat (lh_n lg) \<le> 30" using assms(3,4) by (simp add: LOGSIZE_def MAXOPBLOCKS_def)
  obtain d' where d': "put_head_from (lh_block lg) (nat (lh_n lg)) 0 (put32 d 0 (word_of_int (lh_n lg))) = Inr d'"
    "length d' = BSIZE" "get32 d' 0 = get32 (put32 d 0 (word_of_int (lh_n lg))) 0"
    "\<And>j. j < nat (lh_n lg) \<Longrightarrow> get32 d' (4 + 4 * j) = lh_block lg ! j"
    using put_head_from_ok [of 0 "nat (lh_n lg)" "lh_block lg" "put32 d 0 (word_of_int (lh_n lg))"] assms small
      nat_mono [OF assms(4)] by (auto simp: BSIZE_def)
  have "head_n d' = sint (word_of_int (lh_n lg) :: u32)"
    unfolding head_n_def d'(3) using assms(1) by (simp add: BSIZE_def)
  also have "\<dots> = lh_n lg"
    using assms(3,4) by (simp add: sint_sbintrunc' signed_take_bit_int_eq_self LOGSIZE_def MAXOPBLOCKS_def)
  finally have n: "head_n d' = lh_n lg" .
  then have "head_blocks d' = take (nat (lh_n lg)) (lh_block lg)"
    using d'(4) assms by (auto simp: head_blocks_def list_eq_iff_nth_eq)
  with that d'(1,2) n show ?thesis by blast
qed

lemma write_head_ok:
  assumes wf: "log_wf lg (disksize c)" and ok: "bok {} c" and cap: "card (pinned c) < NBUF"
    and n: "0 \<le> lh_n lg" "lh_n lg \<le> LOGSIZE"
  obtains c' d where "write_head pid lg c = Inr c'" "wrote c [(log_head lg, d)] c'"
    "length d = BSIZE" "head_n d = lh_n lg" "head_blocks d = take (nat (lh_n lg)) (lh_block lg)"
proof -
  have r: "room {} c \<or> log_head lg \<in> pinned c" using card_pinned_room [OF ok] cap by simp
  obtain i c1 where b: "bread pid 1 (log_head lg) c = Inr (i, c1)" "bread_post {} c (log_head lg) i c1"
    using bread_ok [OF ok log_headD(2) [OF wf] _ r] by blast
  have dev: "lg_dev lg = 1" "length (lh_block lg) = nat LOGSIZE" using wf by (simp_all add: log_wf_def)
  obtain d where d: "put_head_from (lh_block lg) (nat (lh_n lg)) 0
      (put32 (view c (log_head lg)) 0 (word_of_int (lh_n lg))) = Inr d"
    "length d = BSIZE" "head_n d = lh_n lg" "head_blocks d = take (nat (lh_n lg)) (lh_block lg)"
    by (rule put_head_ok [OF view_length [OF ok] dev(2) n])
  have "write_head pid lg c = write_block pid (log_head lg) d c"
    using b d(1) by (simp add: write_head_def write_block_def dev bread_post_def)
  moreover obtain c' where "write_block pid (log_head lg) d c = Inr c'" "wrote c [(log_head lg, d)] c'"
    using write_block_ok [OF ok log_headD(2) [OF wf] r d(2), of pid] by (auto simp: wrote_def)
  ultimately show ?thesis using that d(2-4) by simp
qed

lemma clear_head_ok:
  assumes "log_wf lg (disksize c)" "bok {} c" "card (pinned c) < NBUF"
  obtains c' h where "write_head pid (lg\<lparr>lh_n := 0\<rparr>) c = Inr c'" "wrote c [(log_head lg, h)] c'"
    "length h = BSIZE" "head_n h = 0"
proof -
  have wf: "log_wf (lg\<lparr>lh_n := 0\<rparr>) (disksize c)" using assms(1) by (simp add: log_wf_def)
  have n: "0 \<le> lh_n (lg\<lparr>lh_n := 0\<rparr>)" "lh_n (lg\<lparr>lh_n := 0\<rparr>) \<le> LOGSIZE" by (simp_all add: LOGSIZE_def MAXOPBLOCKS_def)
  have h: "log_head (lg\<lparr>lh_n := 0\<rparr>) = log_head lg" by (simp add: log_head_def)
  from write_head_ok [OF wf assms(2,3) n] obtain c' d where "write_head pid (lg\<lparr>lh_n := 0\<rparr>) c = Inr c'"
    "wrote c [(log_head (lg\<lparr>lh_n := 0\<rparr>), d)] c'" "length d = BSIZE" "head_n d = lh_n (lg\<lparr>lh_n := 0\<rparr>)" by blast
  then show ?thesis using that unfolding h by simp
qed

lemma read_head_from_ok:
  assumes "i + k \<le> length bl"
  shows "read_head_from d k i bl = Inr (take i bl @ map (\<lambda>j. get32 d (4 + 4 * j)) [i..<i + k] @ drop (i + k) bl)"
  using assms
proof (induction k arbitrary: i bl)
  case (Suc k)
  then have "read_head_from d (Suc k) i bl = read_head_from d k (Suc i) (bl[i := get32 d (4 + 4 * i)])" by simp
  also have "\<dots> = Inr (take (Suc i) (bl[i := get32 d (4 + 4 * i)]) @ map (\<lambda>j. get32 d (4 + 4 * j)) [Suc i..<Suc i + k] @
      drop (Suc i + k) (bl[i := get32 d (4 + 4 * i)]))"
    by (rule Suc.IH) (use Suc.prems in simp)
  also have "take (Suc i) (bl[i := get32 d (4 + 4 * i)]) = take i bl @ [get32 d (4 + 4 * i)]"
    using Suc.prems by (simp add: take_Suc_conv_app_nth)
  also have "drop (Suc i + k) (bl[i := get32 d (4 + 4 * i)]) = drop (i + Suc k) bl" by simp
  finally show ?case unfolding upt_step by simp
qed simp

lemma read_head_ok:
  assumes wf: "log_wf lg (disksize c)" and ok: "bok {} c" and cap: "card (pinned c) < NBUF"
    and n: "0 \<le> head_n (view c (log_head lg))" "head_n (view c (log_head lg)) \<le> LOGSIZE"
  obtains lg' c' where "read_head pid lg c = Inr (lg', c')" "wrote c [] c'" "lh_n lg' = head_n (view c (log_head lg))"
    "take (nat (lh_n lg')) (lh_block lg') = head_blocks (view c (log_head lg))" "log_wf lg' (disksize c)"
    "lg_start lg' = lg_start lg" "lg_size lg' = lg_size lg"
    "lg_outstanding lg' = lg_outstanding lg" "lg_committing lg' = lg_committing lg"
proof -
  let ?d = "view c (log_head lg)"
  define bl where "bl = map (\<lambda>j. get32 ?d (4 + 4 * j)) [0..<nat (head_n ?d)] @ drop (nat (head_n ?d)) (lh_block lg)"
  have r: "room {} c \<or> log_head lg \<in> pinned c" using card_pinned_room [OF ok] cap by simp
  have dev: "lg_dev lg = 1" "length (lh_block lg) = nat LOGSIZE" using wf by (simp_all add: log_wf_def)
  obtain i c1 where b: "bread pid 1 (log_head lg) c = Inr (i, c1)" "bread_post {} c (log_head lg) i c1"
    using bread_ok [OF ok log_headD(2) [OF wf] _ r] by blast
  then have data: "b_data (bufs c1 i) = ?d" by (simp add: bread_post_def)
  obtain c' where c': "read_block pid (log_head lg) c = Inr (?d, c')" "bok {} c'" "disksize c' = disksize c" "view c' = view c"
    "memdisk c' = memdisk c" "pinned c' = pinned c" "disk_writes c' = disk_writes c"
    using read_block_ok [OF ok log_headD(2) [OF wf] r, of pid] by auto
  have br: "brelse i c1 = Inr c'" using c'(1) b(1) data by (auto simp: read_block_def bindE_def split: sum.splits)
  have "read_head_from ?d (nat (head_n ?d)) 0 (lh_block lg) = Inr bl"
    using read_head_from_ok [of 0 "nat (head_n ?d)" "lh_block lg" ?d] n dev by (simp add: bl_def)
  then have "read_head pid lg c = Inr (lg\<lparr>lh_n := head_n ?d, lh_block := bl\<rparr>, c')"
    using b(1) data br by (simp add: read_head_def dev Let_def head_n_def)
  moreover have "length bl = nat LOGSIZE" using n dev by (simp add: bl_def)
  ultimately show ?thesis
    using that [of "lg\<lparr>lh_n := head_n ?d, lh_block := bl\<rparr>" c'] c'(2-7) wf
    by (simp add: wrote_def log_wf_def head_blocks_def bl_def)
qed

section \<open>Recovery and commit\<close>

definition rec_writes :: "log \<Rightarrow> (u32 \<Rightarrow> block) \<Rightarrow> (u32 \<times> block) list" where
  "rec_writes lg D = map (\<lambda>i. (head_blocks (D (log_head lg)) ! i, D (log_block lg i)))
     [0..<length (head_blocks (D (log_head lg)))]"

text \<open>A header that recovery can follow.\<close>

definition head_ok :: "log \<Rightarrow> nat \<Rightarrow> block \<Rightarrow> bool" where
  "head_ok lg ds d \<longleftrightarrow> 0 \<le> head_n d \<and> head_n d \<le> LOGSIZE \<and> home_ok lg ds (head_blocks d)"

lemma log_wf_same:
  "lg_start lg' = lg_start lg \<Longrightarrow> lg_size lg' = lg_size lg \<Longrightarrow>
    log_block lg' t = log_block lg t \<and> log_head lg' = log_head lg \<and> in_log lg' b = in_log lg b \<and>
    home_ok lg' ds bl = home_ok lg ds bl"
  by (simp add: log_block_def log_head_def in_log_def home_ok_def)

lemma length_head_blocks: "length (head_blocks d) = nat (head_n d)"
  by (simp add: head_blocks_def)

lemma recover_ok:
  assumes wf: "log_wf lg (disksize c)" and ok: "bok {} c" and np: "pinned c = {}"
    and hd: "head_ok lg (disksize c) (memdisk c (log_head lg))"
  obtains lg' c' h where "recover_from_log pid lg c = Inr (lg', c')"
    "wrote c (rec_writes lg (memdisk c) @ [(log_head lg, h)]) c'" "length h = BSIZE" "head_n h = 0" "lh_n lg' = 0"
    "lg_start lg' = lg_start lg" "lg_size lg' = lg_size lg"
    "lg_outstanding lg' = lg_outstanding lg" "lg_committing lg' = lg_committing lg" "log_wf lg' (disksize c)"
proof -
  have v: "view c = memdisk c" using view_unpinned [OF ok] np by auto
  let ?d = "memdisk c (log_head lg)"
  have cap: "card (pinned c) < NBUF" "card (pinned c) + 1 < NBUF" by (simp_all add: np NBUF_def)
  obtain lg1 c1 where r: "read_head pid lg c = Inr (lg1, c1)" "wrote c [] c1" "lh_n lg1 = head_n ?d"
    "take (nat (lh_n lg1)) (lh_block lg1) = head_blocks ?d" "log_wf lg1 (disksize c)"
    "lg_start lg1 = lg_start lg" "lg_size lg1 = lg_size lg"
    "lg_outstanding lg1 = lg_outstanding lg" "lg_committing lg1 = lg_committing lg"
    by (rule read_head_ok [OF wf ok cap(1)]) (use hd in \<open>simp_all add: v head_ok_def\<close>)
  note same = log_wf_same [OF r(6,7)] and w1 = wroteD [OF r(2)]
  have "\<exists>c2. install_from pid lg1 (nat (lh_n lg1)) 0 c1 = Inr c2 \<and>
    wrote c1 (map (\<lambda>i. (head_blocks ?d ! i, view c1 (log_block lg1 i))) [0..<0 + nat (lh_n lg1)]) c2"
    by (rule install_from_ok)
      (use r hd same cap w1 in \<open>auto simp: head_ok_def length_head_blocks\<close>)
  then obtain c2 where c2: "install_trans pid lg1 c1 = Inr c2"
    "wrote c1 (map (\<lambda>i. (head_blocks ?d ! i, view c1 (log_block lg1 i))) [0..<0 + nat (lh_n lg1)]) c2"
    by (auto simp: install_trans_def)
  have "map (\<lambda>i. (head_blocks ?d ! i, view c1 (log_block lg1 i))) [0..<0 + nat (lh_n lg1)] = rec_writes lg (memdisk c)"
    using same w1 v r(3) by (simp add: rec_writes_def length_head_blocks)
  then have w2: "wrote c (rec_writes lg (memdisk c)) c2" using wrote_trans [OF r(2) c2(2)] by simp
  have wf2: "log_wf lg1 (disksize c2)" using r(5) wroteD(2) [OF w2] by simp
  have cap2: "card (pinned c2) < NBUF" using wroteD(6) [OF w2] by (simp add: np NBUF_def)
  obtain c3 h where c3: "write_head pid (lg1\<lparr>lh_n := 0\<rparr>) c2 = Inr c3" "wrote c2 [(log_head lg1, h)] c3"
    "length h = BSIZE" "head_n h = 0"
    by (rule clear_head_ok [OF wf2 wroteD(1) [OF w2] cap2])
  have "log_head lg1 = log_head lg" using same by simp
  with wrote_trans [OF w2 c3(2)] have "wrote c (rec_writes lg (memdisk c) @ [(log_head lg, h)]) c3" by simp
  moreover have "recover_from_log pid lg c = Inr (lg1\<lparr>lh_n := 0\<rparr>, c3)"
    by (simp add: recover_from_log_def r(1) c2(1) c3(1) Let_def)
  ultimately show ?thesis using that [of "lg1\<lparr>lh_n := 0\<rparr>" c3 h] c3(3,4) r(5-9) by (simp add: log_wf_def)
qed

text \<open>The state between operations: the logged blocks are exactly the pinned ones, and the header on disk is empty.\<close>

definition logged :: "log \<Rightarrow> u32 list" where
  "logged lg = take (nat (lh_n lg)) (lh_block lg)"

definition txn_inv :: "log \<Rightarrow> bcache \<Rightarrow> bool" where
  "txn_inv lg c \<longleftrightarrow> log_wf lg (disksize c) \<and> lg_size lg \<le> LOGSIZE \<and> bok {} c \<and> 0 \<le> lh_n lg \<and> lh_n lg < lg_size lg \<and>
     (\<forall>b \<in> set (logged lg). \<not> in_log lg b \<and> unat b < disksize c) \<and> distinct (logged lg) \<and>
     pinned c = set (logged lg) \<and> head_n (memdisk c (log_head lg)) = 0"

lemma txn_invD:
  assumes "txn_inv lg c"
  shows "log_wf lg (disksize c)" "bok {} c" "home_ok lg (disksize c) (logged lg)" "length (logged lg) = nat (lh_n lg)"
    "card (pinned c) < NBUF" "pinned c = set (logged lg)" "0 \<le> lh_n lg" "lh_n lg \<le> LOGSIZE"
    "head_n (memdisk c (log_head lg)) = 0" "distinct (logged lg)" "lh_n lg < lg_size lg" "lg_size lg \<le> LOGSIZE"
    "take (length (logged lg)) (lh_block lg) = logged lg"
proof -
  show "log_wf lg (disksize c)" "bok {} c" "pinned c = set (logged lg)" and n: "0 \<le> lh_n lg" and lt: "lh_n lg < lg_size lg" "lg_size lg \<le> LOGSIZE" and
    "head_n (memdisk c (log_head lg)) = 0" "distinct (logged lg)" using assms by (auto simp: txn_inv_def)
  from lt show le: "lh_n lg \<le> LOGSIZE" by simp
  show len: "length (logged lg) = nat (lh_n lg)" using assms le by (auto simp: txn_inv_def log_wf_def logged_def)
  then show "take (length (logged lg)) (lh_block lg) = logged lg" by (simp add: logged_def)
  show "home_ok lg (disksize c) (logged lg)" using assms len lt n by (auto simp: txn_inv_def home_ok_def)
  have "card (pinned c) \<le> nat (lh_n lg)" using assms card_length [of "logged lg"] len by (simp add: txn_inv_def)
  with lt show "card (pinned c) < NBUF" by (simp add: LOGSIZE_def MAXOPBLOCKS_def NBUF_def)
qed

definition commit_writes :: "log \<Rightarrow> (u32 \<Rightarrow> block) \<Rightarrow> block \<Rightarrow> block \<Rightarrow> (u32 \<times> block) list" where
  "commit_writes lg V h1 h0 =
     map (\<lambda>i. (log_block lg i, V (logged lg ! i))) [0..<length (logged lg)] @ [(log_head lg, h1)] @
     map (\<lambda>i. (logged lg ! i, V (logged lg ! i))) [0..<length (logged lg)] @ [(log_head lg, h0)]"

text \<open>Writes to the log blocks, seen as a function of the block number.\<close>

lemma log_writes_at:
  assumes "log_wf lg ds" "home_ok lg ds bl" "i < length bl"
  shows "apply_writes (map (\<lambda>i. (log_block lg i, V (bl ! i))) [0..<length bl]) D (log_block lg i) = V (bl ! i)"
proof -
  define F where "F b = V (bl ! nat (uint b - lg_start lg - 1))" for b :: u32
  have F: "F (log_block lg j) = V (bl ! j)" if "j < length bl" for j
    using log_blockD(1) [OF assms(1) home_okD(3) [OF assms(1,2) that]] by (simp add: F_def)
  have "apply_writes (map (\<lambda>i. (log_block lg i, V (bl ! i))) [0..<length bl]) D (log_block lg i) = F (log_block lg i)"
    by (subst apply_writes_of [of _ F]) (use F assms(3) in \<open>auto simp: image_image\<close>)
  with F [OF assms(3)] show ?thesis by simp
qed

lemma commit_ok:
  assumes inv: "txn_inv lg c" and pos: "0 < lh_n lg"
  obtains c' h1 h0 where "commit pid lg c = Inr (lg\<lparr>lh_n := 0\<rparr>, c')" "wrote c (commit_writes lg (view c) h1 h0) c'"
    "length h1 = BSIZE" "length h0 = BSIZE" "head_n h1 = lh_n lg" "head_blocks h1 = logged lg" "head_n h0 = 0"
proof -
  note i = txn_invD [OF inv]
  let ?bl = "logged lg" and ?n = "nat (lh_n lg)"
  let ?W1 = "map (\<lambda>i. (log_block lg i, view c (?bl ! i))) [0..<length ?bl]"
  have logp: "b \<notin> pinned c" if "in_log lg b" for b using that inv by (auto simp: txn_inv_def)
  have "\<exists>c1. write_log_from pid lg ?n 0 c = Inr c1 \<and>
    wrote c (map (\<lambda>i. (log_block lg i, view c (?bl ! i))) [0..<0 + ?n]) c1"
    by (rule write_log_from_ok) (use i logp in auto)
  then obtain c1 where c1: "write_log pid lg c = Inr c1" "wrote c ?W1 c1" using i(4) by (auto simp: write_log_def)
  have W1p: "fst ` set ?W1 \<inter> pinned c = {}"
    using logp log_blockD(2) [OF i(1) home_okD(3) [OF i(1,3)]] by fastforce
  have p1: "pinned c1 = pinned c" using wroteD(6) [OF c1(2)] W1p by auto
  have wf1: "log_wf lg (disksize c1)" and cap1: "card (pinned c1) < NBUF" using i p1 wroteD(2) [OF c1(2)] by auto
  obtain c2 h1 where c2: "write_head pid lg c1 = Inr c2" "wrote c1 [(log_head lg, h1)] c2"
    "length h1 = BSIZE" "head_n h1 = lh_n lg" "head_blocks h1 = ?bl"
    using write_head_ok [OF wf1 wroteD(1) [OF c1(2)] cap1 i(7,8), of pid] unfolding logged_def by metis
  have p2: "pinned c2 = pinned c" using wroteD(6) [OF c2(2)] logp log_headD(1) [OF i(1)] p1 by auto
  note w2 = wrote_trans [OF c1(2) c2(2)]
  have "view c2 (log_block lg j) = view c (?bl ! j)" if "j < length ?bl" for j
    using wroteD(5) [OF w2] log_writes_at [OF i(1,3) that] log_blockD(4) [OF i(1) home_okD(3) [OF i(1,3) that]]
    by simp
  then have eq: "map (\<lambda>i. (?bl ! i, view c2 (log_block lg i))) [0..<0 + ?n] = map (\<lambda>i. (?bl ! i, view c (?bl ! i))) [0..<length ?bl]"
    using i(4) by (intro map_cong) auto
  have "\<exists>c3. install_from pid lg ?n 0 c2 = Inr c3 \<and>
    wrote c2 (map (\<lambda>i. (?bl ! i, view c2 (log_block lg i))) [0..<0 + ?n]) c3"
    by (rule install_from_ok) (use i p2 wroteD(1,2) [OF w2] in auto)
  then obtain c3 where c3: "install_trans pid lg c2 = Inr c3"
    "wrote c2 (map (\<lambda>i. (?bl ! i, view c (?bl ! i))) [0..<length ?bl]) c3"
    unfolding eq by (auto simp: install_trans_def)
  note w3 = wrote_trans [OF w2 c3(2)]
  have "card (pinned c3) \<le> card (pinned c2)" unfolding wroteD(6) [OF c3(2)] by (intro card_mono finite_pinned) auto
  then have cap3: "card (pinned c3) < NBUF" using p2 i(5) by simp
  have wf3: "log_wf lg (disksize c3)" using i(1) wroteD(2) [OF w3] by simp
  obtain c4 h0 where c4: "write_head pid (lg\<lparr>lh_n := 0\<rparr>) c3 = Inr c4" "wrote c3 [(log_head lg, h0)] c4"
    "length h0 = BSIZE" "head_n h0 = 0"
    by (rule clear_head_ok [OF wf3 wroteD(1) [OF w3] cap3])
  from wrote_trans [OF w3 c4(2)] have "wrote c (commit_writes lg (view c) h1 h0) c4" by (simp add: commit_writes_def)
  moreover have "commit pid lg c = Inr (lg\<lparr>lh_n := 0\<rparr>, c4)"
    using pos by (simp add: commit_def c1(1) c2(1) c3(1) c4(1) Let_def)
  ultimately show ?thesis using that c2(3-5) c4(3,4) by blast
qed

section \<open>Crashes\<close>

text \<open>
  The disks a crash can leave behind. \<open>clean_disk\<close>: the header is empty and the home blocks are those of \<open>X\<close>.
  \<open>committed_disk\<close>: the header names the logged blocks and the log blocks hold their new contents, while the
  logged home blocks themselves may be in any state.
\<close>

definition clean_disk :: "log \<Rightarrow> (u32 \<Rightarrow> block) \<Rightarrow> (u32 \<Rightarrow> block) \<Rightarrow> bool" where
  "clean_disk lg X D \<longleftrightarrow> head_n (D (log_head lg)) = 0 \<and> (\<forall>b. \<not> in_log lg b \<longrightarrow> D b = X b) \<and> (\<forall>b. length (D b) = BSIZE)"

definition committed_disk :: "log \<Rightarrow> (u32 \<Rightarrow> block) \<Rightarrow> (u32 \<Rightarrow> block) \<Rightarrow> bool" where
  "committed_disk lg V D \<longleftrightarrow> head_n (D (log_head lg)) = lh_n lg \<and> head_blocks (D (log_head lg)) = logged lg \<and>
     (\<forall>i<length (logged lg). D (log_block lg i) = V (logged lg ! i)) \<and>
     (\<forall>b. \<not> in_log lg b \<longrightarrow> b \<notin> set (logged lg) \<longrightarrow> D b = V b) \<and> (\<forall>b. length (D b) = BSIZE)"

definition crash_ok :: "log \<Rightarrow> (u32 \<Rightarrow> block) \<Rightarrow> (u32 \<Rightarrow> block) \<Rightarrow> (u32 \<Rightarrow> block) \<Rightarrow> bool" where
  "crash_ok lg X V D \<longleftrightarrow> clean_disk lg X D \<or> clean_disk lg V D \<or> committed_disk lg V D"

lemma apply_writes_length:
  "(\<And>b d. (b, d) \<in> set ws \<Longrightarrow> length d = n) \<Longrightarrow> (\<And>b. length (D b) = n) \<Longrightarrow> length (apply_writes ws D b) = n"
proof (induction ws D rule: apply_writes.induct)
  case (2 a d ws D)
  have "length (apply_writes ws (D(a := d)) b) = n"
    by (rule 2(1)) (use 2(2,3) in auto)
  then show ?case by simp
qed simp

text \<open>Writes of the new contents to logged home blocks.\<close>

lemma home_writes:
  assumes "log_wf lg ds" "home_ok lg ds (logged lg)" "\<And>b. length (V b) = BSIZE" "committed_disk lg V D"
    and ws: "\<And>b d. (b, d) \<in> set ws \<Longrightarrow> d = V b \<and> b \<in> set (logged lg)"
  shows "committed_disk lg V (apply_writes ws D)"
    and "fst ` set ws = set (logged lg) \<Longrightarrow> \<not> in_log lg b \<Longrightarrow> apply_writes ws D b = V b"
proof -
  have at: "apply_writes ws D b = (if b \<in> fst ` set ws then V b else D b)" for b
    by (rule apply_writes_of) (use ws in auto)
  have sub: "fst ` set ws \<subseteq> set (logged lg)" using ws by auto
  have nl: "\<not> in_log lg b" if "b \<in> set (logged lg)" for b using assms(2) that by (auto simp: home_ok_def)
  have log_same: "apply_writes ws D b = D b" if "in_log lg b" for b using at nl sub that by auto
  have "apply_writes ws D (log_block lg i) = D (log_block lg i)" if "i < length (logged lg)" for i
    by (rule log_same) (rule log_blockD(2) [OF assms(1) home_okD(3) [OF assms(1,2) that]])
  moreover have "apply_writes ws D (log_head lg) = D (log_head lg)" by (rule log_same) (rule log_headD(1) [OF assms(1)])
  moreover have "length (apply_writes ws D b) = BSIZE" for b
    using at assms(3,4) by (simp add: committed_disk_def)
  ultimately show "committed_disk lg V (apply_writes ws D)"
    using assms(4) at sub unfolding committed_disk_def by auto
  show "apply_writes ws D b = V b" if "fst ` set ws = set (logged lg)" "\<not> in_log lg b"
    using at that assms(4) by (auto simp: committed_disk_def)
qed

lemma fst_home_writes: "fst ` set (map (\<lambda>i. (bl ! i, V (bl ! i))) [0..<length bl]) = set bl"
proof -
  have "map fst (map (\<lambda>i. (bl ! i, V (bl ! i))) [0..<length bl]) = bl" by (simp add: comp_def map_nth)
  then show ?thesis by (metis list.set_map)
qed

lemma clear_head:
  assumes "log_wf lg ds" "\<And>b. \<not> in_log lg b \<Longrightarrow> D b = X b" "\<And>b. length (D b) = BSIZE" "length h = BSIZE" "head_n h = 0"
  shows "clean_disk lg X (D(log_head lg := h))"
  using assms log_headD(1) [OF assms(1)] by (auto simp: clean_disk_def)

lemma commit_prefix:
  assumes inv: "txn_inv lg c" and h: "length h1 = BSIZE" "length h0 = BSIZE" "head_n h1 = lh_n lg"
    "head_blocks h1 = logged lg" "head_n h0 = 0"
  shows "crash_ok lg (memdisk c) (view c) (apply_writes (take k (commit_writes lg (view c) h1 h0)) (memdisk c))"
proof -
  note i = txn_invD [OF inv]
  let ?bl = "logged lg" and ?D = "memdisk c" and ?V = "view c"
  let ?A = "map (\<lambda>i. (log_block lg i, ?V (?bl ! i))) [0..<length ?bl]"
    and ?B = "map (\<lambda>i. (?bl ! i, ?V (?bl ! i))) [0..<length ?bl]"
  have W: "commit_writes lg ?V h1 h0 = ?A @ (log_head lg, h1) # ?B @ [(log_head lg, h0)]" by (simp add: commit_writes_def)
  have lenV: "length (?V b) = BSIZE" "length (?D b) = BSIZE" for b using view_length [OF i(2)] bokD(6) [OF i(2)] by auto
  have A: "in_log lg b \<and> b \<noteq> log_head lg \<and> length d = BSIZE" if "(b, d) \<in> set ?A" for b d
    using that log_blockD(2,4) [OF i(1) home_okD(3) [OF i(1,3)]] lenV by auto
  have A_only: "apply_writes (take j ?A) ?D b = ?D b" if "\<not> in_log lg b \<or> b = log_head lg" for b j
    by (rule apply_writes_other) (use A that in \<open>fastforce dest: in_set_takeD\<close>)
  have A_len: "length (apply_writes (take j ?A) ?D b) = BSIZE" for j b
    by (rule apply_writes_length) (use A lenV in \<open>auto dest!: in_set_takeD\<close>)
  have old: "clean_disk lg ?D (apply_writes (take j ?A) ?D)" for j
    using A_only A_len i(9) by (auto simp: clean_disk_def)
  let ?D1 = "(apply_writes ?A ?D)(log_head lg := h1)"
  have com: "committed_disk lg ?V ?D1"
  proof -
    have "?D1 (log_block lg j) = ?V (?bl ! j)" if "j < length ?bl" for j
      using log_writes_at [OF i(1,3) that] log_blockD(4) [OF i(1) home_okD(3) [OF i(1,3) that]] by simp
    moreover have "?D1 b = ?V b" if "\<not> in_log lg b" "b \<notin> set ?bl" for b
      using A_only [of b "length ?bl"] that log_headD(1) [OF i(1)] view_unpinned [OF i(2), of b] i(6) by auto
    moreover have "length (?D1 b) = BSIZE" for b using A_len [of "length ?bl" b] h by simp
    ultimately show ?thesis using h by (simp add: committed_disk_def)
  qed
  have B: "d = ?V b \<and> b \<in> set ?bl" if "(b, d) \<in> set (take j ?B)" for b d j using in_set_takeD [OF that] by auto
  have mid: "committed_disk lg ?V (apply_writes (take j ?B) ?D1)" for j
    by (rule home_writes(1) [OF i(1,3) lenV(1) com]) (rule B)
  have full: "take (length ?bl) ?B = ?B" "fst ` set ?B = set ?bl" by (simp, rule fst_home_writes)
  have fin: "clean_disk lg ?V ((apply_writes ?B ?D1)(log_head lg := h0))"
  proof (rule clear_head [OF i(1)])
    show "apply_writes ?B ?D1 b = ?V b" if "\<not> in_log lg b" for b
      by (rule home_writes(2) [OF i(1,3) lenV(1) com B [of _ _ "length ?bl", unfolded full(1)] full(2) that])
    show "length (apply_writes ?B ?D1 b) = BSIZE" for b
      using mid [of "length ?bl"] full(1) by (simp add: committed_disk_def)
  qed (use h in auto)
  consider "k \<le> length ?bl" | "length ?bl < k" "k \<le> 2 * length ?bl + 1" | "k \<ge> 2 * length ?bl + 2" by linarith
  then show ?thesis
  proof cases
    case 1
    then have "take k (commit_writes lg ?V h1 h0) = take k ?A" unfolding W by simp
    with old [of k] show ?thesis by (simp add: crash_ok_def)
  next
    case 2
    define j where "j = k - length ?bl - 1"
    have "k = length ?bl + Suc j" "j \<le> length ?bl" using 2 by (simp_all add: j_def)
    then have "take k (commit_writes lg ?V h1 h0) = ?A @ (log_head lg, h1) # take j ?B" unfolding W by simp
    with mid [of j] show ?thesis by (simp add: crash_ok_def)
  next
    case 3
    then have "take k (commit_writes lg ?V h1 h0) = ?A @ (log_head lg, h1) # ?B @ [(log_head lg, h0)]" unfolding W by simp
    with fin show ?thesis by (simp add: crash_ok_def)
  qed
qed

lemma crash_head_ok:
  assumes "log_wf lg ds" "home_ok lg ds (logged lg)" "crash_ok lg X V D" "0 \<le> lh_n lg" "lh_n lg \<le> LOGSIZE"
  shows "head_ok lg ds (D (log_head lg))" "length (D b) = BSIZE"
proof -
  have "head_blocks d = []" if "head_n d = 0" for d using that by (simp add: head_blocks_def)
  then show "head_ok lg ds (D (log_head lg))" "length (D b) = BSIZE"
    using assms by (auto simp: crash_ok_def clean_disk_def committed_disk_def head_ok_def home_ok_def
        log_wf_def LOGSIZE_def MAXOPBLOCKS_def)
qed

lemma recovery_prefix:
  assumes wf: "log_wf lg ds" and home: "home_ok lg ds (logged lg)" and V: "\<And>b. length (V b) = BSIZE"
    and D: "crash_ok lg X V D" and h: "length h = BSIZE" "head_n h = 0"
  shows "crash_ok lg X V (apply_writes (take k (rec_writes lg D @ [(log_head lg, h)])) D)"
    and "clean_disk lg X (apply_writes (rec_writes lg D @ [(log_head lg, h)]) D) \<or>
      clean_disk lg V (apply_writes (rec_writes lg D @ [(log_head lg, h)]) D)"
proof -
  have clean: "rec_writes lg D = []" "clean_disk lg Y (D(log_head lg := h))" if "clean_disk lg Y D" for Y
    using that clear_head [OF wf _ _ h, of D Y] by (auto simp: rec_writes_def head_blocks_def clean_disk_def)
  have take1: "take k [x] = (if k = 0 then [] else [x])" for k and x :: "u32 \<times> block" by (cases k) auto
  have com: "crash_ok lg X V (apply_writes (take k (rec_writes lg D @ [(log_head lg, h)])) D)"
    "clean_disk lg V (apply_writes (rec_writes lg D @ [(log_head lg, h)]) D)" if c: "committed_disk lg V D"
  proof -
    have rw: "rec_writes lg D = map (\<lambda>i. (logged lg ! i, V (logged lg ! i))) [0..<length (logged lg)]"
      using c by (auto simp: rec_writes_def committed_disk_def)
    then have ws: "d = V b \<and> b \<in> set (logged lg)" if "(b, d) \<in> set (rec_writes lg D)" for b d using that by auto
    have all: "fst ` set (rec_writes lg D) = set (logged lg)" unfolding rw by (rule fst_home_writes)
    have "committed_disk lg V (apply_writes (rec_writes lg D) D)" by (rule home_writes(1) [OF wf home V c ws])
    then show fin: "clean_disk lg V (apply_writes (rec_writes lg D @ [(log_head lg, h)]) D)"
      using clear_head [OF wf home_writes(2) [OF wf home V c ws all] _ h] by (simp add: committed_disk_def)
    show "crash_ok lg X V (apply_writes (take k (rec_writes lg D @ [(log_head lg, h)])) D)"
    proof (cases "k \<le> length (rec_writes lg D)")
      case True
      have "committed_disk lg V (apply_writes (take k (rec_writes lg D)) D)"
        by (rule home_writes(1) [OF wf home V c]) (use ws in \<open>auto dest!: in_set_takeD\<close>)
      with True show ?thesis by (simp add: crash_ok_def)
    next
      case False
      then have "take k (rec_writes lg D @ [(log_head lg, h)]) = rec_writes lg D @ [(log_head lg, h)]" by simp
      with fin show ?thesis by (simp add: crash_ok_def)
    qed
  qed
  show "crash_ok lg X V (apply_writes (take k (rec_writes lg D @ [(log_head lg, h)])) D)"
    using D com(1) clean by (auto simp: crash_ok_def take1)
  show "clean_disk lg X (apply_writes (rec_writes lg D @ [(log_head lg, h)]) D) \<or>
      clean_disk lg V (apply_writes (rec_writes lg D @ [(log_head lg, h)]) D)"
    using D com(2) clean by (auto simp: crash_ok_def)
qed

text \<open>
  The disks that crashes produce: a commit cut off after any number of its disk writes, and then recovery at
  the next boot cut off likewise, any number of times. \<open>log0\<close> is the static log structure before \<open>initlog\<close>.
\<close>

definition log0 :: log where
  "log0 = \<lparr>lg_start = 0, lg_size = 0, lg_outstanding = 0, lg_committing = 0, lg_dev = 0, lh_n = 0,
     lh_block = replicate (nat LOGSIZE) 0\<rparr>"

definition booted :: "nat \<Rightarrow> (u32 \<Rightarrow> block) \<Rightarrow> bcache \<Rightarrow> bool" where
  "booted ds D s \<longleftrightarrow> bss_ok s \<and> memdisk s = D \<and> disksize s = ds \<and> disk_writes s = []"

inductive crash_disk :: "int \<Rightarrow> log \<Rightarrow> bcache \<Rightarrow> (u32 \<Rightarrow> block) \<Rightarrow> bool" for pid lg c where
  in_commit: "commit pid lg c = Inr (lg', c') \<Longrightarrow> disk_writes c' = disk_writes c @ ws \<Longrightarrow>
    crash_disk pid lg c (apply_writes (take k ws) (memdisk c))"
| in_recovery: "crash_disk pid lg c D \<Longrightarrow> booted (disksize c) D s \<Longrightarrow> initlog pid' 1 log0 (binit s) = Inr (lg', c') \<Longrightarrow>
    crash_disk pid lg c (apply_writes (take k (disk_writes c')) D)"

text \<open>The super block on disk describes the log.\<close>

definition sb_log :: "log \<Rightarrow> block \<Rightarrow> bool" where
  "sb_log lg d \<longleftrightarrow> sint (sb_logstart (superblock_of d)) = lg_start lg \<and> sint (sb_nlog (superblock_of d)) = lg_size lg"

lemma initlog_ok:
  assumes b: "booted ds D s" and wf: "log_wf lg ds" and sb: "sb_log lg (D 1)" "1 < ds"
    and hd: "head_ok lg ds (D (log_head lg))"
  obtains lg' c' h where "initlog pid 1 log0 (binit s) = Inr (lg', c')" "disk_writes c' = rec_writes lg D @ [(log_head lg, h)]"
    "memdisk c' = apply_writes (disk_writes c') D" "length h = BSIZE" "head_n h = 0" "lh_n lg' = 0" "lg_outstanding lg' = 0"
    "lg_committing lg' = 0" "lg_start lg' = lg_start lg" "lg_size lg' = lg_size lg" "bok {} c'" "pinned c' = {}"
    "disksize c' = ds" "log_wf lg' ds"
proof -
  have bss: "bss_ok s" and s: "memdisk s = D" "disksize s = ds" "disk_writes s = []" using b by (auto simp: booted_def)
  note ok = binit_ok [OF bss]
  have dw: "disk_writes (binit s) = []" unfolding binit_def by (simp add: binit_from_writes s)
  have r: "room {} (binit s) \<or> 1 \<in> pinned (binit s)" using card_pinned_room [OF ok(1)] ok(2) by (simp add: NBUF_def)
  have one: "unat (1 :: u32) < disksize (binit s)" using sb(2) by (simp add: binit_fields s)
  obtain c1 where c1: "read_block pid 1 (binit s) = Inr (D 1, c1)" "bok {} c1" "disksize c1 = ds" "view c1 = D"
    "memdisk c1 = D" "pinned c1 = {}" "disk_writes c1 = []"
    using read_block_ok [OF ok(1) one r, of pid] by (auto simp: binit_fields s ok(2,3) dw)
  have rs: "readsb pid 1 (binit s) = Inr (superblock_of (D 1), c1)"
    using c1(1) by (auto simp: read_block_def readsb_def bindE_def split: sum.splits prod.splits)
  define l where "l = log0\<lparr>lg_start := lg_start lg, lg_size := lg_size lg, lg_dev := 1\<rparr>"
  have same: "log_block l t = log_block lg t" "log_head l = log_head lg" "head_ok l ds d = head_ok lg ds d"
    "rec_writes l D = rec_writes lg D" for t d
    using log_wf_same [of l lg] by (auto simp: l_def head_ok_def rec_writes_def)
  have wl: "log_wf l (disksize c1)" using wf by (simp add: l_def log_wf_def log0_def c1(3))
  have hl: "head_ok l (disksize c1) (memdisk c1 (log_head l))" using hd by (simp add: c1 same)
  obtain lg' c' h where rec: "recover_from_log pid l c1 = Inr (lg', c')"
    "wrote c1 (rec_writes l (memdisk c1) @ [(log_head l, h)]) c'" "length h = BSIZE" "head_n h = 0" "lh_n lg' = 0"
    "lg_start lg' = lg_start l" "lg_size lg' = lg_size l" "lg_outstanding lg' = lg_outstanding l"
    "lg_committing lg' = lg_committing l" "log_wf lg' (disksize c1)"
    by (rule recover_ok [OF wl c1(2,6) hl])
  have il: "initlog pid 1 log0 (binit s) = Inr (lg', c')"
    using rs rec(1) sb(1) by (simp add: initlog_def sb_log_def l_def LOGSIZE_def MAXOPBLOCKS_def BSIZE_def)
  note w = wroteD [OF rec(2)]
  have w3: "disk_writes c' = rec_writes lg D @ [(log_head lg, h)]" using w(3) by (simp add: same c1)
  have w4: "memdisk c' = apply_writes (disk_writes c') D" using w(4) by (simp add: same c1 w3)
  show ?thesis
    by (rule that [OF il w3 w4]) (use rec w(1,2,6) in \<open>simp_all add: c1 l_def log0_def\<close>)
qed

section \<open>Logging a block\<close>

lemma absorb_at_ok:
  assumes "i + k \<le> length bl"
  shows "\<exists>j. absorb_at bl b k i = Inr j \<and> i \<le> j \<and> j \<le> i + k \<and> (j < i + k \<longrightarrow> bl ! j = b) \<and>
    (\<forall>m. i \<le> m \<longrightarrow> m < j \<longrightarrow> bl ! m \<noteq> b)"
  using assms
proof (induction k arbitrary: i)
  case (Suc k)
  show ?case
  proof (cases "bl ! i = b")
    case True
    then show ?thesis using Suc.prems by (intro exI [of _ i]) simp
  next
    case False
    have "\<exists>j. absorb_at bl b k (Suc i) = Inr j \<and> Suc i \<le> j \<and> j \<le> Suc i + k \<and> (j < Suc i + k \<longrightarrow> bl ! j = b) \<and>
      (\<forall>m. Suc i \<le> m \<longrightarrow> m < j \<longrightarrow> bl ! m \<noteq> b)" by (rule Suc.IH) (use Suc.prems in simp)
    then obtain j where j: "absorb_at bl b k (Suc i) = Inr j" "Suc i \<le> j" "j \<le> Suc i + k" "j < Suc i + k \<longrightarrow> bl ! j = b"
      "\<And>m. Suc i \<le> m \<Longrightarrow> m < j \<Longrightarrow> bl ! m \<noteq> b" by blast
    have "bl ! m \<noteq> b" if "i \<le> m" "m < j" for m using that j(5) [of m] False by (cases "m = i") auto
    with j(1-4) False Suc.prems show ?thesis by (intro exI [of _ j]) auto
  qed
qed auto

text \<open>\<open>log_write\<close> adds the block to the transaction, once.\<close>

lemma log_write_ok:
  assumes wf: "log_wf lg ds" and n: "0 \<le> lh_n lg" "lh_n lg < LOGSIZE" "lh_n lg < lg_size lg - 1" and out: "1 \<le> lg_outstanding lg"
    and b: "b_blockno (bufs c i) = b"
  obtains lg' where "log_write lg i c = Inr (lg', upd_buf i (\<lambda>x. x\<lparr>b_flags := b_flags x OR B_DIRTY\<rparr>) c)"
    "logged lg' = (if b \<in> set (logged lg) then logged lg else logged lg @ [b])" "lh_n lg' = int (length (logged lg'))"
    "lg_start lg' = lg_start lg" "lg_size lg' = lg_size lg" "lg_outstanding lg' = lg_outstanding lg"
    "lg_committing lg' = lg_committing lg" "log_wf lg' ds"
proof -
  have len: "length (lh_block lg) = nat LOGSIZE" using wf by (simp add: log_wf_def)
  then have n': "nat (lh_n lg) < length (lh_block lg)" using n by simp
  obtain j where j: "absorb_at (lh_block lg) b (nat (lh_n lg)) 0 = Inr j" "j \<le> nat (lh_n lg)"
    "j < nat (lh_n lg) \<Longrightarrow> lh_block lg ! j = b" "\<And>m. m < j \<Longrightarrow> lh_block lg ! m \<noteq> b"
    using absorb_at_ok [of 0 "nat (lh_n lg)" "lh_block lg" b] n' by auto
  define lg' where "lg' = lg\<lparr>lh_block := (lh_block lg)[j := b], lh_n := (if int j = lh_n lg then lh_n lg + 1 else lh_n lg)\<rparr>"
  have lw: "log_write lg i c = Inr (lg', upd_buf i (\<lambda>x. x\<lparr>b_flags := b_flags x OR B_DIRTY\<rparr>) c)"
    using n out j(1,2) n' b by (simp add: log_write_def lg'_def)
  have lg: "logged lg' = (if b \<in> set (logged lg) then logged lg else logged lg @ [b])"
  proof (cases "j < nat (lh_n lg)")
    case True
    then have "(lh_block lg)[j := b] = lh_block lg" using j(3) by (metis list_update_id)
    moreover have "b \<in> set (logged lg)"
      using True j(3) n' by (auto simp: logged_def in_set_conv_nth intro!: exI [of _ j])
    ultimately show ?thesis using True by (simp add: lg'_def logged_def)
  next
    case False
    then have jn: "j = nat (lh_n lg)" using j(2) by simp
    then have "b \<notin> set (logged lg)" using j(4) by (auto simp: logged_def in_set_conv_nth)
    moreover have "nat (lh_n lg + 1) = Suc (nat (lh_n lg))" using n(1) by simp
    ultimately show ?thesis using jn n(1) n' by (simp add: lg'_def logged_def take_Suc_conv_app_nth)
  qed
  have "lh_n lg' = int (length (logged lg'))"
    using n n' j(2) by (auto simp: lg'_def logged_def)
  then show ?thesis by (rule that [OF lw lg]) (use wf in \<open>simp_all add: lg'_def log_wf_def\<close>)
qed

lemma log_update_ok:
  assumes inv: "txn_inv lg c" and n: "lh_n lg < lg_size lg - 1" and out: "1 \<le> lg_outstanding lg"
    and b: "unat b < disksize c" "\<not> in_log lg b" and d: "length d = BSIZE"
  shows "\<exists>lg' c'. log_update pid b d (lg, c) = Inr (lg', c') \<and> txn_inv lg' c' \<and> view c' = (view c)(b := d) \<and>
    memdisk c' = memdisk c \<and> disk_writes c' = disk_writes c \<and> disksize c' = disksize c \<and>
    logged lg' = (if b \<in> set (logged lg) then logged lg else logged lg @ [b]) \<and> lg_outstanding lg' = lg_outstanding lg \<and>
    lg_committing lg' = lg_committing lg \<and> lg_start lg' = lg_start lg \<and> lg_size lg' = lg_size lg"
proof -
  note i = txn_invD [OF inv]
  have r: "room {} c \<or> b \<in> pinned c" using card_pinned_room [OF i(2)] i(5) by simp
  obtain k c1 where br: "bread pid 1 b c = Inr (k, c1)" and post: "bread_post {} c b k c1"
    using bread_ok [OF i(2) b(1) _ r] by blast
  have blk: "b_blockno (bufs (upd_buf k (\<lambda>x. x\<lparr>b_data := d\<rparr>) c1) k) = b" using post by (simp add: bread_post_def)
  have n2: "lh_n lg < LOGSIZE" using n i(12) by simp
  obtain lg' where lg': "log_write lg k (upd_buf k (\<lambda>x. x\<lparr>b_data := d\<rparr>) c1) =
      Inr (lg', upd_buf k (\<lambda>x. x\<lparr>b_flags := b_flags x OR B_DIRTY\<rparr>) (upd_buf k (\<lambda>x. x\<lparr>b_data := d\<rparr>) c1))"
    "logged lg' = (if b \<in> set (logged lg) then logged lg else logged lg @ [b])" "lh_n lg' = int (length (logged lg'))"
    "lg_start lg' = lg_start lg" "lg_size lg' = lg_size lg" "lg_outstanding lg' = lg_outstanding lg"
    "lg_committing lg' = lg_committing lg" "log_wf lg' (disksize c)"
    by (rule log_write_ok [OF i(1,7) n2 n out blk])
  have uu: "upd_buf k (\<lambda>x. x\<lparr>b_flags := b_flags x OR B_DIRTY\<rparr>) (upd_buf k (\<lambda>x. x\<lparr>b_data := d\<rparr>) c1) =
      upd_buf k (\<lambda>x. x\<lparr>b_data := d, b_flags := b_flags x OR B_DIRTY\<rparr>) c1" by (simp add: upd_buf_def)
  obtain c' where c': "pin_block pid b d c = Inr c'" "bok {} c'" "disksize c' = disksize c" "view c' = (view c)(b := d)"
    "memdisk c' = memdisk c" "pinned c' = insert b (pinned c)" "disk_writes c' = disk_writes c"
    using pin_block_ok [OF i(2) b(1) r d, of pid] by auto
  have dev: "lg_dev lg = 1" using i(1) by (simp add: log_wf_def)
  have "brelse k (upd_buf k (\<lambda>x. x\<lparr>b_data := d, b_flags := b_flags x OR B_DIRTY\<rparr>) c1) = Inr c'"
    using c'(1) br by (simp add: pin_block_def)
  then have "log_update pid b d (lg, c) = Inr (lg', c')" by (simp add: log_update_def dev br lg'(1) uu)
  moreover have "txn_inv lg' c'"
  proof -
    have "length (logged lg') \<le> Suc (length (logged lg))" by (simp add: lg'(2))
    then have "lh_n lg' < lg_size lg'" using lg'(3,5) n i(4,7) by simp
    then show ?thesis
      unfolding txn_inv_def using lg' c' i b log_wf_same [OF lg'(4,5)] inv by (auto simp: txn_inv_def)
  qed
  ultimately show ?thesis using c' lg' by (metis (no_types, lifting))
qed

section \<open>Atomic transactions\<close>

lemma crash_disk_ok:
  assumes inv: "txn_inv lg c" and sb: "sb_log lg (memdisk c 1)" "\<not> in_log lg 1" "1 \<notin> set (logged lg)" "1 < disksize c"
    and crash: "crash_disk pid lg c D"
  shows "crash_ok lg (memdisk c) (view c) D \<and> D 1 = memdisk c 1"
  using crash
proof induction
  case (in_commit lg' c' ws k)
  note i = txn_invD [OF inv]
  have "crash_ok lg (memdisk c) (view c) (apply_writes (take k ws) (memdisk c))"
  proof (cases "0 < lh_n lg")
    case True
    obtain c2 h1 h0 where c2: "commit pid lg c = Inr (lg\<lparr>lh_n := 0\<rparr>, c2)" "wrote c (commit_writes lg (view c) h1 h0) c2"
      "length h1 = BSIZE" "length h0 = BSIZE" "head_n h1 = lh_n lg" "head_blocks h1 = logged lg" "head_n h0 = 0"
      by (rule commit_ok [OF inv True])
    then have "ws = commit_writes lg (view c) h1 h0" using in_commit wroteD(3) [OF c2(2)] by simp
    with commit_prefix [OF inv c2(3-7)] show ?thesis by simp
  next
    case False
    then have "ws = []" using in_commit by (simp add: commit_def)
    moreover have "clean_disk lg (memdisk c) (memdisk c)" using i(9) bokD(6) [OF i(2)] by (simp add: clean_disk_def)
    ultimately show ?thesis by (simp add: crash_ok_def)
  qed
  moreover have "X 1 = memdisk c 1" if "crash_ok lg (memdisk c) (view c) X" for X
    using that sb view_unpinned [OF i(2), of 1] i(6) by (auto simp: crash_ok_def clean_disk_def committed_disk_def)
  ultimately show ?case by blast
next
  case (in_recovery D s pid' lg' c' k)
  note i = txn_invD [OF inv]
  have ok: "crash_ok lg (memdisk c) (view c) D" "D 1 = memdisk c 1" using in_recovery.IH by auto
  have hd: "head_ok lg (disksize c) (D (log_head lg))" by (rule crash_head_ok(1) [OF i(1,3) ok(1) i(7,8)])
  have sb1: "sb_log lg (D 1)" using sb(1) ok(2) by simp
  obtain lg2 c2 h where c2: "initlog pid' 1 log0 (binit s) = Inr (lg2, c2)" "disk_writes c2 = rec_writes lg D @ [(log_head lg, h)]"
    "length h = BSIZE" "head_n h = 0"
    by (rule initlog_ok [OF in_recovery.hyps(2) i(1) sb1 sb(4) hd])
  with in_recovery.hyps(3) have "disk_writes c' = rec_writes lg D @ [(log_head lg, h)]" by simp
  then have "crash_ok lg (memdisk c) (view c) (apply_writes (take k (disk_writes c')) D)"
    using recovery_prefix(1) [OF i(1,3) view_length [OF i(2)] ok(1) c2(3,4)] by simp
  moreover have "X 1 = memdisk c 1" if "crash_ok lg (memdisk c) (view c) X" for X
    using that sb view_unpinned [OF i(2), of 1] i(6) by (auto simp: crash_ok_def clean_disk_def committed_disk_def)
  ultimately show ?case by blast
qed

lemma empty_txn:
  assumes "log_wf lg (disksize c)" "lg_size lg \<le> LOGSIZE" "bok {} c" "lh_n lg = 0" "pinned c = {}" "head_n (memdisk c (log_head lg)) = 0"
  shows "txn_inv lg c"
  using assms by (auto simp: txn_inv_def logged_def log_wf_def)

text \<open>
  C1. A transaction is atomic across crashes. Take a state between operations with any set of logged blocks,
  commit it, and let the machine stop after any number of the disk writes that \<open>commit\<close> issues; let the recovery at
  the following boots be cut off in the same way any number of times. The boot that is not cut off then runs
  \<open>initlog\<close> to its end, leaves an empty log, and outside the log region the disk is either exactly as
  before the commit or exactly as the transaction left the blocks: never a mixture.
\<close>

theorem log_crash_atomic:
  assumes "txn_inv lg c" "sb_log lg (memdisk c 1)" "\<not> in_log lg 1" "1 \<notin> set (logged lg)" "1 < disksize c"
    and "crash_disk pid lg c D" and "booted (disksize c) D s"
  shows "\<exists>lg' c'. initlog pid' 1 log0 (binit s) = Inr (lg', c') \<and> txn_inv lg' c' \<and> lh_n lg' = 0 \<and>
    ((\<forall>b. \<not> in_log lg b \<longrightarrow> memdisk c' b = memdisk c b) \<or> (\<forall>b. \<not> in_log lg b \<longrightarrow> memdisk c' b = view c b))"
proof -
  note i = txn_invD [OF assms(1)]
  have ok: "crash_ok lg (memdisk c) (view c) D" "D 1 = memdisk c 1" using crash_disk_ok [OF assms(1-6)] by auto
  have hd: "head_ok lg (disksize c) (D (log_head lg))" by (rule crash_head_ok(1) [OF i(1,3) ok(1) i(7,8)])
  have sb1: "sb_log lg (D 1)" using assms(2) ok(2) by simp
  obtain lg' c' h where c': "initlog pid' 1 log0 (binit s) = Inr (lg', c')" "disk_writes c' = rec_writes lg D @ [(log_head lg, h)]"
    "memdisk c' = apply_writes (disk_writes c') D" "length h = BSIZE" "head_n h = 0" "lh_n lg' = 0" "lg_outstanding lg' = 0"
    "lg_committing lg' = 0" "lg_start lg' = lg_start lg" "lg_size lg' = lg_size lg" "bok {} c'" "pinned c' = {}"
    "disksize c' = disksize c" "log_wf lg' (disksize c)"
    by (rule initlog_ok [OF assms(7) i(1) sb1 assms(5) hd])
  have fin: "clean_disk lg (memdisk c) (memdisk c') \<or> clean_disk lg (view c) (memdisk c')"
    using recovery_prefix(2) [OF i(1,3) view_length [OF i(2)] ok(1) c'(4,5)] c'(2,3) by simp
  have "log_head lg' = log_head lg" using log_wf_same [OF c'(9,10)] by simp
  then have "txn_inv lg' c'" using c' fin i(12) by (intro empty_txn) (auto simp: clean_disk_def)
  with c'(1,6) fin show ?thesis unfolding clean_disk_def by blast
qed

text \<open>A file system image with its log at blocks 2 to 31, as \<open>mkfs\<close> lays it out, and the first operation on it.\<close>

definition example_disk :: "u32 \<Rightarrow> block" where
  "example_disk b = (if b = 1 then put32 (put32 (replicate BSIZE 0) 12 30) 16 2 else replicate BSIZE 0)"

definition example_log :: log where
  "example_log = log0\<lparr>lg_start := 2, lg_size := 30, lg_dev := 1\<rparr>"

lemma example_booted: "booted 1000 example_disk (zero_cache\<lparr>memdisk := example_disk\<rparr>)"
  by (simp add: booted_def bss_ok_def zero_cache_def example_disk_def)

lemma example_facts:
  "log_wf example_log 1000" "sb_log example_log (example_disk 1)" "head_ok example_log 1000 (example_disk (log_head example_log))"
  "\<not> in_log example_log 1" "\<not> in_log example_log 100"
proof -
  show wf: "log_wf example_log 1000" by (simp add: log_wf_def example_log_def log0_def)
  show "sb_log example_log (example_disk 1)"
    by (simp add: sb_log_def superblock_of_def example_disk_def example_log_def get32_put32_other BSIZE_def)
  have "log_head example_log \<noteq> 1" by (simp add: log_head_def example_log_def)
  moreover have "get32 (replicate BSIZE 0) 0 = 0" by (simp add: get32_def BSIZE_def)
  ultimately show "head_ok example_log 1000 (example_disk (log_head example_log))"
    by (simp add: head_ok_def example_disk_def head_n_def head_blocks_def home_ok_def LOGSIZE_def MAXOPBLOCKS_def example_log_def)
  show "\<not> in_log example_log 1" "\<not> in_log example_log 100" by (simp_all add: in_log_def example_log_def)
qed

lemma txn_inv_counters:
  "txn_inv (lg\<lparr>lg_outstanding := m\<rparr>) c \<longleftrightarrow> txn_inv lg c" "txn_inv (lg\<lparr>lg_committing := m\<rparr>) c \<longleftrightarrow> txn_inv lg c"
  by (simp_all add: txn_inv_def log_wf_def logged_def in_log_def log_head_def)

lemma example_txn:
  obtains lg c where "txn_inv lg c" "logged lg = [100]" "lg_outstanding lg = 1" "lg_committing lg = 0" "disksize c = 1000"
    "sb_log lg (memdisk c 1)" "\<not> in_log lg 1" "memdisk c 100 = replicate BSIZE 0" "view c 100 = replicate BSIZE 7" "\<not> in_log lg 100"
proof -
  note e = example_facts
  obtain lg c h where c: "initlog 1 1 log0 (binit (zero_cache\<lparr>memdisk := example_disk\<rparr>)) = Inr (lg, c)"
    "disk_writes c = rec_writes example_log example_disk @ [(log_head example_log, h)]" "memdisk c = apply_writes (disk_writes c) example_disk"
    "length h = BSIZE" "head_n h = 0" "lh_n lg = 0" "lg_outstanding lg = 0" "lg_committing lg = 0"
    "lg_start lg = lg_start example_log" "lg_size lg = lg_size example_log" "bok {} c" "pinned c = {}" "disksize c = 1000" "log_wf lg 1000"
    by (rule initlog_ok [OF example_booted e(1,2) _ e(3), of 1]) simp_all
  have rw: "rec_writes example_log example_disk = []"
    using e(3) by (simp add: rec_writes_def head_blocks_def head_n_def example_disk_def get32_def BSIZE_def log_head_def example_log_def)
  have hd: "log_head lg = 2" "log_head example_log = 2" using c(9) by (simp_all add: log_head_def example_log_def)
  have mem: "memdisk c = example_disk(2 := h)" using c(2,3) rw hd by simp
  have "txn_inv lg c" by (rule empty_txn) (use c mem hd in \<open>simp_all add: example_log_def LOGSIZE_def MAXOPBLOCKS_def\<close>)
  then have inv: "txn_inv (lg\<lparr>lg_outstanding := 1\<rparr>) c" by (simp add: txn_inv_counters)
  have nl: "\<not> in_log lg 1" "\<not> in_log lg 100" using e(4,5) c(9,10) by (simp_all add: in_log_def)
  have v: "view c = memdisk c" using view_unpinned [OF c(11)] c(12) by auto
  have "\<exists>lg' c'. log_update 1 100 (replicate BSIZE 7) (lg\<lparr>lg_outstanding := 1\<rparr>, c) = Inr (lg', c') \<and> txn_inv lg' c' \<and>
    view c' = (view c)(100 := replicate BSIZE 7) \<and> memdisk c' = memdisk c \<and> disk_writes c' = disk_writes c \<and> disksize c' = disksize c \<and>
    logged lg' = (if 100 \<in> set (logged (lg\<lparr>lg_outstanding := 1\<rparr>)) then logged (lg\<lparr>lg_outstanding := 1\<rparr>) else logged (lg\<lparr>lg_outstanding := 1\<rparr>) @ [100]) \<and>
    lg_outstanding lg' = lg_outstanding (lg\<lparr>lg_outstanding := 1\<rparr>) \<and> lg_committing lg' = lg_committing (lg\<lparr>lg_outstanding := 1\<rparr>) \<and>
    lg_start lg' = lg_start (lg\<lparr>lg_outstanding := 1\<rparr>) \<and> lg_size lg' = lg_size (lg\<lparr>lg_outstanding := 1\<rparr>)"
    by (rule log_update_ok [OF inv]) (use c nl in \<open>simp_all add: example_log_def in_log_def\<close>)
  then obtain lg' c' where l: "txn_inv lg' c'" "logged lg' = [100]" "lg_outstanding lg' = 1" "lg_committing lg' = 0"
    "disksize c' = 1000" "memdisk c' = memdisk c" "view c' 100 = replicate BSIZE 7" "lg_start lg' = lg_start lg" "lg_size lg' = lg_size lg"
    using c by (auto simp: logged_def)
  have "memdisk c' 1 = example_disk 1" using l(6) mem by simp
  then have "sb_log lg' (memdisk c' 1)" using e(2) l(8,9) c(9,10) by (simp add: sb_log_def)
  moreover have "\<not> in_log lg' 1" "\<not> in_log lg' 100" using nl l by (simp_all add: in_log_def)
  moreover have "memdisk c' 100 = replicate BSIZE 0" using l(6) mem by (simp add: example_disk_def)
  ultimately show ?thesis using that l by blast
qed

theorem log_crash_atomic_witness:
  "\<exists>lg c D lg' c' s. txn_inv lg c \<and> memdisk c 100 \<noteq> view c 100 \<and> crash_disk 1 lg c D \<and> booted (disksize c) D s \<and>
     initlog 1 1 log0 (binit s) = Inr (lg', c') \<and> (memdisk c' 100 = memdisk c 100 \<or> memdisk c' 100 = view c 100)"
proof -
  obtain lg c where t: "txn_inv lg c" "logged lg = [100]" "disksize c = 1000" "sb_log lg (memdisk c 1)" "\<not> in_log lg 1"
    "memdisk c 100 = replicate BSIZE 0" "view c 100 = replicate BSIZE 7" "\<not> in_log lg 100"
    by (rule example_txn)
  have pos: "0 < lh_n lg" using txn_invD(4,7) [OF t(1)] t(2) by simp
  obtain c1 h1 h0 where c1: "commit 1 lg c = Inr (lg\<lparr>lh_n := 0\<rparr>, c1)" "wrote c (commit_writes lg (view c) h1 h0) c1"
    using commit_ok [OF t(1) pos] by metis
  have D: "crash_disk 1 lg c (apply_writes (take 2 (commit_writes lg (view c) h1 h0)) (memdisk c))"
    by (rule in_commit [OF c1(1) wroteD(3) [OF c1(2)]])
  define D where "D = apply_writes (take 2 (commit_writes lg (view c) h1 h0)) (memdisk c)"
  have len: "length (D b) = BSIZE" for b
  proof -
    have "crash_ok lg (memdisk c) (view c) D" using crash_disk_ok [OF t(1,4,5) _ _ D] t(2,3) by (simp add: D_def)
    from crash_head_ok(2) [OF txn_invD(1,3) [OF t(1)] this txn_invD(7,8) [OF t(1)]] show ?thesis .
  qed
  define s where "s = zero_cache\<lparr>memdisk := D\<rparr>"
  have b: "booted (disksize c) D s" using len t(3) by (simp add: booted_def bss_ok_def zero_cache_def s_def)
  have "\<exists>lg' c'. initlog 1 1 log0 (binit s) = Inr (lg', c') \<and> txn_inv lg' c' \<and> lh_n lg' = 0 \<and>
    ((\<forall>b. \<not> in_log lg b \<longrightarrow> memdisk c' b = memdisk c b) \<or> (\<forall>b. \<not> in_log lg b \<longrightarrow> memdisk c' b = view c b))"
    by (rule log_crash_atomic [OF t(1,4,5) _ _ _ b]) (use D t(2,3) in \<open>simp_all add: D_def\<close>)
  moreover have "memdisk c 100 \<noteq> view c 100" using t(6,7) by (simp add: BSIZE_def)
  ultimately show ?thesis using t(1,8) D b unfolding D_def by metis
qed

lemma commit_writes_view:
  assumes "log_wf lg ds" "home_ok lg ds (logged lg)" "\<not> in_log lg b"
  shows "apply_writes (commit_writes lg V h1 h0) V b = V b"
proof -
  have nl: "b \<noteq> log_head lg" "b \<notin> log_block lg ` {..<length (logged lg)}"
    using assms(3) log_headD(1) [OF assms(1)] log_blockD(2) [OF assms(1) home_okD(3) [OF assms(1,2)]] by auto
  have "apply_writes (map (\<lambda>i. (log_block lg i, V (logged lg ! i))) [0..<length (logged lg)]) D b = D b" for D
    by (rule apply_writes_other) (use nl in auto)
  moreover have "apply_writes (map (\<lambda>i. (logged lg ! i, V (logged lg ! i))) [0..<length (logged lg)]) D b = V b"
    if "D b = V b" for D by (subst apply_writes_of [of _ V]) (use that in auto)
  ultimately show ?thesis using nl by (simp add: commit_writes_def)
qed

lemma commit_installs:
  assumes inv: "txn_inv lg c"
  shows "\<exists>c'. commit pid lg c = Inr (lg\<lparr>lh_n := 0\<rparr>, c') \<and> bok {} c' \<and> pinned c' = {} \<and> disksize c' = disksize c \<and>
    head_n (memdisk c' (log_head lg)) = 0 \<and> (\<forall>b. \<not> in_log lg b \<longrightarrow> memdisk c' b = view c b)"
proof (cases "0 < lh_n lg")
  case True
  note i = txn_invD [OF inv]
  obtain c' h1 h0 where c: "commit pid lg c = Inr (lg\<lparr>lh_n := 0\<rparr>, c')" "wrote c (commit_writes lg (view c) h1 h0) c'"
    "length h1 = BSIZE" "length h0 = BSIZE" "head_n h1 = lh_n lg" "head_blocks h1 = logged lg" "head_n h0 = 0"
    by (rule commit_ok [OF inv True])
  note w = wroteD [OF c(2)]
  have "fst ` set (commit_writes lg (view c) h1 h0) \<supseteq> set (logged lg)"
    using fst_home_writes [of "logged lg" "view c"] by (auto simp: commit_writes_def)
  then have p: "pinned c' = {}" using w(6) i(6) by auto
  have v: "view c' = memdisk c'" using view_unpinned [OF w(1)] p by auto
  have "head_n (memdisk c' (log_head lg)) = 0" using w(4) c(7) by (simp add: commit_writes_def)
  with c(1) w(1,2,5) p v commit_writes_view [OF i(1,3)] show ?thesis by auto
next
  case False
  note i = txn_invD [OF inv]
  from False i(7) have "lh_n lg = 0" by simp
  then have "pinned c = {}" "commit pid lg c = Inr (lg\<lparr>lh_n := 0\<rparr>, c)" using i(6) by (simp_all add: logged_def commit_def)
  then show ?thesis using i view_unpinned [OF i(2)] by auto
qed

text \<open>
  C19. \<open>end_op\<close> is durable. When the last operation of a transaction ends, \<open>end_op\<close> commits: it returns, and every block
  outside the log region then has its new contents both on the disk and in the cache; no block stays pinned, the log is
  empty and the next operation may begin.
\<close>

theorem end_op_durable:
  assumes inv: "txn_inv lg c" and "lg_outstanding lg = 1" "lg_committing lg = 0"
  shows "\<exists>lg' c'. end_op pid lg c = Inr (lg', c') \<and> txn_inv lg' c' \<and> lh_n lg' = 0 \<and> pinned c' = {} \<and>
    (\<forall>b. \<not> in_log lg b \<longrightarrow> memdisk c' b = view c b \<and> view c' b = view c b) \<and> (\<exists>lg''. begin_op lg' = Inr lg'')"
proof -
  define l where "l = lg\<lparr>lg_outstanding := 0, lg_committing := 1\<rparr>"
  have e: "end_op pid lg c = bindE (commit pid l c) (\<lambda>(lg, c). Inr (lg\<lparr>lg_committing := 0\<rparr>, c))"
    using assms(2,3) by (simp add: end_op_def end_op_start_def l_def)
  have linv: "txn_inv l c" using inv unfolding l_def by (simp add: txn_inv_counters)
  note i = txn_invD [OF linv]
  have il: "in_log l b = in_log lg b" for b by (simp add: l_def in_log_def)
  from commit_installs [OF linv, of pid] obtain c' where c': "commit pid l c = Inr (l\<lparr>lh_n := 0\<rparr>, c')" "bok {} c'"
    "pinned c' = {}" "disksize c' = disksize c" "head_n (memdisk c' (log_head l)) = 0"
    "\<And>b. \<not> in_log l b \<Longrightarrow> memdisk c' b = view c b" by blast
  define l' where "l' = l\<lparr>lh_n := 0, lg_committing := 0\<rparr>"
  have "txn_inv l' c'"
    by (rule empty_txn) (use c' i in \<open>simp_all add: l'_def log_wf_def log_head_def\<close>)
  moreover have "end_op pid lg c = Inr (l', c')" using e c'(1) by (simp add: l'_def)
  moreover have "view c' = memdisk c'" using view_unpinned [OF c'(2)] c'(3) by auto
  moreover have "begin_op l' = Inr (l'\<lparr>lg_outstanding := 1\<rparr>)"
    by (simp add: begin_op_def l'_def l_def LOGSIZE_def MAXOPBLOCKS_def)
  ultimately show ?thesis using c' il by (intro exI [of _ l'] exI [of _ c']) (auto simp: l'_def)
qed

theorem end_op_durable_witness:
  "\<exists>lg c lg' c'. txn_inv lg c \<and> memdisk c 100 \<noteq> view c 100 \<and> end_op 1 lg c = Inr (lg', c') \<and> memdisk c' 100 = view c 100"
proof -
  obtain lg c where t: "txn_inv lg c" "lg_outstanding lg = 1" "lg_committing lg = 0"
    "memdisk c 100 = replicate BSIZE 0" "view c 100 = replicate BSIZE 7" "\<not> in_log lg 100"
    by (rule example_txn)
  then have "memdisk c 100 \<noteq> view c 100" by (simp add: BSIZE_def)
  with end_op_durable [OF t(1-3), of 1] t(1,6) show ?thesis by blast
qed

section \<open>Reservation of log space\<close>

text \<open>
  Operations of several processes against one log. The state is the log and, for every operation between its
  \<open>begin_op\<close> and its \<open>end_op\<close>, the number of further blocks it may log: \<open>MAXOPBLOCKS\<close> at the start, one less for every
  block that is new to the transaction. The last \<open>end_op\<close> sets \<open>committing\<close>; the commit empties the log.
\<close>

inductive res_step :: "log \<times> nat list \<Rightarrow> log \<times> nat list \<Rightarrow> bool" where
  begins: "begin_op lg = Inr lg' \<Longrightarrow> res_step (lg, bs) (lg', nat MAXOPBLOCKS # bs)"
| logs_new: "i < length bs \<Longrightarrow> bs ! i = Suc k \<Longrightarrow> b_blockno (bufs c j) \<notin> set (logged lg) \<Longrightarrow>
    log_write lg j c = Inr (lg', c') \<Longrightarrow> res_step (lg, bs) (lg', bs[i := k])"
| logs_again: "i < length bs \<Longrightarrow> b_blockno (bufs c j) \<in> set (logged lg) \<Longrightarrow>
    log_write lg j c = Inr (lg', c') \<Longrightarrow> res_step (lg, bs) (lg', bs)"
| ends: "i < length bs \<Longrightarrow> end_op_start lg = Inr (do_commit, lg') \<Longrightarrow>
    res_step (lg, bs) (lg', take i bs @ drop (Suc i) bs)"
| commits: "lg_committing lg \<noteq> 0 \<Longrightarrow> res_step (lg, []) (lg\<lparr>lh_n := 0, lg_committing := 0\<rparr>, [])"

definition res_start :: "log \<Rightarrow> bool" where
  "res_start lg \<longleftrightarrow> (\<exists>ds. log_wf lg ds) \<and> lh_n lg = 0 \<and> lg_outstanding lg = 0 \<and> lg_committing lg = 0"

definition res_inv :: "int \<Rightarrow> log \<times> nat list \<Rightarrow> bool" where
  "res_inv sz = (\<lambda>(lg, bs). (\<exists>ds. log_wf lg ds) \<and> lg_size lg = sz \<and> 0 \<le> lh_n lg \<and> lg_outstanding lg = int (length bs) \<and>
     (\<forall>k \<in> set bs. int k \<le> MAXOPBLOCKS) \<and> (lg_committing lg \<noteq> 0 \<longrightarrow> bs = []) \<and>
     lh_n lg + int (sum_list bs) \<le> LOGSIZE)"

lemma sum_list_bound: "(\<And>k. k \<in> set bs \<Longrightarrow> int k \<le> m) \<Longrightarrow> int (sum_list bs) \<le> m * int (length bs)"
proof (induction bs)
  case (Cons k bs)
  then have "int k \<le> m" "int (sum_list bs) \<le> m * int (length bs)" by auto
  then show ?case by (simp add: algebra_simps)
qed simp

lemma log_write_Inr:
  assumes wf: "log_wf lg ds" and n: "0 \<le> lh_n lg" and lw: "log_write lg j c = Inr (lg', c')"
  shows "lh_n lg' = (if b_blockno (bufs c j) \<in> set (logged lg) then lh_n lg else lh_n lg + 1)"
    "lg_outstanding lg' = lg_outstanding lg" "lg_committing lg' = lg_committing lg" "lg_size lg' = lg_size lg" "log_wf lg' ds"
proof -
  have pre: "lh_n lg < LOGSIZE" "lh_n lg < lg_size lg - 1" "1 \<le> lg_outstanding lg"
    using lw by (auto simp: log_write_def split: if_splits)
  obtain l where l: "log_write lg j c = Inr (l, upd_buf j (\<lambda>x. x\<lparr>b_flags := b_flags x OR B_DIRTY\<rparr>) c)"
    "logged l = (if b_blockno (bufs c j) \<in> set (logged lg) then logged lg else logged lg @ [b_blockno (bufs c j)])"
    "lh_n l = int (length (logged l))" "lg_outstanding l = lg_outstanding lg" "lg_committing l = lg_committing lg"
    "lg_size l = lg_size lg" "log_wf l ds"
    by (rule log_write_ok [OF wf n pre refl])
  have "lg' = l" using lw l(1) by simp
  moreover have "length (logged lg) = nat (lh_n lg)" using wf n pre(1) by (simp add: logged_def log_wf_def)
  ultimately show "lh_n lg' = (if b_blockno (bufs c j) \<in> set (logged lg) then lh_n lg else lh_n lg + 1)"
    "lg_outstanding lg' = lg_outstanding lg" "lg_committing lg' = lg_committing lg" "lg_size lg' = lg_size lg" "log_wf lg' ds"
    using l n by auto
qed

lemma sum_list_dec: "i < length bs \<Longrightarrow> bs ! i = Suc k \<Longrightarrow> Suc (sum_list (bs[i := k])) = sum_list bs"
  by (induction bs arbitrary: i) (auto simp: nth_Cons split: nat.splits)

lemma res_step_inv: "res_step s s' \<Longrightarrow> res_inv sz s \<Longrightarrow> res_inv sz s'"
proof (induction rule: res_step.induct)
  case (begins lg lg' bs)
  then have "int (sum_list bs) \<le> MAXOPBLOCKS * int (length bs)" by (intro sum_list_bound) (auto simp: res_inv_def)
  with begins show ?case
    by (auto simp: res_inv_def begin_op_def MAXOPBLOCKS_def log_wf_def algebra_simps split: if_splits)
next
  case (logs_new i bs k c j lg lg' c')
  then obtain ds where "log_wf lg ds" "0 \<le> lh_n lg" by (auto simp: res_inv_def)
  note w = log_write_Inr [OF this logs_new(4)]
  have "k' \<in> set bs \<or> k' = k" if "k' \<in> set (bs[i := k])" for k' using set_update_subset_insert [of bs i k] that by blast
  moreover have "int k \<le> MAXOPBLOCKS" using logs_new nth_mem [OF logs_new(1)] by (force simp: res_inv_def)
  ultimately have "\<forall>k' \<in> set (bs[i := k]). int k' \<le> MAXOPBLOCKS" using logs_new(5) by (auto simp: res_inv_def)
  moreover have "bs \<noteq> []" using logs_new(1) by auto
  ultimately show ?case
    using logs_new(3,5) w sum_list_dec [OF logs_new(1,2)] by (auto simp: res_inv_def)
next
  case (logs_again i bs c j lg lg' c')
  then obtain ds where "log_wf lg ds" "0 \<le> lh_n lg" by (auto simp: res_inv_def)
  note w = log_write_Inr [OF this logs_again(3)]
  show ?case using logs_again(2,4) w by (auto simp: res_inv_def)
next
  case (ends i bs lg do_commit lg')
  let ?bs = "take i bs @ drop (Suc i) bs"
  have "bs = take i bs @ bs ! i # drop (Suc i) bs" using ends(1) by (simp add: id_take_nth_drop)
  then have "sum_list bs = sum_list (take i bs @ bs ! i # drop (Suc i) bs)" by simp
  then have "sum_list ?bs \<le> sum_list bs" by simp
  moreover have "int (length ?bs) = int (length bs) - 1" using ends(1) by simp
  moreover have "set ?bs \<subseteq> set bs" by (auto dest: in_set_takeD in_set_dropD)
  moreover have "?bs = []" if "int (length bs) - 1 = 0" using that ends(1) by simp
  ultimately show ?case
    using ends(2,3) by (auto simp: res_inv_def end_op_start_def Let_def log_wf_def split: if_splits)
next
  case (commits lg)
  then show ?case by (auto simp: res_inv_def log_wf_def LOGSIZE_def MAXOPBLOCKS_def)
qed

lemma res_reachable:
  assumes "res_step\<^sup>*\<^sup>* s s'" "res_inv sz s"
  shows "res_inv sz s'"
  using assms by (induction rule: rtranclp_induct) (auto intro: res_step_inv)

text \<open>
  C20. Log space is reserved. Let operations of any number of processes begin, log blocks and end in any order, each
  logging at most \<open>MAXOPBLOCKS\<close> distinct blocks. If the log region has room for \<open>LOGSIZE\<close> blocks beside its header, then
  \<open>log_write\<close> by an operation that has not used up its share always succeeds: it never panics for lack of space or
  for being outside a transaction.
\<close>

theorem log_space_reserved:
  assumes "res_start lg0" "LOGSIZE < lg_size lg0" "res_step\<^sup>*\<^sup>* (lg0, []) (lg, bs)" "i < length bs" "0 < bs ! i"
  shows "\<exists>lg' c'. log_write lg j c = Inr (lg', c')"
proof -
  have "res_inv (lg_size lg0) (lg0, [])"
    using assms(1) by (auto simp: res_start_def res_inv_def LOGSIZE_def MAXOPBLOCKS_def)
  then have inv: "res_inv (lg_size lg0) (lg, bs)" by (rule res_reachable [OF assms(3)])
  have "bs ! i \<le> sum_list bs" using assms(4) elem_le_sum_list by blast
  then have n: "lh_n lg < LOGSIZE" using inv assms(5) by (auto simp: res_inv_def)
  moreover obtain ds where "log_wf lg ds" "0 \<le> lh_n lg" "lh_n lg < lg_size lg - 1" "1 \<le> lg_outstanding lg"
    using inv n assms(2,4) by (auto simp: res_inv_def)
  ultimately obtain lg' where "log_write lg j c = Inr (lg', upd_buf j (\<lambda>x. x\<lparr>b_flags := b_flags x OR B_DIRTY\<rparr>) c)"
    using log_write_ok [of lg ds, OF _ _ _ _ _ refl] by blast
  then show ?thesis by blast
qed

theorem log_space_reserved_witness:
  "\<exists>lg'. res_step\<^sup>*\<^sup>* (example_log\<lparr>lg_size := 31\<rparr>, []) (example_log\<lparr>lg_size := 31, lg_outstanding := 1\<rparr>, [10]) \<and>
     (\<exists>c'. log_write (example_log\<lparr>lg_size := 31, lg_outstanding := 1\<rparr>) 0 zero_cache = Inr (lg', c'))"
proof -
  have st: "res_start (example_log\<lparr>lg_size := 31\<rparr>)"
    by (auto simp: res_start_def log_wf_def example_log_def log0_def intro!: exI [of _ 1000])
  have "begin_op (example_log\<lparr>lg_size := 31\<rparr>) = Inr (example_log\<lparr>lg_size := 31, lg_outstanding := 1\<rparr>)"
    by (simp add: begin_op_def example_log_def log0_def LOGSIZE_def MAXOPBLOCKS_def)
  from begins [OF this, of "[]"]
  have r: "res_step\<^sup>*\<^sup>* (example_log\<lparr>lg_size := 31\<rparr>, []) (example_log\<lparr>lg_size := 31, lg_outstanding := 1\<rparr>, [10])"
    by (simp add: MAXOPBLOCKS_def)
  have "\<exists>lg' c'. log_write (example_log\<lparr>lg_size := 31, lg_outstanding := 1\<rparr>) 0 zero_cache = Inr (lg', c')"
    by (rule log_space_reserved [OF st _ r, of 0]) (simp_all add: LOGSIZE_def MAXOPBLOCKS_def)
  with r show ?thesis by blast
qed

text \<open>
  The log that \<open>mkfs\<close> makes has \<open>LOGSIZE\<close> blocks with its header. Three operations are admitted together, and
  log 29 distinct blocks between them.
\<close>

definition three_ops :: "nat \<Rightarrow> nat list" where
  "three_ops m = [10 - m, 10 - (m - 10), 10 - (m - 20)]"

definition one_buf :: "u32 \<Rightarrow> bcache" where
  "one_buf b = upd_buf 0 (\<lambda>x. x\<lparr>b_blockno := b\<rparr>) zero_cache"

lemma three_ops_step:
  assumes "m < 30"
  shows "\<exists>i<length (three_ops m). three_ops m ! i = Suc (three_ops (Suc m) ! i) \<and> (three_ops m)[i := three_ops (Suc m) ! i] = three_ops (Suc m)"
proof -
  consider "m < 10" | "10 \<le> m" "m < 20" | "20 \<le> m" using assms by linarith
  then show ?thesis
  proof cases
    case 1
    then show ?thesis by (intro exI [of _ 0]) (auto simp: three_ops_def)
  next
    case 2
    then show ?thesis by (intro exI [of _ 1]) (auto simp: three_ops_def)
  next
    case 3
    then show ?thesis using assms by (intro exI [of _ 2]) (auto simp: three_ops_def)
  qed
qed

lemma overcommit_run:
  assumes "m \<le> 29"
  shows "\<exists>lg. res_step\<^sup>*\<^sup>* (example_log, []) (lg, three_ops m) \<and> log_wf lg 1000 \<and> lh_n lg = int m \<and> lg_size lg = LOGSIZE \<and>
    lg_outstanding lg = 3 \<and> set (logged lg) \<subseteq> {b. unat b < 100 + m}"
  using assms
proof (induction m)
  case 0
  define l where "l k = example_log\<lparr>lg_outstanding := k\<rparr>" for k
  have b: "begin_op (l k) = Inr (l (k + 1))" if "k < 3" for k
    using that by (auto simp: begin_op_def l_def example_log_def log0_def LOGSIZE_def MAXOPBLOCKS_def)
  have ten: "nat MAXOPBLOCKS = 10" by (simp add: MAXOPBLOCKS_def)
  have "res_step (l 0, []) (l 1, [10])" "res_step (l 1, [10]) (l 2, [10, 10])" "res_step (l 2, [10, 10]) (l 3, [10, 10, 10])"
    using begins [OF b [of 0], of "[]"] begins [OF b [of 1], of "[10]"] begins [OF b [of 2], of "[10, 10]"] by (simp_all add: ten)
  then have "res_step\<^sup>*\<^sup>* (l 0, []) (l 3, [10, 10, 10])" by (meson converse_rtranclp_into_rtranclp rtranclp.rtrancl_refl)
  moreover have "l 0 = example_log" by (simp add: l_def example_log_def log0_def)
  ultimately show ?case
    by (intro exI [of _ "l 3"]) (auto simp: three_ops_def l_def example_log_def log0_def log_wf_def logged_def LOGSIZE_def MAXOPBLOCKS_def)
next
  case (Suc m)
  then obtain lg where lg: "res_step\<^sup>*\<^sup>* (example_log, []) (lg, three_ops m)" "log_wf lg 1000" "lh_n lg = int m" "lg_size lg = LOGSIZE"
    "lg_outstanding lg = 3" "set (logged lg) \<subseteq> {b. unat b < 100 + m}" by auto
  let ?b = "of_nat (100 + m) :: u32"
  have ub: "unat ?b = 100 + m" using Suc.prems by (simp only: unat_of_nat) simp
  then have new: "?b \<notin> set (logged lg)" using lg(6) by auto
  have blk: "b_blockno (bufs (one_buf ?b) 0) = ?b" by (simp add: one_buf_def)
  have pre: "0 \<le> lh_n lg" "lh_n lg < LOGSIZE" "lh_n lg < lg_size lg - 1" "1 \<le> lg_outstanding lg"
    using lg Suc.prems by (simp_all add: LOGSIZE_def MAXOPBLOCKS_def)
  obtain l where l: "log_write lg 0 (one_buf ?b) = Inr (l, upd_buf 0 (\<lambda>x. x\<lparr>b_flags := b_flags x OR B_DIRTY\<rparr>) (one_buf ?b))"
    "logged l = (if ?b \<in> set (logged lg) then logged lg else logged lg @ [?b])" "lh_n l = int (length (logged l))"
    "lg_start l = lg_start lg" "lg_size l = lg_size lg" "lg_outstanding l = lg_outstanding lg" "lg_committing l = lg_committing lg" "log_wf l 1000"
    by (rule log_write_ok [OF lg(2) pre blk])
  have len: "length (logged lg) = m" using lg(2,3) Suc.prems by (simp add: logged_def log_wf_def LOGSIZE_def MAXOPBLOCKS_def)
  obtain i where i: "i < length (three_ops m)" "three_ops m ! i = Suc (three_ops (Suc m) ! i)"
    "(three_ops m)[i := three_ops (Suc m) ! i] = three_ops (Suc m)" using three_ops_step [of m] Suc.prems by auto
  have "res_step (lg, three_ops m) (l, three_ops (Suc m))"
    using logs_new [OF i(1,2) _ l(1)] new blk i(3) by simp
  with lg(1) have "res_step\<^sup>*\<^sup>* (example_log, []) (l, three_ops (Suc m))" by (rule rtranclp.rtrancl_into_rtrancl)
  moreover have "set (logged l) \<subseteq> {b. unat b < 100 + Suc m}" using l(2) new lg(6) ub by auto
  ultimately show ?case using l lg new len by (intro exI [of _ l]) simp
qed

text \<open>
  C39. The reservation promises one block too many. On the log of \<open>mkfs\<close>, whose \<open>LOGSIZE\<close> blocks include the header,
  three operations can be admitted by \<open>begin_op\<close> and log 29 blocks, each within its \<open>MAXOPBLOCKS\<close>; the third may
  still log one more block, and \<open>log_write\<close> then panics.
\<close>

theorem log_overcommitted:
  "\<exists>lg. lg_size lg = LOGSIZE \<and> res_step\<^sup>*\<^sup>* (example_log, []) (lg, [0, 0, 1]) \<and>
     log_write lg j c = Inl (Panic ''too big a transaction'')"
proof -
  obtain lg where "res_step\<^sup>*\<^sup>* (example_log, []) (lg, three_ops 29)" "lh_n lg = 29" "lg_size lg = LOGSIZE"
    using overcommit_run [of 29] by auto
  moreover have "three_ops 29 = [0, 0, 1]" by (simp add: three_ops_def)
  ultimately show ?thesis by (intro exI [of _ lg]) (simp add: log_write_def LOGSIZE_def MAXOPBLOCKS_def)
qed

end
