(* ===== verification/Xv6_Fs.thy ===== *)
theory Xv6_Fs
  imports Xv6_Log Pool_Interface
begin

text \<open>
  The file system of xv6 (\<open>fs.c\<close>): block allocation, inodes and their cache, file contents, directories and path
  names. Its state is the blocks as the running transaction sees them: \<open>fs_bread\<close> and \<open>fs_log_write\<close> stand for
  \<open>bread\<close>, a change of the buffer, \<open>log_write\<close> and \<open>brelse\<close>, whose effect on that view \<open>Xv6_Log\<close> establishes
  (\<open>log_update_ok\<close>, \<open>read_block_ok\<close>). The blocks logged are recorded in order, each once, as the log does.
  Byte offsets and sizes are natural numbers once the source has checked them for overflow.
\<close>

section \<open>Layout\<close>

definition NDIRECT :: nat where "NDIRECT = 12"
definition NINDIRECT :: nat where "NINDIRECT = BSIZE div 4"
definition MAXFILE :: nat where "MAXFILE = NDIRECT + NINDIRECT"
definition IPB :: nat where "IPB = BSIZE div 64"    \<comment> \<open>\<open>sizeof (struct dinode)\<close> is 64\<close>
definition BPB :: nat where "BPB = BSIZE * 8"
definition DIRSIZ :: nat where "DIRSIZ = 14"
definition NINODE :: nat where "NINODE = 50"
definition NDEV :: int where "NDEV = 10"
definition T_DIR :: u16 where "T_DIR = 1"
definition T_FILE :: u16 where "T_FILE = 2"
definition T_DEV :: u16 where "T_DEV = 3"
definition ROOTDEV :: u32 where "ROOTDEV = 1"
definition ROOTINO :: u32 where "ROOTINO = 1"

definition IBLOCK :: "u32 \<Rightarrow> superblock \<Rightarrow> u32" where
  "IBLOCK i sb = of_nat (unat i div IPB) + sb_inodestart sb"

definition BBLOCK :: "nat \<Rightarrow> superblock \<Rightarrow> u32" where
  "BBLOCK b sb = of_nat (b div BPB) + sb_bmapstart sb"

record dinode =
  d_type :: u16
  d_major :: u16
  d_minor :: u16
  d_nlink :: u16
  d_size :: u32
  d_addrs :: "u32 list"

record inode =
  i_dev :: u32
  i_inum :: u32
  i_ref :: int
  i_lock :: sleeplock
  i_valid :: int
  i_type :: u16
  i_major :: u16
  i_minor :: u16
  i_nlink :: u16
  i_size :: u32
  i_addrs :: "u32 list"

record fs =
  blk :: "u32 \<Rightarrow> block"
  nblk :: nat
  logs :: "u32 list"
  fsb :: superblock
  icache :: "nat \<Rightarrow> inode"

text \<open>The fields of the inode at byte offset \<open>k\<close> of its block.\<close>

definition get_dinode :: "block \<Rightarrow> nat \<Rightarrow> dinode" where
  "get_dinode d k = \<lparr>d_type = get16 d k, d_major = get16 d (k + 2), d_minor = get16 d (k + 4), d_nlink = get16 d (k + 6),
     d_size = get32 d (k + 8), d_addrs = map (\<lambda>j. get32 d (k + 12 + 4 * j)) [0..<NDIRECT + 1]\<rparr>"

fun put_words :: "block \<Rightarrow> nat \<Rightarrow> u32 list \<Rightarrow> block" where
  "put_words d k [] = d"
| "put_words d k (w # ws) = put_words (put32 d k w) (k + 4) ws"

definition put_dinode :: "block \<Rightarrow> nat \<Rightarrow> dinode \<Rightarrow> block" where
  "put_dinode d k n =
     put_words (put32 (put16 (put16 (put16 (put16 d k (d_type n)) (k + 2) (d_major n)) (k + 4) (d_minor n)) (k + 6) (d_nlink n))
       (k + 8) (d_size n)) (k + 12) (d_addrs n)"

definition dinode_off :: "u32 \<Rightarrow> nat" where
  "dinode_off i = 64 * (unat i mod IPB)"

section \<open>Blocks\<close>

definition fs_bread :: "u32 \<Rightarrow> fs \<Rightarrow> block c_result" where
  "fs_bread b s = (if unat b < nblk s then Inr (blk s b) else Inl (Panic ''iderw: block out of range''))"

definition fs_log_write :: "u32 \<Rightarrow> block \<Rightarrow> fs \<Rightarrow> fs" where
  "fs_log_write b d s = s\<lparr>blk := (blk s)(b := d), logs := (if b \<in> set (logs s) then logs s else logs s @ [b])\<rparr>"

definition fs_readsb :: "fs \<Rightarrow> fs c_result" where    \<comment> \<open>\<open>readsb(dev, &sb)\<close>\<close>
  "fs_readsb s = bindE (fs_bread 1 s) (\<lambda>d. Inr (s\<lparr>fsb := superblock_of d\<rparr>))"

definition bzero :: "u32 \<Rightarrow> fs \<Rightarrow> fs c_result" where
  "bzero bno s = bindE (fs_bread bno s) (\<lambda>_. Inr (fs_log_write bno (replicate BSIZE 0) s))"

definition bit_used :: "block \<Rightarrow> nat \<Rightarrow> bool" where
  "bit_used d bi \<longleftrightarrow> d ! (bi div 8) AND push_bit (bi mod 8) 1 \<noteq> 0"

definition set_bit_used :: "block \<Rightarrow> nat \<Rightarrow> block" where
  "set_bit_used d bi = d[bi div 8 := d ! (bi div 8) OR push_bit (bi mod 8) 1]"

definition clear_bit_used :: "block \<Rightarrow> nat \<Rightarrow> block" where
  "clear_bit_used d bi = d[bi div 8 := d ! (bi div 8) AND NOT (push_bit (bi mod 8) 1)]"

text \<open>The inner loop of \<open>balloc\<close>, \<open>k\<close> bits from \<open>bi\<close>, and the outer one, \<open>k\<close> bitmap blocks from block number \<open>b\<close>.\<close>

fun balloc_scan :: "block \<Rightarrow> nat \<Rightarrow> nat \<Rightarrow> nat option" where
  "balloc_scan d 0 bi = None"
| "balloc_scan d (Suc k) bi = (if \<not> bit_used d bi then Some bi else balloc_scan d k (Suc bi))"

fun balloc_from :: "nat \<Rightarrow> nat \<Rightarrow> fs \<Rightarrow> (u32 \<times> fs) c_result" where
  "balloc_from 0 b s = Inl (Panic ''balloc: out of blocks'')"
| "balloc_from (Suc k) b s =
     (if b < unat (sb_size (fsb s))
      then bindE (fs_bread (BBLOCK b (fsb s)) s) (\<lambda>d.
           case balloc_scan d (min BPB (unat (sb_size (fsb s)) - b)) 0 of
             Some bi \<Rightarrow>
               bindE (bzero (of_nat (b + bi)) (fs_log_write (BBLOCK b (fsb s)) (set_bit_used d bi) s)) (\<lambda>s.
               Inr (of_nat (b + bi), s))
           | None \<Rightarrow> balloc_from k (b + BPB) s)
      else Inl (Panic ''balloc: out of blocks''))"

definition balloc :: "fs \<Rightarrow> (u32 \<times> fs) c_result" where
  "balloc s = balloc_from (unat (sb_size (fsb s)) div BPB + 1) 0 s"

definition bfree :: "u32 \<Rightarrow> fs \<Rightarrow> fs c_result" where
  "bfree b s =
     bindE (fs_readsb s) (\<lambda>s.
     bindE (fs_bread (BBLOCK (unat b) (fsb s)) s) (\<lambda>d.
     (let bi = unat b mod BPB
      in if \<not> bit_used d bi then Inl (Panic ''freeing free block'')
         else Inr (fs_log_write (BBLOCK (unat b) (fsb s)) (clear_bit_used d bi) s))))"

section \<open>Inodes\<close>

definition upd_inode :: "nat \<Rightarrow> (inode \<Rightarrow> inode) \<Rightarrow> fs \<Rightarrow> fs" where
  "upd_inode i f s = s\<lparr>icache := (icache s)(i := f (icache s i))\<rparr>"

definition iinit :: "fs \<Rightarrow> fs c_result" where
  "iinit s = fs_readsb (s\<lparr>icache := (\<lambda>i. if i < NINODE then (icache s i)\<lparr>i_lock := initsleeplock\<rparr> else icache s i)\<rparr>)"

text \<open>The scan of \<open>iget\<close>: the entry of the inode, or else the first empty one.\<close>

fun iget_scan :: "(nat \<Rightarrow> inode) \<Rightarrow> u32 \<Rightarrow> u32 \<Rightarrow> nat \<Rightarrow> nat \<Rightarrow> nat option \<Rightarrow> nat option \<times> nat option" where
  "iget_scan c dev inum 0 i em = (None, em)"
| "iget_scan c dev inum (Suc k) i em =
     (if i_ref (c i) > 0 \<and> i_dev (c i) = dev \<and> i_inum (c i) = inum then (Some i, em)
      else iget_scan c dev inum k (Suc i) (if em = None \<and> i_ref (c i) = 0 then Some i else em))"

definition iget :: "u32 \<Rightarrow> u32 \<Rightarrow> fs \<Rightarrow> (nat \<times> fs) c_result" where
  "iget dev inum s =
     (case iget_scan (icache s) dev inum NINODE 0 None of
        (Some i, _) \<Rightarrow> Inr (i, upd_inode i (\<lambda>x. x\<lparr>i_ref := i_ref x + 1\<rparr>) s)
      | (None, None) \<Rightarrow> Inl (Panic ''iget: no inodes'')
      | (None, Some i) \<Rightarrow> Inr (i, upd_inode i (\<lambda>x. x\<lparr>i_dev := dev, i_inum := inum, i_ref := 1, i_valid := 0\<rparr>) s))"

fun ialloc_from :: "nat \<Rightarrow> nat \<Rightarrow> u32 \<Rightarrow> u16 \<Rightarrow> fs \<Rightarrow> (nat \<times> fs) c_result" where
  "ialloc_from 0 inum dev type s = Inl (Panic ''ialloc: no inodes'')"
| "ialloc_from (Suc k) inum dev type s =
     bindE (fs_bread (IBLOCK (of_nat inum) (fsb s)) s) (\<lambda>d.
     if d_type (get_dinode d (dinode_off (of_nat inum))) = 0
     then iget dev (of_nat inum) (fs_log_write (IBLOCK (of_nat inum) (fsb s))
            (put_dinode d (dinode_off (of_nat inum))
               \<lparr>d_type = type, d_major = 0, d_minor = 0, d_nlink = 0, d_size = 0, d_addrs = replicate (NDIRECT + 1) 0\<rparr>) s)
     else ialloc_from k (Suc inum) dev type s)"

definition ialloc :: "u32 \<Rightarrow> u16 \<Rightarrow> fs \<Rightarrow> (nat \<times> fs) c_result" where
  "ialloc dev type s = ialloc_from (unat (sb_ninodes (fsb s)) - 1) 1 dev type s"

definition dinode_of :: "inode \<Rightarrow> dinode" where
  "dinode_of ip = \<lparr>d_type = i_type ip, d_major = i_major ip, d_minor = i_minor ip, d_nlink = i_nlink ip,
     d_size = i_size ip, d_addrs = i_addrs ip\<rparr>"

definition iupdate :: "nat \<Rightarrow> fs \<Rightarrow> fs c_result" where
  "iupdate i s =
     (let ip = icache s i; b = IBLOCK (i_inum ip) (fsb s)
      in bindE (fs_bread b s) (\<lambda>d. Inr (fs_log_write b (put_dinode d (dinode_off (i_inum ip)) (dinode_of ip)) s)))"

definition idup :: "nat \<Rightarrow> fs \<Rightarrow> nat \<times> fs" where
  "idup i s = (i, upd_inode i (\<lambda>x. x\<lparr>i_ref := i_ref x + 1\<rparr>) s)"

definition load_dinode :: "dinode \<Rightarrow> inode \<Rightarrow> inode" where
  "load_dinode n ip = ip\<lparr>i_type := d_type n, i_major := d_major n, i_minor := d_minor n, i_nlink := d_nlink n,
     i_size := d_size n, i_addrs := d_addrs n\<rparr>"

definition ilock :: "int \<Rightarrow> nat option \<Rightarrow> fs \<Rightarrow> fs c_result" where
  "ilock pid p s =
     (case p of None \<Rightarrow> Inl (Panic ''ilock'')
      | Some i \<Rightarrow>
          if i_ref (icache s i) < 1 then Inl (Panic ''ilock'')
          else case acquiresleep pid (i_lock (icache s i)) of
             None \<Rightarrow> Inl Blocked
           | Some lk \<Rightarrow>
               (let s = upd_inode i (\<lambda>x. x\<lparr>i_lock := lk\<rparr>) s; ip = icache s i
                in if i_valid ip = 0
                   then bindE (fs_bread (IBLOCK (i_inum ip) (fsb s)) s) (\<lambda>d.
                        (let s = upd_inode i (\<lambda>x. (load_dinode (get_dinode d (dinode_off (i_inum ip))) x)\<lparr>i_valid := 1\<rparr>) s
                         in if i_type (icache s i) = 0 then Inl (Panic ''ilock: no type'') else Inr s))
                   else Inr s))"

definition iunlock :: "nat option \<Rightarrow> fs \<Rightarrow> fs c_result" where
  "iunlock p s =
     (case p of None \<Rightarrow> Inl (Panic ''iunlock'')
      | Some i \<Rightarrow>
          if \<not> holdingsleep (i_lock (icache s i)) \<or> i_ref (icache s i) < 1 then Inl (Panic ''iunlock'')
          else Inr (upd_inode i (\<lambda>x. x\<lparr>i_lock := releasesleep (i_lock x)\<rparr>) s))"

section \<open>Contents\<close>

definition bmap :: "nat \<Rightarrow> nat \<Rightarrow> fs \<Rightarrow> (u32 \<times> fs) c_result" where
  "bmap i bn s =
     (if bn < NDIRECT
      then (let addr = i_addrs (icache s i) ! bn
            in if addr = 0
               then bindE (balloc s) (\<lambda>(addr, s). Inr (addr, upd_inode i (\<lambda>x. x\<lparr>i_addrs := (i_addrs x)[bn := addr]\<rparr>) s))
               else Inr (addr, s))
      else if bn - NDIRECT < NINDIRECT
      then (let addr = i_addrs (icache s i) ! NDIRECT; bn = bn - NDIRECT
            in bindE (if addr = 0
                      then bindE (balloc s) (\<lambda>(addr, s).
                             Inr (addr, upd_inode i (\<lambda>x. x\<lparr>i_addrs := (i_addrs x)[NDIRECT := addr]\<rparr>) s))
                      else Inr (addr, s)) (\<lambda>(ind, s).
               bindE (fs_bread ind s) (\<lambda>a.
               if get32 a (4 * bn) = 0
               then bindE (balloc s) (\<lambda>(addr, s). Inr (addr, fs_log_write ind (put32 (blk s ind) (4 * bn) addr) s))
               else Inr (get32 a (4 * bn), s))))
      else Inl (Panic ''bmap: out of range''))"

fun itrunc_direct :: "nat \<Rightarrow> nat \<Rightarrow> nat \<Rightarrow> fs \<Rightarrow> fs c_result" where
  "itrunc_direct i 0 j s = Inr s"
| "itrunc_direct i (Suc k) j s =
     bindE (if i_addrs (icache s i) ! j \<noteq> 0
            then bindE (bfree (i_addrs (icache s i) ! j) s) (\<lambda>s.
                   Inr (upd_inode i (\<lambda>x. x\<lparr>i_addrs := (i_addrs x)[j := 0]\<rparr>) s))
            else Inr s) (\<lambda>s. itrunc_direct i k (Suc j) s)"

fun itrunc_indirect :: "block \<Rightarrow> nat \<Rightarrow> nat \<Rightarrow> fs \<Rightarrow> fs c_result" where
  "itrunc_indirect a 0 j s = Inr s"
| "itrunc_indirect a (Suc k) j s =
     bindE (if get32 a (4 * j) \<noteq> 0 then bfree (get32 a (4 * j)) s else Inr s) (\<lambda>s. itrunc_indirect a k (Suc j) s)"

definition itrunc :: "nat \<Rightarrow> fs \<Rightarrow> fs c_result" where
  "itrunc i s =
     bindE (itrunc_direct i NDIRECT 0 s) (\<lambda>s.
     bindE (if i_addrs (icache s i) ! NDIRECT \<noteq> 0
            then bindE (fs_bread (i_addrs (icache s i) ! NDIRECT) s) (\<lambda>a.
                 bindE (itrunc_indirect a NINDIRECT 0 s) (\<lambda>s.
                 bindE (bfree (i_addrs (icache s i) ! NDIRECT) s) (\<lambda>s.
                 Inr (upd_inode i (\<lambda>x. x\<lparr>i_addrs := (i_addrs x)[NDIRECT := 0]\<rparr>) s))))
            else Inr s) (\<lambda>s.
     iupdate i (upd_inode i (\<lambda>x. x\<lparr>i_size := 0\<rparr>) s)))"

definition iput :: "int \<Rightarrow> nat \<Rightarrow> fs \<Rightarrow> fs c_result" where
  "iput pid i s =
     (case acquiresleep pid (i_lock (icache s i)) of
        None \<Rightarrow> Inl Blocked
      | Some lk \<Rightarrow>
          (let s = upd_inode i (\<lambda>x. x\<lparr>i_lock := lk\<rparr>) s; ip = icache s i
           in bindE (if i_valid ip \<noteq> 0 \<and> i_nlink ip = 0 \<and> i_ref ip = 1
                     then bindE (itrunc i s) (\<lambda>s.
                          bindE (iupdate i (upd_inode i (\<lambda>x. x\<lparr>i_type := 0\<rparr>) s)) (\<lambda>s.
                          Inr (upd_inode i (\<lambda>x. x\<lparr>i_valid := 0\<rparr>) s)))
                     else Inr s) (\<lambda>s.
              Inr (upd_inode i (\<lambda>x. x\<lparr>i_lock := releasesleep (i_lock x), i_ref := i_ref x - 1\<rparr>) s))))"

definition iunlockput :: "int \<Rightarrow> nat \<Rightarrow> fs \<Rightarrow> fs c_result" where
  "iunlockput pid i s = bindE (iunlock (Some i) s) (iput pid i)"

record stat =
  st_type :: u16
  st_dev :: u32
  st_ino :: u32
  st_nlink :: u16
  st_size :: u32

definition stati :: "inode \<Rightarrow> stat" where
  "stati ip = \<lparr>st_type = i_type ip, st_dev = i_dev ip, st_ino = i_inum ip, st_nlink = i_nlink ip, st_size = i_size ip\<rparr>"

text \<open>
  A device table entry: what a read of at most \<open>n\<close> bytes returns and delivers, and what a write returns. It is filled
  at run time by the device drivers, so it is a parameter.
\<close>

record device =
  dev_read :: "u32 \<Rightarrow> int \<times> u8 list"
  dev_write :: "u8 list \<Rightarrow> int"

type_synonym devsw = "int \<Rightarrow> device option"

text \<open>The copying loops of \<open>readi\<close> and \<open>writei\<close> with \<open>r\<close> bytes to go. The bytes read are returned; those to write are given.\<close>

function readi_loop :: "nat \<Rightarrow> nat \<Rightarrow> nat \<Rightarrow> fs \<Rightarrow> (u8 list \<times> fs) c_result" where
  "readi_loop i off r s =
     (if r = 0 then Inr ([], s)
      else bindE (bmap i (off div BSIZE) s) (\<lambda>(addr, s).
           bindE (fs_bread addr s) (\<lambda>d.
           (let m = min r (BSIZE - off mod BSIZE)
            in bindE (readi_loop i (off + m) (r - m) s) (\<lambda>(bs, s). Inr (take m (drop (off mod BSIZE) d) @ bs, s))))))"
  by pat_completeness auto
termination
  by (relation "measure (\<lambda>(i, off, r, s). r)") (auto simp: BSIZE_def)

declare readi_loop.simps [simp del]

function writei_loop :: "nat \<Rightarrow> nat \<Rightarrow> u8 list \<Rightarrow> fs \<Rightarrow> fs c_result" where
  "writei_loop i off src s =
     (if src = [] then Inr s
      else bindE (bmap i (off div BSIZE) s) (\<lambda>(addr, s).
           bindE (fs_bread addr s) (\<lambda>d.
           (let m = min (length src) (BSIZE - off mod BSIZE)
            in writei_loop i (off + m) (drop m src)
                 (fs_log_write addr (splice d (off mod BSIZE) (take m src)) s)))))"
  by pat_completeness auto
termination
  by (relation "measure (\<lambda>(i, off, src, s). length src)") (auto simp: BSIZE_def min_def)

declare writei_loop.simps [simp del]

definition readi :: "devsw \<Rightarrow> nat \<Rightarrow> u32 \<Rightarrow> u32 \<Rightarrow> fs \<Rightarrow> (int \<times> u8 list \<times> fs) c_result" where
  "readi dv i off n s =
     (let ip = icache s i
      in if i_type ip = T_DEV
         then (if sint (i_major ip) < 0 \<or> sint (i_major ip) \<ge> NDEV then Inr (-1, [], s)
               else case dv (sint (i_major ip)) of None \<Rightarrow> Inr (-1, [], s)
                    | Some d \<Rightarrow> (case dev_read d n of (r, bs) \<Rightarrow> Inr (r, bs, s)))
         else if off > i_size ip \<or> off + n < off then Inr (-1, [], s)
         else (let n = (if off + n > i_size ip then i_size ip - off else n)
               in bindE (readi_loop i (unat off) (unat n) s) (\<lambda>(bs, s). Inr (int (unat n), bs, s))))"

definition writei :: "devsw \<Rightarrow> nat \<Rightarrow> u8 list \<Rightarrow> u32 \<Rightarrow> u32 \<Rightarrow> fs \<Rightarrow> (int \<times> fs) c_result" where
  "writei dv i src off n s =
     (let ip = icache s i
      in if i_type ip = T_DEV
         then (if sint (i_major ip) < 0 \<or> sint (i_major ip) \<ge> NDEV then Inr (-1, s)
               else case dv (sint (i_major ip)) of None \<Rightarrow> Inr (-1, s)
                    | Some d \<Rightarrow> Inr (dev_write d (take (unat n) src), s))
         else if off > i_size ip \<or> off + n < off then Inr (-1, s)
         else if unat (off + n) > MAXFILE * BSIZE then Inr (-1, s)
         else bindE (writei_loop i (unat off) (take (unat n) src) s) (\<lambda>s.
              if n > 0 \<and> off + n > i_size (icache s i)
              then bindE (iupdate i (upd_inode i (\<lambda>x. x\<lparr>i_size := off + n\<rparr>) s)) (\<lambda>s. Inr (int (unat n), s))
              else Inr (int (unat n), s)))"

section \<open>Directories\<close>

text \<open>\<open>strncmp\<close> and \<open>strncpy\<close> of \<open>string.c\<close> on the bytes of two strings; beyond its end a string reads as NUL.\<close>

fun cstrncmp :: "nat \<Rightarrow> u8 list \<Rightarrow> u8 list \<Rightarrow> int" where
  "cstrncmp 0 p q = 0"
| "cstrncmp (Suc n) p q =
     (let a = (case p of [] \<Rightarrow> 0 | x # _ \<Rightarrow> x); b = (case q of [] \<Rightarrow> 0 | x # _ \<Rightarrow> x)
      in if a \<noteq> 0 \<and> a = b then cstrncmp n (tl p) (tl q) else uint a - uint b)"

definition namecmp :: "u8 list \<Rightarrow> u8 list \<Rightarrow> int" where
  "namecmp s t = cstrncmp DIRSIZ s t"

definition cstr :: "u8 list \<Rightarrow> u8 list" where    \<comment> \<open>the bytes before the NUL\<close>
  "cstr s = takeWhile (\<lambda>c. c \<noteq> 0) s"

definition dir_name :: "u8 list \<Rightarrow> u8 list" where    \<comment> \<open>\<open>strncpy(de.name, name, DIRSIZ)\<close>\<close>
  "dir_name s = (let t = take DIRSIZ (cstr s) in t @ replicate (DIRSIZ - length t) 0)"

definition DIRENT :: nat where "DIRENT = 16"    \<comment> \<open>\<open>sizeof (struct dirent)\<close>\<close>

definition de_inum :: "u8 list \<Rightarrow> u16" where
  "de_inum de = get16 de 0"

definition de_name :: "u8 list \<Rightarrow> u8 list" where
  "de_name de = take DIRSIZ (drop 2 de)"

definition mk_dirent :: "u16 \<Rightarrow> u8 list \<Rightarrow> u8 list" where
  "mk_dirent inum name = [ucast inum, ucast (drop_bit 8 inum)] @ dir_name name"

text \<open>The loop of \<open>dirlookup\<close>, \<open>k\<close> entries from offset \<open>off\<close>: the inode number and the offset of the match.\<close>

fun dirlookup_from :: "devsw \<Rightarrow> nat \<Rightarrow> u8 list \<Rightarrow> nat \<Rightarrow> nat \<Rightarrow> fs \<Rightarrow> ((u16 \<times> nat) option \<times> fs) c_result" where
  "dirlookup_from dv dp name 0 off s = Inr (None, s)"
| "dirlookup_from dv dp name (Suc k) off s =
     bindE (readi dv dp (of_nat off) (of_nat DIRENT) s) (\<lambda>(r, de, s).
     if r \<noteq> int DIRENT then Inl (Panic ''dirlookup read'')
     else if de_inum de = 0 then dirlookup_from dv dp name k (off + DIRENT) s
     else if namecmp name (de_name de) = 0 then Inr (Some (de_inum de, off), s)
     else dirlookup_from dv dp name k (off + DIRENT) s)"

definition dir_slots :: "nat \<Rightarrow> nat" where    \<comment> \<open>iterations of \<open>for(off = 0; off < size; off += sizeof(de))\<close>\<close>
  "dir_slots n = (n + DIRENT - 1) div DIRENT"

definition dirlookup :: "devsw \<Rightarrow> nat \<Rightarrow> u8 list \<Rightarrow> fs \<Rightarrow> ((nat \<times> nat) option \<times> fs) c_result" where
  "dirlookup dv dp name s =
     (if i_type (icache s dp) \<noteq> T_DIR then Inl (Panic ''dirlookup not DIR'')
      else bindE (dirlookup_from dv dp name (dir_slots (unat (i_size (icache s dp)))) 0 s) (\<lambda>(r, s).
           case r of None \<Rightarrow> Inr (None, s)
           | Some (inum, off) \<Rightarrow> bindE (iget (i_dev (icache s dp)) (ucast inum) s) (\<lambda>(ip, s). Inr (Some (ip, off), s))))"

fun dirlink_from :: "devsw \<Rightarrow> nat \<Rightarrow> nat \<Rightarrow> nat \<Rightarrow> fs \<Rightarrow> (nat \<times> fs) c_result" where
  "dirlink_from dv dp 0 off s = Inr (off, s)"
| "dirlink_from dv dp (Suc k) off s =
     bindE (readi dv dp (of_nat off) (of_nat DIRENT) s) (\<lambda>(r, de, s).
     if r \<noteq> int DIRENT then Inl (Panic ''dirlink read'')
     else if de_inum de = 0 then Inr (off, s)
     else dirlink_from dv dp k (off + DIRENT) s)"

definition dirlink :: "int \<Rightarrow> devsw \<Rightarrow> nat \<Rightarrow> u8 list \<Rightarrow> u16 \<Rightarrow> fs \<Rightarrow> (int \<times> fs) c_result" where
  "dirlink pid dv dp name inum s =
     bindE (dirlookup dv dp name s) (\<lambda>(r, s).
     case r of
       Some (ip, _) \<Rightarrow> bindE (iput pid ip s) (\<lambda>s. Inr (-1, s))
     | None \<Rightarrow>
         bindE (dirlink_from dv dp (dir_slots (unat (i_size (icache s dp)))) 0 s) (\<lambda>(off, s).
         bindE (writei dv dp (mk_dirent inum name) (of_nat off) (of_nat DIRENT) s) (\<lambda>(r, s).
         if r \<noteq> int DIRENT then Inl (Panic ''dirlink'') else Inr (0, s))))"

section \<open>Paths\<close>

definition slash :: u8 where "slash = 0x2F"

text \<open>A path is its bytes before the NUL. The name buffer has \<open>DIRSIZ\<close> bytes.\<close>

definition skipelem :: "u8 list \<Rightarrow> (u8 list \<times> u8 list) option" where
  "skipelem path =
     (let path = dropWhile (\<lambda>c. c = slash) path
      in if path = [] then None
         else (let s = takeWhile (\<lambda>c. c \<noteq> slash) path;
                   rest = dropWhile (\<lambda>c. c = slash) (dropWhile (\<lambda>c. c \<noteq> slash) path)
               in Some (rest, if length s \<ge> DIRSIZ then take DIRSIZ s else s)))"

lemma skipelem_shorter: "skipelem path = Some (rest, name) \<Longrightarrow> length rest < length path"
proof -
  assume *: "skipelem path = Some (rest, name)"
  define p where "p = dropWhile (\<lambda>c. c = slash) path"
  have p: "p \<noteq> []" and rest: "rest = dropWhile (\<lambda>c. c = slash) (dropWhile (\<lambda>c. c \<noteq> slash) p)"
    using * by (auto simp: skipelem_def p_def Let_def split: if_splits)
  have "hd p \<noteq> slash" using p hd_dropWhile unfolding p_def by blast
  then have "length (dropWhile (\<lambda>c. c \<noteq> slash) p) < length p"
    using p by (cases p) (auto simp: less_Suc_eq_le length_dropWhile_le)
  moreover have "length p \<le> length path" by (simp add: p_def length_dropWhile_le)
  moreover have "length rest \<le> length (dropWhile (\<lambda>c. c \<noteq> slash) p)" by (simp add: rest length_dropWhile_le)
  ultimately show ?thesis by simp
qed

function namex_loop :: "int \<Rightarrow> devsw \<Rightarrow> bool \<Rightarrow> nat \<Rightarrow> u8 list \<Rightarrow> u8 list \<Rightarrow> fs \<Rightarrow>
    (nat option \<times> u8 list \<times> fs) c_result" where
  "namex_loop pid dv parent ip path name s =
     (case skipelem path of
        None \<Rightarrow>
          if parent then bindE (iput pid ip s) (\<lambda>s. Inr (None, name, s)) else Inr (Some ip, name, s)
      | Some (rest, name) \<Rightarrow>
          bindE (ilock pid (Some ip) s) (\<lambda>s.
          if i_type (icache s ip) \<noteq> T_DIR then bindE (iunlockput pid ip s) (\<lambda>s. Inr (None, name, s))
          else if parent \<and> rest = [] then bindE (iunlock (Some ip) s) (\<lambda>s. Inr (Some ip, name, s))
          else bindE (dirlookup dv ip name s) (\<lambda>(r, s).
               case r of None \<Rightarrow> bindE (iunlockput pid ip s) (\<lambda>s. Inr (None, name, s))
               | Some (nxt, _) \<Rightarrow>
                   bindE (iunlockput pid ip s) (\<lambda>s. namex_loop pid dv parent nxt rest name s))))"
  by pat_completeness auto
termination
  by (relation "measure (\<lambda>(pid, dv, parent, ip, path, name, s). length path)") (auto simp: skipelem_shorter)

declare namex_loop.simps [simp del]

definition namex :: "int \<Rightarrow> devsw \<Rightarrow> nat \<Rightarrow> u8 list \<Rightarrow> bool \<Rightarrow> fs \<Rightarrow> (nat option \<times> u8 list \<times> fs) c_result" where
  "namex pid dv cwd path parent s =
     bindE (if path \<noteq> [] \<and> hd path = slash then iget ROOTDEV ROOTINO s else Inr (idup cwd s)) (\<lambda>(ip, s).
     namex_loop pid dv parent ip path [] s)"

definition namei :: "int \<Rightarrow> devsw \<Rightarrow> nat \<Rightarrow> u8 list \<Rightarrow> fs \<Rightarrow> (nat option \<times> fs) c_result" where
  "namei pid dv cwd path s = bindE (namex pid dv cwd path False s) (\<lambda>(ip, _, s). Inr (ip, s))"

definition nameiparent :: "int \<Rightarrow> devsw \<Rightarrow> nat \<Rightarrow> u8 list \<Rightarrow> fs \<Rightarrow> (nat option \<times> u8 list \<times> fs) c_result" where
  "nameiparent pid dv cwd path s = namex pid dv cwd path True s"

end
