(* ===== verification/Xv6_Fs_Alloc.thy ===== *)
theory Xv6_Fs_Alloc
  imports Xv6_Fs
begin

text \<open>
  The block allocator of \<open>fs.c\<close>. \<open>fs_wf\<close> is the layout that \<open>mkfs\<close> produces: super block, inode blocks, bitmap and
  data blocks lie in this order, and the bitmap marks everything before the data blocks as used. \<open>balloc\<close>
  hands out a zeroed data block that the bitmap marks free, and \<open>bfree\<close> takes it back.
\<close>

section \<open>Bits of a block\<close>

lemma bit_used_iff: "bit_used d bi \<longleftrightarrow> bit (d ! (bi div 8)) (bi mod 8)"
  unfolding bit_used_def using and_exp_eq_0_iff_not_bit [of "d ! (bi div 8)" "bi mod 8"] by (simp add: push_bit_eq_mult)

lemma length_bits [simp]: "length (set_bit_used d i) = length d" "length (clear_bit_used d i) = length d"
  by (simp_all add: set_bit_used_def clear_bit_used_def)

lemma div_mod_8: "i = j \<longleftrightarrow> i div 8 = j div 8 \<and> i mod 8 = j mod 8" for i j :: nat
  by (metis div_mult_mod_eq)

lemma bit_mask8: "k < 8 \<Longrightarrow> bit (2 ^ k :: u8) n \<longleftrightarrow> n = k"
  by (auto simp: bit_exp_iff possible_bit_word)

lemma bit_used_set: "i div 8 < length d \<Longrightarrow> bit_used (set_bit_used d i) j \<longleftrightarrow> j = i \<or> bit_used d j"
proof (cases "i div 8 = j div 8")
  case True
  assume "i div 8 < length d"
  with True show ?thesis
    by (simp add: bit_used_iff set_bit_used_def bit_or_iff bit_mask8 div_mod_8 [of j i]) blast
next
  case False
  then show ?thesis by (auto simp: bit_used_iff set_bit_used_def)
qed

lemma bit_used_clear: "i div 8 < length d \<Longrightarrow> bit_used (clear_bit_used d i) j \<longleftrightarrow> j \<noteq> i \<and> bit_used d j"
proof (cases "i div 8 = j div 8")
  case True
  assume "i div 8 < length d"
  moreover have "j mod 8 < 8" by simp
  ultimately show ?thesis using True
    by (simp add: bit_used_iff clear_bit_used_def bit_and_iff bit_not_iff bit_mask8 div_mod_8 [of j i]) auto
next
  case False
  then show ?thesis by (auto simp: bit_used_iff clear_bit_used_def)
qed

lemma fs_log_write_fields [simp]:
  "fsb (fs_log_write b d s) = fsb s" "nblk (fs_log_write b d s) = nblk s" "icache (fs_log_write b d s) = icache s"
  "blk (fs_log_write b d s) = (blk s)(b := d)"
  by (simp_all add: fs_log_write_def)

section \<open>The layout\<close>

definition data_start :: "superblock \<Rightarrow> nat" where
  "data_start sb = unat (sb_bmapstart sb) + unat (sb_size sb) div BPB + 1"

definition layout_ok :: "superblock \<Rightarrow> nat \<Rightarrow> bool" where
  "layout_ok sb n \<longleftrightarrow> 1 < unat (sb_inodestart sb) \<and>
     unat (sb_inodestart sb) + unat (sb_ninodes sb) div IPB + 1 \<le> unat (sb_bmapstart sb) \<and>
     data_start sb \<le> unat (sb_size sb) \<and> unat (sb_size sb) \<le> n \<and> n < 2 ^ 31"

definition used :: "fs \<Rightarrow> nat \<Rightarrow> bool" where
  "used s b \<longleftrightarrow> bit_used (blk s (BBLOCK b (fsb s))) (b mod BPB)"

definition free_blocks :: "fs \<Rightarrow> u32 set" where
  "free_blocks s = {b. unat b < unat (sb_size (fsb s)) \<and> \<not> used s (unat b)}"

definition is_data :: "fs \<Rightarrow> u32 \<Rightarrow> bool" where
  "is_data s b \<longleftrightarrow> data_start (fsb s) \<le> unat b \<and> unat b < unat (sb_size (fsb s))"

definition is_bitmap :: "fs \<Rightarrow> u32 \<Rightarrow> bool" where
  "is_bitmap s b \<longleftrightarrow> unat (sb_bmapstart (fsb s)) \<le> unat b \<and> unat b < data_start (fsb s)"

definition fs_wf :: "fs \<Rightarrow> bool" where
  "fs_wf s \<longleftrightarrow> layout_ok (fsb s) (nblk s) \<and> superblock_of (blk s 1) = fsb s \<and> (\<forall>b. length (blk s b) = BSIZE) \<and>
     (\<forall>b < data_start (fsb s). used s b)"

lemma fs_wfD:
  assumes "fs_wf s"
  shows "layout_ok (fsb s) (nblk s)" "superblock_of (blk s 1) = fsb s" "length (blk s b) = BSIZE"
    "n < data_start (fsb s) \<Longrightarrow> used s n" "nblk s < 2 ^ 31" "unat (sb_size (fsb s)) \<le> nblk s"
    "1 < unat (sb_inodestart (fsb s))"
    "unat (sb_inodestart (fsb s)) + unat (sb_ninodes (fsb s)) div IPB + 1 \<le> unat (sb_bmapstart (fsb s))"
    "data_start (fsb s) \<le> unat (sb_size (fsb s))" "unat (sb_bmapstart (fsb s)) < data_start (fsb s)"
    "1 < nblk s"
  using assms by (auto simp: fs_wf_def layout_ok_def data_start_def)

lemma of_nat_unat_u32: "of_nat (unat b) = (b :: u32)"
  by simp

lemma BBLOCK_unat:
  assumes "fs_wf s" "b < unat (sb_size (fsb s))"
  shows "unat (BBLOCK b (fsb s)) = unat (sb_bmapstart (fsb s)) + b div BPB" "is_bitmap s (BBLOCK b (fsb s))"
    "unat (BBLOCK b (fsb s)) < nblk s"
proof -
  have le: "b div BPB \<le> unat (sb_size (fsb s)) div BPB" using assms(2) by (simp add: div_le_mono)
  then have lt: "unat (sb_bmapstart (fsb s)) + b div BPB < data_start (fsb s)" by (simp add: data_start_def)
  then have sm: "unat (sb_bmapstart (fsb s)) + b div BPB < 2 ^ 31" using fs_wfD(5,6,9) [OF assms(1)] by simp
  have "BBLOCK b (fsb s) = of_nat (unat (sb_bmapstart (fsb s)) + b div BPB)" by (simp add: BBLOCK_def)
  then show u: "unat (BBLOCK b (fsb s)) = unat (sb_bmapstart (fsb s)) + b div BPB"
    using unat_of_nat_small [OF sm] by simp
  then show "is_bitmap s (BBLOCK b (fsb s))" "unat (BBLOCK b (fsb s)) < nblk s"
    using lt fs_wfD(6,9) [OF assms(1)] by (auto simp: is_bitmap_def)
qed

lemma free_is_data: "fs_wf s \<Longrightarrow> b \<in> free_blocks s \<Longrightarrow> is_data s b"
  using fs_wfD(4) [of s "unat b"] by (force simp: free_blocks_def is_data_def)

lemma data_not_bitmap: "is_data s b \<Longrightarrow> \<not> is_bitmap s b"
  by (simp add: is_data_def is_bitmap_def)

lemma finite_free: "finite (free_blocks s)"
  by simp

lemma bits_in_block: "bi < BPB \<Longrightarrow> length d = BSIZE \<Longrightarrow> bi div 8 < length d"
  by (simp add: BPB_def BSIZE_def)

section \<open>balloc\<close>

lemma balloc_scan_find: "balloc_scan d k bi = find (\<lambda>j. \<not> bit_used d j) [bi..<bi + k]"
proof (induction k arbitrary: bi)
  case (Suc k)
  then show ?case unfolding upt_step by simp
qed simp

text \<open>What changes when the bitmap bit of block \<open>b\<close> is set or cleared.\<close>

lemma mark_wf:
  assumes wf: "fs_wf s" and b: "b < unat (sb_size (fsb s))" and d: "length d = BSIZE"
    and bits: "\<And>j. j < BPB \<Longrightarrow> bit_used d j \<longleftrightarrow> (if j = b mod BPB then v else bit_used (blk s (BBLOCK b (fsb s))) j)"
    and keep: "b < data_start (fsb s) \<Longrightarrow> v"
  defines "s' \<equiv> fs_log_write (BBLOCK b (fsb s)) d s"
  shows "fs_wf s'" "c < unat (sb_size (fsb s)) \<Longrightarrow> used s' c \<longleftrightarrow> (if c = b then v else used s c)"
    "fsb s' = fsb s" "nblk s' = nblk s" "icache s' = icache s" "\<not> is_bitmap s x \<Longrightarrow> blk s' x = blk s x"
proof -
  note f = fs_wfD [OF wf] and B = BBLOCK_unat [OF wf]
  show sb: "fsb s' = fsb s" "nblk s' = nblk s" "icache s' = icache s" by (simp_all add: s'_def fs_log_write_def)
  show other: "blk s' x = blk s x" if "\<not> is_bitmap s x" for x
    using that B(2) [OF b] by (auto simp: s'_def fs_log_write_def)
  have u: "used s' c \<longleftrightarrow> (if c = b then v else used s c)" if c: "c < unat (sb_size (fsb s))" for c
  proof (cases "BBLOCK c (fsb s) = BBLOCK b (fsb s)")
    case True
    then have "c div BPB = b div BPB" using B(1) [OF c] B(1) [OF b] by (metis add_left_cancel)
    then have "c = b \<longleftrightarrow> c mod BPB = b mod BPB" by (metis div_mult_mod_eq)
    moreover have "c mod BPB < BPB" by (simp add: BPB_def BSIZE_def)
    ultimately show ?thesis using True bits by (simp add: used_def s'_def)
  next
    case False
    then show ?thesis by (auto simp: used_def s'_def)
  qed
  then show "used s' c \<longleftrightarrow> (if c = b then v else used s c)" if "c < unat (sb_size (fsb s))" using that .
  have "\<not> is_bitmap s 1" using f(7,8) by (simp add: is_bitmap_def)
  then have "superblock_of (blk s' 1) = fsb s'" using other f(2) sb by simp
  moreover have "length (blk s' x) = BSIZE" for x using f(3) d by (simp add: s'_def fs_log_write_def)
  moreover have "used s' c" if "c < data_start (fsb s')" for c
    using u [of c] f(4) [of c] that sb f(9) keep by (cases "c = b") auto
  ultimately show "fs_wf s'" using f(1) sb by (simp add: fs_wf_def)
qed

text \<open>A data block written.\<close>

lemma data_write_wf:
  assumes wf: "fs_wf s" and b: "is_data s b" and d: "length d = BSIZE"
  shows "fs_wf (fs_log_write b d s)" "free_blocks (fs_log_write b d s) = free_blocks s"
    "c < unat (sb_size (fsb s)) \<Longrightarrow> used (fs_log_write b d s) c \<longleftrightarrow> used s c"
proof -
  let ?s = "fs_log_write b d s"
  note f = fs_wfD [OF wf] and B = BBLOCK_unat [OF wf]
  have u: "used ?s c \<longleftrightarrow> used s c" if "c < unat (sb_size (fsb s))" for c
    using B(2) [OF that] data_not_bitmap [OF b] by (auto simp: used_def fs_log_write_def)
  have "b \<noteq> 1" using b f(7,8) by (auto simp: is_data_def data_start_def)
  moreover have "used ?s c" if "c < data_start (fsb s)" for c using u [of c] f(4) [OF that] that f(9) by simp
  ultimately show "fs_wf ?s"
    using f d by (auto simp: fs_wf_def)
  show "free_blocks ?s = free_blocks s" using u by (auto simp: free_blocks_def)
  show "used ?s c \<longleftrightarrow> used s c" if "c < unat (sb_size (fsb s))" using u that .
qed

text \<open>The block \<open>balloc\<close> hands out is the first free one.\<close>

lemma balloc_from_ok:
  assumes wf: "fs_wf s" and k: "unat (sb_size (fsb s)) < (b div BPB + k) * BPB" and b: "b mod BPB = 0"
    and below: "\<And>c. c < b \<Longrightarrow> c < unat (sb_size (fsb s)) \<Longrightarrow> used s c"
  shows "(free_blocks s = {} \<and> balloc_from k b s = Inl (Panic ''balloc: out of blocks'')) \<or>
    (\<exists>c. c \<in> free_blocks s \<and> balloc_from k b s = Inr (c, fs_log_write c (replicate BSIZE 0)
       (fs_log_write (BBLOCK (unat c) (fsb s)) (set_bit_used (blk s (BBLOCK (unat c) (fsb s))) (unat c mod BPB)) s)))"
  using k b below
proof (induction k arbitrary: b)
  case 0
  then have "unat (sb_size (fsb s)) < b" using div_mult_mod_eq [of b BPB] by simp
  with 0(3) have "free_blocks s = {}" by (auto simp: free_blocks_def)
  then show ?case by simp
next
  case (Suc k)
  let ?sz = "unat (sb_size (fsb s))"
  note f = fs_wfD [OF wf]
  have BP: "0 < BPB" by (simp add: BPB_def BSIZE_def)
  show ?case
  proof (cases "b < ?sz")
    case False
    with Suc.prems(3) have "free_blocks s = {}" by (auto simp: free_blocks_def)
    with False show ?thesis by simp
  next
    case True
    let ?d = "blk s (BBLOCK b (fsb s))"
    note B = BBLOCK_unat [OF wf True]
    have rd: "fs_bread (BBLOCK b (fsb s)) s = Inr ?d" using B(3) by (simp add: fs_bread_def)
    have blk_of: "BBLOCK (b + j) (fsb s) = BBLOCK b (fsb s)" "(b + j) mod BPB = j" if "j < BPB" for j
      using that Suc.prems(2) BP by (auto simp: BBLOCK_def)
    have u: "used s (b + j) \<longleftrightarrow> bit_used ?d j" if "j < BPB" for j
      using blk_of [OF that] by (simp add: used_def)
    let ?scan = "balloc_scan ?d (min BPB (?sz - b)) 0"
    show ?thesis
    proof (cases ?scan)
      case None
      then have all: "used s (b + j)" if "j < BPB" "b + j < ?sz" for j
        using that u by (auto simp: balloc_scan_find find_None_iff)
      have below': "used s c" if "c < b + BPB" "c < ?sz" for c
        using Suc.prems(3) [of c] all [of "c - b"] that by (cases "c < b") auto
      have "(b + BPB) div BPB = Suc (b div BPB)" "(b + BPB) mod BPB = 0" using Suc.prems(2) BP by (simp_all add: div_add_self2)
      with Suc.IH [of "b + BPB"] Suc.prems(1) below' show ?thesis using True rd None by simp
    next
      case (Some bi)
      from find_SomeD [OF Some [unfolded balloc_scan_find]] have bi: "bi < BPB" "b + bi < ?sz" "\<not> bit_used ?d bi" by auto
      have sm: "unat (of_nat (b + bi) :: u32) = b + bi" by (rule unat_of_nat_small) (use bi f in simp)
      have fr: "of_nat (b + bi) \<in> free_blocks s"
        unfolding free_blocks_def mem_Collect_eq sm using bi u [OF bi(1)] by simp
      have "unat (of_nat (b + bi) :: u32) < nblk s" unfolding sm using bi f by simp
      then have "fs_bread (of_nat (b + bi)) (fs_log_write (BBLOCK b (fsb s)) (set_bit_used ?d bi) s) =
          Inr (blk (fs_log_write (BBLOCK b (fsb s)) (set_bit_used ?d bi) s) (of_nat (b + bi)))"
        by (simp add: fs_bread_def fs_log_write_def)
      then have "balloc_from (Suc k) b s = Inr (of_nat (b + bi), fs_log_write (of_nat (b + bi)) (replicate BSIZE 0)
          (fs_log_write (BBLOCK b (fsb s)) (set_bit_used ?d bi) s))"
        using True rd Some by (simp add: bzero_def)
      with fr sm blk_of [OF bi(1)] show ?thesis by (intro disjI2 exI [of _ "of_nat (b + bi)"]) simp
    qed
  qed
qed

text \<open>What an allocation leaves unchanged.\<close>

definition alloc_frame :: "fs \<Rightarrow> fs \<Rightarrow> u32 set \<Rightarrow> bool" where
  "alloc_frame s s' A \<longleftrightarrow> fsb s' = fsb s \<and> nblk s' = nblk s \<and> (\<forall>c. c \<notin> A \<longrightarrow> \<not> is_bitmap s c \<longrightarrow> blk s' c = blk s c)"

lemma balloc_ok:
  assumes wf: "fs_wf s"
  shows "(free_blocks s = {} \<and> balloc s = Inl (Panic ''balloc: out of blocks'')) \<or>
    (\<exists>b s'. balloc s = Inr (b, s') \<and> b \<in> free_blocks s \<and> fs_wf s' \<and> free_blocks s' = free_blocks s - {b} \<and>
       blk s' b = replicate BSIZE 0 \<and> alloc_frame s s' {b} \<and> icache s' = icache s)"
proof -
  let ?sz = "unat (sb_size (fsb s))"
  have "?sz < (0 div BPB + (?sz div BPB + 1)) * BPB"
    using dividend_less_div_times [of BPB ?sz] by (simp add: BPB_def BSIZE_def)
  from balloc_from_ok [OF wf this] consider "free_blocks s = {}" "balloc s = Inl (Panic ''balloc: out of blocks'')"
    | b where "b \<in> free_blocks s" "balloc s = Inr (b, fs_log_write b (replicate BSIZE 0)
       (fs_log_write (BBLOCK (unat b) (fsb s)) (set_bit_used (blk s (BBLOCK (unat b) (fsb s))) (unat b mod BPB)) s))"
    unfolding balloc_def by auto
  then show ?thesis
  proof cases
    case 1
    then show ?thesis by simp
  next
    case 2
    let ?B = "BBLOCK (unat b) (fsb s)" and ?d = "set_bit_used (blk s (BBLOCK (unat b) (fsb s))) (unat b mod BPB)"
    let ?s1 = "fs_log_write ?B ?d s" and ?s2 = "fs_log_write b (replicate BSIZE 0) (fs_log_write ?B ?d s)"
    note f = fs_wfD [OF wf]
    have bs: "unat b < ?sz" "\<not> used s (unat b)" using 2(1) by (auto simp: free_blocks_def)
    have len: "length ?d = BSIZE" using f(3) by simp
    have bits: "bit_used ?d j \<longleftrightarrow> (if j = unat b mod BPB then True else bit_used (blk s ?B) j)" if "j < BPB" for j
    proof -
      have "unat b mod BPB < BPB" by (simp add: BPB_def BSIZE_def)
      then show ?thesis using bit_used_set [OF bits_in_block [OF _ f(3)]] by simp
    qed
    note m = mark_wf [OF wf bs(1) len bits]
    have wf1: "fs_wf ?s1" by (rule m(1)) simp_all
    have fr1: "free_blocks ?s1 = free_blocks s - {b}"
      using m(2,3) by (auto simp: free_blocks_def word_unat_eq_iff split: if_splits)
    have dt: "is_data s b" by (rule free_is_data [OF wf 2(1)])
    then have dt1: "is_data ?s1 b" using m(3) by (simp add: is_data_def)
    note dw = data_write_wf [OF wf1 dt1, of "replicate BSIZE 0"]
    have "alloc_frame s ?s2 {b}" using m(3,4,6) by (auto simp: alloc_frame_def fs_log_write_def split: if_splits)
    moreover have "blk ?s2 b = replicate BSIZE 0" "icache ?s2 = icache s" by (simp_all add: fs_log_write_def)
    ultimately have "b \<in> free_blocks s \<and> fs_wf ?s2 \<and> free_blocks ?s2 = free_blocks s - {b} \<and> blk ?s2 b = replicate BSIZE 0 \<and>
        alloc_frame s ?s2 {b} \<and> icache ?s2 = icache s" using 2(1) dw(1,2) fr1 by simp
    with 2(2) show ?thesis by blast
  qed
qed

lemma bfree_ok:
  assumes wf: "fs_wf s" and b: "is_data s b" "b \<notin> free_blocks s"
  shows "\<exists>s'. bfree b s = Inr s' \<and> fs_wf s' \<and> free_blocks s' = insert b (free_blocks s) \<and> alloc_frame s s' {} \<and> icache s' = icache s"
proof -
  note f = fs_wfD [OF wf]
  have bs: "unat b < unat (sb_size (fsb s))" and u: "used s (unat b)" using b by (auto simp: is_data_def free_blocks_def)
  let ?B = "BBLOCK (unat b) (fsb s)" and ?d = "clear_bit_used (blk s (BBLOCK (unat b) (fsb s))) (unat b mod BPB)"
  have sb: "fs_readsb s = Inr s" using f(2,11) by (simp add: fs_readsb_def fs_bread_def)
  have "bfree b s = Inr (fs_log_write ?B ?d s)"
    using BBLOCK_unat(3) [OF wf bs] u by (simp add: bfree_def sb fs_bread_def used_def Let_def)
  moreover have len: "length ?d = BSIZE" using f(3) by simp
  moreover have bits: "bit_used ?d j \<longleftrightarrow> (if j = unat b mod BPB then False else bit_used (blk s ?B) j)" if "j < BPB" for j
  proof -
    have "unat b mod BPB < BPB" by (simp add: BPB_def BSIZE_def)
    then show ?thesis using bit_used_clear [OF bits_in_block [OF _ f(3)]] by simp
  qed
  moreover have keep: "unat b < data_start (fsb s) \<Longrightarrow> False" using b(1) by (simp add: is_data_def)
  note m = mark_wf [OF wf bs len bits keep]
  moreover have "free_blocks (fs_log_write ?B ?d s) = insert b (free_blocks s)"
    using m(2,3) bs by (auto simp: free_blocks_def word_unat_eq_iff split: if_splits)
  moreover have "alloc_frame s (fs_log_write ?B ?d s) {}" using m(3,4,6) by (simp add: alloc_frame_def)
  ultimately show ?thesis by blast
qed

text \<open>Freeing a free block is caught.\<close>

lemma bfree_free:
  assumes wf: "fs_wf s" and b: "b \<in> free_blocks s"
  shows "bfree b s = Inl (Panic ''freeing free block'')"
proof -
  note f = fs_wfD [OF wf]
  have bs: "unat b < unat (sb_size (fsb s))" "\<not> used s (unat b)" using b by (auto simp: free_blocks_def)
  have "fs_readsb s = Inr s" using f(2,11) by (simp add: fs_readsb_def fs_bread_def)
  then show ?thesis
    using BBLOCK_unat(3) [OF wf bs(1)] bs(2) by (simp add: bfree_def fs_bread_def used_def Let_def)
qed

section \<open>The pool of data blocks\<close>

text \<open>A holder of a block may write it; a panic is the absence of a result.\<close>

definition balloc_opt :: "fs \<Rightarrow> (u32 \<times> fs) option" where
  "balloc_opt s = (case balloc s of Inl _ \<Rightarrow> None | Inr r \<Rightarrow> Some r)"

definition bfree_opt :: "u32 \<Rightarrow> fs \<Rightarrow> fs option" where
  "bfree_opt b s = (case bfree b s of Inl _ \<Rightarrow> None | Inr s \<Rightarrow> Some s)"

definition write_data :: "u32 \<Rightarrow> fs \<Rightarrow> fs \<Rightarrow> bool" where
  "write_data b s s' \<longleftrightarrow> (\<exists>d. length d = BSIZE \<and> s' = fs_log_write b d s)"

definition fs_of :: "superblock \<Rightarrow> fs \<Rightarrow> bool" where
  "fs_of sb s \<longleftrightarrow> fs_wf s \<and> fsb s = sb"

lemma balloc_opt_cases:
  assumes "fs_wf s"
  obtains (full) "free_blocks s = {}" "balloc_opt s = None"
  | (block) b s' where "balloc_opt s = Some (b, s')" "b \<in> free_blocks s" "fs_wf s'" "free_blocks s' = free_blocks s - {b}" "fsb s' = fsb s"
  using balloc_ok [OF assms]
proof (elim disjE exE conjE)
  fix b s'
  assume "balloc s = Inr (b, s')" "b \<in> free_blocks s" "fs_wf s'" "free_blocks s' = free_blocks s - {b}" "alloc_frame s s' {b}"
  then show thesis by (intro block [of b s']) (simp_all add: balloc_opt_def alloc_frame_def)
qed (auto intro: full simp: balloc_opt_def)

interpretation blockpool: resource_pool "fs_of sb" free_blocks
  "\<lambda>b. data_start sb \<le> unat b \<and> unat b < unat (sb_size sb)" balloc_opt bfree_opt write_data for sb
proof unfold_locales
  fix s s' b
  assume "fs_of sb s"
  then have wf: "fs_wf s" and sb: "fsb s = sb" by (simp_all add: fs_of_def)
  have valid: "is_data s b \<longleftrightarrow> data_start sb \<le> unat b \<and> unat b < unat (sb_size sb)" for b by (simp add: is_data_def sb)
  show "data_start sb \<le> unat b \<and> unat b < unat (sb_size sb)" if "b \<in> free_blocks s"
    using free_is_data [OF wf that] valid by simp
  show "balloc_opt s = None \<longleftrightarrow> free_blocks s = {}"
    by (rule balloc_opt_cases [OF wf]) auto
  show "b \<in> free_blocks s \<and> fs_of sb s' \<and> free_blocks s' = free_blocks s - {b}" if "balloc_opt s = Some (b, s')"
    by (rule balloc_opt_cases [OF wf]) (use that sb in \<open>auto simp: fs_of_def\<close>)
  assume v: "data_start sb \<le> unat b \<and> unat b < unat (sb_size sb)" "b \<notin> free_blocks s"
  then have dt: "is_data s b" using valid by simp
  from bfree_ok [OF wf dt v(2)]
  show "\<exists>s'. bfree_opt b s = Some s' \<and> fs_of sb s' \<and> free_blocks s' = insert b (free_blocks s)"
    by (auto simp: bfree_opt_def fs_of_def sb alloc_frame_def)
  show "fs_of sb s' \<and> free_blocks s' = free_blocks s" if "write_data b s s'"
    using data_write_wf [OF wf dt] that by (auto simp: write_data_def fs_of_def sb)
qed

text \<open>A small image: super block, one log block, one inode block, bitmap and data blocks 5 to 19.\<close>

definition example_sb :: superblock where
  "example_sb = \<lparr>sb_size = 20, sb_nblocks = 15, sb_ninodes = 7, sb_nlog = 1, sb_logstart = 2, sb_inodestart = 3, sb_bmapstart = 4\<rparr>"

definition example_fs :: fs where
  "example_fs = \<lparr>blk = (\<lambda>b. if b = 1 then put_words (replicate BSIZE 0) 0 [20, 15, 7, 1, 2, 3, 4]
       else if b = 4 then (replicate BSIZE 0)[0 := 0x1F] else replicate BSIZE 0),
     nblk = 20, logs = [], fsb = example_sb,
     icache = (\<lambda>_. \<lparr>i_dev = 0, i_inum = 0, i_ref = 0, i_lock = initsleeplock, i_valid = 0, i_type = 0, i_major = 0,
       i_minor = 0, i_nlink = 0, i_size = 0, i_addrs = replicate (NDIRECT + 1) 0\<rparr>)\<rparr>"

lemma length_put_words [simp]: "length (put_words d k ws) = length d"
  by (induction ws arbitrary: d k) auto

lemma example_fs_wf: "fs_wf example_fs"
proof -
  have sb: "fsb example_fs = example_sb" "nblk example_fs = 20" by (simp_all add: example_fs_def)
  have lay: "layout_ok example_sb 20" by (simp add: layout_ok_def data_start_def example_sb_def IPB_def BPB_def BSIZE_def)
  have ds: "data_start example_sb = 5" by (simp add: data_start_def example_sb_def BPB_def BSIZE_def)
  have "superblock_of (blk example_fs 1) = example_sb"
    by (simp add: example_fs_def superblock_of_def example_sb_def get32_put32_other BSIZE_def)
  moreover have "length (blk example_fs b) = BSIZE" for b by (simp add: example_fs_def)
  moreover have "used example_fs b" if "b < 5" for b
  proof -
    have "b \<in> {0, 1, 2, 3, 4}" using that by auto
    then show ?thesis
      by (auto simp: used_def sb BBLOCK_def example_sb_def BPB_def BSIZE_def bit_used_def example_fs_def)
  qed
  ultimately show ?thesis using lay by (simp add: fs_wf_def sb ds)
qed



end
