(* ===== verification/Xv6_Fs_File.thy ===== *)
theory Xv6_Fs_File
  imports Xv6_Fs_Alloc
begin

text \<open>
  The contents of a file. \<open>imap s i bn\<close> is the disk block that holds block \<open>bn\<close> of the inode in cache entry \<open>i\<close> (0 if
  there is none), \<open>own\<close> the blocks the inode owns, \<open>content\<close> its bytes. \<open>readi\<close> and \<open>writei\<close> are the reads and
  overwrites of that byte list, and leave the blocks of every other file alone.
\<close>

lemma upd_inode_fields [simp]:
  "blk (upd_inode i f s) = blk s" "nblk (upd_inode i f s) = nblk s" "fsb (upd_inode i f s) = fsb s"
  "icache (upd_inode i f s) = (icache s)(i := f (icache s i))" "logs (upd_inode i f s) = logs s"
  by (simp_all add: upd_inode_def)

lemma upd_inode_wf [simp]:
  "fs_wf (upd_inode i f s) \<longleftrightarrow> fs_wf s" "free_blocks (upd_inode i f s) = free_blocks s"
  "is_data (upd_inode i f s) b \<longleftrightarrow> is_data s b" "is_bitmap (upd_inode i f s) b \<longleftrightarrow> is_bitmap s b"
  by (simp_all add: fs_wf_def free_blocks_def used_def is_data_def is_bitmap_def)

definition ind :: "fs \<Rightarrow> nat \<Rightarrow> u32" where
  "ind s i = i_addrs (icache s i) ! NDIRECT"

definition imap :: "fs \<Rightarrow> nat \<Rightarrow> nat \<Rightarrow> u32" where
  "imap s i bn = (if bn < NDIRECT then i_addrs (icache s i) ! bn
     else if ind s i = 0 then 0 else get32 (blk s (ind s i)) (4 * (bn - NDIRECT)))"

definition own :: "fs \<Rightarrow> nat \<Rightarrow> u32 set" where
  "own s i = (insert (ind s i) (imap s i ` {..<MAXFILE})) - {0}"

definition inode_ok :: "fs \<Rightarrow> nat \<Rightarrow> bool" where
  "inode_ok s i \<longleftrightarrow> length (i_addrs (icache s i)) = NDIRECT + 1 \<and> own s i \<inter> free_blocks s = {} \<and> (\<forall>b \<in> own s i. is_data s b) \<and>
     inj_on (imap s i) {bn. bn < MAXFILE \<and> imap s i bn \<noteq> 0} \<and> (\<forall>bn < MAXFILE. imap s i bn \<noteq> 0 \<longrightarrow> imap s i bn \<noteq> ind s i)"

lemma inode_okD:
  assumes "inode_ok s i"
  shows "length (i_addrs (icache s i)) = NDIRECT + 1"
    "bn < MAXFILE \<Longrightarrow> imap s i bn \<noteq> 0 \<Longrightarrow> is_data s (imap s i bn) \<and> imap s i bn \<notin> free_blocks s \<and> imap s i bn \<noteq> ind s i"
    "bn < MAXFILE \<Longrightarrow> bn' < MAXFILE \<Longrightarrow> imap s i bn = imap s i bn' \<Longrightarrow> imap s i bn \<noteq> 0 \<Longrightarrow> bn = bn'"
    "ind s i \<noteq> 0 \<Longrightarrow> is_data s (ind s i) \<and> ind s i \<notin> free_blocks s"
  using assms unfolding inode_ok_def own_def by (auto dest: inj_onD)

lemma inode_okI:
  assumes "length (i_addrs (icache s i)) = NDIRECT + 1"
    "\<And>bn. bn < MAXFILE \<Longrightarrow> imap s i bn \<noteq> 0 \<Longrightarrow> is_data s (imap s i bn) \<and> imap s i bn \<notin> free_blocks s \<and> imap s i bn \<noteq> ind s i"
    "\<And>bn bn'. bn < MAXFILE \<Longrightarrow> bn' < MAXFILE \<Longrightarrow> imap s i bn = imap s i bn' \<Longrightarrow> imap s i bn \<noteq> 0 \<Longrightarrow> bn = bn'"
    "ind s i \<noteq> 0 \<Longrightarrow> is_data s (ind s i) \<and> ind s i \<notin> free_blocks s"
  shows "inode_ok s i"
  unfolding inode_ok_def own_def
proof (intro conjI inj_onI ballI)
  show "(insert (ind s i) (imap s i ` {..<MAXFILE}) - {0}) \<inter> free_blocks s = {}" using assms(2,4) by auto
  show "is_data s b" if "b \<in> insert (ind s i) (imap s i ` {..<MAXFILE}) - {0}" for b using assms(2,4) that by auto
  show "x = y" if "x \<in> {bn. bn < MAXFILE \<and> imap s i bn \<noteq> 0}" "y \<in> {bn. bn < MAXFILE \<and> imap s i bn \<noteq> 0}" "imap s i x = imap s i y" for x y
    using assms(3) [of x y] that by simp
qed (use assms(1,2) in auto)

text \<open>What an operation on the inode in entry \<open>i\<close> leaves alone.\<close>

definition file_frame :: "fs \<Rightarrow> fs \<Rightarrow> nat \<Rightarrow> bool" where
  "file_frame s s' i \<longleftrightarrow> fsb s' = fsb s \<and> nblk s' = nblk s \<and> free_blocks s' \<subseteq> free_blocks s \<and>
     (\<forall>c. c \<notin> free_blocks s \<longrightarrow> \<not> is_bitmap s c \<longrightarrow> c \<notin> own s i \<longrightarrow> blk s' c = blk s c) \<and>
     own s' i \<subseteq> own s i \<union> free_blocks s \<and> (\<forall>j. j \<noteq> i \<longrightarrow> icache s' j = icache s j) \<and>
     (\<exists>a. icache s' i = (icache s i)\<lparr>i_addrs := a\<rparr>)"

lemma file_frame_refl: "file_frame s s i"
  by (auto simp: file_frame_def intro: exI [of _ "i_addrs (icache s i)"])

lemma file_frame_trans:
  assumes "file_frame s s1 i" "file_frame s1 s2 i"
  shows "file_frame s s2 i"
proof -
  have "is_bitmap s1 c = is_bitmap s c" for c using assms(1) by (simp add: is_bitmap_def file_frame_def)
  then show ?thesis using assms unfolding file_frame_def by (auto 0 3)
qed

text \<open>The result of \<open>bmap\<close>.\<close>

definition bmap_post :: "fs \<Rightarrow> nat \<Rightarrow> nat \<Rightarrow> u32 \<Rightarrow> fs \<Rightarrow> bool" where
  "bmap_post s i bn a s' \<longleftrightarrow> fs_wf s' \<and> inode_ok s' i \<and> file_frame s s' i \<and> imap s' i bn = a \<and> a \<noteq> 0 \<and>
     (\<forall>m < MAXFILE. m \<noteq> bn \<longrightarrow> imap s' i m = imap s i m) \<and> (imap s i bn \<noteq> 0 \<longrightarrow> s' = s) \<and>
     (\<forall>m < MAXFILE. imap s i m \<noteq> 0 \<longrightarrow> blk s' (imap s i m) = blk s (imap s i m)) \<and> (ind s i \<noteq> 0 \<longrightarrow> ind s' i = ind s i) \<and>
     card (free_blocks s) \<le> card (free_blocks s') + 1 + (if ind s i = 0 \<and> ind s' i \<noteq> 0 then 1 else 0)"

lemma data_nonzero: "fs_wf s \<Longrightarrow> is_data s b \<Longrightarrow> b \<noteq> 0"
  using fs_wfD(10) [of s] by (auto simp: is_data_def)

lemma bmap_mapped:
  assumes "fs_wf s" "inode_ok s i" "bn < MAXFILE" "imap s i bn \<noteq> 0"
  shows "bmap i bn s = Inr (imap s i bn, s)"
proof (cases "bn < NDIRECT")
  case True
  then show ?thesis using assms(4) by (simp add: bmap_def imap_def Let_def)
next
  case False
  then have nz: "ind s i \<noteq> 0" using assms(4) by (auto simp: imap_def split: if_splits)
  then have "is_data s (ind s i)" using inode_okD(4) [OF assms(2)] by simp
  then have "fs_bread (ind s i) s = Inr (blk s (ind s i))"
    using fs_wfD(6) [OF assms(1)] by (simp add: fs_bread_def is_data_def)
  moreover have "bn - NDIRECT < NINDIRECT" using assms(3) False by (simp add: MAXFILE_def)
  ultimately show ?thesis using False nz assms(4) unfolding bmap_def by (simp add: imap_def flip: ind_def)
qed

lemma card_dec: "finite A \<Longrightarrow> b \<in> A \<Longrightarrow> card A = Suc (card (A - {b}))"
  by (metis card_Suc_Diff1)

lemma balloc_obtain:
  assumes "fs_wf s" "free_blocks s \<noteq> {}"
  obtains b s1 where "balloc s = Inr (b, s1)" "b \<in> free_blocks s" "fs_wf s1" "free_blocks s1 = free_blocks s - {b}"
    "blk s1 b = replicate BSIZE 0" "fsb s1 = fsb s" "nblk s1 = nblk s"
    "\<And>c. c \<notin> free_blocks s \<Longrightarrow> \<not> is_bitmap s c \<Longrightarrow> blk s1 c = blk s c" "icache s1 = icache s" "is_data s b" "b \<noteq> 0"
  using balloc_ok [OF assms(1)]
proof (elim disjE exE conjE)
  fix b s1
  assume *: "balloc s = Inr (b, s1)" "b \<in> free_blocks s" "fs_wf s1" "free_blocks s1 = free_blocks s - {b}"
    "blk s1 b = replicate BSIZE 0" "alloc_frame s s1 {b}" "icache s1 = icache s"
  have "is_data s b" by (rule free_is_data [OF assms(1) *(2)])
  moreover have "blk s1 c = blk s c" if "c \<notin> free_blocks s" "\<not> is_bitmap s c" for c
    using *(2,6) that unfolding alloc_frame_def by (metis singletonD)
  moreover have "fsb s1 = fsb s" "nblk s1 = nblk s" using *(6) by (simp_all add: alloc_frame_def)
  ultimately show thesis using *(7) data_nonzero [OF assms(1)] by (intro that [OF *(1-5)]) auto
qed (use assms(2) in auto)

text \<open>A direct block.\<close>

lemma bmap_direct:
  assumes wf: "fs_wf s" and ok: "inode_ok s i" and bn: "bn < NDIRECT" and z: "imap s i bn = 0" and fr: "free_blocks s \<noteq> {}"
  shows "\<exists>a s'. bmap i bn s = Inr (a, s') \<and> bmap_post s i bn a s'"
proof -
  obtain b s1 where b: "balloc s = Inr (b, s1)" "b \<in> free_blocks s" "fs_wf s1" "free_blocks s1 = free_blocks s - {b}"
    "blk s1 b = replicate BSIZE 0" "fsb s1 = fsb s" "nblk s1 = nblk s"
    "\<And>c. c \<notin> free_blocks s \<Longrightarrow> \<not> is_bitmap s c \<Longrightarrow> blk s1 c = blk s c" "icache s1 = icache s" "is_data s b" "b \<noteq> 0"
    by (rule balloc_obtain [OF wf fr], rule that)
  note d = inode_okD [OF ok]
  define s' where "s' = upd_inode i (\<lambda>x. x\<lparr>i_addrs := (i_addrs x)[bn := b]\<rparr>) s1"
  have bm: "bmap i bn s = Inr (b, s')" using bn z b(1) by (simp add: bmap_def imap_def s'_def)
  have ind': "ind s' i = ind s i" using bn by (simp add: ind_def s'_def b(9))
  have keep: "blk s' c = blk s c" if "is_data s c" "c \<notin> free_blocks s" for c
    using b(8) [OF that(2) data_not_bitmap [OF that(1)]] by (simp add: s'_def)
  have im: "imap s' i m = (if m = bn then b else imap s i m)" if "m < MAXFILE" for m
  proof (cases "m < NDIRECT")
    case True
    then show ?thesis using d(1) bn by (auto simp: imap_def s'_def b(9) nth_list_update)
  next
    case False
    then show ?thesis using bn d(4) keep by (auto simp: imap_def ind')
  qed
  have dt: "is_data s' c = is_data s c" for c by (simp add: is_data_def s'_def b(6))
  have fs': "free_blocks s' = free_blocks s - {b}" by (simp add: s'_def b(4))
  have "inode_ok s' i"
  proof (rule inode_okI)
    show "length (i_addrs (icache s' i)) = NDIRECT + 1" using d(1) by (simp add: s'_def b(9))
    show "is_data s' (imap s' i m) \<and> imap s' i m \<notin> free_blocks s' \<and> imap s' i m \<noteq> ind s' i"
      if "m < MAXFILE" "imap s' i m \<noteq> 0" for m
      using that im d(2) [of m] d(4) b by (auto simp: dt fs' ind' split: if_splits)
    show "m = n" if "m < MAXFILE" "n < MAXFILE" "imap s' i m = imap s' i n" "imap s' i m \<noteq> 0" for m n
      using that im d(2) d(3) [of m n] b(2) by (auto split: if_splits)
    show "is_data s' (ind s' i) \<and> ind s' i \<notin> free_blocks s'" if "ind s' i \<noteq> 0"
      using that d(4) by (simp add: dt fs' ind')
  qed
  moreover have "own s' i \<subseteq> own s i \<union> free_blocks s" using im b(2) by (auto simp: own_def ind')
  then have "file_frame s s' i"
    using b by (auto simp: file_frame_def s'_def split: if_splits)
  moreover have "bn < MAXFILE" using bn by (simp add: MAXFILE_def)
  moreover have "card (free_blocks s) = Suc (card (free_blocks s'))" unfolding fs' by (rule card_dec) (use b in auto)
  ultimately have "bmap_post s i bn b s'"
    using b im keep d(2) z ind' by (auto simp: bmap_post_def s'_def)
  with bm show ?thesis by blast
qed

text \<open>A block of the indirect block, which exists.\<close>

lemma bmap_indirect:
  assumes wf: "fs_wf s" and ok: "inode_ok s i" and bn: "NDIRECT \<le> bn" "bn < MAXFILE" and z: "imap s i bn = 0"
    and nz: "ind s i \<noteq> 0" and fr: "free_blocks s \<noteq> {}"
  obtains a s1 where "balloc s = Inr (a, s1)"
    "bmap_post s i bn a (fs_log_write (ind s i) (put32 (blk s1 (ind s i)) (4 * (bn - NDIRECT)) a) s1)"
proof -
  obtain b s1 where b: "balloc s = Inr (b, s1)" "b \<in> free_blocks s" "fs_wf s1" "free_blocks s1 = free_blocks s - {b}"
    "blk s1 b = replicate BSIZE 0" "fsb s1 = fsb s" "nblk s1 = nblk s"
    "\<And>c. c \<notin> free_blocks s \<Longrightarrow> \<not> is_bitmap s c \<Longrightarrow> blk s1 c = blk s c" "icache s1 = icache s" "is_data s b" "b \<noteq> 0"
    by (rule balloc_obtain [OF wf fr], rule that)
  note d = inode_okD [OF ok]
  let ?k = "4 * (bn - NDIRECT)"
  define s' where "s' = fs_log_write (ind s i) (put32 (blk s1 (ind s i)) ?k b) s1"
  have keep1: "blk s1 c = blk s c" if "is_data s c" "c \<notin> free_blocks s" for c
    by (rule b(8) [OF that(2) data_not_bitmap [OF that(1)]])
  have dt1: "is_data s1 c = is_data s c" for c by (simp add: is_data_def b(6))
  have ind': "ind s' i = ind s i" by (simp add: ind_def s'_def b(9))
  have indb: "blk s1 (ind s i) = blk s (ind s i)" using keep1 d(4) nz by simp
  have len: "length (blk s1 (ind s i)) = BSIZE" by (rule fs_wfD(3) [OF b(3)])
  have dw: "fs_wf s'" "free_blocks s' = free_blocks s - {b}"
    using data_write_wf [OF b(3), of "ind s i" "put32 (blk s1 (ind s i)) ?k b"] dt1 d(4) nz len by (simp_all add: s'_def b(4))
  have kl: "4 * (m - NDIRECT) + 3 < BSIZE" if "m < MAXFILE" for m
    using that by (simp add: MAXFILE_def NINDIRECT_def NDIRECT_def BSIZE_def)
  have im: "imap s' i m = (if m = bn then b else imap s i m)" if m: "m < MAXFILE" for m
  proof (cases "m < NDIRECT")
    case True
    then show ?thesis using bn by (auto simp: imap_def s'_def b(9))
  next
    case False
    have "imap s' i m = get32 (put32 (blk s (ind s i)) ?k b) (4 * (m - NDIRECT))"
      using False nz by (simp add: imap_def ind') (simp add: s'_def indb)
    also have "\<dots> = (if m = bn then b else get32 (blk s (ind s i)) (4 * (m - NDIRECT)))"
      using kl [OF m] len indb False bn by (auto intro!: get32_put32_other get32_put32)
    finally show ?thesis using False nz by (simp add: imap_def)
  qed
  have dt: "is_data s' c = is_data s c" for c by (simp add: is_data_def s'_def b(6))
  have nb: "b \<noteq> ind s i" using d(4) nz b(2) by auto
  have "inode_ok s' i"
  proof (rule inode_okI)
    show "length (i_addrs (icache s' i)) = NDIRECT + 1" using d(1) by (simp add: s'_def b(9))
    show "is_data s' (imap s' i m) \<and> imap s' i m \<notin> free_blocks s' \<and> imap s' i m \<noteq> ind s' i"
      if "m < MAXFILE" "imap s' i m \<noteq> 0" for m
      using that im d(2) [of m] d(4) b(2,10) nb by (auto simp: dt dw(2) ind' split: if_splits)
    show "m = n" if "m < MAXFILE" "n < MAXFILE" "imap s' i m = imap s' i n" "imap s' i m \<noteq> 0" for m n
      using that im d(2) d(3) [of m n] b(2) by (auto split: if_splits)
    show "is_data s' (ind s' i) \<and> ind s' i \<notin> free_blocks s'" if "ind s' i \<noteq> 0"
      using that d(4) by (simp add: dt dw(2) ind')
  qed
  moreover have "own s' i \<subseteq> own s i \<union> free_blocks s" using im b(2) by (auto simp: own_def ind')
  moreover have "blk s' c = blk s c" if "c \<notin> free_blocks s" "\<not> is_bitmap s c" "c \<notin> own s i" for c
  proof -
    have "c \<noteq> ind s i" using that nz by (auto simp: own_def)
    then show ?thesis using b(8) that(1,2) by (simp add: s'_def)
  qed
  then have "file_frame s s' i" using b(6,7,9) dw(2) calculation(2)
    by (auto simp: file_frame_def) (auto simp: s'_def intro: exI [of _ "i_addrs (icache s i)"])
  moreover have "card (free_blocks s) = Suc (card (free_blocks s'))" unfolding dw(2) by (rule card_dec) (use b in auto)
  moreover have "blk s' (imap s i m) = blk s (imap s i m)" if "m < MAXFILE" "imap s i m \<noteq> 0" for m
    using d(2) [OF that] keep1 by (simp add: s'_def)
  ultimately have "bmap_post s i bn b s'"
    using dw(1) im b(11) z bn(2) ind' by (auto simp: bmap_post_def)
  with b(1) show ?thesis using that by (simp add: s'_def)
qed

text \<open>The indirect block itself.\<close>

lemma ind_alloc:
  assumes wf: "fs_wf s" and ok: "inode_ok s i" and z: "ind s i = 0" and fr: "free_blocks s \<noteq> {}"
  obtains c s1 s2 where "balloc s = Inr (c, s1)" "s2 = upd_inode i (\<lambda>x. x\<lparr>i_addrs := (i_addrs x)[NDIRECT := c]\<rparr>) s1"
    "fs_wf s2" "inode_ok s2 i" "file_frame s s2 i" "\<And>m. m < MAXFILE \<Longrightarrow> imap s2 i m = imap s i m" "ind s2 i = c" "c \<noteq> 0"
    "card (free_blocks s) = Suc (card (free_blocks s2))" "blk s2 c = replicate BSIZE 0"
    "\<And>m. m < MAXFILE \<Longrightarrow> imap s i m \<noteq> 0 \<Longrightarrow> blk s2 (imap s i m) = blk s (imap s i m)" "is_data s2 c"
proof -
  obtain c s1 where b: "balloc s = Inr (c, s1)" "c \<in> free_blocks s" "fs_wf s1" "free_blocks s1 = free_blocks s - {c}"
    "blk s1 c = replicate BSIZE 0" "fsb s1 = fsb s" "nblk s1 = nblk s"
    "\<And>x. x \<notin> free_blocks s \<Longrightarrow> \<not> is_bitmap s x \<Longrightarrow> blk s1 x = blk s x" "icache s1 = icache s" "is_data s c" "c \<noteq> 0"
    by (rule balloc_obtain [OF wf fr], rule that)
  note d = inode_okD [OF ok]
  define s2 where "s2 = upd_inode i (\<lambda>x. x\<lparr>i_addrs := (i_addrs x)[NDIRECT := c]\<rparr>) s1"
  have ind2: "ind s2 i = c" using d(1) by (simp add: ind_def s2_def b(9))
  have dt: "is_data s2 x = is_data s x" for x by (simp add: is_data_def s2_def b(6))
  have fs2: "free_blocks s2 = free_blocks s - {c}" by (simp add: s2_def b(4))
  have zero: "get32 (replicate BSIZE 0) (4 * (m - NDIRECT)) = 0" if "m < MAXFILE" for m
    using that by (simp add: get32_def MAXFILE_def NINDIRECT_def NDIRECT_def BSIZE_def)
  have im: "imap s2 i m = imap s i m" if "m < MAXFILE" for m
    using that zero [OF that] b(5,11) z d(1) by (auto simp: imap_def ind2) (auto simp: s2_def b(9))
  show ?thesis
  proof (rule that [OF b(1) s2_def])
    show "fs_wf s2" using b(3) by (simp add: s2_def)
    show "inode_ok s2 i"
    proof (rule inode_okI)
      show "length (i_addrs (icache s2 i)) = NDIRECT + 1" using d(1) by (simp add: s2_def b(9))
      show "is_data s2 (imap s2 i m) \<and> imap s2 i m \<notin> free_blocks s2 \<and> imap s2 i m \<noteq> ind s2 i"
        if "m < MAXFILE" "imap s2 i m \<noteq> 0" for m
        using that im d(2) [of m] b(2) by (auto simp: dt fs2 ind2)
      show "m = n" if "m < MAXFILE" "n < MAXFILE" "imap s2 i m = imap s2 i n" "imap s2 i m \<noteq> 0" for m n
        using that im d(3) [of m n] by auto
      show "is_data s2 (ind s2 i) \<and> ind s2 i \<notin> free_blocks s2" if "ind s2 i \<noteq> 0"
        using b(10) by (simp add: dt fs2 ind2)
    qed
    have "own s2 i \<subseteq> own s i \<union> free_blocks s" using im b(2) by (auto simp: own_def ind2)
    then show "file_frame s s2 i" using b(2,4,6-9) by (auto simp: file_frame_def s2_def split: if_splits)
    show "card (free_blocks s) = Suc (card (free_blocks s2))" unfolding fs2 by (rule card_dec) (use b in auto)
    show "blk s2 (imap s i m) = blk s (imap s i m)" if "m < MAXFILE" "imap s i m \<noteq> 0" for m
      using d(2) [OF that] b(2,8) data_not_bitmap by (auto simp: s2_def)
    show "imap s2 i m = imap s i m" if "m < MAXFILE" for m by (rule im [OF that])
  qed (use b ind2 dt in \<open>auto simp: s2_def\<close>)
qed

definition need_ind :: "fs \<Rightarrow> nat \<Rightarrow> nat" where
  "need_ind s i = (if ind s i = 0 then 1 else 0)"

lemma bmap_ok:
  assumes wf: "fs_wf s" and ok: "inode_ok s i" and bn: "bn < MAXFILE" and fr: "card (free_blocks s) \<ge> 1 + need_ind s i"
  shows "\<exists>a s'. bmap i bn s = Inr (a, s') \<and> bmap_post s i bn a s'"
proof -
  have ne: "free_blocks s \<noteq> {}" using fr by auto
  consider (mapped) "imap s i bn \<noteq> 0" | (direct) "imap s i bn = 0" "bn < NDIRECT"
    | (indirect) "imap s i bn = 0" "NDIRECT \<le> bn" "ind s i \<noteq> 0" | (both) "imap s i bn = 0" "NDIRECT \<le> bn" "ind s i = 0"
    by (cases "bn < NDIRECT") auto
  then show ?thesis
  proof cases
    case mapped
    with bmap_mapped [OF wf ok bn] show ?thesis using wf ok file_frame_refl [of s i] by (auto simp: bmap_post_def)
  next
    case direct
    with bmap_direct [OF wf ok _ _ ne] show ?thesis by simp
  next
    case indirect
    obtain a s1 where a: "balloc s = Inr (a, s1)"
      "bmap_post s i bn a (fs_log_write (ind s i) (put32 (blk s1 (ind s i)) (4 * (bn - NDIRECT)) a) s1)"
      by (rule bmap_indirect [OF wf ok indirect(2) bn indirect(1,3) ne])
    have "fs_bread (ind s i) s = Inr (blk s (ind s i))"
      using inode_okD(4) [OF ok indirect(3)] fs_wfD(6) [OF wf] by (simp add: fs_bread_def is_data_def)
    moreover have "get32 (blk s (ind s i)) (4 * (bn - NDIRECT)) = 0" using indirect by (simp add: imap_def)
    moreover have "bn - NDIRECT < NINDIRECT" using bn indirect(2) by (simp add: MAXFILE_def)
    ultimately have "bmap i bn s = Inr (a, fs_log_write (ind s i) (put32 (blk s1 (ind s i)) (4 * (bn - NDIRECT)) a) s1)"
      using indirect a(1) unfolding bmap_def by (simp add: Let_def flip: ind_def)
    with a(2) show ?thesis by blast
  next
    case both
    obtain c s1 s2 where c: "balloc s = Inr (c, s1)" "s2 = upd_inode i (\<lambda>x. x\<lparr>i_addrs := (i_addrs x)[NDIRECT := c]\<rparr>) s1"
      "fs_wf s2" "inode_ok s2 i" "file_frame s s2 i" "\<And>m. m < MAXFILE \<Longrightarrow> imap s2 i m = imap s i m" "ind s2 i = c" "c \<noteq> 0"
      "card (free_blocks s) = Suc (card (free_blocks s2))" "blk s2 c = replicate BSIZE 0"
      "\<And>m. m < MAXFILE \<Longrightarrow> imap s i m \<noteq> 0 \<Longrightarrow> blk s2 (imap s i m) = blk s (imap s i m)" "is_data s2 c"
      by (rule ind_alloc [OF wf ok both(3) ne], rule that)
    have ne2: "free_blocks s2 \<noteq> {}" using fr c(9) both(3) by (auto simp: need_ind_def)
    have z2: "imap s2 i bn = 0" "ind s2 i \<noteq> 0" using c(6) [OF bn] both(1) c(7,8) by simp_all
    obtain a s3 where a: "balloc s2 = Inr (a, s3)"
      "bmap_post s2 i bn a (fs_log_write (ind s2 i) (put32 (blk s3 (ind s2 i)) (4 * (bn - NDIRECT)) a) s3)"
      by (rule bmap_indirect [OF c(3,4) both(2) bn z2 ne2])
    let ?s = "fs_log_write (ind s2 i) (put32 (blk s3 (ind s2 i)) (4 * (bn - NDIRECT)) a) s3"
    have "fs_bread c s2 = Inr (blk s2 c)" using c(12) fs_wfD(6) [OF c(3)] by (simp add: fs_bread_def is_data_def)
    moreover have "get32 (blk s2 c) (4 * (bn - NDIRECT)) = 0" using z2 both(2) c(7) by (simp add: imap_def)
    moreover have "bn - NDIRECT < NINDIRECT" using bn both(2) by (simp add: MAXFILE_def)
    ultimately have "bmap i bn s = Inr (a, ?s)"
      using both a(1) c(1,2,7) unfolding bmap_def by (simp flip: ind_def)
    moreover have "bmap_post s i bn a ?s"
    proof -
      have p: "fs_wf ?s" "inode_ok ?s i" "file_frame s2 ?s i" "imap ?s i bn = a" "a \<noteq> 0"
        "\<And>m. m < MAXFILE \<Longrightarrow> m \<noteq> bn \<Longrightarrow> imap ?s i m = imap s2 i m"
        "\<And>m. m < MAXFILE \<Longrightarrow> imap s2 i m \<noteq> 0 \<Longrightarrow> blk ?s (imap s2 i m) = blk s2 (imap s2 i m)"
        "card (free_blocks s2) \<le> card (free_blocks ?s) + 1"
        using a(2) z2(2) unfolding bmap_post_def by auto
      have "ind ?s i \<noteq> 0" using a(2) z2(2) balloc_ok [OF c(3)] a(1) by (auto simp: ind_def)
      then show ?thesis
        unfolding bmap_post_def using p c(6,9,11) both(1,3) file_frame_trans [OF c(5) p(3)] by auto
    qed
    ultimately show ?thesis by blast
  qed
qed

section \<open>The bytes of a file\<close>

definition fbyte :: "fs \<Rightarrow> nat \<Rightarrow> nat \<Rightarrow> u8" where
  "fbyte s i k = blk s (imap s i (k div BSIZE)) ! (k mod BSIZE)"

definition content :: "fs \<Rightarrow> nat \<Rightarrow> u8 list" where
  "content s i = map (fbyte s i) [0..<unat (i_size (icache s i))]"

text \<open>The number of blocks that \<open>n\<close> bytes at \<open>off\<close> touch.\<close>

definition spans :: "nat \<Rightarrow> nat \<Rightarrow> nat" where
  "spans off n = (if n = 0 then 0 else (off mod BSIZE + n + BSIZE - 1) div BSIZE)"

lemma B_pos: "0 < BSIZE" by (simp add: BSIZE_def)

lemma spans_step:
  assumes "0 < n" "m = min n (BSIZE - off mod BSIZE)"
  shows "spans off n = Suc (spans (off + m) (n - m))"
proof (cases "n \<le> BSIZE - off mod BSIZE")
  case True
  then have m: "m = n" using assms by simp
  have "off mod BSIZE < BSIZE" using B_pos by simp
  then have "(off mod BSIZE + n + BSIZE - 1) div BSIZE = 1"
    using True assms(1) B_pos by (intro div_nat_eqI) auto
  then show ?thesis using assms(1) m by (simp add: spans_def)
next
  case False
  then have m: "m = BSIZE - off mod BSIZE" using assms by simp
  have lt: "off mod BSIZE < BSIZE" using B_pos by simp
  have "m + off mod BSIZE = BSIZE" using m lt by simp
  then have "off + m = off div BSIZE * BSIZE + BSIZE" using div_mult_mod_eq [of off BSIZE] by linarith
  then have "(off + m) mod BSIZE = 0" by (metis mod_add_self2 mod_mult_self2_is_0)
  moreover have "off mod BSIZE + n + BSIZE - 1 = BSIZE + (n - m + BSIZE - 1)" using False m lt by simp
  then have "(off mod BSIZE + n + BSIZE - 1) div BSIZE = Suc ((n - m + BSIZE - 1) div BSIZE)"
    using B_pos div_add_self1 [of BSIZE "n - m + BSIZE - 1"] by simp
  moreover have "n - m \<noteq> 0" using False m by simp
  ultimately show ?thesis using assms(1) by (simp add: spans_def)
qed

lemma div_mod_unique: "k = r + b * q \<Longrightarrow> r < b \<Longrightarrow> k div b = q \<and> k mod b = r" for k :: nat
  by simp

text \<open>The bytes of the chunk that one iteration handles.\<close>

lemma chunk:
  assumes "m = min n (BSIZE - off mod BSIZE)"
  shows "off mod BSIZE + m \<le> BSIZE" "\<And>k. off \<le> k \<Longrightarrow> k < off + m \<Longrightarrow> k div BSIZE = off div BSIZE \<and> k mod BSIZE = off mod BSIZE + (k - off)"
    "\<And>k. k div BSIZE = off div BSIZE \<Longrightarrow> off mod BSIZE \<le> k mod BSIZE \<Longrightarrow> k mod BSIZE < off mod BSIZE + m \<Longrightarrow> off \<le> k \<and> k < off + m"
proof -
  have lt: "off mod BSIZE < BSIZE" using B_pos by simp
  show le: "off mod BSIZE + m \<le> BSIZE" using assms lt by simp
  show "k div BSIZE = off div BSIZE \<and> k mod BSIZE = off mod BSIZE + (k - off)" if "off \<le> k" "k < off + m" for k
  proof -
    have "k = off mod BSIZE + (k - off) + BSIZE * (off div BSIZE)"
      using that(1) div_mult_mod_eq [of off BSIZE] by (simp add: mult.commute)
    moreover have "off mod BSIZE + (k - off) < BSIZE" using that le by linarith
    ultimately show ?thesis using div_mod_unique by blast
  qed
  show "off \<le> k \<and> k < off + m" if "k div BSIZE = off div BSIZE" "off mod BSIZE \<le> k mod BSIZE" "k mod BSIZE < off mod BSIZE + m" for k
  proof -
    have "k div BSIZE * BSIZE = off div BSIZE * BSIZE" using that(1) by simp
    then show ?thesis
      using that(2,3) div_mult_mod_eq [of off BSIZE] div_mult_mod_eq [of k BSIZE] by (intro conjI) linarith+
  qed
qed

lemma div_B_less: "k < MAXFILE * BSIZE \<Longrightarrow> k div BSIZE < MAXFILE"
  by (simp add: less_mult_imp_div_less)

lemma readi_loop_ok:
  assumes wf: "fs_wf s" and ok: "inode_ok s i"
    and "off + r \<le> MAXFILE * BSIZE" and "\<And>k. off \<le> k \<Longrightarrow> k < off + r \<Longrightarrow> imap s i (k div BSIZE) \<noteq> 0"
  shows "readi_loop i off r s = Inr (map (fbyte s i) [off..<off + r], s)"
  using assms(3,4)
proof (induction r arbitrary: off rule: less_induct)
  case (less r)
  show ?case
  proof (cases "r = 0")
    case True
    then show ?thesis by (subst readi_loop.simps) simp
  next
    case False
    define m where "m = min r (BSIZE - off mod BSIZE)"
    note c = chunk [OF m_def]
    have "off mod BSIZE < BSIZE" using B_pos by simp
    then have m: "0 < m" "m \<le> r" using False by (simp_all add: m_def)
    have bn: "off div BSIZE < MAXFILE" using less.prems(1) False by (intro div_B_less) simp
    have nz: "imap s i (off div BSIZE) \<noteq> 0" using less.prems(2) [of off] False by simp
    have dt: "is_data s (imap s i (off div BSIZE))" using inode_okD(2) [OF ok bn nz] by simp
    have rd: "fs_bread (imap s i (off div BSIZE)) s = Inr (blk s (imap s i (off div BSIZE)))"
      using dt fs_wfD(6) [OF wf] by (simp add: fs_bread_def is_data_def)
    have ih: "readi_loop i (off + m) (r - m) s = Inr (map (fbyte s i) [off + m..<off + m + (r - m)], s)"
      by (rule less.IH) (use m less.prems in auto)
    have "take m (drop (off mod BSIZE) (blk s (imap s i (off div BSIZE)))) = map (fbyte s i) [off..<off + m]"
    proof (rule nth_equalityI)
      show "length (take m (drop (off mod BSIZE) (blk s (imap s i (off div BSIZE))))) = length (map (fbyte s i) [off..<off + m])"
        using c(1) fs_wfD(3) [OF wf] by simp
      fix k assume "k < length (take m (drop (off mod BSIZE) (blk s (imap s i (off div BSIZE)))))"
      then have k: "k < m" by simp
      then show "take m (drop (off mod BSIZE) (blk s (imap s i (off div BSIZE)))) ! k = map (fbyte s i) [off..<off + m] ! k"
        using c(1) c(2) [of "off + k"] fs_wfD(3) [OF wf] by (simp add: fbyte_def)
    qed
    moreover have "[off..<off + r] = [off..<off + m] @ [off + m..<off + m + (r - m)]"
      using m upt_add_eq_append [of off "off + m" "r - m"] by simp
    ultimately show ?thesis
      using False bmap_mapped [OF wf ok bn nz] rd ih
      by (subst readi_loop.simps) (simp add: Let_def flip: m_def)
  qed
qed

text \<open>Writing a chunk into one block of the file.\<close>

lemma chunk_write:
  assumes wf: "fs_wf s" and ok: "inode_ok s i" and bn: "bn < MAXFILE" "imap s i bn \<noteq> 0" and d: "length d = BSIZE"
  defines "s' \<equiv> fs_log_write (imap s i bn) d s"
  shows "fs_wf s'" "inode_ok s' i" "file_frame s s' i" "free_blocks s' = free_blocks s" "ind s' i = ind s i"
    "\<And>m. m < MAXFILE \<Longrightarrow> imap s' i m = imap s i m"
    "\<And>k. k < MAXFILE * BSIZE \<Longrightarrow> imap s i (k div BSIZE) \<noteq> 0 \<Longrightarrow>
       fbyte s' i k = (if k div BSIZE = bn then d ! (k mod BSIZE) else fbyte s i k)"
proof -
  note o = inode_okD [OF ok]
  have dt: "is_data s (imap s i bn)" using o(2) [OF bn] by simp
  note w = data_write_wf [OF wf dt d]
  show "fs_wf s'" and fr': "free_blocks s' = free_blocks s" using w by (simp_all add: s'_def)
  show ind': "ind s' i = ind s i" by (simp add: ind_def s'_def)
  show im: "imap s' i m = imap s i m" if "m < MAXFILE" for m
  proof -
    have "blk s' (ind s i) = blk s (ind s i)" using o(2) [OF bn] by (auto simp: s'_def)
    then show ?thesis by (simp add: imap_def ind') (simp add: s'_def)
  qed
  have own': "own s' i = own s i" using im by (auto simp: own_def ind')
  have dt': "is_data s' c = is_data s c" for c by (simp add: is_data_def s'_def)
  show "inode_ok s' i"
  proof (rule inode_okI)
    show "length (i_addrs (icache s' i)) = NDIRECT + 1" using o(1) by (simp add: s'_def)
    show "m = n" if "m < MAXFILE" "n < MAXFILE" "imap s' i m = imap s' i n" "imap s' i m \<noteq> 0" for m n
      using that im o(3) [of m n] by auto
  qed (use o(2,4) im fr' in \<open>auto simp: dt' ind'\<close>)
  have "imap s i bn \<in> own s i" using bn by (auto simp: own_def)
  then show "file_frame s s' i"
    using w(2) own' by (auto simp: file_frame_def s'_def intro: exI [of _ "i_addrs (icache s i)"])
  show "fbyte s' i k = (if k div BSIZE = bn then d ! (k mod BSIZE) else fbyte s i k)"
    if "k < MAXFILE * BSIZE" "imap s i (k div BSIZE) \<noteq> 0" for k
    using im [OF div_B_less [OF that(1)]] o(3) [OF div_B_less [OF that(1)] bn(1)] that(2)
    by (auto simp: fbyte_def) (auto simp: s'_def)
qed

lemma writei_loop_ok:
  assumes "fs_wf s" "inode_ok s i" "off + length src \<le> MAXFILE * BSIZE"
    and "card (free_blocks s) \<ge> spans off (length src) + need_ind s i"
  shows "\<exists>s'. writei_loop i off src s = Inr s' \<and> fs_wf s' \<and> inode_ok s' i \<and> file_frame s s' i \<and>
    (\<forall>k < MAXFILE * BSIZE. imap s i (k div BSIZE) \<noteq> 0 \<or> off \<le> k \<and> k < off + length src \<longrightarrow>
       imap s' i (k div BSIZE) \<noteq> 0 \<and> fbyte s' i k = (if off \<le> k \<and> k < off + length src then src ! (k - off) else fbyte s i k)) \<and>
    ((\<forall>k. off \<le> k \<longrightarrow> k < off + length src \<longrightarrow> imap s i (k div BSIZE) \<noteq> 0) \<longrightarrow> icache s' = icache s)"
  using assms
proof (induction "length src" arbitrary: off src s rule: less_induct)
  case less
  show ?case
  proof (cases "src = []")
    case True
    then show ?thesis using less.prems file_frame_refl [of s i] by (subst writei_loop.simps) auto
  next
    case False
    define m where "m = min (length src) (BSIZE - off mod BSIZE)"
    note c = chunk [OF m_def]
    have lt: "off mod BSIZE < BSIZE" using B_pos by simp
    have m: "0 < m" "m \<le> length src" using False lt by (simp_all add: m_def)
    have bn: "off div BSIZE < MAXFILE" using less.prems(3) False by (intro div_B_less) (cases src; simp)
    have sp: "spans off (length src) = Suc (spans (off + m) (length src - m))" using False m_def by (intro spans_step) auto
    obtain a s1 where a: "bmap i (off div BSIZE) s = Inr (a, s1)" "bmap_post s i (off div BSIZE) a s1"
      using bmap_ok [OF less.prems(1,2) bn] less.prems(4) sp by auto
    have p: "fs_wf s1" "inode_ok s1 i" "file_frame s s1 i" "imap s1 i (off div BSIZE) = a" "a \<noteq> 0"
      "\<And>x. x < MAXFILE \<Longrightarrow> x \<noteq> off div BSIZE \<Longrightarrow> imap s1 i x = imap s i x" "imap s i (off div BSIZE) \<noteq> 0 \<Longrightarrow> s1 = s"
      "\<And>x. x < MAXFILE \<Longrightarrow> imap s i x \<noteq> 0 \<Longrightarrow> blk s1 (imap s i x) = blk s (imap s i x)"
      "card (free_blocks s) \<le> card (free_blocks s1) + 1 + (if ind s i = 0 \<and> ind s1 i \<noteq> 0 then 1 else 0)"
      "ind s i \<noteq> 0 \<Longrightarrow> ind s1 i = ind s i"
      using a(2) unfolding bmap_post_def by auto
    let ?d = "splice (blk s1 a) (off mod BSIZE) (take m src)"
    have lb: "length (blk s1 a) = BSIZE" by (rule fs_wfD(3) [OF p(1)])
    have ld: "length ?d = BSIZE" using lb c(1) m by simp
    have nz: "imap s1 i (off div BSIZE) \<noteq> 0" using p(4,5) by simp
    note w = chunk_write [OF p(1,2) bn nz ld, unfolded p(4)]
    let ?s2 = "fs_log_write a ?d s1"
    have rd: "fs_bread a s1 = Inr (blk s1 a)"
      using inode_okD(2) [OF p(2) bn nz] fs_wfD(6) [OF p(1)] p(4) by (simp add: fs_bread_def is_data_def)
    have fr2: "card (free_blocks ?s2) \<ge> spans (off + m) (length (drop m src)) + need_ind ?s2 i"
      using p(9,10) less.prems(4) sp w(4,5) by (auto simp: need_ind_def split: if_splits)
    have sm: "off + m + length (drop m src) \<le> MAXFILE * BSIZE" using less.prems(3) m by simp
    obtain s' where s': "writei_loop i (off + m) (drop m src) ?s2 = Inr s'" "fs_wf s'" "inode_ok s' i" "file_frame ?s2 s' i"
      "\<And>k. k < MAXFILE * BSIZE \<Longrightarrow> imap ?s2 i (k div BSIZE) \<noteq> 0 \<or> off + m \<le> k \<and> k < off + m + length (drop m src) \<Longrightarrow>
        imap s' i (k div BSIZE) \<noteq> 0 \<and>
        fbyte s' i k = (if off + m \<le> k \<and> k < off + m + length (drop m src) then drop m src ! (k - (off + m)) else fbyte ?s2 i k)"
      "(\<And>k. off + m \<le> k \<Longrightarrow> k < off + m + length (drop m src) \<Longrightarrow> imap ?s2 i (k div BSIZE) \<noteq> 0) \<Longrightarrow> icache s' = icache ?s2"
      using less.hyps [OF _ w(1,2) sm fr2] m False by auto
    have eq: "writei_loop i off src s = Inr s'"
      using False a(1) rd s'(1) by (subst writei_loop.simps) (simp add: Let_def flip: m_def)
    have fb2: "fbyte ?s2 i k = (if off \<le> k \<and> k < off + m then src ! (k - off) else fbyte s i k)"
      and nz2: "imap ?s2 i (k div BSIZE) \<noteq> 0"
      if k: "k < MAXFILE * BSIZE" "imap s i (k div BSIZE) \<noteq> 0 \<or> off \<le> k \<and> k < off + m" for k
    proof -
      have kb: "k div BSIZE < MAXFILE" by (rule div_B_less [OF k(1)])
      have nz1: "imap s1 i (k div BSIZE) \<noteq> 0"
        using k(2) p(4,5) p(6) [of "k div BSIZE"] kb c(2) [of k] by (cases "k div BSIZE = off div BSIZE") auto
      then show "imap ?s2 i (k div BSIZE) \<noteq> 0" using w(6) [OF kb] by simp
      have f: "fbyte ?s2 i k = (if k div BSIZE = off div BSIZE then ?d ! (k mod BSIZE) else fbyte s1 i k)"
        by (rule w(7) [OF k(1) nz1])
      show "fbyte ?s2 i k = (if off \<le> k \<and> k < off + m then src ! (k - off) else fbyte s i k)"
      proof (cases "off \<le> k \<and> k < off + m")
        case True
        then have km: "k - off < m" by auto
        have kk: "k div BSIZE = off div BSIZE" "k mod BSIZE = off mod BSIZE + (k - off)" using c(2) [of k] True by auto
        have "?d ! (off mod BSIZE + (k - off)) = take m src ! (k - off)"
          by (subst nth_splice) (use km c(1) lb m in auto)
        then have "?d ! (k mod BSIZE) = src ! (k - off)" unfolding kk(2) using km by simp
        then show ?thesis using f kk(1) True by simp
      next
        case False
        then have old: "imap s i (k div BSIZE) \<noteq> 0" using k(2) by blast
        have s1: "fbyte s1 i k = fbyte s i k"
          using p(6) [OF kb] p(7,8) old by (cases "k div BSIZE = off div BSIZE") (auto simp: fbyte_def kb)
        have "?d ! (k mod BSIZE) = blk s1 a ! (k mod BSIZE)" if "k div BSIZE = off div BSIZE"
          using c(1) c(3) [OF that] False lb m B_pos by (subst nth_splice) auto
        then show ?thesis using f s1 False p(4) by (auto simp: fbyte_def)
      qed
    qed
    have "imap s' i (k div BSIZE) \<noteq> 0 \<and> fbyte s' i k = (if off \<le> k \<and> k < off + length src then src ! (k - off) else fbyte s i k)"
      if k: "k < MAXFILE * BSIZE" "imap s i (k div BSIZE) \<noteq> 0 \<or> off \<le> k \<and> k < off + length src" for k
    proof (cases "off + m \<le> k \<and> k < off + length src")
      case True
      then show ?thesis using s'(5) [OF k(1)] m by (auto simp: nth_drop)
    next
      case False
      then have k2: "imap s i (k div BSIZE) \<noteq> 0 \<or> off \<le> k \<and> k < off + m" using k(2) by auto
      show ?thesis using s'(5) [OF k(1)] fb2 [OF k(1) k2] nz2 [OF k(1) k2] False m by auto
    qed
    moreover have "file_frame s s' i" by (rule file_frame_trans [OF file_frame_trans [OF p(3) w(3)] s'(4)])
    moreover have "icache s' = icache s" if all: "\<And>k. off \<le> k \<Longrightarrow> k < off + length src \<Longrightarrow> imap s i (k div BSIZE) \<noteq> 0"
    proof -
      have "s1 = s" using p(7) all [of off] False by simp
      moreover have "icache s' = icache ?s2"
      proof (rule s'(6))
        fix k assume "off + m \<le> k" "k < off + m + length (drop m src)"
        then have "off \<le> k" "k < off + length src" using m by auto
        then show "imap ?s2 i (k div BSIZE) \<noteq> 0"
          using nz2 [of k] all [of k] less.prems(3) by auto
      qed
      ultimately show ?thesis by simp
    qed
    ultimately show ?thesis using eq s'(2,3) by blast
  qed
qed

section \<open>Inodes on disk\<close>

lemma nth_put_words: "x < k \<or> k + 4 * length ws \<le> x \<Longrightarrow> put_words d k ws ! x = d ! x"
proof (induction ws arbitrary: d k)
  case (Cons w ws)
  have "put_words (put32 d k w) (k + 4) ws ! x = put32 d k w ! x" by (rule Cons.IH) (use Cons.prems in auto)
  moreover have "put32 d k w ! x = d ! x" by (rule nth_put32) (use Cons.prems in auto)
  ultimately show ?case by simp
qed simp

lemma get_put_words:
  "j < length ws \<Longrightarrow> k + 4 * length ws \<le> length d \<Longrightarrow> get32 (put_words d k ws) (k + 4 * j) = ws ! j"
proof (induction ws arbitrary: d k j)
  case (Cons w ws)
  show ?case
  proof (cases j)
    case 0
    have "get32 (put_words (put32 d k w) (k + 4) ws) k = get32 (put32 d k w) k"
      by (rule get32_cong) (simp add: nth_put_words)
    with 0 Cons.prems show ?thesis by simp
  next
    case (Suc m)
    have "get32 (put_words (put32 d k w) (k + 4) ws) (k + 4 + 4 * m) = ws ! m"
      by (rule Cons.IH) (use Cons.prems Suc in auto)
    with Suc show ?thesis by (simp add: add.assoc)
  qed
qed simp

lemma length_put_dinode [simp]: "length (put_dinode d k n) = length d"
  by (simp add: put_dinode_def)

lemma get_put_dinode:
  assumes "k + 64 \<le> length d" "length (d_addrs n) = NDIRECT + 1"
  shows "get_dinode (put_dinode d k n) k = n"
proof -
  let ?e = "put32 (put16 (put16 (put16 (put16 d k (d_type n)) (k + 2) (d_major n)) (k + 4) (d_minor n)) (k + 6) (d_nlink n)) (k + 8) (d_size n)"
  have len: "length ?e = length d" by simp
  have e: "get16 ?e k = d_type n" "get16 ?e (k + 2) = d_major n" "get16 ?e (k + 4) = d_minor n" "get16 ?e (k + 6) = d_nlink n"
    "get32 ?e (k + 8) = d_size n" using assms by (simp_all add: get16_put32_other get16_put16_other)
  have p16: "get16 (put_words ?e (k + 12) ws) j = get16 ?e j" if "j + 2 \<le> k + 12" for j ws
    by (rule get16_cong) (use that in \<open>simp add: nth_put_words\<close>)
  have p32: "get32 (put_words ?e (k + 12) ws) (k + 8) = get32 ?e (k + 8)" for ws
    by (rule get32_cong) (simp add: nth_put_words)
  have a: "map (\<lambda>j. get32 (put_words ?e (k + 12) (d_addrs n)) (k + 12 + 4 * j)) [0..<NDIRECT + 1] = d_addrs n"
    using assms get_put_words [of _ "d_addrs n" "k + 12" ?e]
    by (intro nth_equalityI) (simp_all add: NDIRECT_def del: upt_Suc)
  show ?thesis unfolding get_dinode_def put_dinode_def a using p16 p32 e by (simp del: upt_Suc)
qed

lemma nth_put_dinode:
  assumes "length (d_addrs n) = NDIRECT + 1" "x < k \<or> k + 64 \<le> x"
  shows "put_dinode d k n ! x = d ! x"
  using assms by (auto simp: put_dinode_def nth_put_words nth_put32 nth_put16 NDIRECT_def)

lemma get_dinode_cong:
  assumes "\<And>x. k \<le> x \<Longrightarrow> x < k + 64 \<Longrightarrow> d ! x = e ! x"
  shows "get_dinode d k = get_dinode e k"
proof -
  have g16: "get16 d (k + j) = get16 e (k + j)" if "j \<le> 62" for j by (rule get16_cong) (use assms that in auto)
  have g32: "get32 d (k + j) = get32 e (k + j)" if "j \<le> 60" for j by (rule get32_cong) (use assms that in auto)
  have m: "map (\<lambda>j. get32 d (k + 12 + 4 * j)) [0..<NDIRECT + 1] = map (\<lambda>j. get32 e (k + 12 + 4 * j)) [0..<NDIRECT + 1]"
    using g32 [of "12 + 4 * _"] by (intro map_cong) (auto simp: NDIRECT_def add.assoc)
  show ?thesis
    unfolding get_dinode_def m using g16 [of 0] g16 [of 2] g16 [of 4] g16 [of 6] g32 [of 8] by simp
qed

text \<open>The inode with number \<open>n\<close> as it is on disk.\<close>

definition disk_inode :: "fs \<Rightarrow> u32 \<Rightarrow> dinode" where
  "disk_inode s n = get_dinode (blk s (IBLOCK n (fsb s))) (dinode_off n)"

lemma IBLOCK_unat:
  assumes "fs_wf s" "unat n < unat (sb_ninodes (fsb s))"
  shows "unat (IBLOCK n (fsb s)) = unat (sb_inodestart (fsb s)) + unat n div IPB" "\<not> is_bitmap s (IBLOCK n (fsb s))"
    "\<not> is_data s (IBLOCK n (fsb s))" "unat (IBLOCK n (fsb s)) < nblk s" "IBLOCK n (fsb s) \<noteq> 1"
proof -
  note f = fs_wfD [OF assms(1)]
  have lt: "unat (sb_inodestart (fsb s)) + unat n div IPB < unat (sb_bmapstart (fsb s))"
    using f(8) div_le_mono [OF less_imp_le [OF assms(2)], of IPB] by simp
  have bm: "unat (sb_bmapstart (fsb s)) < nblk s" using f(6,9,10) by simp
  have "IBLOCK n (fsb s) = of_nat (unat (sb_inodestart (fsb s)) + unat n div IPB)" by (simp add: IBLOCK_def add.commute)
  moreover have "unat (sb_inodestart (fsb s)) + unat n div IPB < 2 ^ 31" using lt bm f(5) by simp
  ultimately show u: "unat (IBLOCK n (fsb s)) = unat (sb_inodestart (fsb s)) + unat n div IPB"
    by (metis unat_of_nat_small)
  show "\<not> is_bitmap s (IBLOCK n (fsb s))" "\<not> is_data s (IBLOCK n (fsb s))" "unat (IBLOCK n (fsb s)) < nblk s" "IBLOCK n (fsb s) \<noteq> 1"
    using u lt bm f(7,10) by (auto simp: is_bitmap_def is_data_def)
qed

lemma meta_write_wf:
  assumes wf: "fs_wf s" and b: "\<not> is_bitmap s b" "b \<noteq> 1" and d: "length d = BSIZE"
  shows "fs_wf (fs_log_write b d s)" "free_blocks (fs_log_write b d s) = free_blocks s"
proof -
  have u: "used (fs_log_write b d s) c \<longleftrightarrow> used s c" if "c < unat (sb_size (fsb s))" for c
    using BBLOCK_unat(2) [OF wf that] b(1) by (auto simp: used_def)
  note f = fs_wfD [OF wf]
  have "used (fs_log_write b d s) c" if "c < data_start (fsb s)" for c using u [of c] f(4) [OF that] that f(9) by simp
  then show "fs_wf (fs_log_write b d s)" using f b d by (auto simp: fs_wf_def)
  show "free_blocks (fs_log_write b d s) = free_blocks s" using u by (auto simp: free_blocks_def)
qed

lemma dinode_off_bound: "dinode_off n + 64 \<le> BSIZE"
proof -
  have "unat n mod IPB < IPB" by (simp add: IPB_def BSIZE_def)
  then show ?thesis by (simp add: dinode_off_def IPB_def BSIZE_def)
qed

lemma dinode_off_other: "unat m div IPB = unat n div IPB \<Longrightarrow> m \<noteq> n \<Longrightarrow> dinode_off m + 64 \<le> dinode_off n \<or> dinode_off n + 64 \<le> dinode_off m"
proof -
  assume *: "unat m div IPB = unat n div IPB" "m \<noteq> n"
  then have "unat m mod IPB \<noteq> unat n mod IPB" by (metis div_mult_mod_eq word_unat_eq_iff)
  then show ?thesis by (auto simp: dinode_off_def)
qed

text \<open>\<open>iupdate\<close> writes the inode to its place on disk and changes nothing else.\<close>

lemma iupdate_ok:
  assumes wf: "fs_wf s" and n: "unat (i_inum (icache s i)) < unat (sb_ninodes (fsb s))"
    and a: "length (i_addrs (icache s i)) = NDIRECT + 1"
  obtains s' where "iupdate i s = Inr s'" "fs_wf s'" "free_blocks s' = free_blocks s" "fsb s' = fsb s" "nblk s' = nblk s"
    "icache s' = icache s" "\<And>c. c \<noteq> IBLOCK (i_inum (icache s i)) (fsb s) \<Longrightarrow> blk s' c = blk s c"
    "disk_inode s' (i_inum (icache s i)) = dinode_of (icache s i)"
    "\<And>m. unat m < unat (sb_ninodes (fsb s)) \<Longrightarrow> m \<noteq> i_inum (icache s i) \<Longrightarrow> disk_inode s' m = disk_inode s m"
proof -
  let ?n = "i_inum (icache s i)" and ?b = "IBLOCK (i_inum (icache s i)) (fsb s)"
  let ?d = "put_dinode (blk s ?b) (dinode_off ?n) (dinode_of (icache s i))"
  note B = IBLOCK_unat [OF wf n]
  have len: "length (blk s ?b) = BSIZE" by (rule fs_wfD(3) [OF wf])
  have w: "fs_wf (fs_log_write ?b ?d s)" "free_blocks (fs_log_write ?b ?d s) = free_blocks s"
    using meta_write_wf [OF wf B(2,5), of ?d] len by simp_all
  show ?thesis
  proof (rule that [of "fs_log_write ?b ?d s"])
    show "iupdate i s = Inr (fs_log_write ?b ?d s)" using B(4) by (simp add: iupdate_def fs_bread_def Let_def)
    show "disk_inode (fs_log_write ?b ?d s) ?n = dinode_of (icache s i)"
      using get_put_dinode [of "dinode_off ?n" "blk s ?b" "dinode_of (icache s i)"] dinode_off_bound [of ?n] len a
      by (simp add: disk_inode_def dinode_of_def)
    show "disk_inode (fs_log_write ?b ?d s) m = disk_inode s m" if m: "unat m < unat (sb_ninodes (fsb s))" "m \<noteq> ?n" for m
    proof (cases "IBLOCK m (fsb s) = ?b")
      case True
      then have "unat m div IPB = unat ?n div IPB" using IBLOCK_unat(1) [OF wf m(1)] B(1) by simp
      from dinode_off_other [OF this m(2)]
      have "get_dinode ?d (dinode_off m) = get_dinode (blk s ?b) (dinode_off m)"
        by (intro get_dinode_cong nth_put_dinode) (use a in \<open>auto simp: dinode_of_def\<close>)
      with True show ?thesis by (simp add: disk_inode_def)
    next
      case False
      then show ?thesis by (simp add: disk_inode_def)
    qed
  qed (use w in auto)
qed

section \<open>Files\<close>

definition file_ok :: "fs \<Rightarrow> nat \<Rightarrow> bool" where
  "file_ok s i \<longleftrightarrow> inode_ok s i \<and> unat (i_size (icache s i)) \<le> MAXFILE * BSIZE \<and>
     (\<forall>k < unat (i_size (icache s i)). imap s i (k div BSIZE) \<noteq> 0) \<and>
     unat (i_inum (icache s i)) < unat (sb_ninodes (fsb s)) \<and>
     disk_inode s (i_inum (icache s i)) = dinode_of (icache s i) \<and> i_type (icache s i) \<noteq> T_DEV"

lemma file_okD:
  assumes "file_ok s i"
  shows "inode_ok s i" "unat (i_size (icache s i)) \<le> MAXFILE * BSIZE" "k < unat (i_size (icache s i)) \<Longrightarrow> imap s i (k div BSIZE) \<noteq> 0"
    "unat (i_inum (icache s i)) < unat (sb_ninodes (fsb s))" "disk_inode s (i_inum (icache s i)) = dinode_of (icache s i)"
    "i_type (icache s i) \<noteq> T_DEV"
  using assms by (auto simp: file_ok_def)

lemma length_content [simp]: "length (content s i) = unat (i_size (icache s i))"
  by (simp add: content_def)

lemma max_bytes: "MAXFILE * BSIZE = 71680"
  by (simp add: MAXFILE_def NINDIRECT_def NDIRECT_def BSIZE_def)

lemma no_wrap_add: "\<not> off + n < off \<Longrightarrow> unat (off + n) = unat off + unat n" for off n :: u32
  using u32_bound(1) [of n] by (auto simp: word_less_nat_alt unat_plus_if' split: if_splits)

text \<open>A file of three bytes, inode 1, in block 5 of the small image.\<close>

text \<open>A file system with one file, inode 1 in cache slot 0, whose bytes are in block 5.\<close>

definition example_inode :: "u16 \<Rightarrow> u8 list \<Rightarrow> inode" where
  "example_inode ty bs = \<lparr>i_dev = 1, i_inum = 1, i_ref = 1, i_lock = initsleeplock, i_valid = 1, i_type = ty, i_major = 0,
     i_minor = 0, i_nlink = 1, i_size = of_nat (length bs), i_addrs = 5 # replicate NDIRECT 0\<rparr>"

definition one_file :: "u16 \<Rightarrow> u8 list \<Rightarrow> fs" where
  "one_file ty bs = example_fs\<lparr>blk := (blk example_fs)(3 := put_dinode (replicate BSIZE 0) 64 (dinode_of (example_inode ty bs)),
     4 := (replicate BSIZE 0)[0 := 0x3F], 5 := splice (replicate BSIZE 0) 0 bs),
     icache := (icache example_fs)(0 := example_inode ty bs)\<rparr>"

abbreviation example_file :: fs where
  "example_file \<equiv> one_file T_FILE [7, 8, 9]"

lemma one_file_fields:
  "fsb (one_file ty bs) = example_sb" "nblk (one_file ty bs) = 20" "icache (one_file ty bs) 0 = example_inode ty bs"
  "length bs \<le> BSIZE \<Longrightarrow> length (blk (one_file ty bs) b) = BSIZE" "data_start example_sb = 5"
  by (simp_all add: one_file_def example_fs_def data_start_def example_sb_def BPB_def BSIZE_def)

lemma one_file_used: "b < 20 \<Longrightarrow> used (one_file ty bs) b \<longleftrightarrow> b < 6"
proof -
  assume b: "b < 20"
  have "BBLOCK b example_sb = 4" "b mod BPB = b" using b by (simp_all add: BBLOCK_def example_sb_def BPB_def BSIZE_def)
  then have "used (one_file ty bs) b \<longleftrightarrow> bit_used ((replicate BSIZE 0)[0 := 0x3F]) b"
    by (simp add: used_def one_file_fields(1)) (simp add: one_file_def)
  moreover have "bit (0x3F :: u8) b \<longleftrightarrow> b < 6"
  proof -
    have "(0x3F :: u8) = mask 6" by (simp add: mask_eq_exp_minus_1)
    then show ?thesis by (simp only: bit_mask_iff) (auto simp: possible_bit_word)
  qed
  ultimately show ?thesis
    using b by (cases "b < 8") (auto simp: bit_used_iff BSIZE_def nth_list_update)
qed

lemma one_file_wf: "length bs \<le> BSIZE \<Longrightarrow> fs_wf (one_file ty bs)"
proof -
  assume l: "length bs \<le> BSIZE"
  have "layout_ok example_sb 20" by (simp add: layout_ok_def one_file_fields) (simp add: example_sb_def IPB_def BSIZE_def)
  moreover have "superblock_of (blk (one_file ty bs) 1) = example_sb"
    using fs_wfD(2) [OF example_fs_wf] by (simp add: one_file_def example_fs_def)
  ultimately show ?thesis using one_file_used l by (simp add: fs_wf_def one_file_fields)
qed

lemma one_file_map: "ind (one_file ty bs) 0 = 0" "m < MAXFILE \<Longrightarrow> imap (one_file ty bs) 0 m = (if m = 0 then 5 else 0)"
proof -
  show i: "ind (one_file ty bs) 0 = 0" by (simp add: ind_def one_file_fields example_inode_def NDIRECT_def)
  show "imap (one_file ty bs) 0 m = (if m = 0 then 5 else 0)" if "m < MAXFILE"
    by (auto simp: imap_def i one_file_fields example_inode_def NDIRECT_def nth_Cons')
qed

lemma one_file_disk: "disk_inode (one_file ty bs) 1 = dinode_of (example_inode ty bs)"
proof -
  have "blk (one_file ty bs) 3 = put_dinode (replicate BSIZE 0) 64 (dinode_of (example_inode ty bs))" by (simp add: one_file_def)
  moreover have "IBLOCK 1 example_sb = 3" "dinode_off 1 = 64" by (simp_all add: IBLOCK_def example_sb_def IPB_def BSIZE_def dinode_off_def)
  moreover have "get_dinode (put_dinode (replicate BSIZE 0) 64 (dinode_of (example_inode ty bs))) 64 = dinode_of (example_inode ty bs)"
    by (rule get_put_dinode) (simp_all add: BSIZE_def dinode_of_def example_inode_def)
  ultimately show ?thesis by (simp add: disk_inode_def one_file_fields)
qed

lemma one_file_ok:
  assumes "length bs \<le> BSIZE" "ty \<noteq> T_DEV"
  shows "file_ok (one_file ty bs) 0"
proof -
  have five: "is_data (one_file ty bs) 5" "5 \<notin> free_blocks (one_file ty bs)"
    using one_file_used [of 5] by (simp_all add: is_data_def free_blocks_def one_file_fields) (simp add: example_sb_def)
  have "inode_ok (one_file ty bs) 0"
  proof (rule inode_okI)
    show "length (i_addrs (icache (one_file ty bs) 0)) = NDIRECT + 1" by (simp add: one_file_fields example_inode_def)
    show "m = n" if "m < MAXFILE" "n < MAXFILE" "imap (one_file ty bs) 0 m = imap (one_file ty bs) 0 n" "imap (one_file ty bs) 0 m \<noteq> 0" for m n
      using that one_file_map(2) by (auto split: if_splits)
  qed (use one_file_map five in \<open>auto split: if_splits\<close>)
  moreover have "imap (one_file ty bs) 0 0 = 5" using one_file_map(2) [of 0] by (simp add: MAXFILE_def NDIRECT_def)
  moreover have "unat (i_size (example_inode ty bs)) = length bs" using unat_of_nat_small [of "length bs"] assms(1) by (simp add: example_inode_def BSIZE_def)
  ultimately show ?thesis
    using assms one_file_disk [of ty bs]
    by (simp add: file_ok_def one_file_fields) (auto simp: example_inode_def example_sb_def MAXFILE_def NDIRECT_def NINDIRECT_def BSIZE_def)
qed

lemma one_file_content:
  assumes "length bs \<le> BSIZE"
  shows "content (one_file ty bs) 0 = bs"
proof -
  have "imap (one_file ty bs) 0 0 = 5" using one_file_map(2) [of 0] by (simp add: MAXFILE_def NDIRECT_def)
  moreover have "blk (one_file ty bs) 5 = splice (replicate BSIZE 0) 0 bs" by (simp add: one_file_def)
  ultimately have "fbyte (one_file ty bs) 0 k = bs ! k" if "k < length bs" for k
    using that assms by (simp add: fbyte_def nth_splice)
  moreover have "unat (i_size (example_inode ty bs)) = length bs" using unat_of_nat_small [of "length bs"] assms by (simp add: example_inode_def BSIZE_def)
  ultimately show ?thesis by (intro nth_equalityI) (simp_all add: content_def one_file_fields)
qed

lemma one_file_free: "2 \<le> card (free_blocks (one_file ty bs))"
proof -
  have "{6, 7} \<subseteq> free_blocks (one_file ty bs)"
    using one_file_used [of 6] one_file_used [of 7] by (simp add: free_blocks_def one_file_fields) (simp add: example_sb_def)
  from card_mono [OF finite_free this] show ?thesis by simp
qed

lemma example_file_ok: "fs_wf example_file" "file_ok example_file 0" "content example_file 0 = [7, 8, 9]"
  by (simp_all add: one_file_wf one_file_ok one_file_content BSIZE_def T_FILE_def T_DEV_def)

lemma readi_ok:
  assumes "fs_wf s" "file_ok s i"
  shows "readi dv i off n s =
    (if off > i_size (icache s i) \<or> off + n < off then Inr (-1, [], s)
     else (let bs = take (unat n) (drop (unat off) (content s i)) in Inr (int (length bs), bs, s)))"
proof (cases "off > i_size (icache s i) \<or> off + n < off")
  case True
  then show ?thesis using file_okD(6) [OF assms(2)] by (auto simp: readi_def Let_def)
next
  case False
  let ?sz = "i_size (icache s i)"
  note f = file_okD [OF assms(2)]
  have le: "unat off \<le> unat ?sz" using False by (simp add: word_le_nat_alt linorder_not_less)
  define n' where "n' = (if off + n > ?sz then ?sz - off else n)"
  have un: "unat (off + n) = unat off + unat n" using False by (intro no_wrap_add) simp
  have n': "unat n' = min (unat n) (unat ?sz - unat off)"
    using le un by (auto simp: n'_def word_less_nat_alt unat_sub_if' min_def)
  have "readi_loop i (unat off) (unat n') s = Inr (map (fbyte s i) [unat off..<unat off + unat n'], s)"
    by (rule readi_loop_ok [OF assms(1) f(1)]) (use n' le f(2,3) in auto)
  moreover have "map (fbyte s i) [unat off..<unat off + unat n'] = take (unat n) (drop (unat off) (content s i))"
    using n' le by (intro nth_equalityI) (auto simp: content_def)
  moreover have "int (unat n') = int (length (take (unat n) (drop (unat off) (content s i))))" using n' by (simp add: min_def)
  ultimately show ?thesis using False f(6) by (simp add: readi_def Let_def flip: n'_def)
qed

text \<open>
  C17. \<open>readi\<close> reads the file. On a well-formed file system and file, \<open>readi\<close> rejects an offset beyond the end and an
  overflowing range with -1; otherwise it returns exactly the bytes of the file from the offset, up to the count
  or the end of the file, and changes nothing.
\<close>

theorem readi_correct:
  assumes "fs_wf s" "file_ok s i"
  shows "readi dv i off n s =
    (if off > i_size (icache s i) \<or> off + n < off then Inr (-1, [], s)
     else (let bs = take (unat n) (drop (unat off) (content s i)) in Inr (int (length bs), bs, s)))"
  by (rule readi_ok [OF assms])

theorem readi_correct_witness:
  "readi (\<lambda>_. None) 0 1 10 example_file = Inr (2, [8, 9], example_file)"
  using readi_correct [OF example_file_ok(1,2), of "\<lambda>_. None" 1 10] example_file_ok(3)
  by (simp add: one_file_fields example_inode_def Let_def)

lemma own_data: "inode_ok s i \<Longrightarrow> b \<in> own s i \<Longrightarrow> is_data s b \<and> b \<notin> free_blocks s"
  unfolding inode_ok_def by blast

text \<open>An operation on one file leaves the others alone.\<close>

lemma frame_other:
  assumes fr: "file_frame s s' i" and j: "j \<noteq> i" "inode_ok s j" "own s i \<inter> own s j = {}"
  shows "ind s' j = ind s j" "m < MAXFILE \<Longrightarrow> imap s' j m = imap s j m" "b \<in> own s j \<Longrightarrow> blk s' b = blk s b"
    "own s' j = own s j" "own s' i \<inter> own s' j = {}" "icache s' j = icache s j"
proof -
  show ic: "icache s' j = icache s j" using fr j(1) by (simp add: file_frame_def)
  show b: "blk s' b = blk s b" if "b \<in> own s j" for b
    using fr own_data [OF j(2) that] data_not_bitmap j(3) that unfolding file_frame_def by auto
  show i: "ind s' j = ind s j" by (simp add: ind_def ic)
  show im: "imap s' j m = imap s j m" if "m < MAXFILE" for m
    using b [of "ind s j"] by (auto simp: imap_def i ic own_def)
  show ow: "own s' j = own s j" using im by (auto simp: own_def i)
  have "own s' i \<subseteq> own s i \<union> free_blocks s" using fr by (simp add: file_frame_def)
  then show "own s' i \<inter> own s' j = {}" using ow own_data [OF j(2)] j(3) by blast
qed

lemma file_frame_inodes:
  assumes "fs_wf s" "inode_ok s i" "file_frame s s' i" "unat n < unat (sb_ninodes (fsb s))"
  shows "disk_inode s' n = disk_inode s n"
proof -
  note B = IBLOCK_unat [OF assms(1,4)]
  have "IBLOCK n (fsb s) \<notin> free_blocks s" "IBLOCK n (fsb s) \<notin> own s i"
    using B(3) free_is_data [OF assms(1)] own_data [OF assms(2)] by blast+
  then show ?thesis using assms(3) B(2) by (simp add: file_frame_def disk_inode_def)
qed

text \<open>A change of inode blocks only.\<close>

lemma inode_blocks_only:
  assumes wf: "fs_wf s" and ok: "inode_ok s j" and same: "fsb s' = fsb s" "free_blocks s' = free_blocks s"
    "i_addrs (icache s' j) = i_addrs (icache s j)" "\<forall>c. is_data s c \<longrightarrow> blk s' c = blk s c"
  shows "ind s' j = ind s j" "m < MAXFILE \<Longrightarrow> imap s' j m = imap s j m" "inode_ok s' j" "own s' j = own s j"
    "k < MAXFILE * BSIZE \<Longrightarrow> imap s j (k div BSIZE) \<noteq> 0 \<Longrightarrow> fbyte s' j k = fbyte s j k"
proof -
  note o = inode_okD [OF ok]
  show i: "ind s' j = ind s j" by (simp add: ind_def same)
  show im: "imap s' j m = imap s j m" if "m < MAXFILE" for m using o(4) same by (auto simp: imap_def i)
  have dt: "is_data s' c = is_data s c" for c by (simp add: is_data_def same)
  show "inode_ok s' j"
  proof (rule inode_okI)
    show "m = n" if "m < MAXFILE" "n < MAXFILE" "imap s' j m = imap s' j n" "imap s' j m \<noteq> 0" for m n
      using that im o(3) [of m n] by auto
  qed (use o(1,2,4) im same in \<open>auto simp: dt i\<close>)
  show "own s' j = own s j" using im by (auto simp: own_def i)
  show "fbyte s' j k = fbyte s j k" if "k < MAXFILE * BSIZE" "imap s j (k div BSIZE) \<noteq> 0"
    using im [OF div_B_less [OF that(1)]] o(2) [OF div_B_less [OF that(1)] that(2)] same(4) by (simp add: fbyte_def)
qed

definition other_file :: "fs \<Rightarrow> nat \<Rightarrow> nat \<Rightarrow> bool" where
  "other_file s i j \<longleftrightarrow> j \<noteq> i \<and> file_ok s j \<and> own s i \<inter> own s j = {} \<and> i_inum (icache s j) \<noteq> i_inum (icache s i)"

lemma other_kept:
  assumes fr: "file_frame s s1 i" and wf1: "fs_wf s1" and other: "other_file s i j"
    and same: "fsb s' = fsb s1" "free_blocks s' = free_blocks s1" "\<forall>c. is_data s1 c \<longrightarrow> blk s' c = blk s1 c"
      "icache s' j = icache s1 j" "own s' i = own s1 i" "i_inum (icache s' i) = i_inum (icache s i)"
      "disk_inode s' (i_inum (icache s j)) = disk_inode s (i_inum (icache s j))"
  shows "other_file s' i j \<and> content s' j = content s j"
proof -
  have j: "j \<noteq> i" "file_ok s j" "own s i \<inter> own s j = {}" "i_inum (icache s j) \<noteq> i_inum (icache s i)"
    using other by (auto simp: other_file_def)
  note fj = file_okD [OF j(2)] and fo = frame_other [OF fr j(1) file_okD(1) [OF j(2)] j(3)]
  have ic: "icache s' j = icache s j" using same(4) fo(6) by simp
  have sb: "fsb s1 = fsb s" using fr by (simp add: file_frame_def)
  have ok1: "inode_ok s1 j"
  proof (rule inode_okI)
    show "m = k" if "m < MAXFILE" "k < MAXFILE" "imap s1 j m = imap s1 j k" "imap s1 j m \<noteq> 0" for m k
      using that fo(2) inode_okD(3) [OF fj(1), of m k] by auto
    show "is_data s1 (imap s1 j m) \<and> imap s1 j m \<notin> free_blocks s1 \<and> imap s1 j m \<noteq> ind s1 j" if "m < MAXFILE" "imap s1 j m \<noteq> 0" for m
      using that fo(1,2) inode_okD(2) [OF fj(1), of m] fr by (auto simp: file_frame_def is_data_def)
    show "is_data s1 (ind s1 j) \<and> ind s1 j \<notin> free_blocks s1" if "ind s1 j \<noteq> 0"
      using that fo(1) inode_okD(4) [OF fj(1)] fr by (auto simp: file_frame_def is_data_def)
  qed (use inode_okD(1) [OF fj(1)] fo(6) in simp)
  have ad: "i_addrs (icache s' j) = i_addrs (icache s1 j)" using same(4) by simp
  note sj = inode_blocks_only [OF wf1 ok1 same(1,2) ad same(3)]
  have bj: "imap s' j (k div BSIZE) \<noteq> 0 \<and> fbyte s' j k = fbyte s j k" if "k < unat (i_size (icache s j))" for k
  proof -
    have k: "k < MAXFILE * BSIZE" using that fj(2) by simp
    have kb: "k div BSIZE < MAXFILE" by (rule div_B_less [OF k])
    have nz: "imap s j (k div BSIZE) \<noteq> 0" by (rule fj(3) [OF that])
    then have "imap s j (k div BSIZE) \<in> own s j" using kb by (auto simp: own_def)
    then have "fbyte s1 j k = fbyte s j k" using fo(2) [OF kb] fo(3) by (simp add: fbyte_def)
    then show ?thesis using sj(2) [OF kb] sj(5) [OF k] fo(2) [OF kb] nz by simp
  qed
  have "file_ok s' j" unfolding file_ok_def using sj(3) fj bj same(1,7) sb by (auto simp: ic)
  moreover have "own s' i \<inter> own s' j = {}" using fo(5) same(5) sj(4) by simp
  moreover have "content s' j = content s j" using bj by (auto simp: content_def ic)
  ultimately show ?thesis using j(1,4) same(6) ic by (simp add: other_file_def)
qed

text \<open>The state after the loop of \<open>writei\<close> and, if the file grew, \<open>iupdate\<close>.\<close>

lemma writei_result:
  assumes wf: "fs_wf s" and ok: "file_ok s i" and off: "unat off \<le> unat (i_size (icache s i))" "\<not> off + n < off"
    "unat (off + n) \<le> MAXFILE * BSIZE" and src: "length src = unat n"
    and fr: "spans (unat off) (unat n) + need_ind s i \<le> card (free_blocks s)"
  obtains s1 s' where "writei dv i src off n s = Inr (int (unat n), s')" "fs_wf s1" "inode_ok s1 i" "file_frame s s1 i"
    "\<And>k. k < MAXFILE * BSIZE \<Longrightarrow> imap s i (k div BSIZE) \<noteq> 0 \<or> unat off \<le> k \<and> k < unat off + unat n \<Longrightarrow>
       imap s1 i (k div BSIZE) \<noteq> 0 \<and> fbyte s1 i k = (if unat off \<le> k \<and> k < unat off + unat n then src ! (k - unat off) else fbyte s i k)"
    "fs_wf s'" "free_blocks s' = free_blocks s1" "fsb s' = fsb s1" "nblk s' = nblk s1" "\<forall>c. is_data s1 c \<longrightarrow> blk s' c = blk s1 c"
    "\<And>j. j \<noteq> i \<Longrightarrow> icache s' j = icache s1 j" "\<exists>z. icache s' i = (icache s1 i)\<lparr>i_size := z\<rparr>"
    "unat (i_size (icache s' i)) = max (unat (i_size (icache s i))) (unat off + unat n)"
    "disk_inode s' (i_inum (icache s i)) = dinode_of (icache s' i)"
    "\<And>m. unat m < unat (sb_ninodes (fsb s)) \<Longrightarrow> m \<noteq> i_inum (icache s i) \<Longrightarrow> disk_inode s' m = disk_inode s m"
proof -
  note f = file_okD [OF ok]
  have un: "unat (off + n) = unat off + unat n" by (rule no_wrap_add [OF off(2)])
  obtain s1 where s1: "writei_loop i (unat off) src s = Inr s1" "fs_wf s1" "inode_ok s1 i" "file_frame s s1 i"
    "\<And>k. k < MAXFILE * BSIZE \<Longrightarrow> imap s i (k div BSIZE) \<noteq> 0 \<or> unat off \<le> k \<and> k < unat off + unat n \<Longrightarrow>
       imap s1 i (k div BSIZE) \<noteq> 0 \<and> fbyte s1 i k = (if unat off \<le> k \<and> k < unat off + unat n then src ! (k - unat off) else fbyte s i k)"
    "(\<And>k. unat off \<le> k \<Longrightarrow> k < unat off + unat n \<Longrightarrow> imap s i (k div BSIZE) \<noteq> 0) \<Longrightarrow> icache s1 = icache s"
    using writei_loop_ok [OF wf f(1), of "unat off" src] off(3) src fr un by auto
  obtain a where a: "icache s1 i = (icache s i)\<lparr>i_addrs := a\<rparr>" using s1(4) by (auto simp: file_frame_def)
  have sb: "fsb s1 = fsb s" using s1(4) by (simp add: file_frame_def)
  have dsk: "disk_inode s1 m = disk_inode s m" if "unat m < unat (sb_ninodes (fsb s))" for m
    by (rule file_frame_inodes [OF wf f(1) s1(4) that])
  have base: "writei dv i src off n s = bindE (Inr s1) (\<lambda>s. if n > 0 \<and> off + n > i_size (icache s i)
      then bindE (iupdate i (upd_inode i (\<lambda>x. x\<lparr>i_size := off + n\<rparr>) s)) (\<lambda>s. Inr (int (unat n), s)) else Inr (int (unat n), s))"
    using f(6) off src s1(1) by (simp add: writei_def Let_def word_less_nat_alt linorder_not_less)
  show ?thesis
  proof (cases "unat off + unat n > unat (i_size (icache s i))")
    case True
    define s2 where "s2 = upd_inode i (\<lambda>x. x\<lparr>i_size := off + n\<rparr>) s1"
    have wf2: "fs_wf s2" "unat (i_inum (icache s2 i)) < unat (sb_ninodes (fsb s2))" "length (i_addrs (icache s2 i)) = NDIRECT + 1"
      using s1(2) f(4) sb inode_okD(1) [OF s1(3)] by (simp_all add: s2_def a)
    have inum: "i_inum (icache s2 i) = i_inum (icache s i)" by (simp add: s2_def a)
    obtain s' where s': "iupdate i s2 = Inr s'" "fs_wf s'" "free_blocks s' = free_blocks s2" "fsb s' = fsb s2" "nblk s' = nblk s2"
      "icache s' = icache s2" "\<And>c. c \<noteq> IBLOCK (i_inum (icache s2 i)) (fsb s2) \<Longrightarrow> blk s' c = blk s2 c"
      "disk_inode s' (i_inum (icache s2 i)) = dinode_of (icache s2 i)"
      "\<And>m. unat m < unat (sb_ninodes (fsb s2)) \<Longrightarrow> m \<noteq> i_inum (icache s2 i) \<Longrightarrow> disk_inode s' m = disk_inode s2 m"
      by (rule iupdate_ok [OF wf2], rule that)
    have np: "n > 0" "off + n > i_size (icache s1 i)"
      using True off(1) un by (auto simp: word_less_nat_alt a)
    have ib: "\<not> is_data s1 (IBLOCK (i_inum (icache s i)) (fsb s1))" using IBLOCK_unat(3) [OF s1(2)] f(4) sb by simp
    show ?thesis
    proof (rule that [OF _ s1(2-5) s'(2)])
      show "writei dv i src off n s = Inr (int (unat n), s')" unfolding base using np s'(1) by (simp add: s2_def)
      show "unat (i_size (icache s' i)) = max (unat (i_size (icache s i))) (unat off + unat n)"
        using True un by (simp add: s'(6) s2_def)
      show "disk_inode s' m = disk_inode s m" if "unat m < unat (sb_ninodes (fsb s))" "m \<noteq> i_inum (icache s i)" for m
        using s'(9) [of m] that dsk [OF that(1)] sb by (simp add: s2_def a disk_inode_def)
      show "\<forall>c. is_data s1 c \<longrightarrow> blk s' c = blk s1 c"
      proof (intro allI impI)
        fix c assume "is_data s1 c"
        then have "c \<noteq> IBLOCK (i_inum (icache s2 i)) (fsb s2)" using ib inum by (auto simp: s2_def)
        from s'(7) [OF this] show "blk s' c = blk s1 c" by (simp add: s2_def)
      qed
    qed (use s' inum in \<open>auto simp: s2_def\<close>)
  next
    case False
    then have ic: "icache s1 = icache s" using f(3) by (intro s1(6)) simp
    have "\<not> off + n > i_size (icache s1 i)" using False un by (simp add: word_less_nat_alt ic)
    then have "writei dv i src off n s = Inr (int (unat n), s1)" unfolding base by simp
    then show ?thesis
      by (rule that [OF _ s1(2-5) s1(2)]) (use False ic dsk f(4,5) in \<open>auto intro: exI [of _ "i_size (icache s i)"]\<close>)
  qed
qed

lemma writei_ok:
  assumes "fs_wf s" "file_ok s i" "unat off \<le> unat (i_size (icache s i))" "\<not> off + n < off" "unat (off + n) \<le> MAXFILE * BSIZE"
    and "length src = unat n" "spans (unat off) (unat n) + need_ind s i \<le> card (free_blocks s)"
  shows "\<exists>s'. writei dv i src off n s = Inr (int (unat n), s') \<and> fs_wf s' \<and> file_ok s' i \<and>
    content s' i = take (unat off) (content s i) @ src @ drop (unat off + unat n) (content s i) \<and>
    (\<forall>j. other_file s i j \<longrightarrow> other_file s' i j \<and> content s' j = content s j) \<and>
    (\<exists>a z. icache s' i = (icache s i)\<lparr>i_addrs := a, i_size := z\<rparr>) \<and> (\<forall>j. j \<noteq> i \<longrightarrow> icache s' j = icache s j)"
proof -
  note f = file_okD [OF assms(2)]
  obtain s1 s' where w: "writei dv i src off n s = Inr (int (unat n), s')" "fs_wf s1" "inode_ok s1 i" "file_frame s s1 i"
    "\<And>k. k < MAXFILE * BSIZE \<Longrightarrow> imap s i (k div BSIZE) \<noteq> 0 \<or> unat off \<le> k \<and> k < unat off + unat n \<Longrightarrow>
       imap s1 i (k div BSIZE) \<noteq> 0 \<and> fbyte s1 i k = (if unat off \<le> k \<and> k < unat off + unat n then src ! (k - unat off) else fbyte s i k)"
    "fs_wf s'" "free_blocks s' = free_blocks s1" "fsb s' = fsb s1" "nblk s' = nblk s1" "\<forall>c. is_data s1 c \<longrightarrow> blk s' c = blk s1 c"
    "\<And>j. j \<noteq> i \<Longrightarrow> icache s' j = icache s1 j" "\<exists>z. icache s' i = (icache s1 i)\<lparr>i_size := z\<rparr>"
    "unat (i_size (icache s' i)) = max (unat (i_size (icache s i))) (unat off + unat n)"
    "disk_inode s' (i_inum (icache s i)) = dinode_of (icache s' i)"
    "\<And>m. unat m < unat (sb_ninodes (fsb s)) \<Longrightarrow> m \<noteq> i_inum (icache s i) \<Longrightarrow> disk_inode s' m = disk_inode s m"
    by (rule writei_result [OF assms], rule that)
  have sb: "fsb s1 = fsb s" using w(4) by (simp add: file_frame_def)
  have un: "unat (off + n) = unat off + unat n" by (rule no_wrap_add [OF assms(4)])
  obtain a z where iz: "icache s' i = (icache s i)\<lparr>i_addrs := a, i_size := z\<rparr>" "i_addrs (icache s' i) = i_addrs (icache s1 i)"
    using w(4,12) by (auto simp: file_frame_def)
  note same = inode_blocks_only [OF w(2) w(3) w(8,7) iz(2) w(10)]
  let ?sz = "unat (i_size (icache s i))" and ?sz' = "unat (i_size (icache s' i))"
  have mx: "?sz' \<le> MAXFILE * BSIZE" using w(13) f(2) assms(5) un by simp
  have bi: "imap s' i (k div BSIZE) \<noteq> 0 \<and> fbyte s' i k = (if unat off \<le> k \<and> k < unat off + unat n then src ! (k - unat off) else fbyte s i k)"
    if "k < ?sz'" for k
  proof -
    have k: "k < MAXFILE * BSIZE" using that mx by simp
    have "imap s i (k div BSIZE) \<noteq> 0 \<or> unat off \<le> k \<and> k < unat off + unat n" using that w(13) f(3) [of k] assms(3) by (cases "k < ?sz") auto
    with w(5) [OF k] same(2) [OF div_B_less [OF k]] same(5) [OF k] show ?thesis by auto
  qed
  have "file_ok s' i" unfolding file_ok_def using same(3) mx bi f(4,6) w(8,14) iz(1) sb by auto
  moreover have "content s' i = take (unat off) (content s i) @ src @ drop (unat off + unat n) (content s i)"
  proof (rule nth_equalityI)
    show "length (content s' i) = length (take (unat off) (content s i) @ src @ drop (unat off + unat n) (content s i))"
      using w(13) assms(3,6) by auto
    fix k assume "k < length (content s' i)"
    then have "k < ?sz'" by simp
    then show "content s' i ! k = (take (unat off) (content s i) @ src @ drop (unat off + unat n) (content s i)) ! k"
      using bi [of k] w(13) assms(3,6) by (auto simp: content_def nth_append)
  qed
  moreover have "other_file s' i j \<and> content s' j = content s j" if j: "other_file s i j" for j
  proof (rule other_kept [OF w(4,2) j w(8,7,10)])
    show "icache s' j = icache s1 j" using w(11) j by (simp add: other_file_def)
    show "disk_inode s' (i_inum (icache s j)) = disk_inode s (i_inum (icache s j))"
      using j by (intro w(15)) (auto simp: other_file_def file_ok_def)
  qed (use same(4) iz(1) in auto)
  moreover have "icache s' j = icache s j" if "j \<noteq> i" for j using w(4) w(11) [OF that] that by (simp add: file_frame_def)
  ultimately show ?thesis using w(1,6) iz(1) by blast
qed



end
