(* ===== verification/Xv6_Fs_Dir.thy ===== *)
theory Xv6_Fs_Dir
  imports Xv6_Fs_File
begin

text \<open>
  Directories and path names. A directory is a file of 16-byte entries; \<open>dirlookup\<close> finds the first entry in use with
  the name, and \<open>dirlink\<close> adds one, so that the directory as a map from names to inode numbers is updated at one
  point. \<open>skipelem\<close> takes a path apart into its elements.
\<close>

section \<open>Names\<close>

lemma cstr_simps [simp]: "cstr [] = []" "cstr (0 # xs) = []" "x \<noteq> 0 \<Longrightarrow> cstr (x # xs) = x # cstr xs"
  by (simp_all add: cstr_def)

lemma cstrncmp_eq: "cstrncmp n p q = 0 \<longleftrightarrow> take n (cstr p) = take n (cstr q)"
proof (induction n arbitrary: p q)
  case (Suc n)
  show ?case
  proof (cases p)
    case Nil
    then show ?thesis using Suc.IH by (cases q) (auto simp: Let_def cstr_def uint_0_iff)
  next
    case (Cons a p')
    show ?thesis
    proof (cases q)
      case Nil
      with Cons show ?thesis by (cases "a = 0") (auto simp: Let_def uint_0_iff)
    next
      case (Cons b q')
      with \<open>p = a # p'\<close> Suc.IH [of p' q'] show ?thesis
        by (cases "a = 0"; cases "b = 0") (auto simp: Let_def uint_0_iff simp flip: word_uint_eq_iff)
    qed
  qed
qed simp

definition fname :: "u8 list \<Rightarrow> u8 list" where    \<comment> \<open>a name as the directory stores it\<close>
  "fname s = take DIRSIZ (cstr s)"

lemma namecmp_eq: "namecmp s t = 0 \<longleftrightarrow> fname s = fname t"
  by (simp add: namecmp_def cstrncmp_eq fname_def)

lemma takeWhile_all: "(\<And>x. x \<in> set xs \<Longrightarrow> P x) \<Longrightarrow> takeWhile P (xs @ ys) = xs @ takeWhile P ys"
  by (induction xs) auto

lemma fname_dir_name: "fname (dir_name s) = fname s"
proof -
  have "c \<noteq> 0" if "c \<in> set (take DIRSIZ (cstr s))" for c
    using set_takeWhileD [of c "\<lambda>c. c \<noteq> 0" s] in_set_takeD [OF that] by (simp add: cstr_def)
  then have "takeWhile (\<lambda>c. c \<noteq> 0) (take DIRSIZ (cstr s) @ replicate k 0) =
      take DIRSIZ (cstr s) @ takeWhile (\<lambda>c. c \<noteq> 0) (replicate k 0)" for k by (rule takeWhile_all)
  moreover have "takeWhile (\<lambda>c. c \<noteq> 0) (replicate k (0 :: u8)) = []" for k by (cases k) simp_all
  ultimately have "cstr (take DIRSIZ (cstr s) @ replicate k 0) = take DIRSIZ (cstr s)" for k by (simp add: cstr_def)
  then show ?thesis by (simp add: fname_def dir_name_def Let_def)
qed

lemma length_dir_name: "length (dir_name s) = DIRSIZ"
  by (simp add: dir_name_def Let_def min_def)

lemma length_mk_dirent: "length (mk_dirent n s) = DIRENT"
  by (simp add: mk_dirent_def length_dir_name DIRENT_def DIRSIZ_def)

lemma mk_dirent_fields: "de_inum (mk_dirent n s) = n" "fname (de_name (mk_dirent n s)) = fname s"
proof -
  show "de_inum (mk_dirent n s) = n" by (simp add: de_inum_def get16_def mk_dirent_def word16_bytes)
  have "de_name (mk_dirent n s) = dir_name s" by (simp add: de_name_def mk_dirent_def length_dir_name)
  then show "fname (de_name (mk_dirent n s)) = fname s" by (simp add: fname_dir_name)
qed

section \<open>Directory contents\<close>

definition slot :: "u8 list \<Rightarrow> nat \<Rightarrow> u8 list" where
  "slot c k = take DIRENT (drop (DIRENT * k) c)"

definition slots :: "u8 list \<Rightarrow> nat" where
  "slots c = length c div DIRENT"

text \<open>The entry a name refers to: inode number and slot.\<close>

definition dir_find :: "u8 list \<Rightarrow> u8 list \<Rightarrow> (u16 \<times> nat) option" where
  "dir_find c name =
     map_option (\<lambda>k. (de_inum (slot c k), k))
       (find (\<lambda>k. de_inum (slot c k) \<noteq> 0 \<and> fname (de_name (slot c k)) = fname name) [0..<slots c])"

definition dir_ok :: "fs \<Rightarrow> nat \<Rightarrow> bool" where
  "dir_ok s i \<longleftrightarrow> file_ok s i \<and> i_type (icache s i) = T_DIR \<and> DIRENT dvd unat (i_size (icache s i))"

lemma dir_okD:
  assumes "dir_ok s i"
  shows "file_ok s i" "i_type (icache s i) = T_DIR" "length (content s i) = DIRENT * slots (content s i)"
    "dir_slots (unat (i_size (icache s i))) = slots (content s i)" "DIRENT * slots (content s i) \<le> 71680"
proof -
  show "file_ok s i" "i_type (icache s i) = T_DIR" using assms by (simp_all add: dir_ok_def)
  have d: "DIRENT dvd unat (i_size (icache s i))" using assms by (simp add: dir_ok_def)
  then show l: "length (content s i) = DIRENT * slots (content s i)" by (simp add: slots_def)
  obtain q where q: "unat (i_size (icache s i)) = 16 * q" using d by (auto simp: DIRENT_def)
  then show "dir_slots (unat (i_size (icache s i))) = slots (content s i)" by (simp add: dir_slots_def slots_def DIRENT_def)
  show "DIRENT * slots (content s i) \<le> 71680" using l file_okD(2) [OF \<open>file_ok s i\<close>] max_bytes by simp
qed

text \<open>Reading one entry.\<close>

lemma read_slot:
  assumes wf: "fs_wf s" and d: "dir_ok s dp" and k: "k < slots (content s dp)"
  shows "readi dv dp (of_nat (DIRENT * k)) (of_nat DIRENT) s = Inr (int DIRENT, slot (content s dp) k, s)"
proof -
  note dd = dir_okD [OF d]
  define o' n :: u32 where "o' = of_nat (DIRENT * k)" and "n = of_nat DIRENT"
  have le: "DIRENT * k + DIRENT \<le> length (content s dp)" using k dd(3) by (simp add: DIRENT_def)
  have uo: "unat o' = DIRENT * k" unfolding o'_def by (rule unat_of_nat_small) (use le dd(3,5) in simp)
  have ud: "unat n = DIRENT" by (simp add: DIRENT_def n_def)
  have sum: "unat (o' + n) = DIRENT * k + DIRENT"
    using unat_of_nat_small [of "DIRENT * k + DIRENT"] le dd(3,5) by (simp add: o'_def n_def)
  have "\<not> o' > i_size (icache s dp)" "\<not> o' + n < o'"
    unfolding word_less_nat_alt uo sum using le by simp_all
  then show ?thesis
    using le unfolding o'_def [symmetric] n_def [symmetric] readi_ok [OF wf dd(1)] by (simp add: uo ud Let_def slot_def)
qed

lemma dirlookup_from_ok:
  assumes wf: "fs_wf s" and d: "dir_ok s dp" and k: "j + k = slots (content s dp)"
  shows "dirlookup_from dv dp name k (DIRENT * j) s =
    Inr (map_option (\<lambda>m. (de_inum (slot (content s dp) m), DIRENT * m))
      (find (\<lambda>m. de_inum (slot (content s dp) m) \<noteq> 0 \<and> fname (de_name (slot (content s dp) m)) = fname name) [j..<slots (content s dp)]), s)"
  using k
proof (induction k arbitrary: j)
  case (Suc k)
  have rs: "readi dv dp (of_nat (DIRENT * j)) (of_nat DIRENT) s = Inr (int DIRENT, slot (content s dp) j, s)"
    by (rule read_slot [OF wf d]) (use Suc.prems in simp)
  have off: "DIRENT * j + DIRENT = DIRENT * Suc j" by simp
  have up: "[j..<slots (content s dp)] = j # [Suc j..<slots (content s dp)]" using Suc.prems by (intro upt_conv_Cons) simp
  have "dirlookup_from dv dp name k (DIRENT * j + DIRENT) s =
    Inr (map_option (\<lambda>m. (de_inum (slot (content s dp) m), DIRENT * m))
      (find (\<lambda>m. de_inum (slot (content s dp) m) \<noteq> 0 \<and> fname (de_name (slot (content s dp) m)) = fname name) [Suc j..<slots (content s dp)]), s)"
    unfolding off by (rule Suc.IH) (use Suc.prems in simp)
  with rs show ?case unfolding up dirlookup_from.simps by (simp add: namecmp_eq eq_commute [of "fname name"])
qed simp

lemma dirlink_from_ok:
  assumes wf: "fs_wf s" and d: "dir_ok s dp" and k: "j + k = slots (content s dp)"
  shows "dirlink_from dv dp k (DIRENT * j) s =
    Inr (DIRENT * (case find (\<lambda>m. de_inum (slot (content s dp) m) = 0) [j..<slots (content s dp)] of
      Some m \<Rightarrow> m | None \<Rightarrow> slots (content s dp)), s)"
  using k
proof (induction k arbitrary: j)
  case (Suc k)
  have rs: "readi dv dp (of_nat (DIRENT * j)) (of_nat DIRENT) s = Inr (int DIRENT, slot (content s dp) j, s)"
    by (rule read_slot [OF wf d]) (use Suc.prems in simp)
  have off: "DIRENT * j + DIRENT = DIRENT * Suc j" by simp
  have up: "[j..<slots (content s dp)] = j # [Suc j..<slots (content s dp)]" using Suc.prems by (intro upt_conv_Cons) simp
  have "dirlink_from dv dp k (DIRENT * j + DIRENT) s =
    Inr (DIRENT * (case find (\<lambda>m. de_inum (slot (content s dp) m) = 0) [Suc j..<slots (content s dp)] of
      Some m \<Rightarrow> m | None \<Rightarrow> slots (content s dp)), s)"
    unfolding off by (rule Suc.IH) (use Suc.prems in simp)
  with rs show ?case unfolding up dirlink_from.simps by simp
qed simp

text \<open>\<open>dirlookup\<close> returns the entry the name refers to, through \<open>iget\<close>.\<close>

lemma dirlookup_ok:
  assumes wf: "fs_wf s" and d: "dir_ok s dp"
  shows "dirlookup dv dp name s =
    (case dir_find (content s dp) name of
       None \<Rightarrow> Inr (None, s)
     | Some (inum, k) \<Rightarrow> bindE (iget (i_dev (icache s dp)) (ucast inum) s) (\<lambda>(ip, s). Inr (Some (ip, DIRENT * k), s)))"
proof -
  have "dirlookup_from dv dp name (slots (content s dp)) 0 s =
    Inr (map_option (\<lambda>m. (de_inum (slot (content s dp) m), DIRENT * m))
      (find (\<lambda>m. de_inum (slot (content s dp) m) \<noteq> 0 \<and> fname (de_name (slot (content s dp) m)) = fname name) [0..<slots (content s dp)]), s)"
    using dirlookup_from_ok [OF wf d, of 0 "slots (content s dp)" dv name] by simp
  then show ?thesis
    using dir_okD(2,4) [OF d] by (simp add: dirlookup_def dir_find_def split: option.splits)
qed

lemma take_drop_take: "a + n \<le> b \<Longrightarrow> take n (drop a (take b xs)) = take n (drop a xs)"
  by (simp add: drop_take min_def)

text \<open>The contents after an entry is written at slot \<open>k\<close>, at most one past the last.\<close>

lemma slot_write:
  assumes len: "length c = DIRENT * slots c" and k: "k \<le> slots c" and e: "length e = DIRENT"
  defines "c' \<equiv> take (DIRENT * k) c @ e @ drop (DIRENT * k + DIRENT) c"
  shows "slots c' = max (slots c) (Suc k)" "length c' = DIRENT * slots c'" "m < slots c' \<Longrightarrow> slot c' m = (if m = k then e else slot c m)"
proof -
  have l: "length c' = DIRENT * max (slots c) (Suc k)"
  proof (cases "k < slots c")
    case True
    then have "DIRENT * k + DIRENT \<le> length c" unfolding len by (simp add: DIRENT_def)
    then have "length c' = length c" using e by (simp add: c'_def)
    then show ?thesis using True len by (simp add: max_def)
  next
    case False
    then have "k = slots c" using k by simp
    then show ?thesis using e len by (simp add: c'_def)
  qed
  then show sl: "slots c' = max (slots c) (Suc k)" unfolding slots_def [of c'] by (simp add: DIRENT_def)
  show "length c' = DIRENT * slots c'" using l sl by simp
  show "slot c' m = (if m = k then e else slot c m)" if m: "m < slots c'"
  proof -
    have "m \<le> k \<or> m < slots c" using m sl by auto
    then consider "m < k" | "m = k" | "k < m" "m < slots c" by linarith
    then show ?thesis
    proof cases
      case 1
      then have "DIRENT * m + DIRENT \<le> DIRENT * k" "DIRENT * k \<le> length c" using k len by (auto simp: DIRENT_def)
      with 1 show ?thesis using take_drop_take [of "DIRENT * m" DIRENT "DIRENT * k" c] by (simp add: slot_def c'_def min_def)
    next
      case 2
      have "DIRENT * k \<le> length c" using k len by simp
      with 2 e show ?thesis by (simp add: slot_def c'_def min_def)
    next
      case 3
      then have "DIRENT * k + DIRENT \<le> DIRENT * m" "DIRENT * k \<le> length c" using k len by (auto simp: DIRENT_def)
      with 3 e show ?thesis by (simp add: slot_def c'_def min_def)
    qed
  qed
qed

lemma find_append: "find P (xs @ ys) = (case find P xs of None \<Rightarrow> find P ys | r \<Rightarrow> r)"
  by (induction xs) auto

lemma find_eq_upt: "k < n \<Longrightarrow> find (\<lambda>m. m = k) [0..<n] = Some k"
  by (induction n) (auto simp: find_append less_Suc_eq find_None_iff dest: find_SomeD split: option.splits)

lemma dir_find_write:
  assumes len: "length c = DIRENT * slots c" and k: "k \<le> slots c" "k < slots c \<Longrightarrow> de_inum (slot c k) = 0"
    and n: "n \<noteq> 0" and new: "dir_find c name = None"
  defines "c' \<equiv> take (DIRENT * k) c @ mk_dirent n name @ drop (DIRENT * k + DIRENT) c"
  shows "dir_find c' x = (if fname x = fname name then Some (n, k) else dir_find c x)"
proof -
  note sw = slot_write [OF len k(1) length_mk_dirent [of n name], folded c'_def]
  let ?P = "\<lambda>c x m. de_inum (slot c m) \<noteq> 0 \<and> fname (de_name (slot c m)) = fname x"
  have P: "?P c' x m \<longleftrightarrow> (if m = k then fname name = fname x else ?P c x m)" if "m < slots c'" for m
    using sw(3) [OF that] mk_dirent_fields n by simp
  have no: "\<not> ?P c name m" if "m < slots c" for m using new that by (auto simp: dir_find_def find_None_iff)
  have old: "\<not> ?P c x k" if "k < slots c" using k(2) [OF that] by simp
  show ?thesis
  proof (cases "fname x = fname name")
    case True
    have "find (?P c' x) [0..<slots c'] = Some k"
    proof -
      have "?P c' x m \<longleftrightarrow> m = k" if "m < slots c'" for m
        using P [OF that] no [of m] sw(1) k(1) True that by (cases "m = k"; cases "m < slots c") (auto simp: max_def split: if_splits)
      then have "find (?P c' x) [0..<slots c'] = find (\<lambda>m. m = k) [0..<slots c']" by (intro find_cong) auto
      moreover have "k < slots c'" using sw(1) by simp
      ultimately show ?thesis using find_eq_upt by simp
    qed
    moreover have "de_inum (slot c' k) = n" using sw(1) sw(3) [of k] mk_dirent_fields by simp
    ultimately show ?thesis using True by (simp add: dir_find_def)
  next
    case False
    have same: "?P c' x m \<longleftrightarrow> m < slots c \<and> ?P c x m" if "m < slots c'" for m
      using P [OF that] False old sw(1) k(1) that by (cases "m = k") (auto simp: max_def split: if_splits)
    have "find (?P c' x) [0..<slots c'] = find (?P c x) [0..<slots c]"
    proof (cases "slots c' = slots c")
      case True
      then show ?thesis using same by (intro find_cong) auto
    next
      case grown: False
      then have g: "slots c' = Suc (slots c)" using sw(1) k(1) by (auto simp: max_def split: if_splits)
      have "find (?P c' x) [0..<slots c] = find (?P c x) [0..<slots c]" using same g by (intro find_cong) auto
      moreover have "\<not> ?P c' x (slots c)" using same [of "slots c"] g by simp
      ultimately show ?thesis unfolding g by (auto simp: find_append split: option.splits)
    qed
    moreover have "slot c' m = slot c m" if "find (?P c x) [0..<slots c] = Some m" for m
    proof -
      have "m < slots c" "?P c x m" using find_SomeD [OF that] by auto
      then have "m \<noteq> k" using old by auto
      then show ?thesis using sw(1) sw(3) [of m] \<open>m < slots c\<close> by simp
    qed
    ultimately show ?thesis using False by (auto simp: dir_find_def map_option_case split: option.splits)
  qed
qed

definition free_slot :: "u8 list \<Rightarrow> nat" where
  "free_slot c = (case find (\<lambda>m. de_inum (slot c m) = 0) [0..<slots c] of Some m \<Rightarrow> m | None \<Rightarrow> slots c)"

lemma free_slot: "free_slot c \<le> slots c" "free_slot c < slots c \<Longrightarrow> de_inum (slot c (free_slot c)) = 0"
  by (auto simp: free_slot_def dest!: find_SomeD split: option.splits)

lemma spans_dirent: "spans (DIRENT * k) DIRENT = 1"
proof -
  have "DIRENT * k mod BSIZE = 16 * (k mod 32)" using mod_mult_mult1 [of 16 k 32] by (simp add: DIRENT_def BSIZE_def)
  then show ?thesis by (simp add: spans_def DIRENT_def BSIZE_def)
qed

lemma dirlink_ok:
  assumes wf: "fs_wf s" and d: "dir_ok s dp" and new: "dir_find (content s dp) name = None"
    and room: "DIRENT * free_slot (content s dp) + DIRENT \<le> MAXFILE * BSIZE" "2 \<le> card (free_blocks s)"
  defines "k \<equiv> free_slot (content s dp)"
  shows "\<exists>s'. dirlink pid dv dp name n s = Inr (0, s') \<and> fs_wf s' \<and> dir_ok s' dp \<and>
    content s' dp = take (DIRENT * k) (content s dp) @ mk_dirent n name @ drop (DIRENT * k + DIRENT) (content s dp) \<and>
    (\<forall>j. other_file s dp j \<longrightarrow> other_file s' dp j \<and> content s' j = content s j) \<and>
    (\<exists>a z. icache s' dp = (icache s dp)\<lparr>i_addrs := a, i_size := z\<rparr>) \<and> (\<forall>j. j \<noteq> dp \<longrightarrow> icache s' j = icache s j)"
proof -
  note dd = dir_okD [OF d]
  define o' m :: u32 where "o' = of_nat (DIRENT * k)" and "m = of_nat DIRENT"
  have k: "k \<le> slots (content s dp)" using free_slot(1) by (simp add: k_def)
  have le: "DIRENT * k \<le> length (content s dp)" using k dd(3) by simp
  have um: "unat m = DIRENT" by (simp add: DIRENT_def m_def)
  have "DIRENT * k \<le> 71680" using le dd(3,5) by linarith
  then have "DIRENT * k < 2 ^ 31" by (rule le_less_trans) simp
  then have uo: "unat o' = DIRENT * k" unfolding o'_def by (rule unat_of_nat_small)
  have sum: "unat (o' + m) = DIRENT * k + DIRENT"
    using unat_of_nat_small [of "DIRENT * k + DIRENT"] le dd(3,5) by (simp add: o'_def m_def DIRENT_def)
  have fromk: "dirlink_from dv dp (slots (content s dp)) 0 s = Inr (DIRENT * k, s)"
    using dirlink_from_ok [OF wf d, of 0 "slots (content s dp)" dv] by (simp add: k_def free_slot_def)
  have "\<exists>s'. writei dv dp (mk_dirent n name) o' m s = Inr (int (unat m), s') \<and> fs_wf s' \<and> file_ok s' dp \<and>
    content s' dp = take (unat o') (content s dp) @ mk_dirent n name @ drop (unat o' + unat m) (content s dp) \<and>
    (\<forall>j. other_file s dp j \<longrightarrow> other_file s' dp j \<and> content s' j = content s j) \<and>
    (\<exists>a z. icache s' dp = (icache s dp)\<lparr>i_addrs := a, i_size := z\<rparr>) \<and> (\<forall>j. j \<noteq> dp \<longrightarrow> icache s' j = icache s j)"
  proof (rule writei_ok [OF wf dd(1)])
    show "\<not> o' + m < o'" unfolding word_less_nat_alt sum uo by simp
    show "unat (o' + m) \<le> MAXFILE * BSIZE" using room(1) sum by (simp add: k_def)
    show "spans (unat o') (unat m) + need_ind s dp \<le> card (free_blocks s)"
      using room(2) unfolding uo um spans_dirent by (simp add: need_ind_def)
  qed (use le uo um length_mk_dirent in simp_all)
  then obtain s' where s': "writei dv dp (mk_dirent n name) o' m s = Inr (int DIRENT, s')" "fs_wf s'" "file_ok s' dp"
    "content s' dp = take (DIRENT * k) (content s dp) @ mk_dirent n name @ drop (DIRENT * k + DIRENT) (content s dp)"
    "\<forall>j. other_file s dp j \<longrightarrow> other_file s' dp j \<and> content s' j = content s j"
    "\<exists>a z. icache s' dp = (icache s dp)\<lparr>i_addrs := a, i_size := z\<rparr>" "\<forall>j. j \<noteq> dp \<longrightarrow> icache s' j = icache s j"
    unfolding uo um by blast
  have "length (content s' dp) = DIRENT * slots (content s' dp)"
    using slot_write(2) [OF dd(3) k length_mk_dirent [of n name]] s'(4) by simp
  then have "DIRENT dvd unat (i_size (icache s' dp))" by (metis dvd_triv_left length_content)
  moreover have "i_type (icache s' dp) = T_DIR" using s'(6) dd(2) by auto
  ultimately have "dir_ok s' dp" using s'(3) by (simp add: dir_ok_def)
  moreover have "dirlink pid dv dp name n s = Inr (0, s')"
    using new fromk s'(1) dirlookup_ok [OF wf d, of dv name] unfolding dirlink_def o'_def m_def by (simp add: dd(4))
  ultimately show ?thesis using s'(2,4,5,6,7) by blast
qed

text \<open>
  C6. Directories are maps from names. In a well-formed directory without the name and with room, \<open>dirlink\<close> with a
  nonzero inode number succeeds, taking a free entry if there is one; afterwards \<open>dirlookup\<close> finds the new inode
  number under every name that agrees with the new one in its first \<open>DIRSIZ\<close> characters and, under every other name,
  what the directory had before; every other file keeps its contents.
\<close>

theorem directory_map:
  assumes "fs_wf s" "dir_ok s dp" "dir_find (content s dp) name = None" "n \<noteq> 0"
    and "DIRENT * free_slot (content s dp) + DIRENT \<le> MAXFILE * BSIZE" "2 \<le> card (free_blocks s)"
  shows "\<exists>s' k. dirlink pid dv dp name n s = Inr (0, s') \<and> fs_wf s' \<and> dir_ok s' dp \<and>
    (\<forall>x. dirlookup dv dp x s' =
       (case (if fname x = fname name then Some (n, k) else dir_find (content s dp) x) of
          None \<Rightarrow> Inr (None, s')
        | Some (inum, k) \<Rightarrow> bindE (iget (i_dev (icache s dp)) (ucast inum) s') (\<lambda>(ip, s). Inr (Some (ip, DIRENT * k), s)))) \<and>
    (\<forall>j. other_file s dp j \<longrightarrow> content s' j = content s j)"
proof -
  note dd = dir_okD [OF assms(2)]
  obtain s' where s': "dirlink pid dv dp name n s = Inr (0, s')" "fs_wf s'" "dir_ok s' dp"
    "content s' dp = take (DIRENT * free_slot (content s dp)) (content s dp) @ mk_dirent n name @ drop (DIRENT * free_slot (content s dp) + DIRENT) (content s dp)"
    "\<forall>j. other_file s dp j \<longrightarrow> other_file s' dp j \<and> content s' j = content s j"
    "\<exists>a z. icache s' dp = (icache s dp)\<lparr>i_addrs := a, i_size := z\<rparr>"
    using dirlink_ok [OF assms(1,2,3,5,6), of pid dv n] by blast
  have dev: "i_dev (icache s' dp) = i_dev (icache s dp)" using s'(6) by auto
  have f: "dir_find (content s' dp) x = (if fname x = fname name then Some (n, free_slot (content s dp)) else dir_find (content s dp) x)" for x
    unfolding s'(4) by (rule dir_find_write [OF dd(3) free_slot(1) free_slot(2) assms(4,3)])
  show ?thesis
    by (intro exI [of _ s'] exI [of _ "free_slot (content s dp)"] conjI allI s'(1-3) dirlookup_ok [OF s'(2,3), unfolded f dev])
      (use s'(5) in blast)
qed

definition example_dir :: fs where    \<comment> \<open>entry \<open>a\<close> for inode 7, then a free entry\<close>
  "example_dir = one_file T_DIR (mk_dirent 7 [0x61] @ replicate 16 0)"

lemma example_dir_ok: "fs_wf example_dir" "dir_ok example_dir 0" "content example_dir 0 = mk_dirent 7 [0x61] @ replicate 16 0"
proof -
  have l: "length (mk_dirent 7 [0x61] @ replicate 16 (0 :: u8)) \<le> BSIZE" by (simp add: length_mk_dirent DIRENT_def BSIZE_def)
  show "fs_wf example_dir" "content example_dir 0 = mk_dirent 7 [0x61] @ replicate 16 0"
    unfolding example_dir_def by (rule one_file_wf [OF l], rule one_file_content [OF l])
  have "file_ok example_dir 0" unfolding example_dir_def by (rule one_file_ok [OF l]) (simp add: T_DIR_def T_DEV_def)
  then show "dir_ok example_dir 0"
    by (simp add: dir_ok_def) (simp add: example_dir_def one_file_fields example_inode_def length_mk_dirent DIRENT_def)
qed

theorem directory_map_witness:
  "\<exists>s'. dirlink 1 (\<lambda>_. None) 0 [0x62] 9 example_dir = Inr (0, s') \<and>
     dirlookup (\<lambda>_. None) 0 [0x63] s' = Inr (None, s') \<and>
     dirlookup (\<lambda>_. None) 0 [0x62] s' \<noteq> Inr (None, s')"
proof -
  note o = example_dir_ok
  have c: "slots (content example_dir 0) = 2" by (simp add: o(3) slots_def length_mk_dirent DIRENT_def)
  have sl: "slot (content example_dir 0) 0 = mk_dirent 7 [0x61]" "slot (content example_dir 0) 1 = replicate 16 0"
    by (simp_all add: o(3) slot_def length_mk_dirent) (simp_all add: DIRENT_def)
  have z: "de_inum (replicate 16 0) = 0" by (simp add: de_inum_def get16_def)
  have up: "[0..<2] = [0, 1 :: nat]" by (simp add: upt_rec)
  have find: "dir_find (content example_dir 0) x = (if fname x = [0x61] then Some (7, 0) else None)" for x
    using z by (simp add: dir_find_def c up sl [simplified] mk_dirent_fields) (auto simp: fname_def DIRSIZ_def)
  have free: "free_slot (content example_dir 0) = 1" using z by (simp add: free_slot_def c up sl [simplified] mk_dirent_fields)
  have f: "fname [0x62] = [0x62 :: u8]" "fname [0x63] = [0x63 :: u8]" by (simp_all add: fname_def DIRSIZ_def)
  have "\<exists>s' k. dirlink 1 (\<lambda>_. None) 0 [0x62] 9 example_dir = Inr (0, s') \<and> fs_wf s' \<and> dir_ok s' 0 \<and>
    (\<forall>x. dirlookup (\<lambda>_. None) 0 x s' =
       (case (if fname x = fname [0x62] then Some (9, k) else dir_find (content example_dir 0) x) of
          None \<Rightarrow> Inr (None, s')
        | Some (inum, k) \<Rightarrow> bindE (iget (i_dev (icache example_dir 0)) (ucast inum) s') (\<lambda>(ip, s). Inr (Some (ip, DIRENT * k), s)))) \<and>
    (\<forall>j. other_file example_dir 0 j \<longrightarrow> content s' j = content example_dir j)"
    by (rule directory_map [OF o(1,2)])
      (use one_file_free [of T_DIR "mk_dirent 7 [0x61] @ replicate 16 0", folded example_dir_def] in \<open>simp_all add: find f free DIRENT_def MAXFILE_def NDIRECT_def NINDIRECT_def BSIZE_def\<close>)
  then show ?thesis by (auto simp: find f bindE_def split: sum.splits)
qed

end
