(* ===== verification/Xv6_Fs_Path.thy ===== *)
theory Xv6_Fs_Path
  imports Xv6_Fs_Dir
begin

text \<open>
  Path names. The elements of a path are its maximal runs of characters other than the slash; \<open>skipelem\<close> takes them
  off one at a time, and the loop of \<open>namex\<close> visits exactly them.
\<close>

fun runs :: "u8 list \<Rightarrow> u8 list list" where    \<comment> \<open>the path cut at every slash\<close>
  "runs [] = [[]]"
| "runs (c # cs) = (if c = slash then [] # runs cs else (c # hd (runs cs)) # tl (runs cs))"

definition path_elems :: "u8 list \<Rightarrow> u8 list list" where
  "path_elems path = filter (\<lambda>e. e \<noteq> []) (runs path)"

lemma runs_not_Nil [simp]: "runs p \<noteq> []"
  by (cases p) auto

lemma path_elems_slash [simp]: "path_elems (slash # cs) = path_elems cs"
  by (simp add: path_elems_def)

lemma path_elems_dropWhile: "path_elems (dropWhile (\<lambda>c. c = slash) p) = path_elems p"
  by (induction p) auto

lemma runs_first: "hd (runs p) = takeWhile (\<lambda>c. c \<noteq> slash) p"
  by (induction p) auto

lemma runs_rest:
  "tl (runs p) = (case dropWhile (\<lambda>c. c \<noteq> slash) p of [] \<Rightarrow> [] | c # cs \<Rightarrow> runs cs)"
  by (induction p) auto

lemma path_elems_rest: "filter (\<lambda>e. e \<noteq> []) (tl (runs p)) = path_elems (dropWhile (\<lambda>c. c \<noteq> slash) p)"
proof (induction p)
  case (Cons c cs)
  then show ?case by (cases "c = slash") (simp_all add: path_elems_def)
qed (simp add: path_elems_def)

lemma path_elems_Nil: "path_elems p = [] \<longleftrightarrow> dropWhile (\<lambda>c. c = slash) p = []"
proof (induction p)
  case (Cons c cs)
  then show ?case by (cases "c = slash") (auto simp: path_elems_def)
qed (simp add: path_elems_def)

lemma skipelem_elems:
  "skipelem path = (case path_elems path of
     [] \<Rightarrow> None
   | e # es \<Rightarrow> Some (dropWhile (\<lambda>c. c = slash) (dropWhile (\<lambda>c. c \<noteq> slash) (dropWhile (\<lambda>c. c = slash) path)), take DIRSIZ e))"
  "path_elems (dropWhile (\<lambda>c. c = slash) (dropWhile (\<lambda>c. c \<noteq> slash) (dropWhile (\<lambda>c. c = slash) path))) = tl (path_elems path)"
proof -
  define p where "p = dropWhile (\<lambda>c. c = slash) path"
  have e: "path_elems path = path_elems p" by (simp add: p_def path_elems_dropWhile)
  show "skipelem path = (case path_elems path of
       [] \<Rightarrow> None
     | e # es \<Rightarrow> Some (dropWhile (\<lambda>c. c = slash) (dropWhile (\<lambda>c. c \<noteq> slash) p), take DIRSIZ e))"
  proof (cases "p = []")
    case True
    then show ?thesis using path_elems_Nil [of path] by (simp add: skipelem_def p_def)
  next
    case False
    then have h: "hd p \<noteq> slash" using hd_dropWhile unfolding p_def by blast
    then have "hd (runs p) \<noteq> []" using False by (cases p) auto
    then have "path_elems p = takeWhile (\<lambda>c. c \<noteq> slash) p # filter (\<lambda>e. e \<noteq> []) (tl (runs p))"
      using runs_first [of p] by (cases "runs p") (auto simp: path_elems_def)
    then show ?thesis using False e by (simp add: skipelem_def Let_def flip: p_def)
  qed
  show "path_elems (dropWhile (\<lambda>c. c = slash) (dropWhile (\<lambda>c. c \<noteq> slash) p)) = tl (path_elems path)"
  proof (cases "p = []")
    case True
    then show ?thesis using e by (simp add: path_elems_def)
  next
    case False
    then have h: "hd p \<noteq> slash" using hd_dropWhile unfolding p_def by blast
    then have "hd (runs p) \<noteq> []" using False by (cases p) auto
    then have "tl (path_elems p) = filter (\<lambda>e. e \<noteq> []) (tl (runs p))" by (cases "runs p") (auto simp: path_elems_def)
    then show ?thesis by (simp add: e path_elems_dropWhile path_elems_rest)
  qed
qed

end
