(* ===== verification/Xv6_File.thy ===== *)
theory Xv6_File
  imports Xv6_Fs_Path Xv6_Pipe Xv6_Kalloc
begin

text \<open>
  Open files (\<open>file.c\<close>) and the creation of pipes (\<open>pipealloc\<close> of \<open>pipe.c\<close>). The state joins the file table, the file
  system, the pipes by the address of their page, and the page allocator. \<open>ftable.lock\<close> makes the changes of
  reference counts atomic. Transactions are seen from the file system: \<open>fs_begin_op\<close> and \<open>fs_end_op\<close> are \<open>begin_op\<close>
  and \<open>end_op\<close> of \<open>log.c\<close> on the number of blocks logged and of operations outstanding; the commit empties the log
  and, as \<open>Xv6_Log\<close> shows, makes the blocks durable. A call that goes to sleep in a pipe has the result
  \<open>Sleeps\<close>; the wakeups that pipes issue are recorded for the process table.
\<close>

definition NFILE :: nat where "NFILE = 100"

datatype file_type = FD_NONE | FD_PIPE | FD_INODE

record xfile =
  f_type :: file_type
  f_ref :: int
  f_readable :: bool
  f_writable :: bool
  f_pipe :: u32
  f_ip :: nat
  f_off :: u32

record kfiles =
  ftable :: "nat \<Rightarrow> xfile"
  kfs :: fs
  outstanding :: int
  pipes :: "u32 \<Rightarrow> pipe"
  kpages :: kmem
  woken :: "(u32 \<times> chan) list"

datatype 'r run = Ret 'r | Sleeps int

definition upd_file :: "nat \<Rightarrow> (xfile \<Rightarrow> xfile) \<Rightarrow> kfiles \<Rightarrow> kfiles" where
  "upd_file f g s = s\<lparr>ftable := (ftable s)(f := g (ftable s f))\<rparr>"

text \<open>An operation of the file system inside the larger state.\<close>

definition in_fs :: "(fs \<Rightarrow> fs c_result) \<Rightarrow> kfiles \<Rightarrow> kfiles c_result" where
  "in_fs op s = bindE (op (kfs s)) (\<lambda>x. Inr (s\<lparr>kfs := x\<rparr>))"

definition fs_begin_op :: "kfiles \<Rightarrow> kfiles c_result" where
  "fs_begin_op s =
     (if int (length (logs (kfs s))) + (outstanding s + 1) * MAXOPBLOCKS > LOGSIZE then Inl Blocked
      else Inr (s\<lparr>outstanding := outstanding s + 1\<rparr>))"

definition fs_end_op :: "kfiles \<Rightarrow> kfiles" where
  "fs_end_op s =
     (let s = s\<lparr>outstanding := outstanding s - 1\<rparr>
      in if outstanding s = 0 then s\<lparr>kfs := (kfs s)\<lparr>logs := []\<rparr>\<rparr> else s)"

section \<open>file.c\<close>

definition filealloc :: "kfiles \<Rightarrow> nat option \<times> kfiles" where
  "filealloc s =
     (case find (\<lambda>f. f_ref (ftable s f) = 0) [0..<NFILE] of
        Some f \<Rightarrow> (Some f, upd_file f (\<lambda>x. x\<lparr>f_ref := 1\<rparr>) s)
      | None \<Rightarrow> (None, s))"

definition filedup :: "nat \<Rightarrow> kfiles \<Rightarrow> kfiles c_result" where
  "filedup f s =
     (if f_ref (ftable s f) < 1 then Inl (Panic ''filedup'')
      else Inr (upd_file f (\<lambda>x. x\<lparr>f_ref := f_ref x + 1\<rparr>) s))"

text \<open>\<open>pipeclose\<close>, which frees the page of the pipe when both ends are closed.\<close>

definition kpipeclose :: "u32 \<Rightarrow> u32 \<Rightarrow> bool \<Rightarrow> kfiles \<Rightarrow> kfiles c_result" where
  "kpipeclose kend p writable s =
     (case pipeclose (pipes s p) writable of (r, ch) \<Rightarrow>
        (let s = s\<lparr>woken := woken s @ map (Pair p) ch\<rparr>
         in case r of
              Some p' \<Rightarrow> Inr (s\<lparr>pipes := (pipes s)(p := p')\<rparr>)
            | None \<Rightarrow> bindE (kfree kend p (kpages s)) (\<lambda>k. Inr (s\<lparr>kpages := k\<rparr>))))"

definition fileclose :: "u32 \<Rightarrow> int \<Rightarrow> nat \<Rightarrow> kfiles \<Rightarrow> kfiles c_result" where
  "fileclose kend pid f s =
     (if f_ref (ftable s f) < 1 then Inl (Panic ''fileclose'')
      else if f_ref (ftable s f) - 1 > 0 then Inr (upd_file f (\<lambda>x. x\<lparr>f_ref := f_ref x - 1\<rparr>) s)
      else (let ff = ftable s f; s = upd_file f (\<lambda>x. x\<lparr>f_ref := 0, f_type := FD_NONE\<rparr>) s
            in case f_type ff of
                 FD_PIPE \<Rightarrow> kpipeclose kend (f_pipe ff) (f_writable ff) s
               | FD_INODE \<Rightarrow> bindE (fs_begin_op s) (\<lambda>s. bindE (in_fs (iput pid (f_ip ff)) s) (\<lambda>s. Inr (fs_end_op s)))
               | FD_NONE \<Rightarrow> Inr s))"

definition filestat :: "int \<Rightarrow> nat \<Rightarrow> kfiles \<Rightarrow> (stat option \<times> kfiles) c_result" where    \<comment> \<open>\<open>None\<close>: returns -1\<close>
  "filestat pid f s =
     (if f_type (ftable s f) = FD_INODE
      then (let ip = f_ip (ftable s f)
            in bindE (in_fs (ilock pid (Some ip)) s) (\<lambda>s.
               bindE (in_fs (iunlock (Some ip)) s) (\<lambda>s'. Inr (Some (stati (icache (kfs s) ip)), s'))))
      else Inr (None, s))"

definition fileread :: "devsw \<Rightarrow> bool \<Rightarrow> int \<Rightarrow> nat \<Rightarrow> int \<Rightarrow> kfiles \<Rightarrow> ((int \<times> u8 list) run \<times> kfiles) c_result" where
  "fileread dv killed pid f n s =
     (let x = ftable s f
      in if \<not> f_readable x then Inr (Ret (-1, []), s)
         else case f_type x of
           FD_PIPE \<Rightarrow>
             bindE (piperead killed (pipes s (f_pipe x)) n) (\<lambda>r. case r of
                 Returned p v ch \<Rightarrow> Inr (Ret v, s\<lparr>pipes := (pipes s)(f_pipe x := p), woken := woken s @ map (Pair (f_pipe x)) ch\<rparr>)
               | Asleep p i ch \<Rightarrow> Inr (Sleeps i, s\<lparr>pipes := (pipes s)(f_pipe x := p), woken := woken s @ map (Pair (f_pipe x)) ch\<rparr>))
         | FD_INODE \<Rightarrow>
             bindE (in_fs (ilock pid (Some (f_ip x))) s) (\<lambda>s.
             bindE (readi dv (f_ip x) (f_off x) (word_of_int n) (kfs s)) (\<lambda>(r, bs, k).
             bindE (in_fs (iunlock (Some (f_ip x)))
               ((if r > 0 then upd_file f (\<lambda>x. x\<lparr>f_off := f_off x + word_of_int r\<rparr>) s else s)\<lparr>kfs := k\<rparr>)) (\<lambda>s.
             Inr (Ret (r, bs), s))))
         | FD_NONE \<Rightarrow> Inl (Panic ''fileread''))"

definition write_max :: int where    \<comment> \<open>\<open>max\<close> in \<open>filewrite\<close>\<close>
  "write_max = ((MAXOPBLOCKS - 1 - 1 - 2) div 2) * 512"

text \<open>The loop of \<open>filewrite\<close>: the rest of the bytes and how many were written before; the result is the last \<open>i\<close>.\<close>

function filewrite_loop :: "devsw \<Rightarrow> int \<Rightarrow> nat \<Rightarrow> u8 list \<Rightarrow> int \<Rightarrow> kfiles \<Rightarrow> (int \<times> kfiles) c_result" where
  "filewrite_loop dv pid f src i s =
     (if src \<noteq> []
      then (let n1 = min (int (length src)) write_max; ip = f_ip (ftable s f)
            in bindE (fs_begin_op s) (\<lambda>s.
               bindE (in_fs (ilock pid (Some ip)) s) (\<lambda>s.
               bindE (writei dv ip (take (nat n1) src) (f_off (ftable s f)) (word_of_int n1) (kfs s)) (\<lambda>(r, k).
               bindE (in_fs (iunlock (Some ip))
                 ((if r > 0 then upd_file f (\<lambda>x. x\<lparr>f_off := f_off x + word_of_int r\<rparr>) s else s)\<lparr>kfs := k\<rparr>)) (\<lambda>s.
               (let s = fs_end_op s
                in if r < 0 then Inr (i, s)
                   else if r \<noteq> n1 then Inl (Panic ''short filewrite'')
                   else filewrite_loop dv pid f (drop (nat n1) src) (i + r) s))))))
      else Inr (i, s))"
  by pat_completeness auto
termination
  by (relation "measure (\<lambda>(dv, pid, f, src, i, s). length src)") (auto simp: write_max_def MAXOPBLOCKS_def)

declare filewrite_loop.simps [simp del]

definition filewrite :: "devsw \<Rightarrow> bool \<Rightarrow> int \<Rightarrow> nat \<Rightarrow> u8 list \<Rightarrow> int \<Rightarrow> kfiles \<Rightarrow> (int run \<times> kfiles) c_result" where
  "filewrite dv killed pid f addr n s =
     (let x = ftable s f
      in if \<not> f_writable x then Inr (Ret (-1), s)
         else case f_type x of
           FD_PIPE \<Rightarrow>
             bindE (pipewrite killed (pipes s (f_pipe x)) addr n) (\<lambda>r. case r of
                 Returned p v ch \<Rightarrow> Inr (Ret v, s\<lparr>pipes := (pipes s)(f_pipe x := p), woken := woken s @ map (Pair (f_pipe x)) ch\<rparr>)
               | Asleep p i ch \<Rightarrow> Inr (Sleeps i, s\<lparr>pipes := (pipes s)(f_pipe x := p), woken := woken s @ map (Pair (f_pipe x)) ch\<rparr>))
         | FD_INODE \<Rightarrow>
             bindE (filewrite_loop dv pid f (take (nat n) addr) 0 s) (\<lambda>(i, s). Inr (Ret (if i = n then n else -1), s))
         | FD_NONE \<Rightarrow> Inl (Panic ''filewrite''))"

section \<open>pipealloc\<close>

definition close_opt :: "u32 \<Rightarrow> int \<Rightarrow> nat option \<Rightarrow> kfiles \<Rightarrow> kfiles c_result" where
  "close_opt kend pid f s = (case f of None \<Rightarrow> Inr s | Some f \<Rightarrow> fileclose kend pid f s)"

text \<open>The label \<open>bad\<close> is reached with \<open>p\<close> null only, since the allocation of the page is the last step that can fail.\<close>

definition pipealloc :: "u32 \<Rightarrow> int \<Rightarrow> kfiles \<Rightarrow> ((nat \<times> nat) option \<times> kfiles) c_result" where
  "pipealloc kend pid s =
     (case filealloc s of (f0, s) \<Rightarrow>
        (case (if f0 = None then (None, s) else filealloc s) of (f1, s) \<Rightarrow>
           (case (f0, f1) of
              (Some a, Some b) \<Rightarrow>
                (case kalloc (kpages s) of (p, k) \<Rightarrow>
                   (let s = s\<lparr>kpages := k\<rparr>
                    in if p = 0
                       then bindE (fileclose kend pid a s) (\<lambda>s. bindE (fileclose kend pid b s) (\<lambda>s. Inr (None, s)))
                       else Inr (Some (a, b),
                         upd_file b (\<lambda>x. x\<lparr>f_type := FD_PIPE, f_readable := False, f_writable := True, f_pipe := p\<rparr>)
                          (upd_file a (\<lambda>x. x\<lparr>f_type := FD_PIPE, f_readable := True, f_writable := False, f_pipe := p\<rparr>)
                            (s\<lparr>pipes := (pipes s)(p := pipe_init (bytes (km_mem k) p 512))\<rparr>)))))
            | _ \<Rightarrow> bindE (close_opt kend pid f0 s) (\<lambda>s. bindE (close_opt kend pid f1 s) (\<lambda>s. Inr (None, s))))))"

end
