(* ===== verification/Xv6_Vm.thy ===== *)
theory Xv6_Vm
  imports Xv6_Kalloc
begin

text \<open>
  Page tables (\<open>vm.c\<close>). A page directory and the page tables are pages of the memory that \<open>kalloc\<close> hands out; their
  entries are 32-bit words at their addresses, so every operation works on the state of the page allocator.
  A pointer to an entry is its address, 0 the null pointer. \<open>kend\<close> and \<open>kdata\<close> are the addresses \<open>end\<close> and
  \<open>data\<close> that the linker script defines. A loop that steps over addresses and may wrap around is a
  \<open>partial_function\<close> whose undefined value becomes the outcome \<open>Diverges\<close>.
\<close>

section \<open>mmu.h and memlayout.h\<close>

definition PDX :: "u32 \<Rightarrow> u32" where "PDX va = drop_bit 22 va AND 0x3FF"
definition PTX :: "u32 \<Rightarrow> u32" where "PTX va = drop_bit 12 va AND 0x3FF"

definition PGADDR :: "u32 \<Rightarrow> u32 \<Rightarrow> u32 \<Rightarrow> u32" where
  "PGADDR d t k = (push_bit 22 d OR push_bit 12 t OR k)"

definition NPDENTRIES :: nat where "NPDENTRIES = 1024"
definition PTE_P :: u32 where "PTE_P = 1"
definition PTE_W :: u32 where "PTE_W = 2"
definition PTE_U :: u32 where "PTE_U = 4"
definition PTE_ADDR :: "u32 \<Rightarrow> u32" where "PTE_ADDR pte = pte AND NOT 0xFFF"
definition PTE_FLAGS :: "u32 \<Rightarrow> u32" where "PTE_FLAGS pte = pte AND 0xFFF"
definition EXTMEM :: u32 where "EXTMEM = 0x100000"
definition DEVSPACE :: u32 where "DEVSPACE = 0xFE000000"
definition KERNLINK :: u32 where "KERNLINK = KERNBASE + EXTMEM"

section \<open>vm.c\<close>

definition kset :: "mem \<Rightarrow> kmem \<Rightarrow> kmem" where
  "kset m s = s\<lparr>km_mem := m\<rparr>"

definition returns :: "'a c_result option \<Rightarrow> 'a c_result" where
  "returns r = (case r of None \<Rightarrow> Inl Diverges | Some x \<Rightarrow> x)"

definition walkpgdir :: "u32 \<Rightarrow> u32 \<Rightarrow> bool \<Rightarrow> kmem \<Rightarrow> u32 \<times> kmem" where
  "walkpgdir pgdir va alloc s =
     (let pde = pgdir + 4 * PDX va
      in if load4 (km_mem s) pde AND PTE_P \<noteq> 0
         then (P2V (PTE_ADDR (load4 (km_mem s) pde)) + 4 * PTX va, s)
         else if \<not> alloc then (0, s)
         else (case kalloc s of (pgtab, s) \<Rightarrow>
                 if pgtab = 0 then (0, s)
                 else (pgtab + 4 * PTX va,
                   kset (store4 (memset (km_mem s) pgtab 0 PGSIZE) pde (V2P pgtab OR PTE_P OR PTE_W OR PTE_U)) s)))"

text \<open>The loop of \<open>mappages\<close> with \<open>k\<close> further pages after the one at \<open>a\<close>.\<close>

fun mappages_from :: "u32 \<Rightarrow> u32 \<Rightarrow> u32 \<Rightarrow> u32 \<Rightarrow> nat \<Rightarrow> kmem \<Rightarrow> (int \<times> kmem) c_result" where
  "mappages_from pgdir a pa perm k s =
     (case walkpgdir pgdir a True s of (pte, s) \<Rightarrow>
        if pte = 0 then Inr (-1, s)
        else if load4 (km_mem s) pte AND PTE_P \<noteq> 0 then Inl (Panic ''remap'')
        else (let s = kset (store4 (km_mem s) pte (pa OR perm OR PTE_P)) s
              in case k of 0 \<Rightarrow> Inr (0, s)
                 | Suc k \<Rightarrow> mappages_from pgdir (a + PGSIZE) (pa + PGSIZE) perm k s))"

declare mappages_from.simps [simp del]

definition mappages :: "u32 \<Rightarrow> u32 \<Rightarrow> u32 \<Rightarrow> u32 \<Rightarrow> u32 \<Rightarrow> kmem \<Rightarrow> (int \<times> kmem) c_result" where
  "mappages pgdir va sz pa perm s =
     (let a = PGROUNDDOWN va; last = PGROUNDDOWN (va + sz - 1)
      in mappages_from pgdir a pa perm (unat ((last - a) div PGSIZE)) s)"

partial_function (option) dealloc_from :: "u32 \<Rightarrow> u32 \<Rightarrow> u32 \<Rightarrow> u32 \<Rightarrow> kmem \<Rightarrow> kmem c_result option" where
  "dealloc_from kend pgdir oldsz a s =
     (if a < oldsz
      then (let pte = fst (walkpgdir pgdir a False s); e = load4 (km_mem s) pte
            in if pte = 0 then dealloc_from kend pgdir oldsz (PGADDR (PDX a + 1) 0 0 - PGSIZE + PGSIZE) s
               else if e AND PTE_P \<noteq> 0
               then (if PTE_ADDR e = 0 then Some (Inl (Panic ''kfree''))
                     else case kfree kend (P2V (PTE_ADDR e)) s of
                        Inl err \<Rightarrow> Some (Inl err)
                      | Inr s \<Rightarrow> dealloc_from kend pgdir oldsz (a + PGSIZE) (kset (store4 (km_mem s) pte 0) s))
               else dealloc_from kend pgdir oldsz (a + PGSIZE) s)
      else Some (Inr s))"

definition deallocuvm :: "u32 \<Rightarrow> u32 \<Rightarrow> u32 \<Rightarrow> u32 \<Rightarrow> kmem \<Rightarrow> (u32 \<times> kmem) c_result" where
  "deallocuvm kend pgdir oldsz newsz s =
     (if newsz \<ge> oldsz then Inr (oldsz, s)
      else bindE (returns (dealloc_from kend pgdir oldsz (PGROUNDUP newsz) s)) (\<lambda>s. Inr (newsz, s)))"

fun free_tables :: "u32 \<Rightarrow> u32 \<Rightarrow> nat \<Rightarrow> nat \<Rightarrow> kmem \<Rightarrow> kmem c_result" where
  "free_tables kend pgdir 0 i s = Inr s"
| "free_tables kend pgdir (Suc k) i s =
     (let e = load4 (km_mem s) (pgdir + 4 * of_nat i)
      in bindE (if e AND PTE_P \<noteq> 0 then kfree kend (P2V (PTE_ADDR e)) s else Inr s) (\<lambda>s.
         free_tables kend pgdir k (Suc i) s))"

definition freevm :: "u32 \<Rightarrow> u32 \<Rightarrow> kmem \<Rightarrow> kmem c_result" where
  "freevm kend pgdir s =
     (if pgdir = 0 then Inl (Panic ''freevm: no pgdir'')
      else bindE (deallocuvm kend pgdir KERNBASE 0 s) (\<lambda>(_, s).
           bindE (free_tables kend pgdir NPDENTRIES 0 s) (\<lambda>s. kfree kend pgdir s)))"

record kmap =
  virt :: u32
  phys_start :: u32
  phys_end :: u32
  kperm :: u32

definition kmaps :: "u32 \<Rightarrow> kmap list" where    \<comment> \<open>the table \<open>kmap\<close>\<close>
  "kmaps kdata =
     [\<lparr>virt = KERNBASE, phys_start = 0, phys_end = EXTMEM, kperm = PTE_W\<rparr>,
      \<lparr>virt = KERNLINK, phys_start = V2P KERNLINK, phys_end = V2P kdata, kperm = 0\<rparr>,
      \<lparr>virt = kdata, phys_start = V2P kdata, phys_end = PHYSTOP, kperm = PTE_W\<rparr>,
      \<lparr>virt = DEVSPACE, phys_start = DEVSPACE, phys_end = 0, kperm = PTE_W\<rparr>]"

fun map_kernel :: "u32 \<Rightarrow> u32 \<Rightarrow> kmap list \<Rightarrow> kmem \<Rightarrow> (u32 \<times> kmem) c_result" where
  "map_kernel kend pgdir [] s = Inr (pgdir, s)"
| "map_kernel kend pgdir (k # ks) s =
     bindE (mappages pgdir (virt k) (phys_end k - phys_start k) (phys_start k) (kperm k) s) (\<lambda>(r, s).
     if r < 0 then bindE (freevm kend pgdir s) (\<lambda>s. Inr (0, s))
     else map_kernel kend pgdir ks s)"

definition setupkvm :: "u32 \<Rightarrow> u32 \<Rightarrow> kmem \<Rightarrow> (u32 \<times> kmem) c_result" where
  "setupkvm kend kdata s =
     (case kalloc s of (pgdir, s) \<Rightarrow>
        if pgdir = 0 then Inr (0, s)
        else if P2V PHYSTOP > DEVSPACE then Inl (Panic ''PHYSTOP too high'')
        else map_kernel kend pgdir (kmaps kdata) (kset (memset (km_mem s) pgdir 0 PGSIZE) s))"

partial_function (option) alloc_from :: "u32 \<Rightarrow> u32 \<Rightarrow> u32 \<Rightarrow> u32 \<Rightarrow> u32 \<Rightarrow> kmem \<Rightarrow> (u32 \<times> kmem) c_result option" where
  "alloc_from kend pgdir oldsz newsz a s =
     (if a < newsz
      then (case kalloc s of (m, s) \<Rightarrow>
              if m = 0 then Some (bindE (deallocuvm kend pgdir newsz oldsz s) (\<lambda>(_, s). Inr (0, s)))
              else case mappages pgdir a PGSIZE (V2P m) (PTE_W OR PTE_U) (kset (memset (km_mem s) m 0 PGSIZE) s) of
                 Inl err \<Rightarrow> Some (Inl err)
               | Inr (r, s) \<Rightarrow>
                   if r < 0
                   then Some (bindE (deallocuvm kend pgdir newsz oldsz s) (\<lambda>(_, s).
                              bindE (kfree kend m s) (\<lambda>s. Inr (0, s))))
                   else alloc_from kend pgdir oldsz newsz (a + PGSIZE) s)
      else Some (Inr (newsz, s)))"

definition allocuvm :: "u32 \<Rightarrow> u32 \<Rightarrow> u32 \<Rightarrow> u32 \<Rightarrow> kmem \<Rightarrow> (u32 \<times> kmem) c_result" where
  "allocuvm kend pgdir oldsz newsz s =
     (if newsz \<ge> KERNBASE then Inr (0, s)
      else if newsz < oldsz then Inr (oldsz, s)
      else returns (alloc_from kend pgdir oldsz newsz (PGROUNDUP oldsz) s))"

text \<open>\<open>memmove\<close> from a buffer whose bytes are given.\<close>

fun put_bytes :: "mem \<Rightarrow> u32 \<Rightarrow> u8 list \<Rightarrow> mem" where
  "put_bytes m a [] = m"
| "put_bytes m a (x # xs) = put_bytes (m(a := x)) (a + 1) xs"

definition inituvm :: "u32 \<Rightarrow> u8 list \<Rightarrow> kmem \<Rightarrow> kmem c_result" where    \<comment> \<open>\<open>kalloc\<close> is not checked\<close>
  "inituvm pgdir init s =
     (if length init \<ge> unat PGSIZE then Inl (Panic ''inituvm: more than a page'')
      else case kalloc s of (m, s) \<Rightarrow>
        bindE (mappages pgdir 0 PGSIZE (V2P m) (PTE_W OR PTE_U) (kset (memset (km_mem s) m 0 PGSIZE) s)) (\<lambda>(_, s).
        Inr (kset (put_bytes (km_mem s) m init) s)))"

definition clearpteu :: "u32 \<Rightarrow> u32 \<Rightarrow> kmem \<Rightarrow> kmem c_result" where
  "clearpteu pgdir uva s =
     (let pte = fst (walkpgdir pgdir uva False s)
      in if pte = 0 then Inl (Panic ''clearpteu'')
         else Inr (kset (store4 (km_mem s) pte (load4 (km_mem s) pte AND NOT PTE_U)) s))"

partial_function (option) copy_from :: "u32 \<Rightarrow> u32 \<Rightarrow> u32 \<Rightarrow> u32 \<Rightarrow> u32 \<Rightarrow> kmem \<Rightarrow> (u32 \<times> kmem) c_result option" where
  "copy_from kend pgdir d sz i s =
     (if i < sz
      then (let pte = fst (walkpgdir pgdir i False s); e = load4 (km_mem s) pte
            in if pte = 0 then Some (Inl (Panic ''copyuvm: pte should exist''))
               else if e AND PTE_P = 0 then Some (Inl (Panic ''copyuvm: page not present''))
               else case kalloc s of (m, s) \<Rightarrow>
                 if m = 0 then Some (bindE (freevm kend d s) (\<lambda>s. Inr (0, s)))
                 else case mappages d i PGSIZE (V2P m) (PTE_FLAGS e) (kset (memmove (km_mem s) m (P2V (PTE_ADDR e)) PGSIZE) s) of
                    Inl err \<Rightarrow> Some (Inl err)
                  | Inr (r, s) \<Rightarrow>
                      if r < 0 then Some (bindE (freevm kend d s) (\<lambda>s. Inr (0, s)))
                      else copy_from kend pgdir d sz (i + PGSIZE) s)
      else Some (Inr (d, s)))"

definition copyuvm :: "u32 \<Rightarrow> u32 \<Rightarrow> u32 \<Rightarrow> u32 \<Rightarrow> kmem \<Rightarrow> (u32 \<times> kmem) c_result" where
  "copyuvm kend kdata pgdir sz s =
     bindE (setupkvm kend kdata s) (\<lambda>(d, s).
     if d = 0 then Inr (0, s) else returns (copy_from kend pgdir d sz 0 s))"

definition uva2ka :: "u32 \<Rightarrow> u32 \<Rightarrow> kmem \<Rightarrow> u32 c_result" where    \<comment> \<open>the entry is not checked for null\<close>
  "uva2ka pgdir uva s =
     (let pte = fst (walkpgdir pgdir uva False s); e = load4 (km_mem s) pte
      in if pte = 0 then Inl Null_Deref
         else if e AND PTE_P = 0 then Inr 0
         else if e AND PTE_U = 0 then Inr 0
         else Inr (P2V (PTE_ADDR e)))"

function copyout :: "u32 \<Rightarrow> u32 \<Rightarrow> u8 list \<Rightarrow> kmem \<Rightarrow> (int \<times> kmem) c_result" where
  "copyout pgdir va buf s =
     (if buf \<noteq> []
      then (let va0 = PGROUNDDOWN va
            in bindE (uva2ka pgdir va0 s) (\<lambda>pa0.
               if pa0 = 0 then Inr (-1, s)
               else (let n = min (unat (PGSIZE - (va - va0))) (length buf)
                     in copyout pgdir (va0 + PGSIZE) (drop n buf)
                          (kset (put_bytes (km_mem s) (pa0 + (va - va0)) (take n buf)) s))))
      else Inr (0, s))"
  by pat_completeness auto
termination
proof (relation "measure (\<lambda>(pgdir, va, buf, s). length buf)", goal_cases)
  case (2 pgdir va buf s va0 pa0 n)
  have le: "unat va0 \<le> unat va" using 2 by (simp add: unat_PGROUNDDOWN)
  then have "unat (va - va0) = unat va mod 4096"
    using 2 by (simp add: unat_sub_if' unat_PGROUNDDOWN minus_div_mult_eq_mod)
  then have "0 < unat (PGSIZE - (va - va0))" by (simp add: unat_sub_if' PGSIZE_def)
  then show ?case using 2 by (simp add: min_def)
qed simp

declare copyout.simps [simp del]

end
