(* ===== verification/Xv6_Proc.thy ===== *)
theory Xv6_Proc
  imports Xv6_File Xv6_Vm
begin

text \<open>
  Processes (\<open>proc.c\<close>). The process table is a record of its own, and the operations that run under \<open>ptable.lock\<close> are
  functions on it; \<open>fork\<close>, \<open>exit\<close> and \<open>wait\<close> compose them with the page tables, the open files and the file system.
  A process is its index in the table. Sleep channels are addresses in the source; here each kind of address
  is a constructor. The trap frame and the context of a process are bytes of its kernel stack. \<open>kend\<close>, \<open>kdata\<close>,
  \<open>trapret\<close> and \<open>forkret\<close> are addresses of the kernel image.
\<close>

definition NPROC :: nat where "NPROC = 64"
definition NOFILE :: nat where "NOFILE = 16"
definition KSTACKSIZE :: u32 where "KSTACKSIZE = 4096"

datatype procstate = UNUSED | EMBRYO | SLEEPING | RUNNABLE | RUNNING | ZOMBIE

datatype kchan = ProcChan nat | PipeChan u32 chan | TicksChan | OtherChan u32

record proc =
  p_sz :: u32
  p_pgdir :: u32
  p_kstack :: u32
  p_state :: procstate
  p_pid :: int
  p_parent :: "nat option"
  p_tf :: u32
  p_context :: u32
  p_chan :: "kchan option"
  p_killed :: bool
  p_ofile :: "nat option list"
  p_cwd :: "nat option"
  p_name :: "u8 list"

record ptable =
  procs :: "nat \<Rightarrow> proc"
  nextpid :: int
  initproc :: nat

definition upd_proc :: "nat \<Rightarrow> (proc \<Rightarrow> proc) \<Rightarrow> ptable \<Rightarrow> ptable" where
  "upd_proc i f t = t\<lparr>procs := (procs t)(i := f (procs t i))\<rparr>"

definition set_state :: "nat \<Rightarrow> procstate \<Rightarrow> ptable \<Rightarrow> ptable" where
  "set_state i st t = upd_proc i (\<lambda>p. p\<lparr>p_state := st\<rparr>) t"

section \<open>Under the lock of the process table\<close>

text \<open>\<open>allocproc\<close> up to the release: an unused entry becomes an embryo with a new process identifier.\<close>

definition alloc_slot :: "ptable \<Rightarrow> (nat option \<times> ptable) c_result" where
  "alloc_slot t =
     (case find (\<lambda>i. p_state (procs t i) = UNUSED) [0..<NPROC] of
        None \<Rightarrow> Inr (None, t)
      | Some i \<Rightarrow>
          if nextpid t + 1 > 2 ^ 31 - 1 then Inl Int_Overflow
          else Inr (Some i, (upd_proc i (\<lambda>p. p\<lparr>p_state := EMBRYO, p_pid := nextpid t\<rparr>) t)\<lparr>nextpid := nextpid t + 1\<rparr>))"

definition wake_on :: "kchan \<Rightarrow> proc \<Rightarrow> proc" where
  "wake_on ch p = (if p_state p = SLEEPING \<and> p_chan p = Some ch then p\<lparr>p_state := RUNNABLE\<rparr> else p)"

definition wakeup1 :: "kchan \<Rightarrow> ptable \<Rightarrow> ptable" where
  "wakeup1 ch t = t\<lparr>procs := (\<lambda>i. if i < NPROC then wake_on ch (procs t i) else procs t i)\<rparr>"

definition wakeup :: "kchan \<Rightarrow> ptable \<Rightarrow> ptable" where
  "wakeup ch t = wakeup1 ch t"

text \<open>The loop of \<open>exit\<close> that passes the children to \<open>init\<close>, \<open>k\<close> entries from \<open>i\<close>.\<close>

fun reparent :: "nat \<Rightarrow> nat \<Rightarrow> nat \<Rightarrow> ptable \<Rightarrow> ptable" where
  "reparent cur 0 i t = t"
| "reparent cur (Suc k) i t =
     reparent cur k (Suc i)
       (if p_parent (procs t i) = Some cur
        then (let t = upd_proc i (\<lambda>p. p\<lparr>p_parent := Some (initproc t)\<rparr>) t
              in if p_state (procs t i) = ZOMBIE then wakeup1 (ProcChan (initproc t)) t else t)
        else t)"

text \<open>\<open>wakeup1(curproc->parent)\<close>: nobody sleeps on the null pointer.\<close>

definition wake_parent :: "nat \<Rightarrow> ptable \<Rightarrow> ptable" where
  "wake_parent cur t = (case p_parent (procs t cur) of None \<Rightarrow> t | Some q \<Rightarrow> wakeup1 (ProcChan q) t)"

text \<open>\<open>exit\<close> from the acquisition of the lock to \<open>sched\<close>.\<close>

definition exit_table :: "nat \<Rightarrow> ptable \<Rightarrow> ptable" where
  "exit_table cur t = set_state cur ZOMBIE (reparent cur NPROC 0 (wake_parent cur t))"

text \<open>One run of \<open>wait\<close>: it reaps a child, returns -1, or goes to sleep on its own entry.\<close>

datatype wait_result = Reaped nat int | No_Children | Wait_Sleeps

definition sleep_table :: "nat \<Rightarrow> kchan \<Rightarrow> ptable \<Rightarrow> ptable" where    \<comment> \<open>\<open>sleep\<close> up to \<open>sched\<close>\<close>
  "sleep_table cur ch t = upd_proc cur (\<lambda>p. p\<lparr>p_chan := Some ch, p_state := SLEEPING\<rparr>) t"

definition reap :: "nat \<Rightarrow> ptable \<Rightarrow> ptable" where
  "reap i t = upd_proc i (\<lambda>p. p\<lparr>p_kstack := 0, p_pid := 0, p_parent := None, p_name := [], p_killed := False, p_state := UNUSED\<rparr>) t"

definition wait_scan :: "nat \<Rightarrow> ptable \<Rightarrow> wait_result \<times> ptable" where
  "wait_scan cur t =
     (case find (\<lambda>i. p_parent (procs t i) = Some cur \<and> p_state (procs t i) = ZOMBIE) [0..<NPROC] of
        Some i \<Rightarrow> (Reaped i (p_pid (procs t i)), reap i t)
      | None \<Rightarrow>
          if (\<forall>i \<in> set [0..<NPROC]. p_parent (procs t i) \<noteq> Some cur) \<or> p_killed (procs t cur) then (No_Children, t)
          else (Wait_Sleeps, sleep_table cur (ProcChan cur) t))"

definition kill :: "int \<Rightarrow> ptable \<Rightarrow> int \<times> ptable" where
  "kill pid t =
     (case find (\<lambda>i. p_pid (procs t i) = pid) [0..<NPROC] of
        None \<Rightarrow> (-1, t)
      | Some i \<Rightarrow> (0, upd_proc i (\<lambda>p. p\<lparr>p_killed := True, p_state := (if p_state p = SLEEPING then RUNNABLE else p_state p)\<rparr>) t))"

text \<open>The inner loop of \<open>scheduler\<close> from entry \<open>i\<close>: the next process to run.\<close>

definition sched_next :: "nat \<Rightarrow> ptable \<Rightarrow> nat option" where
  "sched_next i t = find (\<lambda>i. p_state (procs t i) = RUNNABLE) [i..<NPROC]"

text \<open>What \<open>sched\<close> checks, and \<open>yield\<close>, \<open>sleep\<close> up to it.\<close>

definition sched :: "bool \<Rightarrow> cpu \<Rightarrow> nat \<Rightarrow> ptable \<Rightarrow> unit c_result" where
  "sched held c cur t =
     (if \<not> held then Inl (Panic ''sched ptable.lock'')
      else if ncli c \<noteq> 1 then Inl (Panic ''sched locks'')
      else if p_state (procs t cur) = RUNNING then Inl (Panic ''sched running'')
      else if if_flag c then Inl (Panic ''sched interruptible'')
      else Inr ())"

definition yield :: "nat \<Rightarrow> ptable \<Rightarrow> ptable" where
  "yield cur t = set_state cur RUNNABLE t"

section \<open>Composition with memory and files\<close>

record kernel =
  ptab :: ptable
  kfl :: kfiles

definition kmm :: "kernel \<Rightarrow> kmem" where "kmm s = kpages (kfl s)"

definition set_kmm :: "kmem \<Rightarrow> kernel \<Rightarrow> kernel" where
  "set_kmm k s = s\<lparr>kfl := (kfl s)\<lparr>kpages := k\<rparr>\<rparr>"

definition kproc :: "nat \<Rightarrow> kernel \<Rightarrow> proc" where "kproc i s = procs (ptab s) i"

definition upd_kproc :: "nat \<Rightarrow> (proc \<Rightarrow> proc) \<Rightarrow> kernel \<Rightarrow> kernel" where
  "upd_kproc i f s = s\<lparr>ptab := upd_proc i f (ptab s)\<rparr>"

definition poke :: "(mem \<Rightarrow> mem) \<Rightarrow> kernel \<Rightarrow> kernel" where    \<comment> \<open>a store to kernel memory\<close>
  "poke f s = set_kmm (kset (f (km_mem (kmm s))) (kmm s)) s"

definition in_files :: "(kfiles \<Rightarrow> kfiles c_result) \<Rightarrow> kernel \<Rightarrow> kernel c_result" where
  "in_files op s = bindE (op (kfl s)) (\<lambda>x. Inr (s\<lparr>kfl := x\<rparr>))"

definition in_kmm :: "(kmem \<Rightarrow> kmem c_result) \<Rightarrow> kernel \<Rightarrow> kernel c_result" where
  "in_kmm op s = bindE (op (kmm s)) (\<lambda>k. Inr (set_kmm k s))"

text \<open>\<open>sizeof (struct trapframe)\<close> is 76 and \<open>sizeof (struct context)\<close> 20, with \<open>eip\<close> at offset 16.\<close>

definition TRAPFRAME :: u32 where "TRAPFRAME = 76"
definition CONTEXT :: u32 where "CONTEXT = 20"

definition allocproc :: "u32 \<Rightarrow> u32 \<Rightarrow> kernel \<Rightarrow> (nat option \<times> kernel) c_result" where
  "allocproc trapret forkret s =
     bindE (alloc_slot (ptab s)) (\<lambda>(r, t).
     (let s = s\<lparr>ptab := t\<rparr>
      in case r of None \<Rightarrow> Inr (None, s)
         | Some i \<Rightarrow>
             (case kalloc (kmm s) of (stk, k) \<Rightarrow>
                (let s = upd_kproc i (\<lambda>p. p\<lparr>p_kstack := stk\<rparr>) (set_kmm k s)
                 in if stk = 0 then Inr (None, upd_kproc i (\<lambda>p. p\<lparr>p_state := UNUSED\<rparr>) s)
                    else (let tf = stk + KSTACKSIZE - TRAPFRAME; ctx = tf - 4 - CONTEXT
                          in Inr (Some i, upd_kproc i (\<lambda>p. p\<lparr>p_tf := tf, p_context := ctx\<rparr>)
                               (poke (\<lambda>m. store4 (memset (store4 m (tf - 4) trapret) ctx 0 CONTEXT) (ctx + 16) forkret) s)))))))"

definition TF_EAX :: u32 where "TF_EAX = 28"
definition TF_ES :: u32 where "TF_ES = 40"
definition TF_DS :: u32 where "TF_DS = 44"
definition TF_EIP :: u32 where "TF_EIP = 56"
definition TF_CS :: u32 where "TF_CS = 60"
definition TF_EFLAGS :: u32 where "TF_EFLAGS = 64"
definition TF_ESP :: u32 where "TF_ESP = 68"
definition TF_SS :: u32 where "TF_SS = 72"

definition store2 :: "mem \<Rightarrow> u32 \<Rightarrow> u16 \<Rightarrow> mem" where
  "store2 m a w = m(a := ucast w, a + 1 := ucast (drop_bit 8 w))"

text \<open>The selectors \<open>(SEG_UCODE << 3) | DPL_USER\<close> and \<open>(SEG_UDATA << 3) | DPL_USER\<close>, and \<open>FL_IF\<close>.\<close>

definition user_cs :: u16 where "user_cs = push_bit 3 3 OR 3"
definition user_ds :: u16 where "user_ds = push_bit 3 4 OR 3"
definition FL_IF :: u32 where "FL_IF = 0x200"

definition init_frame :: "u32 \<Rightarrow> mem \<Rightarrow> mem" where
  "init_frame tf m =
     (let m = memset m tf 0 TRAPFRAME; m = store2 m (tf + TF_CS) user_cs; m = store2 m (tf + TF_DS) user_ds;
          m = store2 m (tf + TF_ES) user_ds; m = store2 m (tf + TF_SS) user_ds; m = store4 m (tf + TF_EFLAGS) FL_IF;
          m = store4 m (tf + TF_ESP) PGSIZE
      in store4 m (tf + TF_EIP) 0)"

text \<open>\<open>userinit\<close>; \<open>initcode\<close> is the program the linker embeds, and \<open>name\<close> the string \<open>initcode\<close>.\<close>

definition userinit :: "u32 \<Rightarrow> u32 \<Rightarrow> u32 \<Rightarrow> u32 \<Rightarrow> devsw \<Rightarrow> u8 list \<Rightarrow> u8 list \<Rightarrow> kernel \<Rightarrow> kernel c_result" where
  "userinit kend kdata trapret forkret dv initcode name s =
     bindE (allocproc trapret forkret s) (\<lambda>(r, s).
     bindE (deref r) (\<lambda>i.
     bindE (setupkvm kend kdata (kmm s)) (\<lambda>(d, k).
     (let s = upd_kproc i (\<lambda>p. p\<lparr>p_pgdir := d\<rparr>) (set_kmm k (s\<lparr>ptab := (ptab s)\<lparr>initproc := i\<rparr>\<rparr>))
      in if d = 0 then Inl (Panic ''userinit: out of memory?'')
         else bindE (in_kmm (inituvm d initcode) s) (\<lambda>s.
              (let s = upd_kproc i (\<lambda>p. p\<lparr>p_sz := PGSIZE, p_name := take 15 name\<rparr>) (poke (init_frame (p_tf (kproc i s))) s)
               in bindE (namei (p_pid (kproc i s)) dv 0 [slash] (kfs (kfl s))) (\<lambda>(ip, x).
                  Inr (upd_kproc i (\<lambda>p. p\<lparr>p_cwd := ip, p_state := RUNNABLE\<rparr>) (s\<lparr>kfl := (kfl s)\<lparr>kfs := x\<rparr>\<rparr>)))))))))"

text \<open>\<open>switchuvm\<close>: its checks; the loads of the task and page table registers are not part of the state.\<close>

definition switchuvm :: "proc \<Rightarrow> unit c_result" where
  "switchuvm p =
     (if p_kstack p = 0 then Inl (Panic ''switchuvm: no kstack'')
      else if p_pgdir p = 0 then Inl (Panic ''switchuvm: no pgdir'')
      else Inr ())"

definition growproc :: "u32 \<Rightarrow> nat \<Rightarrow> int \<Rightarrow> kernel \<Rightarrow> (int \<times> kernel) c_result" where
  "growproc kend cur n s =
     (let p = kproc cur s
      in bindE (if n > 0 then allocuvm kend (p_pgdir p) (p_sz p) (p_sz p + word_of_int n) (kmm s)
                else if n < 0 then deallocuvm kend (p_pgdir p) (p_sz p) (p_sz p + word_of_int n) (kmm s)
                else Inr (p_sz p, kmm s)) (\<lambda>(sz, k).
         if n \<noteq> 0 \<and> sz = 0 then Inr (-1, set_kmm k s)
         else bindE (switchuvm p) (\<lambda>_. Inr (0, upd_kproc cur (\<lambda>p. p\<lparr>p_sz := sz\<rparr>) (set_kmm k s)))))"

fun dup_files :: "nat \<Rightarrow> nat \<Rightarrow> nat \<Rightarrow> nat \<Rightarrow> kernel \<Rightarrow> kernel c_result" where
  "dup_files cur np 0 i s = Inr s"
| "dup_files cur np (Suc k) i s =
     bindE (case p_ofile (kproc cur s) ! i of
              None \<Rightarrow> Inr s
            | Some f \<Rightarrow> bindE (in_files (filedup f) s) (\<lambda>s.
                Inr (upd_kproc np (\<lambda>p. p\<lparr>p_ofile := (p_ofile p)[i := Some f]\<rparr>) s))) (\<lambda>s.
     dup_files cur np k (Suc i) s)"

definition fork :: "u32 \<Rightarrow> u32 \<Rightarrow> u32 \<Rightarrow> u32 \<Rightarrow> nat \<Rightarrow> kernel \<Rightarrow> (int \<times> kernel) c_result" where
  "fork kend kdata trapret forkret cur s =
     bindE (allocproc trapret forkret s) (\<lambda>(r, s).
     case r of None \<Rightarrow> Inr (-1, s)
     | Some np \<Rightarrow>
         bindE (copyuvm kend kdata (p_pgdir (kproc cur s)) (p_sz (kproc cur s)) (kmm s)) (\<lambda>(d, k).
         (let s = upd_kproc np (\<lambda>p. p\<lparr>p_pgdir := d\<rparr>) (set_kmm k s)
          in if d = 0
             then bindE (in_kmm (kfree kend (p_kstack (kproc np s))) s) (\<lambda>s.
                  Inr (-1, upd_kproc np (\<lambda>p. p\<lparr>p_kstack := 0, p_state := UNUSED\<rparr>) s))
             else (let s = upd_kproc np (\<lambda>p. p\<lparr>p_sz := p_sz (kproc cur s), p_parent := Some cur\<rparr>) s;
                       tf = p_tf (kproc np s);
                       s = poke (\<lambda>m. store4 (memmove m tf (p_tf (kproc cur s)) TRAPFRAME) (tf + TF_EAX) 0) s
                   in bindE (dup_files cur np NOFILE 0 s) (\<lambda>s.
                      bindE (deref (p_cwd (kproc cur s))) (\<lambda>cwd.
                      (let s = s\<lparr>kfl := (kfl s)\<lparr>kfs := snd (idup cwd (kfs (kfl s)))\<rparr>\<rparr>;
                           s = upd_kproc np (\<lambda>p. p\<lparr>p_cwd := Some cwd, p_name := p_name (kproc cur s)\<rparr>) s
                       in Inr (p_pid (kproc np s), upd_kproc np (\<lambda>p. p\<lparr>p_state := RUNNABLE\<rparr>) s))))))))"

fun close_files :: "u32 \<Rightarrow> nat \<Rightarrow> nat \<Rightarrow> nat \<Rightarrow> kernel \<Rightarrow> kernel c_result" where
  "close_files kend cur 0 i s = Inr s"
| "close_files kend cur (Suc k) i s =
     bindE (case p_ofile (kproc cur s) ! i of
              None \<Rightarrow> Inr s
            | Some f \<Rightarrow> bindE (in_files (fileclose kend (p_pid (kproc cur s)) f) s) (\<lambda>s.
                Inr (upd_kproc cur (\<lambda>p. p\<lparr>p_ofile := (p_ofile p)[i := None]\<rparr>) s))) (\<lambda>s.
     close_files kend cur k (Suc i) s)"

text \<open>\<open>exit\<close> does not return; the result is the state in which the scheduler takes over.\<close>

definition exit :: "u32 \<Rightarrow> nat \<Rightarrow> kernel \<Rightarrow> kernel c_result" where
  "exit kend cur s =
     (if cur = initproc (ptab s) then Inl (Panic ''init exiting'')
      else bindE (close_files kend cur NOFILE 0 s) (\<lambda>s.
           bindE (in_files fs_begin_op s) (\<lambda>s.
           bindE (deref (p_cwd (kproc cur s))) (\<lambda>cwd.
           bindE (in_files (in_fs (iput (p_pid (kproc cur s)) cwd)) s) (\<lambda>s.
           (let s = upd_kproc cur (\<lambda>p. p\<lparr>p_cwd := None\<rparr>) (s\<lparr>kfl := fs_end_op (kfl s)\<rparr>)
            in Inr (s\<lparr>ptab := exit_table cur (ptab s)\<rparr>)))))))"

text \<open>One run of \<open>wait\<close>; \<open>None\<close> when it goes to sleep.\<close>

definition wait :: "u32 \<Rightarrow> nat \<Rightarrow> kernel \<Rightarrow> (int option \<times> kernel) c_result" where
  "wait kend cur s =
     (case wait_scan cur (ptab s) of
        (Reaped i pid, t) \<Rightarrow>
          bindE (in_kmm (kfree kend (p_kstack (kproc i s))) s) (\<lambda>s.
          bindE (in_kmm (freevm kend (p_pgdir (kproc i s))) s) (\<lambda>s. Inr (Some pid, s\<lparr>ptab := t\<rparr>)))
      | (No_Children, t) \<Rightarrow> Inr (Some (-1), s)
      | (Wait_Sleeps, t) \<Rightarrow> Inr (None, s\<lparr>ptab := t\<rparr>))"

text \<open>\<open>forkret\<close>: the first process to run initialises the file system.\<close>

definition forkret_init :: "bool \<Rightarrow> kernel \<Rightarrow> (bool \<times> kernel) c_result" where
  "forkret_init first s =
     (if first then bindE (in_files (in_fs iinit) s) (\<lambda>s. Inr (False, s)) else Inr (first, s))"

end
