(* ===== verification/Xv6_Proc_Inv.thy ===== *)
theory Xv6_Proc_Inv
  imports Xv6_Proc
begin

text \<open>
  The process table under every interleaving of the processors. A step is one critical section of \<open>ptable.lock\<close>, or one
  of the unlocked writes of \<open>fork\<close>. The invariant says that process identifiers are unique, that the parent of
  every process is alive, that exactly the running processes are on a processor, and that no process sleeps
  in \<open>wait\<close> while it has a zombie child.
\<close>

section \<open>The operations on the table\<close>

lemma upd_proc_simps [simp]:
  "procs (upd_proc i f t) = (procs t)(i := f (procs t i))" "nextpid (upd_proc i f t) = nextpid t"
  "initproc (upd_proc i f t) = initproc t"
  by (simp_all add: upd_proc_def)

lemma wakeup1_simps [simp]:
  "nextpid (wakeup1 ch t) = nextpid t" "initproc (wakeup1 ch t) = initproc t"
  "j < NPROC \<Longrightarrow> procs (wakeup1 ch t) j = wake_on ch (procs t j)"
  by (simp_all add: wakeup1_def)

lemma wake_on_simps [simp]:
  "p_parent (wake_on ch p) = p_parent p" "p_pid (wake_on ch p) = p_pid p" "p_chan (wake_on ch p) = p_chan p"
  "p_state (wake_on ch p) = (if p_state p = SLEEPING \<and> p_chan p = Some ch then RUNNABLE else p_state p)"
  "wake_on ch (wake_on ch p) = wake_on ch p"
  by (simp_all add: wake_on_def)

text \<open>The effect of the loop in \<open>exit\<close> in one step.\<close>

definition adopt :: "nat \<Rightarrow> nat \<Rightarrow> proc \<Rightarrow> proc" where
  "adopt cur ini p = (if p_parent p = Some cur then p\<lparr>p_parent := Some ini\<rparr> else p)"

lemma adopt_simps [simp]:
  "p_state (adopt c i p) = p_state p" "p_chan (adopt c i p) = p_chan p" "p_pid (adopt c i p) = p_pid p"
  "p_parent (adopt c i p) = (if p_parent p = Some c then Some i else p_parent p)"
  "wake_on ch (adopt c i p) = adopt c i (wake_on ch p)"
  by (simp_all add: adopt_def wake_on_def)

lemma reparent_closed:
  assumes "i + k \<le> NPROC"
  shows "initproc (reparent cur k i t) = initproc t \<and> nextpid (reparent cur k i t) = nextpid t \<and>
    (\<forall>j < NPROC. procs (reparent cur k i t) j =
       (let p = (if i \<le> j \<and> j < i + k then adopt cur (initproc t) (procs t j) else procs t j)
        in if \<exists>m. i \<le> m \<and> m < i + k \<and> p_parent (procs t m) = Some cur \<and> p_state (procs t m) = ZOMBIE
           then wake_on (ProcChan (initproc t)) p else p))"
  using assms
proof (induction k arbitrary: i t)
  case (Suc k)
  define t1 where "t1 = (if p_parent (procs t i) = Some cur
        then (let t = upd_proc i (\<lambda>p. p\<lparr>p_parent := Some (initproc t)\<rparr>) t
              in if p_state (procs t i) = ZOMBIE then wakeup1 (ProcChan (initproc t)) t else t)
        else t)"
  have r: "reparent cur (Suc k) i t = reparent cur k (Suc i) t1" by (simp add: t1_def)
  have i: "initproc t1 = initproc t" "nextpid t1 = nextpid t" by (simp_all add: t1_def Let_def)
  have le: "Suc i + k \<le> NPROC" using Suc.prems by simp
  let ?z = "p_parent (procs t i) = Some cur \<and> p_state (procs t i) = ZOMBIE"
  have p1: "procs t1 j = (let p = (if j = i then adopt cur (initproc t) (procs t j) else procs t j)
        in if ?z then wake_on (ProcChan (initproc t)) p else p)" if "j < NPROC" for j
    using that Suc.prems by (auto simp: t1_def Let_def adopt_def)
  have same: "p_parent (procs t1 m) = Some cur \<and> p_state (procs t1 m) = ZOMBIE \<longleftrightarrow>
      p_parent (procs t m) = Some cur \<and> p_state (procs t m) = ZOMBIE" if "Suc i \<le> m" "m < Suc i + k" for m
    using that le p1 [of m] by (auto simp: Let_def split: if_splits)
  have ex: "(\<exists>m. i \<le> m \<and> m < i + Suc k \<and> p_parent (procs t m) = Some cur \<and> p_state (procs t m) = ZOMBIE) \<longleftrightarrow>
      ?z \<or> (\<exists>m. Suc i \<le> m \<and> m < Suc i + k \<and> p_parent (procs t1 m) = Some cur \<and> p_state (procs t1 m) = ZOMBIE)"
  proof
    assume "\<exists>m. i \<le> m \<and> m < i + Suc k \<and> p_parent (procs t m) = Some cur \<and> p_state (procs t m) = ZOMBIE"
    then obtain m where m: "i \<le> m" "m < i + Suc k" "p_parent (procs t m) = Some cur \<and> p_state (procs t m) = ZOMBIE" by blast
    show "?z \<or> (\<exists>m. Suc i \<le> m \<and> m < Suc i + k \<and> p_parent (procs t1 m) = Some cur \<and> p_state (procs t1 m) = ZOMBIE)"
    proof (cases "m = i")
      case False
      then have "Suc i \<le> m" "m < Suc i + k" using m by simp_all
      then show ?thesis using m(3) same [of m] by blast
    qed (use m(3) in simp)
  next
    assume "?z \<or> (\<exists>m. Suc i \<le> m \<and> m < Suc i + k \<and> p_parent (procs t1 m) = Some cur \<and> p_state (procs t1 m) = ZOMBIE)"
    then show "\<exists>m. i \<le> m \<and> m < i + Suc k \<and> p_parent (procs t m) = Some cur \<and> p_state (procs t m) = ZOMBIE"
    proof
      assume "\<exists>m. Suc i \<le> m \<and> m < Suc i + k \<and> p_parent (procs t1 m) = Some cur \<and> p_state (procs t1 m) = ZOMBIE"
      then obtain m where m: "Suc i \<le> m" "m < Suc i + k" "p_parent (procs t1 m) = Some cur \<and> p_state (procs t1 m) = ZOMBIE" by blast
      then show ?thesis using same [OF m(1,2)] by (intro exI [of _ m]) simp
    qed (auto intro: exI [of _ i])
  qed
  note IH = Suc.IH [OF le, of t1]
  show ?case unfolding r
  proof (intro conjI allI impI)
    fix j assume j: "j < NPROC"
    have "procs (reparent cur k (Suc i) t1) j =
       (let p = (if Suc i \<le> j \<and> j < Suc i + k then adopt cur (initproc t1) (procs t1 j) else procs t1 j)
        in if \<exists>m. Suc i \<le> m \<and> m < Suc i + k \<and> p_parent (procs t1 m) = Some cur \<and> p_state (procs t1 m) = ZOMBIE
           then wake_on (ProcChan (initproc t1)) p else p)" using IH j by blast
    then show "procs (reparent cur k (Suc i) t1) j =
       (let p = (if i \<le> j \<and> j < i + Suc k then adopt cur (initproc t) (procs t j) else procs t j)
        in if \<exists>m. i \<le> m \<and> m < i + Suc k \<and> p_parent (procs t m) = Some cur \<and> p_state (procs t m) = ZOMBIE
           then wake_on (ProcChan (initproc t)) p else p)"
      unfolding ex i using p1 [OF j] by (cases "j = i") (auto simp: Let_def)
  qed (use IH i in simp_all)
qed (auto simp: Let_def)

text \<open>\<open>exit\<close> on every entry of the table.\<close>

lemma exit_table_closed:
  assumes "cur < NPROC"
  shows "initproc (exit_table cur t) = initproc t" "nextpid (exit_table cur t) = nextpid t"
    "p_state (procs (exit_table cur t) cur) = ZOMBIE"
    "\<forall>j < NPROC. p_pid (procs (exit_table cur t) j) = p_pid (procs t j) \<and> p_chan (procs (exit_table cur t) j) = p_chan (procs t j) \<and>
       p_parent (procs (exit_table cur t) j) = (if p_parent (procs t j) = Some cur then Some (initproc t) else p_parent (procs t j))"
    "\<forall>j < NPROC. j \<noteq> cur \<longrightarrow> p_state (procs (exit_table cur t) j) =
       (if p_state (procs t j) = SLEEPING \<and>
           ((\<exists>q. p_parent (procs t cur) = Some q \<and> p_chan (procs t j) = Some (ProcChan q)) \<or>
            p_chan (procs t j) = Some (ProcChan (initproc t)) \<and>
              (\<exists>m < NPROC. p_parent (procs t m) = Some cur \<and> p_state (procs t m) = ZOMBIE))
        then RUNNABLE else p_state (procs t j))"
proof -
  define t1 where "t1 = wake_parent cur t"
  have t1: "initproc t1 = initproc t" "nextpid t1 = nextpid t" by (simp_all add: t1_def wake_parent_def split: option.splits)
  have p1: "procs t1 j = (case p_parent (procs t cur) of None \<Rightarrow> procs t j | Some q \<Rightarrow> wake_on (ProcChan q) (procs t j))" if "j < NPROC" for j
    using that by (simp add: t1_def wake_parent_def split: option.splits)
  have z1: "(\<exists>m. 0 \<le> m \<and> m < 0 + NPROC \<and> p_parent (procs t1 m) = Some cur \<and> p_state (procs t1 m) = ZOMBIE) \<longleftrightarrow>
      (\<exists>m < NPROC. p_parent (procs t m) = Some cur \<and> p_state (procs t m) = ZOMBIE)"
    using p1 by (auto split: option.splits if_splits)
  note r = reparent_closed [of 0 NPROC cur t1, simplified t1]
  have e: "exit_table cur t = set_state cur ZOMBIE (reparent cur NPROC 0 t1)" by (simp add: exit_table_def t1_def)
  show "initproc (exit_table cur t) = initproc t" "nextpid (exit_table cur t) = nextpid t"
    "p_state (procs (exit_table cur t) cur) = ZOMBIE"
    unfolding e using r by (simp_all add: set_state_def)
  have pj: "procs (reparent cur NPROC 0 t1) j =
      (let p = adopt cur (initproc t) (procs t1 j)
       in if \<exists>m < NPROC. p_parent (procs t m) = Some cur \<and> p_state (procs t m) = ZOMBIE then wake_on (ProcChan (initproc t)) p else p)"
    if "j < NPROC" for j
    using r that z1 by simp
  show "\<forall>j < NPROC. p_pid (procs (exit_table cur t) j) = p_pid (procs t j) \<and> p_chan (procs (exit_table cur t) j) = p_chan (procs t j) \<and>
       p_parent (procs (exit_table cur t) j) = (if p_parent (procs t j) = Some cur then Some (initproc t) else p_parent (procs t j))"
    unfolding e set_state_def using pj p1 by (auto simp: Let_def split: option.splits)
  show "\<forall>j < NPROC. j \<noteq> cur \<longrightarrow> p_state (procs (exit_table cur t) j) =
       (if p_state (procs t j) = SLEEPING \<and>
           ((\<exists>q. p_parent (procs t cur) = Some q \<and> p_chan (procs t j) = Some (ProcChan q)) \<or>
            p_chan (procs t j) = Some (ProcChan (initproc t)) \<and>
              (\<exists>m < NPROC. p_parent (procs t m) = Some cur \<and> p_state (procs t m) = ZOMBIE))
        then RUNNABLE else p_state (procs t j))"
    unfolding e set_state_def using pj p1 by (auto simp: Let_def split: option.splits)
qed

section \<open>The processors\<close>

text \<open>\<open>forking\<close> is the entry that the \<open>fork\<close> of a process is filling.\<close>

record psys =
  pt :: ptable
  cpu_proc :: "nat \<Rightarrow> nat option"
  forking :: "nat \<Rightarrow> nat option"

inductive proc_step :: "psys \<Rightarrow> psys \<Rightarrow> bool" where
  pick: "cpu_proc s c = None \<Longrightarrow> sched_next i (pt s) = Some p \<Longrightarrow>
    proc_step s (s\<lparr>pt := set_state p RUNNING (pt s), cpu_proc := (cpu_proc s)(c := Some p)\<rparr>)"
| yields: "cpu_proc s c = Some p \<Longrightarrow>
    proc_step s (s\<lparr>pt := yield p (pt s), cpu_proc := (cpu_proc s)(c := None)\<rparr>)"
| sleeps: "cpu_proc s c = Some p \<Longrightarrow> forking s p = None \<Longrightarrow> (\<forall>q. ch \<noteq> ProcChan q) \<Longrightarrow>
    proc_step s (s\<lparr>pt := sleep_table p ch (pt s), cpu_proc := (cpu_proc s)(c := None)\<rparr>)"
| wakes: "proc_step s (s\<lparr>pt := wakeup ch (pt s)\<rparr>)"
| kills: "kill pid (pt s) = (r, t) \<Longrightarrow> proc_step s (s\<lparr>pt := t\<rparr>)"
| fork_alloc: "cpu_proc s c = Some p \<Longrightarrow> forking s p = None \<Longrightarrow> alloc_slot (pt s) = Inr (Some np, t) \<Longrightarrow>
    proc_step s (s\<lparr>pt := t, forking := (forking s)(p := Some np)\<rparr>)"
| fork_fail: "cpu_proc s c = Some p \<Longrightarrow> forking s p = Some np \<Longrightarrow> p_parent (procs (pt s) np) = None \<Longrightarrow>
    proc_step s (s\<lparr>pt := set_state np UNUSED (pt s), forking := (forking s)(p := None)\<rparr>)"
| fork_parent: "cpu_proc s c = Some p \<Longrightarrow> forking s p = Some np \<Longrightarrow>
    proc_step s (s\<lparr>pt := upd_proc np (\<lambda>x. x\<lparr>p_parent := Some p\<rparr>) (pt s)\<rparr>)"
| fork_done: "cpu_proc s c = Some p \<Longrightarrow> forking s p = Some np \<Longrightarrow> p_parent (procs (pt s) np) = Some p \<Longrightarrow>
    proc_step s (s\<lparr>pt := set_state np RUNNABLE (pt s), forking := (forking s)(p := None)\<rparr>)"
| exits: "cpu_proc s c = Some p \<Longrightarrow> forking s p = None \<Longrightarrow> p \<noteq> initproc (pt s) \<Longrightarrow>
    proc_step s (s\<lparr>pt := exit_table p (pt s), cpu_proc := (cpu_proc s)(c := None)\<rparr>)"
| reaps: "cpu_proc s c = Some p \<Longrightarrow> forking s p = None \<Longrightarrow> wait_scan p (pt s) = (Reaped i pid, t) \<Longrightarrow>
    proc_step s (s\<lparr>pt := t\<rparr>)"
| waits: "cpu_proc s c = Some p \<Longrightarrow> forking s p = None \<Longrightarrow> wait_scan p (pt s) = (Wait_Sleeps, t) \<Longrightarrow>
    proc_step s (s\<lparr>pt := t, cpu_proc := (cpu_proc s)(c := None)\<rparr>)"

text \<open>The system as \<open>userinit\<close> leaves it: one process, ready to run.\<close>

definition proc_start :: "psys \<Rightarrow> bool" where
  "proc_start s \<longleftrightarrow> initproc (pt s) = 0 \<and> nextpid (pt s) = 2 \<and> p_state (procs (pt s) 0) = RUNNABLE \<and> p_pid (procs (pt s) 0) = 1 \<and>
     p_parent (procs (pt s) 0) = None \<and> (\<forall>i < NPROC. 0 < i \<longrightarrow> p_state (procs (pt s) i) = UNUSED \<and> p_parent (procs (pt s) i) = None) \<and>
     cpu_proc s = (\<lambda>_. None) \<and> forking s = (\<lambda>_. None)"

abbreviation st :: "psys \<Rightarrow> nat \<Rightarrow> procstate" where "st s i \<equiv> p_state (procs (pt s) i)"
abbreviation par :: "psys \<Rightarrow> nat \<Rightarrow> nat option" where "par s i \<equiv> p_parent (procs (pt s) i)"

definition alive :: "psys \<Rightarrow> nat \<Rightarrow> bool" where
  "alive s i \<longleftrightarrow> i < NPROC \<and> st s i \<in> {SLEEPING, RUNNABLE, RUNNING}"

definition in_wait :: "psys \<Rightarrow> nat \<Rightarrow> bool" where
  "in_wait s i \<longleftrightarrow> st s i = SLEEPING \<and> p_chan (procs (pt s) i) = Some (ProcChan i)"

text \<open>The parts of the invariant: identifiers, family, \<open>fork\<close>, processors and \<open>wait\<close>.\<close>

definition pid_inv :: "psys \<Rightarrow> bool" where
  "pid_inv s \<longleftrightarrow> 0 < nextpid (pt s) \<and>
     (\<forall>i < NPROC. st s i \<noteq> UNUSED \<longrightarrow> 0 < p_pid (procs (pt s) i) \<and> p_pid (procs (pt s) i) < nextpid (pt s)) \<and>
     (\<forall>i < NPROC. \<forall>j < NPROC. st s i \<noteq> UNUSED \<and> st s j \<noteq> UNUSED \<and> p_pid (procs (pt s) i) = p_pid (procs (pt s) j) \<longrightarrow> i = j)"

definition family_inv :: "psys \<Rightarrow> bool" where
  "family_inv s \<longleftrightarrow> alive s (initproc (pt s)) \<and> par s (initproc (pt s)) = None \<and>
     (\<forall>i < NPROC. \<forall>q. par s i = Some q \<longrightarrow> alive s q \<and> q \<noteq> i) \<and>
     (\<forall>i < NPROC. st s i = UNUSED \<longrightarrow> par s i = None) \<and>
     (\<forall>i < NPROC. i \<noteq> initproc (pt s) \<and> st s i \<notin> {UNUSED, EMBRYO} \<longrightarrow> par s i \<noteq> None)"

definition fork_inv :: "psys \<Rightarrow> bool" where
  "fork_inv s \<longleftrightarrow> (\<forall>p np. forking s p = Some np \<longrightarrow> p < NPROC \<and> st s p \<in> {RUNNABLE, RUNNING} \<and> np < NPROC \<and> st s np = EMBRYO) \<and>
     (\<forall>p q np. forking s p = Some np \<and> forking s q = Some np \<longrightarrow> p = q)"

definition cpu_inv :: "psys \<Rightarrow> bool" where
  "cpu_inv s \<longleftrightarrow> (\<forall>c p. cpu_proc s c = Some p \<longrightarrow> p < NPROC \<and> st s p = RUNNING) \<and>
     (\<forall>c d p. cpu_proc s c = Some p \<and> cpu_proc s d = Some p \<longrightarrow> c = d) \<and>
     (\<forall>p < NPROC. st s p = RUNNING \<longrightarrow> (\<exists>c. cpu_proc s c = Some p))"

definition wait_inv :: "psys \<Rightarrow> bool" where
  "wait_inv s \<longleftrightarrow> (\<forall>q < NPROC. \<forall>i < NPROC. in_wait s q \<and> par s i = Some q \<longrightarrow> st s i \<noteq> ZOMBIE) \<and>
     (\<forall>i < NPROC. \<forall>q. st s i = SLEEPING \<and> p_chan (procs (pt s) i) = Some (ProcChan q) \<longrightarrow> q = i)"

definition proc_inv :: "psys \<Rightarrow> bool" where
  "proc_inv s \<longleftrightarrow> pid_inv s \<and> family_inv s \<and> fork_inv s \<and> cpu_inv s \<and> wait_inv s"

lemmas proc_inv_defs = pid_inv_def family_inv_def fork_inv_def cpu_inv_def wait_inv_def alive_def in_wait_def

lemma NPROC_pos: "0 < NPROC" by (simp add: NPROC_def)

lemma start_inv: "proc_start s \<Longrightarrow> proc_inv s"
  using NPROC_pos unfolding proc_start_def proc_inv_def proc_inv_defs
  by (auto; metis neq0_conv procstate.distinct option.distinct)

lemma running:
  assumes "proc_inv s" "cpu_proc s c = Some p"
  shows "p < NPROC" "st s p = RUNNING"
  using assms by (auto simp: proc_inv_def cpu_inv_def)

lemma alive_iff: "alive s i \<longleftrightarrow> i < NPROC \<and> st s i \<notin> {UNUSED, EMBRYO, ZOMBIE}"
  by (cases "st s i") (auto simp: alive_def)

text \<open>A step between the states of live processes.\<close>

definition same_class :: "psys \<Rightarrow> psys \<Rightarrow> bool" where
  "same_class s s' \<longleftrightarrow> initproc (pt s') = initproc (pt s) \<and> nextpid (pt s') = nextpid (pt s) \<and>
     (\<forall>i < NPROC. (st s' i = UNUSED \<longleftrightarrow> st s i = UNUSED) \<and> (st s' i = EMBRYO \<longleftrightarrow> st s i = EMBRYO) \<and> (st s' i = ZOMBIE \<longleftrightarrow> st s i = ZOMBIE) \<and>
       par s' i = par s i \<and> p_pid (procs (pt s') i) = p_pid (procs (pt s) i))"

lemma same_classD:
  assumes "same_class s s'"
  shows "initproc (pt s') = initproc (pt s)" "nextpid (pt s') = nextpid (pt s)"
    "i < NPROC \<Longrightarrow> st s' i = UNUSED \<longleftrightarrow> st s i = UNUSED" "i < NPROC \<Longrightarrow> st s' i = EMBRYO \<longleftrightarrow> st s i = EMBRYO"
    "i < NPROC \<Longrightarrow> st s' i = ZOMBIE \<longleftrightarrow> st s i = ZOMBIE" "i < NPROC \<Longrightarrow> par s' i = par s i"
    "i < NPROC \<Longrightarrow> p_pid (procs (pt s') i) = p_pid (procs (pt s) i)" "alive s' i \<longleftrightarrow> alive s i"
  using assms by (auto simp: same_class_def alive_iff)

lemma same_class_pid: "same_class s s' \<Longrightarrow> pid_inv s \<Longrightarrow> pid_inv s'"
  unfolding pid_inv_def by (simp add: same_classD)

lemma same_class_family:
  assumes c: "same_class s s'" and f: "family_inv s"
  shows "family_inv s'"
proof -
  have i: "initproc (pt s) < NPROC" using f by (simp add: family_inv_def alive_def)
  show ?thesis
    using f i unfolding family_inv_def by (simp add: same_classD [OF c])
qed

lemma not_forking: "fork_inv s \<Longrightarrow> st s p \<notin> {RUNNABLE, RUNNING} \<Longrightarrow> forking s p = None"
  unfolding fork_inv_def by (cases "forking s p") auto

lemma same_class_fork:
  assumes c: "same_class s s'" and f: "fork_inv s" and "forking s' = forking s"
    and r: "\<And>p. p < NPROC \<Longrightarrow> forking s p \<noteq> None \<Longrightarrow> st s p \<in> {RUNNABLE, RUNNING} \<Longrightarrow> st s' p \<in> {RUNNABLE, RUNNING}"
  shows "fork_inv s'"
proof -
  have "p < NPROC \<and> st s' p \<in> {RUNNABLE, RUNNING} \<and> np < NPROC \<and> st s' np = EMBRYO" if "forking s p = Some np" for p np
  proof -
    have "p < NPROC \<and> st s p \<in> {RUNNABLE, RUNNING} \<and> np < NPROC \<and> st s np = EMBRYO" using f that by (simp add: fork_inv_def)
    then show ?thesis using r [of p] that same_classD(4) [OF c, of np] by simp
  qed
  moreover have "\<forall>p q np. forking s p = Some np \<and> forking s q = Some np \<longrightarrow> p = q" using f by (simp add: fork_inv_def)
  ultimately show ?thesis unfolding fork_inv_def assms(3) by blast
qed

lemma same_class_wait:
  assumes c: "same_class s s'" and w: "wait_inv s"
    and n: "\<And>q. q < NPROC \<Longrightarrow> st s' q = SLEEPING \<Longrightarrow>
      st s q = SLEEPING \<and> p_chan (procs (pt s') q) = p_chan (procs (pt s) q) \<or>
      (\<forall>r. p_chan (procs (pt s') q) = Some (ProcChan r) \<longrightarrow> r = q \<and> (\<forall>i < NPROC. par s i = Some q \<longrightarrow> st s i \<noteq> ZOMBIE))"
  shows "wait_inv s'"
  unfolding wait_inv_def
proof (intro conjI allI impI)
  fix q i assume q: "q < NPROC" and i: "i < NPROC" and h: "in_wait s' q \<and> par s' i = Some q"
  then have s: "st s' q = SLEEPING" "p_chan (procs (pt s') q) = Some (ProcChan q)" "par s i = Some q"
    using same_classD(6) [OF c i] by (simp_all add: in_wait_def)
  have "st s i \<noteq> ZOMBIE"
    using n [OF q s(1)]
  proof
    assume "st s q = SLEEPING \<and> p_chan (procs (pt s') q) = p_chan (procs (pt s) q)"
    then have "in_wait s q" using s by (simp add: in_wait_def)
    then show ?thesis using w q i s(3) by (simp add: wait_inv_def)
  qed (use s i in simp)
  then show "st s' i \<noteq> ZOMBIE" using same_classD(5) [OF c i] by simp
next
  fix i q assume i: "i < NPROC" and h: "st s' i = SLEEPING \<and> p_chan (procs (pt s') i) = Some (ProcChan q)"
  then show "q = i" using n [OF i] w by (auto simp: wait_inv_def)
qed

text \<open>One running process leaves its processor.\<close>

lemma leave_cpu:
  assumes c: "cpu_inv s" and p: "cpu_proc s c = Some p"
    and "cpu_proc s' = (cpu_proc s)(c := None)" "st s' p \<noteq> RUNNING" "\<And>i. i < NPROC \<Longrightarrow> i \<noteq> p \<Longrightarrow> st s' i = RUNNING \<longleftrightarrow> st s i = RUNNING"
  shows "cpu_inv s'"
  unfolding cpu_inv_def
proof (intro conjI allI impI)
  have inj: "\<And>c d p. cpu_proc s c = Some p \<Longrightarrow> cpu_proc s d = Some p \<Longrightarrow> c = d"
    and run: "\<And>c p. cpu_proc s c = Some p \<Longrightarrow> p < NPROC \<and> st s p = RUNNING"
    and on: "\<And>p. p < NPROC \<Longrightarrow> st s p = RUNNING \<Longrightarrow> \<exists>c. cpu_proc s c = Some p"
    using c by (auto simp: cpu_inv_def)
  fix d q assume d: "cpu_proc s' d = Some q"
  then have d': "d \<noteq> c" "cpu_proc s d = Some q" using assms(3) by (auto split: if_splits)
  then have "q \<noteq> p" using inj [OF p] by auto
  then show "q < NPROC" "st s' q = RUNNING" using run [OF d'(2)] assms(5) by auto
next
  fix d e q assume "cpu_proc s' d = Some q \<and> cpu_proc s' e = Some q"
  then show "d = e" using c assms(3) by (auto simp: cpu_inv_def split: if_splits)
next
  fix q assume q: "q < NPROC" "st s' q = RUNNING"
  then have "q \<noteq> p" using assms(4) by auto
  then obtain d where "cpu_proc s d = Some q" using q assms(5) [of q] c by (auto simp: cpu_inv_def)
  then show "\<exists>d. cpu_proc s' d = Some q" using p \<open>q \<noteq> p\<close> assms(3) by (intro exI [of _ d]) auto
qed

lemma same_cpu:
  assumes "cpu_inv s" "cpu_proc s' = cpu_proc s" "\<And>i. i < NPROC \<Longrightarrow> st s' i = RUNNING \<longleftrightarrow> st s i = RUNNING"
  shows "cpu_inv s'"
  using assms unfolding cpu_inv_def by simp

lemma proc_invI: "pid_inv s \<Longrightarrow> family_inv s \<Longrightarrow> fork_inv s \<Longrightarrow> cpu_inv s \<Longrightarrow> wait_inv s \<Longrightarrow> proc_inv s"
  by (simp add: proc_inv_def)

lemma proc_invD:
  assumes "proc_inv s"
  shows "pid_inv s" "family_inv s" "fork_inv s" "cpu_inv s" "wait_inv s"
  using assms by (simp_all add: proc_inv_def)

lemma pick_inv:
  assumes inv: "proc_inv s" and c: "cpu_proc s c = None" and n: "sched_next i (pt s) = Some p"
  shows "proc_inv (s\<lparr>pt := set_state p RUNNING (pt s), cpu_proc := (cpu_proc s)(c := Some p)\<rparr>)" (is "proc_inv ?s")
proof -
  note d = proc_invD [OF inv]
  have p: "p < NPROC" "st s p = RUNNABLE" using find_SomeD [OF n [unfolded sched_next_def]] by auto
  have cl: "same_class s ?s" using p by (simp add: same_class_def set_state_def)
  show ?thesis
  proof (rule proc_invI)
    show "fork_inv ?s" by (rule same_class_fork [OF cl d(3)]) (auto simp: set_state_def)
    show "wait_inv ?s" by (rule same_class_wait [OF cl d(5)]) (auto simp: set_state_def split: if_splits)
    show "cpu_inv ?s" unfolding cpu_inv_def
    proof (intro conjI allI impI)
      fix d q assume "cpu_proc ?s d = Some q"
      then show "q < NPROC" "st ?s q = RUNNING" using d(4) p by (auto simp: cpu_inv_def set_state_def split: if_splits)
    next
      fix d e q assume "cpu_proc ?s d = Some q \<and> cpu_proc ?s e = Some q"
      then show "d = e" using d(4) p by (auto simp: cpu_inv_def split: if_splits)
    next
      fix q assume q: "q < NPROC" "st ?s q = RUNNING"
      show "\<exists>d. cpu_proc ?s d = Some q"
      proof (cases "q = p")
        case False
        then obtain d where "cpu_proc s d = Some q" using q d(4) by (auto simp: cpu_inv_def set_state_def)
        then show ?thesis using c by (intro exI [of _ d]) auto
      qed (auto intro: exI [of _ c])
    qed
  qed (rule same_class_pid [OF cl d(1)], rule same_class_family [OF cl d(2)])
qed

lemma yields_inv:
  assumes inv: "proc_inv s" and c: "cpu_proc s c = Some p"
  shows "proc_inv (s\<lparr>pt := yield p (pt s), cpu_proc := (cpu_proc s)(c := None)\<rparr>)" (is "proc_inv ?s")
proof -
  note d = proc_invD [OF inv] and p = running [OF inv c]
  have cl: "same_class s ?s" using p by (simp add: same_class_def set_state_def yield_def)
  show ?thesis
  proof (rule proc_invI)
    show "fork_inv ?s" by (rule same_class_fork [OF cl d(3)]) (auto simp: set_state_def yield_def)
    show "wait_inv ?s" by (rule same_class_wait [OF cl d(5)]) (auto simp: set_state_def yield_def split: if_splits)
    show "cpu_inv ?s" by (rule leave_cpu [OF d(4) c]) (auto simp: set_state_def yield_def)
  qed (rule same_class_pid [OF cl d(1)], rule same_class_family [OF cl d(2)])
qed

lemma sleep_inv:
  assumes inv: "proc_inv s" and c: "cpu_proc s c = Some p" and f: "forking s p = None"
    and ch: "\<And>r. ch = ProcChan r \<Longrightarrow> r = p \<and> (\<forall>i < NPROC. par s i = Some p \<longrightarrow> st s i \<noteq> ZOMBIE)"
  shows "proc_inv (s\<lparr>pt := sleep_table p ch (pt s), cpu_proc := (cpu_proc s)(c := None)\<rparr>)" (is "proc_inv ?s")
proof -
  note d = proc_invD [OF inv] and p = running [OF inv c]
  have cl: "same_class s ?s" using p by (simp add: same_class_def sleep_table_def)
  show ?thesis
  proof (rule proc_invI)
    show "fork_inv ?s" by (rule same_class_fork [OF cl d(3)]) (use f in \<open>auto simp: sleep_table_def\<close>)
    show "wait_inv ?s" by (rule same_class_wait [OF cl d(5)]) (use ch in \<open>auto simp: sleep_table_def split: if_splits\<close>)
    show "cpu_inv ?s" by (rule leave_cpu [OF d(4) c]) (auto simp: sleep_table_def)
  qed (rule same_class_pid [OF cl d(1)], rule same_class_family [OF cl d(2)])
qed

text \<open>Wakeups and \<open>kill\<close> only make sleepers runnable.\<close>

lemma awaken_inv:
  assumes inv: "proc_inv s" and t: "initproc t = initproc (pt s)" "nextpid t = nextpid (pt s)"
    and a: "\<And>i. i < NPROC \<Longrightarrow> p_parent (procs t i) = par s i \<and> p_pid (procs t i) = p_pid (procs (pt s) i) \<and>
      p_chan (procs t i) = p_chan (procs (pt s) i) \<and>
      (p_state (procs t i) = st s i \<or> st s i = SLEEPING \<and> p_state (procs t i) = RUNNABLE)"
  shows "proc_inv (s\<lparr>pt := t\<rparr>)" (is "proc_inv ?s")
proof -
  note d = proc_invD [OF inv]
  have cl: "same_class s ?s" using t a by (fastforce simp: same_class_def)
  show ?thesis
  proof (rule proc_invI)
    show "fork_inv ?s" by (rule same_class_fork [OF cl d(3)]) (use a in fastforce)+
    show "wait_inv ?s" by (rule same_class_wait [OF cl d(5)]) (use a in fastforce)
    show "cpu_inv ?s" by (rule same_cpu [OF d(4)]) (use a in fastforce)+
  qed (rule same_class_pid [OF cl d(1)], rule same_class_family [OF cl d(2)])
qed

lemma wakes_inv: "proc_inv s \<Longrightarrow> proc_inv (s\<lparr>pt := wakeup ch (pt s)\<rparr>)"
  by (rule awaken_inv) (auto simp: wakeup_def)

lemma kills_inv: "proc_inv s \<Longrightarrow> kill pid (pt s) = (r, t) \<Longrightarrow> proc_inv (s\<lparr>pt := t\<rparr>)"
  by (rule awaken_inv) (auto simp: kill_def split: option.splits if_splits)

text \<open>\<open>fork\<close>: an unused entry becomes an embryo, and then unused again, a child, or runnable.\<close>

lemma alloc_slotD:
  assumes "alloc_slot t = Inr (Some np, t')"
  shows "np < NPROC" "p_state (procs t np) = UNUSED"
    "t' = (upd_proc np (\<lambda>p. p\<lparr>p_state := EMBRYO, p_pid := nextpid t\<rparr>) t)\<lparr>nextpid := nextpid t + 1\<rparr>"
  using assms by (auto simp: alloc_slot_def split: option.splits if_splits dest!: find_SomeD)

lemma fork_alloc_inv:
  assumes inv: "proc_inv s" and c: "cpu_proc s c = Some p" and a: "alloc_slot (pt s) = Inr (Some np, t)"
  shows "proc_inv (s\<lparr>pt := t, forking := (forking s)(p := Some np)\<rparr>)" (is "proc_inv ?s")
proof -
  note d = proc_invD [OF inv] and p = running [OF inv c] and n = alloc_slotD [OF a]
  have st: "st ?s i = (if i = np then EMBRYO else st s i)" "par ?s i = par s i" "p_chan (procs (pt ?s) i) = p_chan (procs (pt s) i)" for i
    using n(3) by simp_all
  have pid: "p_pid (procs (pt ?s) i) = (if i = np then nextpid (pt s) else p_pid (procs (pt s) i))" "nextpid (pt ?s) = nextpid (pt s) + 1"
    "initproc (pt ?s) = initproc (pt s)" for i
    using n(3) by simp_all
  have al: "alive ?s i \<longleftrightarrow> alive s i" for i using n(2) st(1) [of i] by (auto simp: alive_iff)
  have npp: "np \<noteq> p" using p n(2) by auto
  show ?thesis
  proof (rule proc_invI)
    have rng: "0 < p_pid (procs (pt s) i) \<and> p_pid (procs (pt s) i) < nextpid (pt s)" if "i < NPROC" "st s i \<noteq> UNUSED" for i
      using d(1) that by (simp add: pid_inv_def)
    show "pid_inv ?s" unfolding pid_inv_def st(1) pid
    proof (intro conjI allI impI)
      have pos: "0 < nextpid (pt s)" using d(1) by (simp add: pid_inv_def)
      then show "0 < nextpid (pt s) + 1" by simp
      fix i assume i: "i < NPROC" "(if i = np then EMBRYO else st s i) \<noteq> UNUSED"
      show "0 < (if i = np then nextpid (pt s) else p_pid (procs (pt s) i))"
        "(if i = np then nextpid (pt s) else p_pid (procs (pt s) i)) < nextpid (pt s) + 1"
        using i pos rng [of i] by (simp_all split: if_splits)
    next
      fix i j assume ij: "i < NPROC" "j < NPROC" "(if i = np then EMBRYO else st s i) \<noteq> UNUSED \<and> (if j = np then EMBRYO else st s j) \<noteq> UNUSED \<and>
        (if i = np then nextpid (pt s) else p_pid (procs (pt s) i)) = (if j = np then nextpid (pt s) else p_pid (procs (pt s) j))"
      have old: "p_pid (procs (pt s) m) \<noteq> nextpid (pt s)" if "m < NPROC" "st s m \<noteq> UNUSED" for m
        using rng [OF that] by simp
      have uniq: "i = j" if "st s i \<noteq> UNUSED" "st s j \<noteq> UNUSED" "p_pid (procs (pt s) i) = p_pid (procs (pt s) j)"
        using d(1) ij(1,2) that by (simp add: pid_inv_def)
      show "i = j" using ij old [of i] old [of j] uniq by (cases "i = np"; cases "j = np") simp_all
    qed
    show "family_inv ?s"
      using d(2) n(1,2) unfolding family_inv_def st(1,2) al pid(3) by (auto split: if_splits)
    have "forking s q \<noteq> Some np" for q using d(3) n(2) by (auto simp: fork_inv_def)
    moreover have "forking s np = None" using not_forking [OF d(3)] n(2) by simp
    ultimately show "fork_inv ?s" using d(3) p n npp unfolding fork_inv_def st(1) by auto
    show "cpu_inv ?s" by (rule same_cpu [OF d(4)]) (use st(1) n(2) in auto)
    show "wait_inv ?s" using d(5) n(2) unfolding wait_inv_def in_wait_def st by auto
  qed
qed

text \<open>The entry that a running process is filling.\<close>

lemma forked:
  assumes inv: "proc_inv s" and f: "forking s p = Some np"
  shows "np < NPROC" "st s np = EMBRYO" "np \<noteq> initproc (pt s)" "\<And>q. forking s q = Some np \<Longrightarrow> q = p" "forking s np = None" "\<not> alive s np"
proof -
  note d = proc_invD [OF inv]
  show n: "np < NPROC" "st s np = EMBRYO" "\<And>q. forking s q = Some np \<Longrightarrow> q = p" using d(3) f by (auto simp: fork_inv_def)
  show "\<not> alive s np" using n(2) by (simp add: alive_iff)
  then show "np \<noteq> initproc (pt s)" using d(2) by (auto simp: family_inv_def)
  show "forking s np = None" using not_forking [OF d(3)] n(2) by simp
qed

lemma fork_end:
  assumes inv: "proc_inv s" and f: "forking s p = Some np" and "forking s' = (forking s)(p := None)" "\<And>i. i \<noteq> np \<Longrightarrow> st s' i = st s i"
  shows "fork_inv s'"
  unfolding fork_inv_def
proof (intro conjI allI impI)
  note d = proc_invD(3) [OF inv] and k = forked [OF inv f]
  fix q m assume "forking s' q = Some m"
  then have q: "forking s q = Some m" "q \<noteq> p" using assms(3) by (auto split: if_splits)
  then have "m \<noteq> np" "q \<noteq> np" using k(4) [of q] k(5) by auto
  moreover have "q < NPROC \<and> st s q \<in> {RUNNABLE, RUNNING} \<and> m < NPROC \<and> st s m = EMBRYO" using d q(1) by (simp add: fork_inv_def)
  ultimately show "q < NPROC" "st s' q \<in> {RUNNABLE, RUNNING}" "m < NPROC" "st s' m = EMBRYO"
    using assms(4) [of q] assms(4) [of m] by auto
next
  fix q r m assume "forking s' q = Some m \<and> forking s' r = Some m"
  then have "forking s q = Some m \<and> forking s r = Some m" using assms(3) by (auto split: if_splits)
  then show "q = r" using proc_invD(3) [OF inv] unfolding fork_inv_def by blast
qed

lemma fork_fail_inv:
  assumes inv: "proc_inv s" and f: "forking s p = Some np" and n: "par s np = None"
  shows "proc_inv (s\<lparr>pt := set_state np UNUSED (pt s), forking := (forking s)(p := None)\<rparr>)" (is "proc_inv ?s")
proof -
  note d = proc_invD [OF inv] and k = forked [OF inv f]
  have st: "st ?s i = (if i = np then UNUSED else st s i)" "par ?s i = par s i" "p_chan (procs (pt ?s) i) = p_chan (procs (pt s) i)"
    "p_pid (procs (pt ?s) i) = p_pid (procs (pt s) i)" for i
    by (simp_all add: set_state_def)
  have t: "nextpid (pt ?s) = nextpid (pt s)" "initproc (pt ?s) = initproc (pt s)" by (simp_all add: set_state_def)
  have al: "alive ?s i \<longleftrightarrow> alive s i" for i using k(2) st(1) [of i] by (auto simp: alive_iff)
  show ?thesis
  proof (rule proc_invI)
    show "pid_inv ?s" using d(1) k(2) unfolding pid_inv_def st t by auto
    show "family_inv ?s" using d(2) k(2) n unfolding family_inv_def st(1,2) al t by (auto split: if_splits)
    show "fork_inv ?s" by (rule fork_end [OF inv f]) (simp_all add: set_state_def)
    show "cpu_inv ?s" by (rule same_cpu [OF d(4)]) (use st(1) k(2) in auto)
    show "wait_inv ?s" using d(5) k(2) unfolding wait_inv_def in_wait_def st by auto
  qed
qed

lemma fork_parent_inv:
  assumes inv: "proc_inv s" and c: "cpu_proc s c = Some p" and f: "forking s p = Some np"
  shows "proc_inv (s\<lparr>pt := upd_proc np (\<lambda>x. x\<lparr>p_parent := Some p\<rparr>) (pt s)\<rparr>)" (is "proc_inv ?s")
proof -
  note d = proc_invD [OF inv] and k = forked [OF inv f] and p = running [OF inv c]
  have st: "st ?s i = st s i" "par ?s i = (if i = np then Some p else par s i)" "p_chan (procs (pt ?s) i) = p_chan (procs (pt s) i)"
    "p_pid (procs (pt ?s) i) = p_pid (procs (pt s) i)" for i
    by simp_all
  have t: "nextpid (pt ?s) = nextpid (pt s)" "initproc (pt ?s) = initproc (pt s)" by simp_all
  have al: "alive ?s i \<longleftrightarrow> alive s i" for i using st(1) [of i] by (auto simp: alive_iff)
  have ap: "alive s p" using p by (simp add: alive_def)
  show ?thesis
  proof (rule proc_invI)
    show "pid_inv ?s" using d(1) unfolding pid_inv_def st t by auto
    show "family_inv ?s" using d(2) k(2,3) k(6) ap unfolding family_inv_def st al t by auto
    show "fork_inv ?s" using d(3) unfolding fork_inv_def st(1) by simp
    show "cpu_inv ?s" by (rule same_cpu [OF d(4)]) (use st(1) in auto)
    show "wait_inv ?s" using d(5) k(2) unfolding wait_inv_def in_wait_def st by auto
  qed
qed

lemma fork_done_inv:
  assumes inv: "proc_inv s" and f: "forking s p = Some np" and n: "par s np = Some p"
  shows "proc_inv (s\<lparr>pt := set_state np RUNNABLE (pt s), forking := (forking s)(p := None)\<rparr>)" (is "proc_inv ?s")
proof -
  note d = proc_invD [OF inv] and k = forked [OF inv f]
  have st: "st ?s i = (if i = np then RUNNABLE else st s i)" "par ?s i = par s i" "p_chan (procs (pt ?s) i) = p_chan (procs (pt s) i)"
    "p_pid (procs (pt ?s) i) = p_pid (procs (pt s) i)" for i
    by (simp_all add: set_state_def)
  have t: "nextpid (pt ?s) = nextpid (pt s)" "initproc (pt ?s) = initproc (pt s)" by (simp_all add: set_state_def)
  have al: "alive ?s i \<longleftrightarrow> i = np \<or> alive s i" for i using k(1) st(1) [of i] by (auto simp: alive_iff)
  show ?thesis
  proof (rule proc_invI)
    show "pid_inv ?s" using d(1) k(2) unfolding pid_inv_def st t by auto
    show "family_inv ?s" using d(2) k(2) n unfolding family_inv_def st(1,2) al t by (auto split: if_splits)
    show "fork_inv ?s" by (rule fork_end [OF inv f]) (simp_all add: set_state_def)
    show "cpu_inv ?s" by (rule same_cpu [OF d(4)]) (use st(1) k(2) in auto)
    show "wait_inv ?s" using d(5) k(2) unfolding wait_inv_def in_wait_def st by auto
  qed
qed

text \<open>\<open>wait\<close> takes a zombie child away; \<open>exit\<close> makes its caller a zombie without children and wakes whoever may wait for it.\<close>

lemma wait_scanD:
  "wait_scan p t = (Reaped i pid, t') \<Longrightarrow> i < NPROC \<and> p_parent (procs t i) = Some p \<and> p_state (procs t i) = ZOMBIE \<and> t' = reap i t"
  "wait_scan p t = (Wait_Sleeps, t') \<Longrightarrow> t' = sleep_table p (ProcChan p) t \<and>
     (\<forall>i < NPROC. p_parent (procs t i) = Some p \<longrightarrow> p_state (procs t i) \<noteq> ZOMBIE)"
  by (auto simp: wait_scan_def find_None_iff split: option.splits if_splits dest!: find_SomeD)

lemma reaps_inv:
  assumes inv: "proc_inv s" and c: "cpu_proc s c = Some p" and w: "wait_scan p (pt s) = (Reaped i pid, t)"
  shows "proc_inv (s\<lparr>pt := t\<rparr>)" (is "proc_inv ?s")
proof -
  note d = proc_invD [OF inv] and p = running [OF inv c]
  have i: "i < NPROC" "par s i = Some p" "st s i = ZOMBIE" "t = reap i (pt s)" using wait_scanD(1) [OF w] by auto
  have st: "st ?s j = (if j = i then UNUSED else st s j)" "par ?s j = (if j = i then None else par s j)"
    "p_chan (procs (pt ?s) j) = p_chan (procs (pt s) j)" "p_pid (procs (pt ?s) j) = (if j = i then 0 else p_pid (procs (pt s) j))" for j
    using i(4) by (simp_all add: reap_def)
  have t: "nextpid (pt ?s) = nextpid (pt s)" "initproc (pt ?s) = initproc (pt s)" using i(4) by (simp_all add: reap_def)
  have al: "alive ?s j \<longleftrightarrow> alive s j" for j using i(3) st(1) [of j] by (auto simp: alive_iff)
  show ?thesis
  proof (rule proc_invI)
    show "pid_inv ?s" using d(1) unfolding pid_inv_def st(1,4) t by auto
    show "family_inv ?s" using d(2) i unfolding family_inv_def st(1,2) al t by (auto split: if_splits)
    show "fork_inv ?s" using d(3) i(3) unfolding fork_inv_def st(1) by fastforce
    show "cpu_inv ?s" by (rule same_cpu [OF d(4)]) (use st(1) i(3) in auto)
    show "wait_inv ?s" using d(5) unfolding wait_inv_def in_wait_def st by auto
  qed
qed

lemma exits_inv:
  assumes inv: "proc_inv s" and c: "cpu_proc s c = Some p" and f: "forking s p = None" and ip: "p \<noteq> initproc (pt s)"
  shows "proc_inv (s\<lparr>pt := exit_table p (pt s), cpu_proc := (cpu_proc s)(c := None)\<rparr>)" 
proof -
  define s' where "s' = s\<lparr>pt := exit_table p (pt s), cpu_proc := (cpu_proc s)(c := None)\<rparr>"
  note d = proc_invD [OF inv] and p = running [OF inv c] and e = exit_table_closed [OF running(1) [OF inv c], of "pt s"]
  let ?ini = "initproc (pt s)"
  have ini: "?ini < NPROC" "alive s ?ini" using d(2) by (auto simp: family_inv_def alive_def)
  have t: "nextpid (pt s') = nextpid (pt s)" "initproc (pt s') = ?ini" using e by (simp_all add: s'_def)
  have same: "p_pid (procs (pt s') j) = p_pid (procs (pt s) j)" "p_chan (procs (pt s') j) = p_chan (procs (pt s) j)"
    "par s' j = (if par s j = Some p then Some ?ini else par s j)" if "j < NPROC" for j
    using e(4) that by (simp_all add: s'_def)
  have stp: "st s' p = ZOMBIE" using e(3) by (simp add: s'_def)
  have stj: "st s' j = st s j \<or> st s j = SLEEPING \<and> st s' j = RUNNABLE" if "j < NPROC" "j \<noteq> p" for j
    using e(5) that by (simp add: s'_def)
  have un: "st s' j = UNUSED \<longleftrightarrow> st s j = UNUSED" "st s' j = EMBRYO \<longleftrightarrow> st s j = EMBRYO"
    "st s' j = ZOMBIE \<longleftrightarrow> j = p \<or> st s j = ZOMBIE" if "j < NPROC" for j
    using stj [OF that] stp p by (cases "j = p"; auto)+
  have al: "alive s' j \<longleftrightarrow> j \<noteq> p \<and> alive s j" for j using un [of j] by (auto simp: alive_iff)
  have "proc_inv s'"
  proof (rule proc_invI)
    show "pid_inv s'" using d(1) unfolding pid_inv_def by (simp add: t(1) same(1) un(1))
    show "family_inv s'"
      using d(2) ip ini unfolding family_inv_def t al by (auto simp: same(3) un)
    show "fork_inv s'" unfolding fork_inv_def
    proof (intro conjI allI impI)
      fix q np assume q: "forking s' q = Some np"
      then have q': "forking s q = Some np" "q \<noteq> p" using f by (auto simp: s'_def)
      then have "q < NPROC \<and> st s q \<in> {RUNNABLE, RUNNING} \<and> np < NPROC \<and> st s np = EMBRYO" using d(3) by (simp add: fork_inv_def)
      then show "q < NPROC" "st s' q \<in> {RUNNABLE, RUNNING}" "np < NPROC" "st s' np = EMBRYO"
        using stj [of q] q'(2) un(2) [of np] by auto
    next
      fix q r np assume "forking s' q = Some np \<and> forking s' r = Some np"
      then show "q = r" using d(3) by (simp add: fork_inv_def s'_def)
    qed
    show "cpu_inv s'"
    proof (rule leave_cpu [OF d(4) c])
      fix j assume "j < NPROC" "j \<noteq> p"
      then show "st s' j = RUNNING \<longleftrightarrow> st s j = RUNNING" using stj [of j] by auto
    qed (use stp in \<open>auto simp: s'_def\<close>)
    show "wait_inv s'" unfolding wait_inv_def
    proof (intro conjI allI impI)
      fix q j assume q: "q < NPROC" and j: "j < NPROC" and h: "in_wait s' q \<and> par s' j = Some q"
      have qp: "q \<noteq> p" using h stp by (auto simp: in_wait_def)
      then have qs: "st s q = SLEEPING" "p_chan (procs (pt s) q) = Some (ProcChan q)"
        using h stj [OF q] same(2) [OF q] by (auto simp: in_wait_def)
      let ?D = "(\<exists>r. par s p = Some r \<and> p_chan (procs (pt s) q) = Some (ProcChan r)) \<or>
            p_chan (procs (pt s) q) = Some (ProcChan ?ini) \<and> (\<exists>m < NPROC. par s m = Some p \<and> st s m = ZOMBIE)"
      have eq: "st s' q = (if st s q = SLEEPING \<and> ?D then RUNNABLE else st s q)" using e(5) q qp by (simp add: s'_def)
      have still: "\<not> ?D"
      proof
        assume D: ?D
        have "st s' q = RUNNABLE" unfolding eq by (rule if_P) (use qs(1) D in blast)
        then show False using h by (simp add: in_wait_def)
      qed
      have old: "st s j \<noteq> ZOMBIE" if "par s j = Some q" using d(5) q j qs that by (auto simp: wait_inv_def in_wait_def)
      have "st s j \<noteq> ZOMBIE \<and> j \<noteq> p"
      proof (cases "par s j = Some p")
        case True
        then have "q = ?ini" using h same(3) [OF j] by simp
        moreover have "j \<noteq> p" using True d(2) p(1) by (auto simp: family_inv_def)
        ultimately show ?thesis using still qs(2) True j by auto
      next
        case False
        then have "par s j = Some q" using h same(3) [OF j] by simp
        then show ?thesis using old still qs(2) by auto
      qed
      then show "st s' j \<noteq> ZOMBIE" using un(3) [OF j] by simp
    next
      fix i q assume i: "i < NPROC" and h: "st s' i = SLEEPING \<and> p_chan (procs (pt s') i) = Some (ProcChan q)"
      then have "st s i = SLEEPING" using stp stj [OF i] by (cases "i = p") auto
      then show "q = i" using h same(2) [OF i] d(5) i by (simp add: wait_inv_def)
    qed
  qed
  then show ?thesis by (simp add: s'_def)
qed

lemma step_inv: "proc_step s s' \<Longrightarrow> proc_inv s \<Longrightarrow> proc_inv s'"
proof (induction rule: proc_step.induct)
  case (sleeps s c p ch)
  then show ?case by (intro sleep_inv) auto
next
  case (waits s c p t)
  then have "t = sleep_table p (ProcChan p) (pt s)" "\<forall>i < NPROC. par s i = Some p \<longrightarrow> st s i \<noteq> ZOMBIE" using wait_scanD(2) by blast+
  then show ?case using waits by (auto intro: sleep_inv)
qed (rule pick_inv yields_inv wakes_inv kills_inv fork_alloc_inv fork_fail_inv fork_parent_inv fork_done_inv exits_inv reaps_inv; assumption)+

lemma reach_inv:
  assumes "proc_start s0" "proc_step\<^sup>*\<^sup>* s0 s"
  shows "proc_inv s"
  using assms(2) by (induction rule: rtranclp_induct) (use start_inv [OF assms(1)] step_inv in auto)

text \<open>
  C3. The process table stays consistent. Starting from the state \<open>userinit\<close> leaves, under every interleaving of the
  schedulers, \<open>fork\<close>, \<open>exit\<close>, \<open>wait\<close>, \<open>sleep\<close>, \<open>wakeup\<close> and \<open>kill\<close> on any number of processors: the identifiers of
  processes in use are positive and distinct; every process other than \<open>init\<close> that has been started has a
  parent, which is alive and not a zombie; and a process is running exactly when it is on one processor.
\<close>

theorem process_table_consistent:
  assumes "proc_start s0" "proc_step\<^sup>*\<^sup>* s0 s"
  shows "(\<forall>i < NPROC. \<forall>j < NPROC. st s i \<noteq> UNUSED \<and> st s j \<noteq> UNUSED \<and> p_pid (procs (pt s) i) = p_pid (procs (pt s) j) \<longrightarrow> i = j) \<and>
    (\<forall>i < NPROC. st s i \<noteq> UNUSED \<longrightarrow> 0 < p_pid (procs (pt s) i)) \<and>
    (\<forall>i < NPROC. st s i \<in> {SLEEPING, RUNNABLE, RUNNING, ZOMBIE} \<and> i \<noteq> initproc (pt s) \<longrightarrow> (\<exists>q. par s i = Some q \<and> q \<noteq> i \<and> alive s q)) \<and>
    (\<forall>p < NPROC. st s p = RUNNING \<longleftrightarrow> (\<exists>!c. cpu_proc s c = Some p))"
proof -
  note d = proc_invD [OF reach_inv [OF assms]]
  have "\<exists>q. par s i = Some q \<and> q \<noteq> i \<and> alive s q" if "i < NPROC" "st s i \<in> {SLEEPING, RUNNABLE, RUNNING, ZOMBIE}" "i \<noteq> initproc (pt s)" for i
  proof -
    have "par s i \<noteq> None" using d(2) that unfolding family_inv_def by auto
    then show ?thesis using d(2) that(1) unfolding family_inv_def by auto
  qed
  moreover have "st s p = RUNNING \<longleftrightarrow> (\<exists>!c. cpu_proc s c = Some p)" if "p < NPROC" for p
    using d(4) that unfolding cpu_inv_def by blast
  ultimately show ?thesis using d(1) unfolding pid_inv_def by blast
qed

text \<open>A run: \<open>init\<close> forks a child, which is scheduled on another processor and exits.\<close>

definition example_proc :: "procstate \<Rightarrow> int \<Rightarrow> proc" where
  "example_proc x n = \<lparr>p_sz = 0, p_pgdir = 0, p_kstack = 0, p_state = x, p_pid = n, p_parent = None, p_tf = 0, p_context = 0,
     p_chan = None, p_killed = False, p_ofile = replicate NOFILE None, p_cwd = None, p_name = []\<rparr>"

definition example_sys :: psys where
  "example_sys = \<lparr>pt = \<lparr>procs = (\<lambda>i. if i = 0 then example_proc RUNNABLE 1 else example_proc UNUSED 0), nextpid = 2, initproc = 0\<rparr>,
     cpu_proc = (\<lambda>_. None), forking = (\<lambda>_. None)\<rparr>"

lemma example_start: "proc_start example_sys"
  by (simp add: proc_start_def example_sys_def example_proc_def)

lemma upt_NPROC: "[0..<NPROC] = 0 # 1 # [2..<NPROC]"
  by (simp add: NPROC_def upt_conv_Cons)

lemma example_run: "\<exists>s. proc_step\<^sup>*\<^sup>* example_sys s \<and> initproc (pt s) = 0 \<and> st s 0 = RUNNING \<and> st s 1 = ZOMBIE \<and> par s 1 = Some 0 \<and>
    p_pid (procs (pt s) 1) = 2"
proof -
  define s1 where "s1 = example_sys\<lparr>pt := set_state 0 RUNNING (pt example_sys), cpu_proc := (cpu_proc example_sys)(0 := Some 0)\<rparr>"
  define s2 where "s2 = s1\<lparr>pt := (upd_proc 1 (\<lambda>p. p\<lparr>p_state := EMBRYO, p_pid := 2\<rparr>) (pt s1))\<lparr>nextpid := 3\<rparr>, forking := (forking s1)(0 := Some 1)\<rparr>"
  define s3 where "s3 = s2\<lparr>pt := upd_proc 1 (\<lambda>x. x\<lparr>p_parent := Some 0\<rparr>) (pt s2)\<rparr>"
  define s4 where "s4 = s3\<lparr>pt := set_state 1 RUNNABLE (pt s3), forking := (forking s3)(0 := None)\<rparr>"
  define s5 where "s5 = s4\<lparr>pt := set_state 1 RUNNING (pt s4), cpu_proc := (cpu_proc s4)(1 := Some 1)\<rparr>"
  define s6 where "s6 = s5\<lparr>pt := exit_table 1 (pt s5), cpu_proc := (cpu_proc s5)(1 := None)\<rparr>"
  note f = example_sys_def example_proc_def set_state_def
  have "proc_step example_sys s1" unfolding s1_def
    by (rule proc_step.pick [where i = 0]) (simp_all add: sched_next_def upt_NPROC f)
  moreover have "proc_step s1 s2" unfolding s2_def
    by (rule proc_step.fork_alloc [where c = 0]) (simp_all add: alloc_slot_def upt_NPROC s1_def f)
  moreover have "proc_step s2 s3" unfolding s3_def by (rule proc_step.fork_parent [where c = 0]) (simp_all add: s2_def s1_def f)
  moreover have "proc_step s3 s4" unfolding s4_def by (rule proc_step.fork_done [where c = 0]) (simp_all add: s3_def s2_def s1_def f)
  moreover have "proc_step s4 s5" unfolding s5_def
    by (rule proc_step.pick [where i = 0]) (simp_all add: sched_next_def upt_NPROC s4_def s3_def s2_def s1_def f)
  moreover have "proc_step s5 s6" unfolding s6_def
    by (rule proc_step.exits) (simp_all add: s5_def s4_def s3_def s2_def s1_def f)
  ultimately have "proc_step\<^sup>*\<^sup>* example_sys s6" by (meson converse_rtranclp_into_rtranclp rtranclp.rtrancl_refl)
  moreover have one: "1 < NPROC" "0 < NPROC" by (simp_all add: NPROC_def)
  note e = exit_table_closed [OF one(1), of "pt s5"]
  have "initproc (pt s5) = 0 \<and> st s5 0 = RUNNING \<and> par s5 1 = Some 0 \<and> p_pid (procs (pt s5) 1) = 2"
    by (simp add: s5_def s4_def s3_def s2_def s1_def f)
  then have "initproc (pt s6) = 0 \<and> st s6 0 = RUNNING \<and> st s6 1 = ZOMBIE \<and> par s6 1 = Some 0 \<and> p_pid (procs (pt s6) 1) = 2"
    using e one by (simp add: s6_def)
  ultimately show ?thesis by blast
qed

theorem process_table_consistent_witness:
  "\<exists>s. proc_step\<^sup>*\<^sup>* example_sys s \<and> st s 1 = ZOMBIE \<and> (\<exists>q. par s 1 = Some q \<and> q \<noteq> 1 \<and> alive s q)"
proof -
  obtain s where s: "proc_step\<^sup>*\<^sup>* example_sys s" "st s 1 = ZOMBIE" "initproc (pt s) = 0" using example_run by blast
  have "1 < NPROC" by (simp add: NPROC_def)
  then show ?thesis using process_table_consistent [OF example_start s(1)] s by (intro exI [of _ s]) auto
qed

text \<open>
  C9. No zombie is left behind. In every reachable state a process that sleeps in \<open>wait\<close> has no zombie child, although
  children exit, and are passed to \<open>init\<close>, concurrently; and whenever a process with a zombie child calls
  \<open>wait\<close>, the call returns at once with the identifier of a zombie child, whose entry becomes free.
\<close>

theorem wait_never_misses:
  assumes "proc_start s0" "proc_step\<^sup>*\<^sup>* s0 s" "q < NPROC" "i < NPROC" "par s i = Some q" "st s i = ZOMBIE"
  shows "\<not> in_wait s q \<and>
    (\<exists>j t. j < NPROC \<and> par s j = Some q \<and> st s j = ZOMBIE \<and> wait_scan q (pt s) = (Reaped j (p_pid (procs (pt s) j)), t) \<and>
       p_state (procs t j) = UNUSED \<and> (\<forall>k. k \<noteq> j \<longrightarrow> procs t k = procs (pt s) k))"
proof
  note d = proc_invD [OF reach_inv [OF assms(1,2)]]
  show "\<not> in_wait s q" using d(5) assms(3-6) by (auto simp: wait_inv_def)
  have "find (\<lambda>i. par s i = Some q \<and> st s i = ZOMBIE) [0..<NPROC] \<noteq> None" using assms(4-6) by (auto simp: find_None_iff)
  then obtain j where j: "find (\<lambda>i. par s i = Some q \<and> st s i = ZOMBIE) [0..<NPROC] = Some j" by auto
  then have "j < NPROC" "par s j = Some q" "st s j = ZOMBIE" using find_SomeD [OF j] by auto
  moreover have "wait_scan q (pt s) = (Reaped j (p_pid (procs (pt s) j)), reap j (pt s))" by (simp add: wait_scan_def j)
  ultimately show "\<exists>j t. j < NPROC \<and> par s j = Some q \<and> st s j = ZOMBIE \<and> wait_scan q (pt s) = (Reaped j (p_pid (procs (pt s) j)), t) \<and>
       p_state (procs t j) = UNUSED \<and> (\<forall>k. k \<noteq> j \<longrightarrow> procs t k = procs (pt s) k)"
    by (intro exI [of _ j] exI [of _ "reap j (pt s)"]) (simp add: reap_def)
qed

theorem wait_never_misses_witness:
  "\<exists>s j t. proc_step\<^sup>*\<^sup>* example_sys s \<and> st s 1 = ZOMBIE \<and> \<not> in_wait s 0 \<and> wait_scan 0 (pt s) = (Reaped j (p_pid (procs (pt s) j)), t)"
proof -
  obtain s where s: "proc_step\<^sup>*\<^sup>* example_sys s" "st s 1 = ZOMBIE" "par s 1 = Some 0" using example_run by blast
  have "0 < NPROC" "1 < NPROC" by (simp_all add: NPROC_def)
  then show ?thesis using wait_never_misses [OF example_start s(1) _ _ s(3,2)] s by blast
qed

section \<open>Scheduling\<close>

text \<open>
  The choices of \<open>scheduler\<close>. It holds the lock while it looks for the next runnable entry; each table of the list is the
  one it sees when it starts a pass or when a process has switched back to it. \<open>None\<close> is the end of a pass.
\<close>

fun sched_run :: "nat \<Rightarrow> ptable list \<Rightarrow> nat option list" where
  "sched_run i [] = []"
| "sched_run i (t # ts) =
     (case sched_next i t of
        Some p \<Rightarrow> Some p # sched_run (Suc p) ts
      | None \<Rightarrow> None # sched_run 0 ts)"

lemma sched_next_bounds: "sched_next i t = Some p \<Longrightarrow> i \<le> p \<and> p < NPROC"
  using find_SomeD [of _ "[i..<NPROC]" p] by (fastforce simp: sched_next_def)

lemma sched_next_le:
  assumes "j < NPROC" "i \<le> j" "p_state (procs t j) = RUNNABLE"
  shows "\<exists>p. sched_next i t = Some p \<and> p \<le> j"
proof -
  have "find (\<lambda>i. p_state (procs t i) = RUNNABLE) [i..<NPROC] \<noteq> None" using assms by (auto simp: find_None_iff)
  then obtain p where p: "sched_next i t = Some p" by (auto simp: sched_next_def)
  then obtain k where k: "k < length [i..<NPROC]" "p = [i..<NPROC] ! k" "\<forall>m < k. p_state (procs t ([i..<NPROC] ! m)) \<noteq> RUNNABLE"
    by (auto simp: sched_next_def find_Some_iff)
  have "\<not> j < p"
  proof
    assume "j < p"
    then have "j - i < k" "[i..<NPROC] ! (j - i) = j" using k assms(1,2) by auto
    then show False using k(3) assms(3) by metis
  qed
  then show ?thesis using p by auto
qed

lemma sched_run_reaches:
  assumes "j < NPROC" "i \<le> NPROC" "\<forall>t \<in> set ts. p_state (procs t j) = RUNNABLE"
    and "(if i \<le> j then j - i + 1 else (NPROC - i + 1) + (j + 1)) \<le> length ts"
  shows "Some j \<in> set (sched_run i ts)"
  using assms(2-4)
proof (induction ts arbitrary: i)
  case (Cons t ts)
  show ?case
  proof (cases "sched_next i t")
    case None
    then have "\<not> i \<le> j" using sched_next_le [OF assms(1)] Cons.prems(2) by fastforce
    then have "Some j \<in> set (sched_run 0 ts)" using Cons.prems by (intro Cons.IH) auto
    then show ?thesis using None by simp
  next
    case (Some p)
    have b: "i \<le> p" "p < NPROC" using sched_next_bounds [OF Some] by auto
    have le: "p \<le> j" if "i \<le> j" using sched_next_le [OF assms(1) that, of t] Cons.prems(2) Some by auto
    have "Some j \<in> set (sched_run (Suc p) ts)" if "p \<noteq> j"
    proof (rule Cons.IH)
      show "(if Suc p \<le> j then j - Suc p + 1 else NPROC - Suc p + 1 + (j + 1)) \<le> length ts"
      proof (cases "i \<le> j")
        case True
        then have "Suc p \<le> j" using le that by simp
        then show ?thesis using Cons.prems(3) True b(1) by simp
      next
        case False
        then have "\<not> Suc p \<le> j" using b(1) by simp
        then show ?thesis using Cons.prems(3) False b by simp
      qed
    qed (use b Cons.prems(2) in auto)
    then show ?thesis using Some by auto
  qed
qed (auto split: if_splits)

text \<open>
  C30. The scheduler is fair, with a bound. Wherever a scheduler stands in its pass and whatever the other processes do, a
  process that stays runnable is chosen within \<open>NPROC + 1\<close> decisions, the end of a pass included.
\<close>

theorem scheduler_bounded_wait:
  assumes "j < NPROC" "i \<le> NPROC" "\<forall>t \<in> set ts. p_state (procs t j) = RUNNABLE" "length ts = NPROC + 1"
  shows "Some j \<in> set (sched_run i ts)"
  using assms by (intro sched_run_reaches) auto

theorem scheduler_bounded_wait_witness:
  "Some 0 \<in> set (sched_run 5 (replicate 65 (pt example_sys)))"
  by (rule scheduler_bounded_wait) (auto simp: NPROC_def example_sys_def example_proc_def)

text \<open>
  C40. \<open>kill(0)\<close> dooms a process that does not exist yet. The entries of processes that do not exist have identifier 0,
  and \<open>kill\<close> does not look at the state of an entry: it marks the first unused one as killed, reports success, and
  \<open>allocproc\<close> hands that entry, still marked, to the next process.
\<close>

theorem kill_zero_dooms:
  assumes "find (\<lambda>i. p_state (procs t i) = UNUSED) [0..<NPROC] = Some i" "find (\<lambda>i. p_pid (procs t i) = 0) [0..<NPROC] = Some i"
    and "nextpid t < 2 ^ 31 - 1"
  shows "\<exists>t1 t2. kill 0 t = (0, t1) \<and> alloc_slot t1 = Inr (Some i, t2) \<and> p_killed (procs t2 i) \<and> p_pid (procs t2 i) = nextpid t"
proof -
  define t1 where "t1 = upd_proc i (\<lambda>p. p\<lparr>p_killed := True, p_state := (if p_state p = SLEEPING then RUNNABLE else p_state p)\<rparr>) t"
  have u: "p_state (procs t i) = UNUSED" using find_SomeD [OF assms(1)] by simp
  have "p_state (procs t1 k) = p_state (procs t k)" for k using u by (simp add: t1_def)
  then have "find (\<lambda>i. p_state (procs t1 i) = UNUSED) [0..<NPROC] = Some i" using assms(1) by simp
  then have "alloc_slot t1 = Inr (Some i, (upd_proc i (\<lambda>p. p\<lparr>p_state := EMBRYO, p_pid := nextpid t\<rparr>) t1)\<lparr>nextpid := nextpid t + 1\<rparr>)"
    using assms(3) by (simp add: alloc_slot_def t1_def)
  moreover have "kill 0 t = (0, t1)" using assms(2) by (simp add: kill_def t1_def)
  ultimately show ?thesis by (simp add: t1_def)
qed

theorem kill_zero_dooms_witness:
  "\<exists>t1 t2. kill 0 (pt example_sys) = (0, t1) \<and> alloc_slot t1 = Inr (Some 1, t2) \<and> p_killed (procs t2 1)"
proof -
  have "\<exists>t1 t2. kill 0 (pt example_sys) = (0, t1) \<and> alloc_slot t1 = Inr (Some 1, t2) \<and> p_killed (procs t2 1) \<and>
      p_pid (procs t2 1) = nextpid (pt example_sys)"
    by (rule kill_zero_dooms) (simp_all add: upt_NPROC example_sys_def example_proc_def)
  then show ?thesis by blast
qed

end
