(* ===== verification/Xv6_Syscall.thy ===== *)
theory Xv6_Syscall
  imports Xv6_Proc
begin

text \<open>
  System calls: fetching arguments (\<open>syscall.c\<close>), the calls on processes (\<open>sysproc.c\<close>) and on files (\<open>sysfile.c\<close>).
  User memory is what the page table of the process shows; the kernel reads and writes it through that table, and
  touching an absent page is the panic \<open>trap\<close> of \<open>trap.c\<close>. Strings and buffers handed over by the user are
  lists of their bytes. A call that sleeps in a pipe or in \<open>wait\<close> has the result \<open>Sleeps\<close>.
\<close>

record kconf =    \<comment> \<open>addresses of the kernel image and the device table\<close>
  k_end :: u32
  k_data :: u32
  k_trapret :: u32
  k_forkret :: u32
  k_dev :: devsw

section \<open>User memory\<close>

definition user_addr :: "u32 \<Rightarrow> kmem \<Rightarrow> u32 \<Rightarrow> u32 c_result" where
  "user_addr pgdir k a =
     (let pte = fst (walkpgdir pgdir a False k); e = load4 (km_mem k) pte
      in if pte = 0 \<or> e AND PTE_P = 0 then Inl (Panic ''trap'') else Inr (P2V (PTE_ADDR e) + (a AND 0xFFF)))"

fun user_get :: "u32 \<Rightarrow> kmem \<Rightarrow> u32 \<Rightarrow> nat \<Rightarrow> u8 list c_result" where
  "user_get pgdir k a 0 = Inr []"
| "user_get pgdir k a (Suc n) =
     bindE (user_addr pgdir k a) (\<lambda>x. bindE (user_get pgdir k (a + 1) n) (\<lambda>bs. Inr (km_mem k x # bs)))"

fun user_put :: "u32 \<Rightarrow> u32 \<Rightarrow> u8 list \<Rightarrow> kmem \<Rightarrow> kmem c_result" where
  "user_put pgdir a [] k = Inr k"
| "user_put pgdir a (b # bs) k =
     bindE (user_addr pgdir k a) (\<lambda>x. user_put pgdir (a + 1) bs (kset ((km_mem k)(x := b)) k))"

section \<open>syscall.c\<close>

text \<open>\<open>None\<close> stands for the return value -1.\<close>

definition fetchint :: "nat \<Rightarrow> u32 \<Rightarrow> kernel \<Rightarrow> int option c_result" where
  "fetchint cur addr s =
     (let p = kproc cur s
      in if addr \<ge> p_sz p \<or> addr + 4 > p_sz p then Inr None
         else bindE (user_get (p_pgdir p) (kmm s) addr 4) (\<lambda>bs. Inr (Some (sint (get32 bs 0)))))"

text \<open>The loop of \<open>fetchstr\<close> with \<open>k\<close> addresses left before \<open>ep\<close>; the result is the string without its NUL.\<close>

fun fetchstr_from :: "u32 \<Rightarrow> kmem \<Rightarrow> nat \<Rightarrow> u32 \<Rightarrow> u8 list option c_result" where
  "fetchstr_from pgdir k 0 a = Inr None"
| "fetchstr_from pgdir k (Suc n) a =
     bindE (user_addr pgdir k a) (\<lambda>x.
     if km_mem k x = 0 then Inr (Some [])
     else bindE (fetchstr_from pgdir k n (a + 1)) (\<lambda>r. Inr (map_option ((#) (km_mem k x)) r)))"

definition fetchstr :: "nat \<Rightarrow> u32 \<Rightarrow> kernel \<Rightarrow> u8 list option c_result" where
  "fetchstr cur addr s =
     (let p = kproc cur s
      in if addr \<ge> p_sz p then Inr None
         else fetchstr_from (p_pgdir p) (kmm s) (unat (p_sz p) - unat addr) addr)"

definition argint :: "nat \<Rightarrow> nat \<Rightarrow> kernel \<Rightarrow> int option c_result" where
  "argint cur n s = fetchint cur (load4 (km_mem (kmm s)) (p_tf (kproc cur s) + TF_ESP) + 4 + 4 * of_nat n) s"

definition argptr :: "nat \<Rightarrow> nat \<Rightarrow> int \<Rightarrow> kernel \<Rightarrow> u32 option c_result" where
  "argptr cur n len s =
     bindE (argint cur n s) (\<lambda>r. case r of None \<Rightarrow> Inr None
     | Some i \<Rightarrow>
         (let i = word_of_int i; sz = p_sz (kproc cur s)
          in if len < 0 \<or> i \<ge> sz \<or> i + word_of_int len > sz then Inr None else Inr (Some i)))"

definition argstr :: "nat \<Rightarrow> nat \<Rightarrow> kernel \<Rightarrow> u8 list option c_result" where
  "argstr cur n s = bindE (argint cur n s) (\<lambda>r. case r of None \<Rightarrow> Inr None | Some a \<Rightarrow> fetchstr cur (word_of_int a) s)"

section \<open>sysproc.c\<close>

type_synonym sysret = "(int run \<times> kernel) c_result"

definition ret :: "int \<Rightarrow> kernel \<Rightarrow> sysret" where "ret r s = Inr (Ret r, s)"

definition with_arg :: "'a option c_result \<Rightarrow> kernel \<Rightarrow> ('a \<Rightarrow> sysret) \<Rightarrow> sysret" where    \<comment> \<open>\<open>if(arg... < 0) return -1\<close>\<close>
  "with_arg a s f = bindE a (\<lambda>r. case r of None \<Rightarrow> ret (-1) s | Some x \<Rightarrow> f x)"

definition sys_fork :: "kconf \<Rightarrow> nat \<Rightarrow> kernel \<Rightarrow> sysret" where
  "sys_fork kc cur s = bindE (fork (k_end kc) (k_data kc) (k_trapret kc) (k_forkret kc) cur s) (\<lambda>(r, s). ret r s)"

definition sys_wait :: "kconf \<Rightarrow> nat \<Rightarrow> kernel \<Rightarrow> sysret" where
  "sys_wait kc cur s =
     bindE (wait (k_end kc) cur s) (\<lambda>(r, s). case r of None \<Rightarrow> Inr (Sleeps 0, s) | Some r \<Rightarrow> ret r s)"

definition sys_kill :: "nat \<Rightarrow> kernel \<Rightarrow> sysret" where
  "sys_kill cur s =
     with_arg (argint cur 0 s) s (\<lambda>pid. case kill pid (ptab s) of (r, t) \<Rightarrow> ret r (s\<lparr>ptab := t\<rparr>))"

definition sys_getpid :: "nat \<Rightarrow> kernel \<Rightarrow> sysret" where
  "sys_getpid cur s = ret (p_pid (kproc cur s)) s"

definition sys_sbrk :: "kconf \<Rightarrow> nat \<Rightarrow> kernel \<Rightarrow> sysret" where
  "sys_sbrk kc cur s =
     with_arg (argint cur 0 s) s (\<lambda>n.
     (let addr = sint (p_sz (kproc cur s))
      in bindE (growproc (k_end kc) cur n s) (\<lambda>(r, s). if r < 0 then ret (-1) s else ret addr s)))"

text \<open>One run of \<open>sys_sleep\<close> entered at tick \<open>ticks0\<close>; the comparison is unsigned.\<close>

definition sys_sleep_run :: "u32 \<Rightarrow> u32 \<Rightarrow> int \<Rightarrow> nat \<Rightarrow> kernel \<Rightarrow> sysret" where
  "sys_sleep_run ticks ticks0 n cur s =
     (if ticks - ticks0 < word_of_int n
      then if p_killed (kproc cur s) then ret (-1) s
           else Inr (Sleeps n, s\<lparr>ptab := sleep_table cur TicksChan (ptab s)\<rparr>)
      else ret 0 s)"

definition sys_sleep :: "u32 \<Rightarrow> nat \<Rightarrow> kernel \<Rightarrow> sysret" where
  "sys_sleep ticks cur s = with_arg (argint cur 0 s) s (\<lambda>n. sys_sleep_run ticks ticks n cur s)"

definition sys_uptime :: "u32 \<Rightarrow> kernel \<Rightarrow> sysret" where
  "sys_uptime ticks s = ret (sint ticks) s"

definition sys_mike :: "kernel \<Rightarrow> sysret" where
  "sys_mike s = ret 22 s"

section \<open>sysfile.c\<close>

definition argfd :: "nat \<Rightarrow> nat \<Rightarrow> kernel \<Rightarrow> (nat \<times> nat) option c_result" where    \<comment> \<open>descriptor and file\<close>
  "argfd cur n s =
     bindE (argint cur n s) (\<lambda>r. case r of None \<Rightarrow> Inr None
     | Some fd \<Rightarrow>
         if fd < 0 \<or> fd \<ge> int NOFILE then Inr None
         else (case p_ofile (kproc cur s) ! nat fd of None \<Rightarrow> Inr None | Some f \<Rightarrow> Inr (Some (nat fd, f))))"

definition fdalloc :: "nat \<Rightarrow> nat \<Rightarrow> kernel \<Rightarrow> int \<times> kernel" where
  "fdalloc cur f s =
     (case find (\<lambda>fd. p_ofile (kproc cur s) ! fd = None) [0..<NOFILE] of
        None \<Rightarrow> (-1, s)
      | Some fd \<Rightarrow> (int fd, upd_kproc cur (\<lambda>p. p\<lparr>p_ofile := (p_ofile p)[fd := Some f]\<rparr>) s))"

definition sys_dup :: "nat \<Rightarrow> kernel \<Rightarrow> sysret" where
  "sys_dup cur s =
     with_arg (argfd cur 0 s) s (\<lambda>(_, f).
     case fdalloc cur f s of (fd, s) \<Rightarrow>
       if fd < 0 then ret (-1) s else bindE (in_files (filedup f) s) (\<lambda>s. ret fd s))"

definition sys_read :: "kconf \<Rightarrow> nat \<Rightarrow> kernel \<Rightarrow> sysret" where
  "sys_read kc cur s =
     with_arg (argfd cur 0 s) s (\<lambda>(_, f). with_arg (argint cur 2 s) s (\<lambda>n. with_arg (argptr cur 1 n s) s (\<lambda>p.
     bindE (fileread (k_dev kc) (p_killed (kproc cur s)) (p_pid (kproc cur s)) f n (kfl s)) (\<lambda>(r, x).
     (let s = s\<lparr>kfl := x\<rparr>
      in case r of Sleeps i \<Rightarrow> Inr (Sleeps i, s)
         | Ret (v, bs) \<Rightarrow> bindE (in_kmm (user_put (p_pgdir (kproc cur s)) p bs) s) (\<lambda>s. ret v s))))))"

definition sys_write :: "kconf \<Rightarrow> nat \<Rightarrow> kernel \<Rightarrow> sysret" where
  "sys_write kc cur s =
     with_arg (argfd cur 0 s) s (\<lambda>(_, f). with_arg (argint cur 2 s) s (\<lambda>n. with_arg (argptr cur 1 n s) s (\<lambda>p.
     bindE (user_get (p_pgdir (kproc cur s)) (kmm s) p (nat n)) (\<lambda>bs.
     bindE (filewrite (k_dev kc) (p_killed (kproc cur s)) (p_pid (kproc cur s)) f bs n (kfl s)) (\<lambda>(r, x). Inr (r, s\<lparr>kfl := x\<rparr>))))))"

definition sys_close :: "kconf \<Rightarrow> nat \<Rightarrow> kernel \<Rightarrow> sysret" where
  "sys_close kc cur s =
     with_arg (argfd cur 0 s) s (\<lambda>(fd, f).
     (let s = upd_kproc cur (\<lambda>p. p\<lparr>p_ofile := (p_ofile p)[fd := None]\<rparr>) s
      in bindE (in_files (fileclose (k_end kc) (p_pid (kproc cur s)) f) s) (\<lambda>s. ret 0 s)))"

text \<open>The bytes of a \<open>struct stat\<close>: two bytes of type, padding, four each of device and inode, two of links, padding, four of size.\<close>

definition stat_bytes :: "stat \<Rightarrow> u8 list \<Rightarrow> u8 list" where
  "stat_bytes x old = put32 (put16 (put32 (put32 (put16 old 0 (st_type x)) 4 (st_dev x)) 8 (st_ino x)) 12 (st_nlink x)) 16 (st_size x)"

definition sys_fstat :: "nat \<Rightarrow> kernel \<Rightarrow> sysret" where
  "sys_fstat cur s =
     with_arg (argfd cur 0 s) s (\<lambda>(_, f). with_arg (argptr cur 1 20 s) s (\<lambda>p.
     bindE (filestat (p_pid (kproc cur s)) f (kfl s)) (\<lambda>(r, x).
     (let s = s\<lparr>kfl := x\<rparr>
      in case r of None \<Rightarrow> ret (-1) s
         | Some x \<Rightarrow> bindE (user_get (p_pgdir (kproc cur s)) (kmm s) p 20) (\<lambda>old.
             bindE (in_kmm (user_put (p_pgdir (kproc cur s)) p (stat_bytes x old)) s) (\<lambda>s. ret 0 s))))))"

text \<open>Operations of the file system inside a system call; \<open>leave\<close> is \<open>end_op\<close> followed by a return.\<close>

definition kfsys :: "kernel \<Rightarrow> fs" where "kfsys s = kfs (kfl s)"

definition set_kfsys :: "fs \<Rightarrow> kernel \<Rightarrow> kernel" where
  "set_kfsys x s = s\<lparr>kfl := (kfl s)\<lparr>kfs := x\<rparr>\<rparr>"

definition fsop :: "(fs \<Rightarrow> fs c_result) \<Rightarrow> kernel \<Rightarrow> kernel c_result" where
  "fsop op s = bindE (op (kfsys s)) (\<lambda>x. Inr (set_kfsys x s))"

definition leave :: "int \<Rightarrow> kernel \<Rightarrow> sysret" where
  "leave r s = ret r (s\<lparr>kfl := fs_end_op (kfl s)\<rparr>)"

definition cwd_of :: "nat \<Rightarrow> kernel \<Rightarrow> nat" where    \<comment> \<open>\<open>myproc()->cwd\<close>, set for every process that runs\<close>
  "cwd_of cur s = (case p_cwd (kproc cur s) of Some i \<Rightarrow> i | None \<Rightarrow> 0)"

definition knamei :: "kconf \<Rightarrow> nat \<Rightarrow> u8 list \<Rightarrow> kernel \<Rightarrow> (nat option \<times> kernel) c_result" where
  "knamei kc cur path s =
     bindE (namei (p_pid (kproc cur s)) (k_dev kc) (cwd_of cur s) path (kfsys s)) (\<lambda>(ip, x). Inr (ip, set_kfsys x s))"

definition knameiparent :: "kconf \<Rightarrow> nat \<Rightarrow> u8 list \<Rightarrow> kernel \<Rightarrow> (nat option \<times> u8 list \<times> kernel) c_result" where
  "knameiparent kc cur path s =
     bindE (nameiparent (p_pid (kproc cur s)) (k_dev kc) (cwd_of cur s) path (kfsys s)) (\<lambda>(ip, name, x). Inr (ip, name, set_kfsys x s))"

definition upd_nlink :: "nat \<Rightarrow> u16 \<Rightarrow> kernel \<Rightarrow> kernel c_result" where    \<comment> \<open>\<open>ip->nlink += d; iupdate(ip)\<close>\<close>
  "upd_nlink ip d s = fsop (\<lambda>x. iupdate ip (upd_inode ip (\<lambda>n. n\<lparr>i_nlink := i_nlink n + d\<rparr>) x)) s"

definition link_bad :: "nat \<Rightarrow> nat \<Rightarrow> kernel \<Rightarrow> sysret" where    \<comment> \<open>the label \<open>bad\<close> of \<open>sys_link\<close>\<close>
  "link_bad cur ip s =
     (let pid = p_pid (kproc cur s)
      in bindE (fsop (ilock pid (Some ip)) s) (\<lambda>s.
         bindE (upd_nlink ip (- 1) s) (\<lambda>s.
         bindE (fsop (iunlockput pid ip) s) (\<lambda>s. leave (-1) s))))"

definition sys_link :: "kconf \<Rightarrow> nat \<Rightarrow> kernel \<Rightarrow> sysret" where
  "sys_link kc cur s =
     with_arg (argstr cur 0 s) s (\<lambda>old. with_arg (argstr cur 1 s) s (\<lambda>new.
     (let pid = p_pid (kproc cur s)
      in bindE (in_files fs_begin_op s) (\<lambda>s.
         bindE (knamei kc cur old s) (\<lambda>(r, s). case r of None \<Rightarrow> leave (-1) s
         | Some ip \<Rightarrow>
             bindE (fsop (ilock pid (Some ip)) s) (\<lambda>s.
             if i_type (icache (kfsys s) ip) = T_DIR
             then bindE (fsop (iunlockput pid ip) s) (\<lambda>s. leave (-1) s)
             else bindE (upd_nlink ip 1 s) (\<lambda>s.
                  bindE (fsop (iunlock (Some ip)) s) (\<lambda>s.
                  bindE (knameiparent kc cur new s) (\<lambda>(r, name, s). case r of None \<Rightarrow> link_bad cur ip s
                  | Some dp \<Rightarrow>
                      bindE (fsop (ilock pid (Some dp)) s) (\<lambda>s.
                      bindE (if i_dev (icache (kfsys s) dp) \<noteq> i_dev (icache (kfsys s) ip) then Inr (-1, kfsys s)
                             else dirlink pid (k_dev kc) dp name (ucast (i_inum (icache (kfsys s) ip))) (kfsys s)) (\<lambda>(r, x).
                      bindE (fsop (iunlockput pid dp) (set_kfsys x s)) (\<lambda>s.
                      if r < 0 then link_bad cur ip s
                      else bindE (fsop (iput pid ip) s) (\<lambda>s. leave 0 s)))))))))))))"

text \<open>The loop of \<open>isdirempty\<close> over \<open>k\<close> entries from offset \<open>off\<close>.\<close>

fun dirempty_from :: "devsw \<Rightarrow> nat \<Rightarrow> nat \<Rightarrow> nat \<Rightarrow> fs \<Rightarrow> (bool \<times> fs) c_result" where
  "dirempty_from dv dp 0 off x = Inr (True, x)"
| "dirempty_from dv dp (Suc k) off x =
     bindE (readi dv dp (of_nat off) (of_nat DIRENT) x) (\<lambda>(r, de, x).
     if r \<noteq> int DIRENT then Inl (Panic ''isdirempty: readi'')
     else if de_inum de \<noteq> 0 then Inr (False, x)
     else dirempty_from dv dp k (off + DIRENT) x)"

definition isdirempty :: "devsw \<Rightarrow> nat \<Rightarrow> fs \<Rightarrow> (bool \<times> fs) c_result" where
  "isdirempty dv dp x = dirempty_from dv dp (dir_slots (unat (i_size (icache x dp)) - 2 * DIRENT)) (2 * DIRENT) x"

definition dot :: "u8 list" where "dot = [0x2E]"
definition dotdot :: "u8 list" where "dotdot = [0x2E, 0x2E]"

definition sys_unlink :: "kconf \<Rightarrow> nat \<Rightarrow> kernel \<Rightarrow> sysret" where
  "sys_unlink kc cur s =
     with_arg (argstr cur 0 s) s (\<lambda>path.
     (let pid = p_pid (kproc cur s); bad = (\<lambda>dp s. bindE (fsop (iunlockput pid dp) s) (\<lambda>s. leave (-1) s))
      in bindE (in_files fs_begin_op s) (\<lambda>s.
         bindE (knameiparent kc cur path s) (\<lambda>(r, name, s). case r of None \<Rightarrow> leave (-1) s
         | Some dp \<Rightarrow>
             bindE (fsop (ilock pid (Some dp)) s) (\<lambda>s.
             if namecmp name dot = 0 \<or> namecmp name dotdot = 0 then bad dp s
             else bindE (dirlookup (k_dev kc) dp name (kfsys s)) (\<lambda>(r, x).
                  (let s = set_kfsys x s
                   in case r of None \<Rightarrow> bad dp s
                      | Some (ip, off) \<Rightarrow>
                          bindE (fsop (ilock pid (Some ip)) s) (\<lambda>s.
                          if sint (i_nlink (icache (kfsys s) ip)) < 1 then Inl (Panic ''unlink: nlink < 1'')
                          else bindE (if i_type (icache (kfsys s) ip) = T_DIR then isdirempty (k_dev kc) ip (kfsys s) else Inr (True, kfsys s)) (\<lambda>(em, x).
                               (let s = set_kfsys x s
                                in if \<not> em then bindE (fsop (iunlockput pid ip) s) (bad dp)
                                   else bindE (writei (k_dev kc) dp (replicate DIRENT 0) (of_nat off) (of_nat DIRENT) (kfsys s)) (\<lambda>(r, x).
                                        (let s = set_kfsys x s
                                         in if r \<noteq> int DIRENT then Inl (Panic ''unlink: writei'')
                                            else bindE (if i_type (icache (kfsys s) ip) = T_DIR then upd_nlink dp (- 1) s else Inr s) (\<lambda>s.
                                                 bindE (fsop (iunlockput pid dp) s) (\<lambda>s.
                                                 bindE (upd_nlink ip (- 1) s) (\<lambda>s.
                                                 bindE (fsop (iunlockput pid ip) s) (\<lambda>s. leave 0 s))))))))))))))))"

text \<open>\<open>create\<close>: the new inode, or an existing file, locked.\<close>

definition create :: "kconf \<Rightarrow> nat \<Rightarrow> u8 list \<Rightarrow> u16 \<Rightarrow> u16 \<Rightarrow> u16 \<Rightarrow> kernel \<Rightarrow> (nat option \<times> kernel) c_result" where
  "create kc cur path type major minor s =
     (let pid = p_pid (kproc cur s); dv = k_dev kc
      in bindE (knameiparent kc cur path s) (\<lambda>(r, name, s). case r of None \<Rightarrow> Inr (None, s)
         | Some dp \<Rightarrow>
             bindE (fsop (ilock pid (Some dp)) s) (\<lambda>s.
             bindE (dirlookup dv dp name (kfsys s)) (\<lambda>(r, x).
             (let s = set_kfsys x s
              in case r of
                   Some (ip, _) \<Rightarrow>
                     bindE (fsop (iunlockput pid dp) s) (\<lambda>s.
                     bindE (fsop (ilock pid (Some ip)) s) (\<lambda>s.
                     if type = T_FILE \<and> i_type (icache (kfsys s) ip) = T_FILE then Inr (Some ip, s)
                     else bindE (fsop (iunlockput pid ip) s) (\<lambda>s. Inr (None, s))))
                 | None \<Rightarrow>
                     bindE (ialloc (i_dev (icache (kfsys s) dp)) type (kfsys s)) (\<lambda>(ip, x).
                     bindE (fsop (ilock pid (Some ip)) (set_kfsys x s)) (\<lambda>s.
                     bindE (fsop (\<lambda>x. iupdate ip (upd_inode ip (\<lambda>n. n\<lparr>i_major := major, i_minor := minor, i_nlink := 1\<rparr>) x)) s) (\<lambda>s.
                     bindE (if type = T_DIR
                            then bindE (upd_nlink dp 1 s) (\<lambda>s.
                                 bindE (dirlink pid dv ip dot (ucast (i_inum (icache (kfsys s) ip))) (kfsys s)) (\<lambda>(r, x).
                                 if r < 0 then Inl (Panic ''create dots'')
                                 else bindE (dirlink pid dv ip dotdot (ucast (i_inum (icache x dp))) x) (\<lambda>(r, x).
                                      if r < 0 then Inl (Panic ''create dots'') else Inr (set_kfsys x s))))
                            else Inr s) (\<lambda>s.
                     bindE (dirlink pid dv dp name (ucast (i_inum (icache (kfsys s) ip))) (kfsys s)) (\<lambda>(r, x).
                     if r < 0 then Inl (Panic ''create: dirlink'')
                     else bindE (fsop (iunlockput pid dp) (set_kfsys x s)) (\<lambda>s. Inr (Some ip, s))))))))))))"

definition O_WRONLY :: u32 where "O_WRONLY = 1"
definition O_RDWR :: u32 where "O_RDWR = 2"
definition O_CREATE :: u32 where "O_CREATE = 0x200"

definition open_fail :: "nat \<Rightarrow> nat \<Rightarrow> kernel \<Rightarrow> sysret" where
  "open_fail cur ip s = bindE (fsop (iunlockput (p_pid (kproc cur s)) ip) s) (\<lambda>s. leave (-1) s)"

text \<open>\<open>sys_open\<close> once the inode is there and locked.\<close>

definition open_inode :: "kconf \<Rightarrow> nat \<Rightarrow> nat \<Rightarrow> u32 \<Rightarrow> kernel \<Rightarrow> sysret" where
  "open_inode kc cur ip omode s =
     (case filealloc (kfl s) of (r, x) \<Rightarrow>
        (let s = s\<lparr>kfl := x\<rparr>
         in case r of None \<Rightarrow> open_fail cur ip s
            | Some f \<Rightarrow>
                (case fdalloc cur f s of (fd, s) \<Rightarrow>
                   if fd < 0
                   then bindE (in_files (fileclose (k_end kc) (p_pid (kproc cur s)) f) s) (open_fail cur ip)
                   else bindE (fsop (iunlock (Some ip)) s) (\<lambda>s.
                        ret fd (s\<lparr>kfl := upd_file f (\<lambda>y. y\<lparr>f_type := FD_INODE, f_ip := ip, f_off := 0,
                          f_readable := (omode AND O_WRONLY = 0), f_writable := (omode AND O_WRONLY \<noteq> 0 \<or> omode AND O_RDWR \<noteq> 0)\<rparr>)
                          (fs_end_op (kfl s))\<rparr>)))))"

definition sys_open :: "kconf \<Rightarrow> nat \<Rightarrow> kernel \<Rightarrow> sysret" where
  "sys_open kc cur s =
     with_arg (argstr cur 0 s) s (\<lambda>path. with_arg (argint cur 1 s) s (\<lambda>om.
     (let omode = word_of_int om; pid = p_pid (kproc cur s)
      in bindE (in_files fs_begin_op s) (\<lambda>s.
         if omode AND O_CREATE \<noteq> 0
         then bindE (create kc cur path T_FILE 0 0 s) (\<lambda>(r, s). case r of None \<Rightarrow> leave (-1) s | Some ip \<Rightarrow> open_inode kc cur ip omode s)
         else bindE (knamei kc cur path s) (\<lambda>(r, s). case r of None \<Rightarrow> leave (-1) s
              | Some ip \<Rightarrow>
                  bindE (fsop (ilock pid (Some ip)) s) (\<lambda>s.
                  if i_type (icache (kfsys s) ip) = T_DIR \<and> omode \<noteq> 0 then open_fail cur ip s
                  else open_inode kc cur ip omode s))))))"

definition make_node :: "kconf \<Rightarrow> nat \<Rightarrow> u8 list \<Rightarrow> u16 \<Rightarrow> u16 \<Rightarrow> u16 \<Rightarrow> kernel \<Rightarrow> sysret" where
  "make_node kc cur path type major minor s =
     bindE (create kc cur path type major minor s) (\<lambda>(r, s). case r of None \<Rightarrow> leave (-1) s
     | Some ip \<Rightarrow> bindE (fsop (iunlockput (p_pid (kproc cur s)) ip) s) (\<lambda>s. leave 0 s))"

definition with_op_arg :: "'a option c_result \<Rightarrow> kernel \<Rightarrow> ('a \<Rightarrow> sysret) \<Rightarrow> sysret" where    \<comment> \<open>failure inside a transaction\<close>
  "with_op_arg a s f = bindE a (\<lambda>r. case r of None \<Rightarrow> leave (-1) s | Some x \<Rightarrow> f x)"

definition sys_mkdir :: "kconf \<Rightarrow> nat \<Rightarrow> kernel \<Rightarrow> sysret" where
  "sys_mkdir kc cur s =
     bindE (in_files fs_begin_op s) (\<lambda>s. with_op_arg (argstr cur 0 s) s (\<lambda>path. make_node kc cur path T_DIR 0 0 s))"

definition sys_mknod :: "kconf \<Rightarrow> nat \<Rightarrow> kernel \<Rightarrow> sysret" where
  "sys_mknod kc cur s =
     bindE (in_files fs_begin_op s) (\<lambda>s.
     with_op_arg (argstr cur 0 s) s (\<lambda>path. with_op_arg (argint cur 1 s) s (\<lambda>major. with_op_arg (argint cur 2 s) s (\<lambda>minor.
     make_node kc cur path T_DEV (word_of_int major) (word_of_int minor) s))))"

definition sys_chdir :: "kconf \<Rightarrow> nat \<Rightarrow> kernel \<Rightarrow> sysret" where
  "sys_chdir kc cur s =
     (let pid = p_pid (kproc cur s)
      in bindE (in_files fs_begin_op s) (\<lambda>s.
         with_op_arg (argstr cur 0 s) s (\<lambda>path.
         bindE (knamei kc cur path s) (\<lambda>(r, s). case r of None \<Rightarrow> leave (-1) s
         | Some ip \<Rightarrow>
             bindE (fsop (ilock pid (Some ip)) s) (\<lambda>s.
             if i_type (icache (kfsys s) ip) \<noteq> T_DIR then bindE (fsop (iunlockput pid ip) s) (\<lambda>s. leave (-1) s)
             else bindE (fsop (iunlock (Some ip)) s) (\<lambda>s.
                  bindE (fsop (iput pid (cwd_of cur s)) s) (\<lambda>s.
                  ret 0 (upd_kproc cur (\<lambda>p. p\<lparr>p_cwd := Some ip\<rparr>) (s\<lparr>kfl := fs_end_op (kfl s)\<rparr>)))))))))"

definition sys_pipe :: "kconf \<Rightarrow> nat \<Rightarrow> kernel \<Rightarrow> sysret" where
  "sys_pipe kc cur s =
     with_arg (argptr cur 0 8 s) s (\<lambda>p.
     (let pid = p_pid (kproc cur s); close2 = (\<lambda>rfl wfl s. bindE (in_files (fileclose (k_end kc) pid rfl) s) (\<lambda>s.
            bindE (in_files (fileclose (k_end kc) pid wfl) s) (\<lambda>s. ret (-1) s)))
      in bindE (pipealloc (k_end kc) pid (kfl s)) (\<lambda>(r, x).
         (let s = s\<lparr>kfl := x\<rparr>
          in case r of None \<Rightarrow> ret (-1) s
             | Some (rfl, wfl) \<Rightarrow>
                 (case fdalloc cur rfl s of (fd0, s) \<Rightarrow>
                    if fd0 < 0 then close2 rfl wfl s
                    else (case fdalloc cur wfl s of (fd1, s) \<Rightarrow>
                            if fd1 < 0 then close2 rfl wfl (upd_kproc cur (\<lambda>p. p\<lparr>p_ofile := (p_ofile p)[nat fd0 := None]\<rparr>) s)
                            else bindE (in_kmm (user_put (p_pgdir (kproc cur s)) p (put32 (put32 (replicate 8 0) 0 (word_of_int fd0)) 4 (word_of_int fd1))) s)
                                   (\<lambda>s. ret 0 s)))))))"

end
