(* ===== verification/Xv6_Exec.thy ===== *)
theory Xv6_Exec
  imports Xv6_Syscall
begin

text \<open>
  Program loading (\<open>exec.c\<close>, \<open>loaduvm\<close> of \<open>vm.c\<close>), \<open>sys_exec\<close> and the dispatch of system calls
  (\<open>syscall.c\<close>). A step that ends at the label \<open>bad\<close> returns \<open>None\<close>; what \<open>bad\<close> undoes is in \<open>exec_bad\<close>.
\<close>

definition MAXARG :: nat where "MAXARG = 32"
definition ELF_MAGIC :: u32 where "ELF_MAGIC = 0x464C457F"
definition ELF_PROG_LOAD :: u32 where "ELF_PROG_LOAD = 1"

text \<open>The fields of \<open>struct elfhdr\<close> (52 bytes) and \<open>struct proghdr\<close> (32 bytes) that are used.\<close>

record elfhdr =
  e_magic :: u32
  e_entry :: u32
  e_phoff :: u32
  e_phnum :: u16

record proghdr =
  ph_type :: u32
  ph_off :: u32
  ph_vaddr :: u32
  ph_filesz :: u32
  ph_memsz :: u32

definition elf_of :: "u8 list \<Rightarrow> elfhdr" where
  "elf_of d = \<lparr>e_magic = get32 d 0, e_entry = get32 d 24, e_phoff = get32 d 28, e_phnum = get16 d 44\<rparr>"

definition ph_of :: "u8 list \<Rightarrow> proghdr" where
  "ph_of d = \<lparr>ph_type = get32 d 0, ph_off = get32 d 4, ph_vaddr = get32 d 8, ph_filesz = get32 d 16, ph_memsz = get32 d 20\<rparr>"

partial_function (option) loaduvm_from :: "devsw \<Rightarrow> u32 \<Rightarrow> u32 \<Rightarrow> nat \<Rightarrow> u32 \<Rightarrow> u32 \<Rightarrow> u32 \<Rightarrow> kmem \<Rightarrow> fs \<Rightarrow> (int \<times> kmem \<times> fs) c_result option" where
  "loaduvm_from dv pgdir addr ip off sz i k x =
     (if i < sz
      then (let pte = fst (walkpgdir pgdir (addr + i) False k);
                pa = PTE_ADDR (load4 (km_mem k) pte);
                n = (if sz - i < PGSIZE then sz - i else PGSIZE)
            in if pte = 0 then Some (Inl (Panic ''loaduvm: address should exist''))
               else case readi dv ip (off + i) n x of
                  Inl e \<Rightarrow> Some (Inl e)
                | Inr (r, bs, x) \<Rightarrow>
                    (let k = kset (put_bytes (km_mem k) (P2V pa) bs) k
                     in if word_of_int r \<noteq> n then Some (Inr (-1, k, x))
                        else loaduvm_from dv pgdir addr ip off sz (i + PGSIZE) k x))
      else Some (Inr (0, k, x)))"

definition loaduvm :: "devsw \<Rightarrow> u32 \<Rightarrow> u32 \<Rightarrow> nat \<Rightarrow> u32 \<Rightarrow> u32 \<Rightarrow> kmem \<Rightarrow> fs \<Rightarrow> (int \<times> kmem \<times> fs) c_result" where
  "loaduvm dv pgdir addr ip off sz k x =
     (if addr mod PGSIZE \<noteq> 0 then Inl (Panic ''loaduvm: addr must be page aligned'')
      else returns (loaduvm_from dv pgdir addr ip off sz 0 k x))"

text \<open>The loop over the program headers, \<open>n\<close> of them from file offset \<open>off\<close>; the new size or \<open>None\<close>.\<close>

fun load_segments :: "kconf \<Rightarrow> u32 \<Rightarrow> nat \<Rightarrow> nat \<Rightarrow> u32 \<Rightarrow> u32 \<Rightarrow> kernel \<Rightarrow> (u32 option \<times> kernel) c_result" where
  "load_segments kc pgdir ip 0 off sz s = Inr (Some sz, s)"
| "load_segments kc pgdir ip (Suc n) off sz s =
     bindE (readi (k_dev kc) ip off 32 (kfsys s)) (\<lambda>(r, bs, x).
     (let s = set_kfsys x s; ph = ph_of bs
      in if r \<noteq> 32 then Inr (None, s)
         else if ph_type ph \<noteq> ELF_PROG_LOAD then load_segments kc pgdir ip n (off + 32) sz s
         else if ph_memsz ph < ph_filesz ph then Inr (None, s)
         else if ph_vaddr ph + ph_memsz ph < ph_vaddr ph then Inr (None, s)
         else bindE (allocuvm (k_end kc) pgdir sz (ph_vaddr ph + ph_memsz ph) (kmm s)) (\<lambda>(sz, k).
              (let s = set_kmm k s
               in if sz = 0 then Inr (None, s)
                  else if ph_vaddr ph mod PGSIZE \<noteq> 0 then Inr (None, s)
                  else bindE (loaduvm (k_dev kc) pgdir (ph_vaddr ph) ip (ph_off ph) (ph_filesz ph) (kmm s) (kfsys s)) (\<lambda>(r, k, x).
                       (let s = set_kfsys x (set_kmm k s)
                        in if r < 0 then Inr (None, s) else load_segments kc pgdir ip n (off + 32) sz s))))))"

text \<open>The argument strings from number \<open>argc\<close> on: the stack pointer and the addresses of the strings.\<close>

fun push_args :: "u32 \<Rightarrow> u8 list list \<Rightarrow> nat \<Rightarrow> u32 \<Rightarrow> u32 list \<Rightarrow> kernel \<Rightarrow> ((u32 \<times> u32 list) option \<times> kernel) c_result" where
  "push_args pgdir [] argc sp us s = Inr (Some (sp, us), s)"
| "push_args pgdir (a # as) argc sp us s =
     (if argc \<ge> MAXARG then Inr (None, s)
      else (let sp = (sp - of_nat (length a + 1)) AND NOT 3
            in bindE (copyout pgdir sp (a @ [0]) (kmm s)) (\<lambda>(r, k).
               (let s = set_kmm k s
                in if r < 0 then Inr (None, s) else push_args pgdir as (Suc argc) sp (us @ [sp]) s))))"

definition words_bytes :: "u32 list \<Rightarrow> u8 list" where
  "words_bytes ws = concat (map (\<lambda>w. put32 (replicate 4 0) 0 w) ws)"

definition push_stack :: "u32 \<Rightarrow> u8 list list \<Rightarrow> u32 \<Rightarrow> kernel \<Rightarrow> (u32 option \<times> kernel) c_result" where
  "push_stack pgdir argv sz s =
     bindE (push_args pgdir argv 0 sz [] s) (\<lambda>(r, s). case r of None \<Rightarrow> Inr (None, s)
     | Some (sp, us) \<Rightarrow>
         (let argc = of_nat (length us);
              ustack = [0xFFFFFFFF, argc, sp - (argc + 1) * 4] @ us @ [0];
              sp = sp - (3 + argc + 1) * 4
          in bindE (copyout pgdir sp (words_bytes ustack) (kmm s)) (\<lambda>(r, k).
             (let s = set_kmm k s in if r < 0 then Inr (None, s) else Inr (Some sp, s)))))"

definition last_elem :: "u8 list \<Rightarrow> u8 list" where    \<comment> \<open>the part of the path after the last slash\<close>
  "last_elem path = rev (takeWhile (\<lambda>c. c \<noteq> slash) (rev path))"

definition exec_bad :: "kconf \<Rightarrow> nat \<Rightarrow> u32 \<Rightarrow> nat option \<Rightarrow> kernel \<Rightarrow> (int \<times> kernel) c_result" where
  "exec_bad kc cur pgdir ip s =
     bindE (if pgdir \<noteq> 0 then in_kmm (freevm (k_end kc) pgdir) s else Inr s) (\<lambda>s.
     case ip of None \<Rightarrow> Inr (-1, s)
     | Some ip \<Rightarrow> bindE (fsop (iunlockput (p_pid (kproc cur s)) ip) s) (\<lambda>s. Inr (-1, s\<lparr>kfl := fs_end_op (kfl s)\<rparr>)))"

text \<open>Two pages after the program: the first is made inaccessible, the second is the stack.\<close>

definition exec_stack :: "kconf \<Rightarrow> u32 \<Rightarrow> u8 list list \<Rightarrow> u32 \<Rightarrow> kernel \<Rightarrow> ((u32 \<times> u32) option \<times> kernel) c_result" where
  "exec_stack kc pgdir argv sz s =
     (let sz = PGROUNDUP sz
      in bindE (allocuvm (k_end kc) pgdir sz (sz + 2 * PGSIZE) (kmm s)) (\<lambda>(sz, k).
         (let s = set_kmm k s
          in if sz = 0 then Inr (None, s)
             else bindE (in_kmm (clearpteu pgdir (sz - 2 * PGSIZE)) s) (\<lambda>s.
                  bindE (push_stack pgdir argv sz s) (\<lambda>(r, s). Inr (map_option (Pair sz) r, s))))))"

definition exec_commit :: "kconf \<Rightarrow> nat \<Rightarrow> u8 list \<Rightarrow> u32 \<Rightarrow> u32 \<Rightarrow> u32 \<Rightarrow> u32 \<Rightarrow> kernel \<Rightarrow> (int \<times> kernel) c_result" where
  "exec_commit kc cur path pgdir entry sz sp s =
     (let old = p_pgdir (kproc cur s); tf = p_tf (kproc cur s);
          s = upd_kproc cur (\<lambda>p. p\<lparr>p_name := take 15 (last_elem path), p_pgdir := pgdir, p_sz := sz\<rparr>) s;
          s = poke (\<lambda>m. store4 (store4 m (tf + TF_EIP) entry) (tf + TF_ESP) sp) s
      in bindE (switchuvm (kproc cur s)) (\<lambda>_. bindE (in_kmm (freevm (k_end kc) old) s) (\<lambda>s. Inr (0, s))))"

definition exec :: "kconf \<Rightarrow> nat \<Rightarrow> u8 list \<Rightarrow> u8 list list \<Rightarrow> kernel \<Rightarrow> (int \<times> kernel) c_result" where
  "exec kc cur path argv s =
     bindE (in_files fs_begin_op s) (\<lambda>s.
     bindE (knamei kc cur path s) (\<lambda>(r, s). case r of None \<Rightarrow> Inr (-1, s\<lparr>kfl := fs_end_op (kfl s)\<rparr>)
     | Some ip \<Rightarrow>
         (let pid = p_pid (kproc cur s)
          in bindE (fsop (ilock pid (Some ip)) s) (\<lambda>s.
             bindE (readi (k_dev kc) ip 0 52 (kfsys s)) (\<lambda>(r, bs, x).
             (let s = set_kfsys x s; elf = elf_of bs
              in if r \<noteq> 52 \<or> e_magic elf \<noteq> ELF_MAGIC then exec_bad kc cur 0 (Some ip) s
                 else bindE (setupkvm (k_end kc) (k_data kc) (kmm s)) (\<lambda>(pgdir, k).
                      (let s = set_kmm k s
                       in if pgdir = 0 then exec_bad kc cur 0 (Some ip) s
                          else bindE (load_segments kc pgdir ip (unat (e_phnum elf)) (e_phoff elf) 0 s) (\<lambda>(r, s).
                               case r of None \<Rightarrow> exec_bad kc cur pgdir (Some ip) s
                               | Some sz \<Rightarrow>
                                   bindE (fsop (iunlockput pid ip) s) (\<lambda>s.
                                   bindE (exec_stack kc pgdir argv sz (s\<lparr>kfl := fs_end_op (kfl s)\<rparr>)) (\<lambda>(r, s).
                                   case r of None \<Rightarrow> exec_bad kc cur pgdir None s
                                   | Some (sz, sp) \<Rightarrow> exec_commit kc cur path pgdir (e_entry elf) sz sp s)))))))))))"

text \<open>\<open>sys_exec\<close>: the argument vector from index \<open>i\<close> on, with \<open>n\<close> places left.\<close>

fun fetch_argv :: "nat \<Rightarrow> u32 \<Rightarrow> nat \<Rightarrow> nat \<Rightarrow> kernel \<Rightarrow> u8 list list option c_result" where
  "fetch_argv cur uargv 0 i s = Inr None"
| "fetch_argv cur uargv (Suc n) i s =
     bindE (fetchint cur (uargv + 4 * of_nat i) s) (\<lambda>r. case r of None \<Rightarrow> Inr None
     | Some uarg \<Rightarrow>
         if uarg = 0 then Inr (Some [])
         else bindE (fetchstr cur (word_of_int uarg) s) (\<lambda>r. case r of None \<Rightarrow> Inr None
              | Some str \<Rightarrow> bindE (fetch_argv cur uargv n (Suc i) s) (\<lambda>r. Inr (map_option ((#) str) r))))"

definition sys_exec :: "kconf \<Rightarrow> nat \<Rightarrow> kernel \<Rightarrow> sysret" where
  "sys_exec kc cur s =
     with_arg (argstr cur 0 s) s (\<lambda>path. with_arg (argint cur 1 s) s (\<lambda>uargv.
     with_arg (fetch_argv cur (word_of_int uargv) MAXARG 0 s) s (\<lambda>argv.
     bindE (exec kc cur path argv s) (\<lambda>(r, s). ret r s))))"

section \<open>Dispatch\<close>

text \<open>\<open>sys_exit\<close> does not return: the process leaves the processor for good.\<close>

definition sys_exit :: "kconf \<Rightarrow> nat \<Rightarrow> kernel \<Rightarrow> sysret" where
  "sys_exit kc cur s = bindE (exit (k_end kc) cur s) (\<lambda>s. Inr (Sleeps 0, s))"

definition syscalls :: "kconf \<Rightarrow> u32 \<Rightarrow> nat \<Rightarrow> (kernel \<Rightarrow> sysret) list" where
  "syscalls kc ticks cur =
     [sys_fork kc cur, sys_exit kc cur, sys_wait kc cur, sys_pipe kc cur, sys_read kc cur, sys_kill cur, sys_exec kc cur,
      sys_fstat cur, sys_chdir kc cur, sys_dup cur, sys_getpid cur, sys_sbrk kc cur, sys_sleep ticks cur, sys_uptime ticks,
      sys_open kc cur, sys_write kc cur, sys_mknod kc cur, sys_unlink kc cur, sys_link kc cur, sys_mkdir kc cur, sys_close kc cur,
      sys_mike]"

definition syscall :: "kconf \<Rightarrow> u32 \<Rightarrow> nat \<Rightarrow> kernel \<Rightarrow> sysret" where
  "syscall kc ticks cur s =
     (let tf = p_tf (kproc cur s); num = sint (load4 (km_mem (kmm s)) (tf + TF_EAX));
          finish = (\<lambda>r s. ret r (poke (\<lambda>m. store4 m (p_tf (kproc cur s) + TF_EAX) (word_of_int r)) s))
      in if 0 < num \<and> num \<le> int (length (syscalls kc ticks cur))
         then bindE ((syscalls kc ticks cur ! nat (num - 1)) s) (\<lambda>(r, s). case r of Ret r \<Rightarrow> finish r s | Sleeps i \<Rightarrow> Inr (Sleeps i, s))
         else finish (-1) s)"

end
