(* ===== verification/Xv6_Vm_Map.thy ===== *)
theory Xv6_Vm_Map
  imports Xv6_Vm
begin

text \<open>
  What the page tables map. The entries of a page directory and of its tables are words of pages, so a store to one
  entry changes no other, as long as the pages involved are distinct and not on the free list. On top of this,
  \<open>allocuvm\<close> extends an address space by fresh zeroed pages or, when memory runs out, restores it.
\<close>

section \<open>Words of a page\<close>

definition pdx :: "u32 \<Rightarrow> nat" where "pdx va = unat va div 2 ^ 22"
definition ptx :: "u32 \<Rightarrow> nat" where "ptx va = unat va div 4096 mod 1024"

definition pw :: "mem \<Rightarrow> u32 \<Rightarrow> nat \<Rightarrow> u32" where    \<comment> \<open>entry \<open>j\<close> of the page\<close>
  "pw m p j = load4 m (p + 4 * of_nat j)"

lemma pdx_less: "pdx va < 1024" using u32_bound(1) [of va] by (simp add: pdx_def div_less_iff_less_mult)
lemma ptx_less: "ptx va < 1024" by (simp add: ptx_def)

lemma and_3FF: "(x :: u32) AND 0x3FF = x mod 1024"
proof -
  have "(0x3FF :: u32) = mask 10" by (simp add: mask_eq_exp_minus_1)
  then have "x AND 0x3FF = take_bit 10 x" by (simp add: take_bit_eq_mask)
  then show ?thesis by (simp add: take_bit_eq_mod)
qed

lemma of_nat_unat32: "of_nat (unat x) = (x :: u32)" by simp

lemma PDX_pdx: "PDX va = of_nat (pdx va)"
proof -
  have "unat (drop_bit 22 va mod 1024) = pdx va"
    using pdx_less [of va] by (simp add: unat_mod_distrib drop_bit_eq_div unat_div_distrib pdx_def)
  then show ?thesis unfolding PDX_def and_3FF using of_nat_unat32 [of "drop_bit 22 va mod 1024"] by simp
qed

lemma PTX_ptx: "PTX va = of_nat (ptx va)"
proof -
  have "unat (drop_bit 12 va mod 1024) = ptx va"
    by (simp add: unat_mod_distrib drop_bit_eq_div unat_div_distrib ptx_def)
  then show ?thesis unfolding PTX_def and_3FF using of_nat_unat32 [of "drop_bit 12 va mod 1024"] by simp
qed

lemma unat_entry:
  assumes "p mod PGSIZE = 0" "j < 1024"
  shows "unat (p + 4 * of_nat j) = unat p + 4 * j"
proof -
  have j: "unat (4 * of_nat j :: u32) = 4 * j" using assms(2) unat_of_nat_small [of "4 * j"] by simp
  have "unat p + 4 * j < 2 ^ 32" using page_no_wrap [OF assms(1)] assms(2) by simp
  then show ?thesis unfolding unat_word_ariths(1) j by simp
qed

lemma entry_in_page:
  assumes "p mod PGSIZE = 0" "j < 1024" "i < 4"
  shows "in_page (p + 4 * of_nat j + of_nat i) p"
proof -
  have "p + 4 * of_nat j + of_nat i = p + of_nat (4 * j + i)" by simp
  then show ?thesis using assms by (simp only:) (rule in_page_offset, simp)
qed

lemma store4_out:
  assumes "\<not> in_range x a 4"
  shows "store4 m a w x = m x"
proof -
  have "x \<noteq> a + of_nat k" if "k < 4" for k
  proof
    assume "x = a + of_nat k"
    then have "unat (x - a) = k" using that unat_of_nat_small [of k] by simp
    then show False using assms that by (simp add: in_range_def)
  qed
  from this [of 0] this [of 1] this [of 2] this [of 3] show ?thesis by (simp add: store4_def)
qed

lemma load4_store4_apart:
  assumes "unat a + 4 \<le> unat b \<or> unat b + 4 \<le> unat a" "unat a + 4 \<le> 2 ^ 32" "unat b + 4 \<le> 2 ^ 32"
  shows "load4 (store4 m a w) b = load4 m b"
proof -
  have apart: "\<not> in_range (b + i) a 4" if "unat i < 4" for i :: u32
  proof -
    have "unat (b + i) = unat b + unat i" using assms(3) that by (simp add: unat_plus_if')
    then show ?thesis using assms that by (auto simp: in_range_no_wrap)
  qed
  have "store4 m a w (b + i) = m (b + i)" if "unat i < 4" for i :: u32 using store4_out apart [OF that] by simp
  from this [of 0] this [of 1] this [of 2] this [of 3] show ?thesis by (simp add: load4_def)
qed

lemma pw_store:
  assumes "p mod PGSIZE = 0" "q mod PGSIZE = 0" "i < 1024" "j < 1024"
  shows "pw (store4 m (p + 4 * of_nat i) w) q j = (if p = q \<and> i = j then w else pw m q j)"
proof (cases "p = q \<and> i = j")
  case True
  then show ?thesis by (simp add: pw_def load4_store4)
next
  case False
  let ?a = "unat p + 4 * i" and ?b = "unat q + 4 * j"
  have al: "unat p mod 4096 = 0" "unat q mod 4096 = 0" using assms by (simp_all add: page_aligned_nat)
  have "?a + 4 \<le> ?b \<or> ?b + 4 \<le> ?a"
  proof (cases "p = q")
    case True
    then show ?thesis using False by auto
  next
    case False
    then have "unat p \<noteq> unat q" by (simp add: word_unat_eq_iff)
    moreover obtain c d where "unat p = 4096 * c" "unat q = 4096 * d" using al by (auto elim!: dvdE)
    ultimately have "c < d \<and> unat p + 4096 \<le> unat q \<or> d < c \<and> unat q + 4096 \<le> unat p" by auto
    then show ?thesis using assms(3,4) by auto
  qed
  moreover have "?a + 4 \<le> 2 ^ 32" "?b + 4 \<le> 2 ^ 32" using page_no_wrap [OF assms(1)] page_no_wrap [OF assms(2)] assms(3,4) by auto
  ultimately show ?thesis
    using False unfolding pw_def by (subst load4_store4_apart) (auto simp: unat_entry assms)
qed

lemma load4_page_cong:
  assumes "p mod PGSIZE = 0" "j < 1024" "\<And>x. in_page x p \<Longrightarrow> m x = m' x"
  shows "pw m p j = pw m' p j"
  using assms(3) entry_in_page [OF assms(1,2), of 0] entry_in_page [OF assms(1,2), of 1]
    entry_in_page [OF assms(1,2), of 2] entry_in_page [OF assms(1,2), of 3] by (simp add: pw_def load4_def)

lemma pw_memset:
  assumes "p mod PGSIZE = 0" "q mod PGSIZE = 0" "j < 1024"
  shows "pw (memset m p 0 PGSIZE) q j = (if p = q then 0 else pw m q j)"
proof (cases "p = q")
  case True
  have "pw (memset m p 0 PGSIZE) q j = pw (\<lambda>_. 0) q j"
    using True by (intro load4_page_cong assms) (simp add: memset_spec PGSIZE_def)
  then show ?thesis using True by (simp add: pw_def load4_def)
next
  case False
  have "pw (memset m p 0 PGSIZE) q j = pw m q j"
    using False pages_disjoint [OF assms(1,2)] by (intro load4_page_cong assms) (auto simp: memset_spec PGSIZE_def)
  then show ?thesis using False by simp
qed

text \<open>A page and flags packed into an entry.\<close>

lemma mask12: "(0xFFF :: u32) = mask 12" by (simp add: mask_eq_exp_minus_1)

lemma aligned_low_bits:
  assumes "(x :: u32) mod PGSIZE = 0" "n < 12"
  shows "\<not> bit x n"
proof -
  have "x mod PGSIZE = take_bit 12 x" by (simp add: PGSIZE_def take_bit_eq_mod)
  then have "\<not> bit (take_bit 12 x) n" using assms by simp
  then show ?thesis using assms(2) by (simp add: bit_take_bit_iff)
qed

lemma entry_parts:
  assumes "x mod PGSIZE = 0" "take_bit 12 f = f"
  shows "PTE_ADDR (x OR f) = x" "PTE_FLAGS (x OR f) = f" "(x OR f) AND PTE_P = f AND PTE_P"
proof -
  have x: "\<not> bit x n" if "n < 12" for n using aligned_low_bits [OF assms(1) that] .
  have f: "\<not> bit f n" if "\<not> n < 12" for n
  proof -
    have "bit f n \<longleftrightarrow> bit (take_bit 12 f) n" using assms(2) by simp
    then show ?thesis using that by (simp add: bit_take_bit_iff)
  qed
  show "PTE_ADDR (x OR f) = x" unfolding PTE_ADDR_def mask12
    by (rule bit_word_eqI) (use x f in \<open>auto simp: bit_simps\<close>)
  show "PTE_FLAGS (x OR f) = f" unfolding PTE_FLAGS_def mask12
    by (rule bit_word_eqI) (use x f in \<open>auto simp: bit_simps\<close>)
  show "(x OR f) AND PTE_P = f AND PTE_P" unfolding PTE_P_def
    by (rule bit_word_eqI) (use x [of 0] in \<open>auto simp: bit_simps bit_1_iff\<close>)
qed

lemma V2P_aligned: "p mod PGSIZE = 0 \<Longrightarrow> V2P p mod PGSIZE = 0"
proof -
  assume p: "p mod PGSIZE = 0"
  have "V2P p = p + 0x80000000" by (simp add: V2P_def KERNBASE_def)
  moreover have "(p + 0x80000000) mod PGSIZE = 0"
  proof -
    have "unat (p + 0x80000000) mod 4096 = (unat p + 0x80000000) mod 4096"
      by (simp add: unat_word_ariths mod_mod_cancel)
    also have "\<dots> = 0" using p by (simp add: page_aligned_nat mod_add_eq [symmetric])
    finally show ?thesis by (simp add: page_aligned_nat)
  qed
  ultimately show ?thesis by simp
qed

lemma P2V_V2P [simp]: "P2V (V2P p) = p" by (simp add: P2V_def V2P_def)

section \<open>Page directories\<close>

definition present :: "u32 \<Rightarrow> bool" where "present e \<longleftrightarrow> e AND PTE_P \<noteq> 0"
definition frame :: "u32 \<Rightarrow> u32" where "frame e = P2V (PTE_ADDR e)"

definition table :: "mem \<Rightarrow> u32 \<Rightarrow> nat \<Rightarrow> u32 option" where
  "table m pgdir i = (if present (pw m pgdir i) then Some (frame (pw m pgdir i)) else None)"

definition ent :: "mem \<Rightarrow> u32 \<Rightarrow> nat \<Rightarrow> nat \<Rightarrow> u32" where    \<comment> \<open>the page table entry for indices \<open>i\<close> and \<open>j\<close>\<close>
  "ent m pgdir i j = (case table m pgdir i of None \<Rightarrow> 0 | Some t \<Rightarrow> pw m t j)"

definition tabs :: "mem \<Rightarrow> u32 \<Rightarrow> u32 set" where
  "tabs m pgdir = insert pgdir {t. \<exists>i < 1024. table m pgdir i = Some t}"

text \<open>The directory and its tables are distinct pages in use, and so are the pages of user memory, below \<open>KERNBASE\<close>.\<close>

definition dir_wf :: "u32 \<Rightarrow> u32 \<Rightarrow> u32 list \<Rightarrow> mem \<Rightarrow> bool" where
  "dir_wf kend pgdir ps m \<longleftrightarrow> (\<forall>t \<in> tabs m pgdir. page_valid kend t \<and> t \<notin> set ps) \<and>
     (\<forall>i < 1024. table m pgdir i \<noteq> Some pgdir) \<and>
     (\<forall>i < 1024. \<forall>j < 1024. table m pgdir i \<noteq> None \<and> table m pgdir i = table m pgdir j \<longrightarrow> i = j)"

definition user_wf :: "u32 \<Rightarrow> u32 \<Rightarrow> u32 list \<Rightarrow> mem \<Rightarrow> bool" where
  "user_wf kend pgdir ps m \<longleftrightarrow>
     (\<forall>i < 512. \<forall>j < 1024. present (ent m pgdir i j) \<longrightarrow>
        page_valid kend (frame (ent m pgdir i j)) \<and> frame (ent m pgdir i j) \<notin> set ps \<union> tabs m pgdir) \<and>
     (\<forall>i < 512. \<forall>j < 1024. \<forall>k < 512. \<forall>l < 1024. present (ent m pgdir i j) \<and> present (ent m pgdir k l) \<and>
        frame (ent m pgdir i j) = frame (ent m pgdir k l) \<longrightarrow> i = k \<and> j = l)"

definition vm :: "u32 \<Rightarrow> u32 \<Rightarrow> u32 list \<Rightarrow> kmem \<Rightarrow> bool" where
  "vm kend pgdir ps s \<longleftrightarrow> KERNBASE < kend \<and> free_pages kend s ps \<and> dir_wf kend pgdir ps (km_mem s) \<and> user_wf kend pgdir ps (km_mem s)"

lemma vmD:
  assumes "vm kend pgdir ps s"
  shows "KERNBASE < kend" "free_pages kend s ps" "dir_wf kend pgdir ps (km_mem s)" "user_wf kend pgdir ps (km_mem s)"
  using assms by (simp_all add: vm_def)

lemma dir_wfD:
  assumes "dir_wf kend pgdir ps m"
  shows "page_valid kend pgdir" "pgdir \<notin> set ps" "pgdir mod PGSIZE = 0"
    "i < 1024 \<Longrightarrow> table m pgdir i = Some t \<Longrightarrow> page_valid kend t \<and> t \<notin> set ps \<and> t \<noteq> pgdir \<and> t mod PGSIZE = 0"
    "i < 1024 \<Longrightarrow> j < 1024 \<Longrightarrow> table m pgdir i = Some t \<Longrightarrow> table m pgdir j = Some t \<Longrightarrow> i = j"
proof -
  show p: "page_valid kend pgdir" "pgdir \<notin> set ps" using assms by (simp_all add: dir_wf_def tabs_def)
  then show "pgdir mod PGSIZE = 0" by (simp add: page_valid_aligned)
  show "page_valid kend t \<and> t \<notin> set ps \<and> t \<noteq> pgdir \<and> t mod PGSIZE = 0" if "i < 1024" "table m pgdir i = Some t"
  proof -
    have "t \<in> tabs m pgdir" using that by (auto simp: tabs_def)
    then show ?thesis using assms that by (auto simp: dir_wf_def page_valid_aligned)
  qed
  show "i = j" if "i < 1024" "j < 1024" "table m pgdir i = Some t" "table m pgdir j = Some t"
    using assms that unfolding dir_wf_def by force
qed

lemma dir_wfI:
  assumes "\<And>t. t \<in> tabs m pgdir \<Longrightarrow> page_valid kend t \<and> t \<notin> set ps"
    and "\<And>i. i < 1024 \<Longrightarrow> table m pgdir i \<noteq> Some pgdir"
    and "\<And>i j t. i < 1024 \<Longrightarrow> j < 1024 \<Longrightarrow> table m pgdir i = Some t \<Longrightarrow> table m pgdir j = Some t \<Longrightarrow> i = j"
  shows "dir_wf kend pgdir ps m"
  unfolding dir_wf_def using assms by (intro conjI ballI allI impI) (auto, force)

text \<open>A change of memory outside the directory and its tables changes no entry.\<close>

lemma table_cong:
  assumes "pgdir mod PGSIZE = 0" "i < 1024" "\<And>x. in_page x pgdir \<Longrightarrow> m' x = m x"
  shows "table m' pgdir i = table m pgdir i"
proof -
  have "pw m' pgdir i = pw m pgdir i" by (rule load4_page_cong [OF assms(1,2)]) (rule assms(3))
  then show ?thesis by (simp add: table_def)
qed

lemma ent_cong:
  assumes "table m' pgdir i = table m pgdir i" "j < 1024"
    and "\<And>t x. table m pgdir i = Some t \<Longrightarrow> t mod PGSIZE = 0 \<and> (in_page x t \<longrightarrow> m' x = m x)"
  shows "ent m' pgdir i j = ent m pgdir i j"
proof (cases "table m pgdir i")
  case None
  then show ?thesis using assms(1) by (simp add: ent_def)
next
  case (Some t)
  then have "pw m' t j = pw m t j" using assms(2,3) by (intro load4_page_cong) auto
  then show ?thesis using Some assms(1) by (simp add: ent_def)
qed

section \<open>walkpgdir\<close>

lemma page_nonzero: "KERNBASE < kend \<Longrightarrow> page_valid kend p \<Longrightarrow> p + 4 * of_nat j \<noteq> 0 \<or> 1024 \<le> j"
proof (rule ccontr)
  assume k: "KERNBASE < kend" and p: "page_valid kend p" and "\<not> (p + 4 * of_nat j \<noteq> 0 \<or> 1024 \<le> j)"
  then have "unat p + 4 * j = 0" using unat_entry [of p j] page_valid_aligned [OF p] by simp
  then have "p = 0" by (simp add: unat_eq_0)
  then show False using k p by (simp add: page_valid_def KERNBASE_def)
qed

lemma walk_found:
  assumes "table (km_mem s) pgdir (pdx va) = Some t"
  shows "walkpgdir pgdir va al s = (t + 4 * of_nat (ptx va), s)"
  using assms unfolding table_def walkpgdir_def PDX_pdx PTX_ptx Let_def pw_def [symmetric]
  by (auto simp: present_def frame_def split: if_splits)

lemma walk_none:
  assumes "table (km_mem s) pgdir (pdx va) = None"
  shows "walkpgdir pgdir va False s = (0, s)"
  using assms unfolding table_def walkpgdir_def PDX_pdx Let_def pw_def [symmetric]
  by (auto simp: present_def split: if_splits)

definition table_flags :: u32 where "table_flags = PTE_P OR PTE_W OR PTE_U"

lemma table_flags: "take_bit 12 table_flags = table_flags" "table_flags AND PTE_P \<noteq> 0"
  by (simp_all add: table_flags_def PTE_P_def PTE_W_def PTE_U_def)

lemma new_entry:
  assumes "p mod PGSIZE = 0" "take_bit 12 f = f" "f AND PTE_P \<noteq> 0"
  shows "present (V2P p OR f)" "frame (V2P p OR f) = p"
  using entry_parts [OF V2P_aligned [OF assms(1)] assms(2)] assms(3) by (simp_all add: present_def frame_def)

section \<open>How the allocator and stores to entries change the map\<close>

definition fresh :: "u32 \<Rightarrow> u32 \<Rightarrow> u32 list \<Rightarrow> mem \<Rightarrow> u32 \<Rightarrow> bool" where    \<comment> \<open>a page in use, but not by this address space\<close>
  "fresh kend pgdir ps m f \<longleftrightarrow> page_valid kend f \<and> f \<notin> set ps \<union> tabs m pgdir \<and>
     (\<forall>i < 512. \<forall>j < 1024. present (ent m pgdir i j) \<longrightarrow> frame (ent m pgdir i j) \<noteq> f)"

definition same_map :: "u32 \<Rightarrow> mem \<Rightarrow> mem \<Rightarrow> bool" where
  "same_map pgdir m m' \<longleftrightarrow> (\<forall>i < 1024. table m' pgdir i = table m pgdir i) \<and>
     (\<forall>i < 1024. \<forall>j < 1024. ent m' pgdir i j = ent m pgdir i j)"

lemma tables_only:
  assumes "\<And>i. i < 1024 \<Longrightarrow> table m' pgdir i = table m pgdir i"
  shows "tabs m' pgdir = tabs m pgdir" "dir_wf kend pgdir ps m' = dir_wf kend pgdir ps m"
proof -
  show tb: "tabs m' pgdir = tabs m pgdir" using assms by (simp add: tabs_def cong: conj_cong)
  show "dir_wf kend pgdir ps m' = dir_wf kend pgdir ps m" using assms by (simp add: dir_wf_def tb cong: imp_cong)
qed

lemma same_mapD:
  assumes "same_map pgdir m m'"
  shows "i < 1024 \<Longrightarrow> table m' pgdir i = table m pgdir i" "i < 1024 \<Longrightarrow> j < 1024 \<Longrightarrow> ent m' pgdir i j = ent m pgdir i j"
    "tabs m' pgdir = tabs m pgdir" "dir_wf kend pgdir ps m' = dir_wf kend pgdir ps m"
    "user_wf kend pgdir ps m' = user_wf kend pgdir ps m" "fresh kend pgdir ps m' f = fresh kend pgdir ps m f"
proof -
  show t: "table m' pgdir i = table m pgdir i" if "i < 1024" for i using assms that by (simp add: same_map_def)
  show e: "ent m' pgdir i j = ent m pgdir i j" if "i < 1024" "j < 1024" for i j using assms that by (simp add: same_map_def)
  have e': "ent m' pgdir i j = ent m pgdir i j" if "i < 512" "j < 1024" for i j using e that by simp
  show tb: "tabs m' pgdir = tabs m pgdir" and "dir_wf kend pgdir ps m' = dir_wf kend pgdir ps m"
    using tables_only [OF t] by simp_all
  show "user_wf kend pgdir ps m' = user_wf kend pgdir ps m" by (simp add: user_wf_def tb e' cong: imp_cong)
  show "fresh kend pgdir ps m' f = fresh kend pgdir ps m f" by (simp add: fresh_def tb e' cong: imp_cong)
qed

lemma same_map_write:
  assumes wf: "dir_wf kend pgdir ps m" and f: "page_valid kend f" "f \<notin> tabs m pgdir" and out: "\<And>x. \<not> in_page x f \<Longrightarrow> m' x = m x"
  shows "same_map pgdir m m'"
proof -
  have same: "m' x = m x" if "t \<in> tabs m pgdir" "in_page x t" for x t
  proof (rule out, rule notI)
    assume "in_page x f"
    moreover have "t mod PGSIZE = 0" "t \<noteq> f" using wf that(1) f by (auto simp: dir_wf_def page_valid_aligned)
    ultimately show False using pages_disjoint [of t f x] that(2) page_valid_aligned [OF f(1)] by simp
  qed
  have t: "table m' pgdir i = table m pgdir i" if "i < 1024" for i
    by (rule table_cong [OF dir_wfD(3) [OF wf] that], rule same [of pgdir]) (simp_all add: tabs_def)
  have "ent m' pgdir i j = ent m pgdir i j" if ij: "i < 1024" "j < 1024" for i j
  proof (rule ent_cong [OF t [OF ij(1)] ij(2)])
    fix t x assume tt: "table m pgdir i = Some t"
    then have "t \<in> tabs m pgdir" using ij by (auto simp: tabs_def)
    then show "t mod PGSIZE = 0 \<and> (in_page x t \<longrightarrow> m' x = m x)" using same [of t x] dir_wfD(4) [OF wf ij(1) tt] by simp
  qed
  then show ?thesis using t by (simp add: same_map_def)
qed

lemma dir_wf_Cons: "dir_wf kend pgdir (p # ps) m \<longleftrightarrow> dir_wf kend pgdir ps m \<and> p \<notin> tabs m pgdir"
  unfolding dir_wf_def by (simp only: set_simps insert_iff de_Morgan_disj) blast

lemma user_wf_Cons:
  "user_wf kend pgdir (p # ps) m \<longleftrightarrow> user_wf kend pgdir ps m \<and>
     (\<forall>i < 512. \<forall>j < 1024. present (ent m pgdir i j) \<longrightarrow> frame (ent m pgdir i j) \<noteq> p)"
  unfolding user_wf_def by (simp only: set_simps Un_iff insert_iff de_Morgan_disj) blast

lemma vm_pop:
  assumes "vm kend pgdir (p # ps) s"
  shows "\<exists>s'. kalloc s = (p, s') \<and> p \<noteq> 0 \<and> vm kend pgdir ps s' \<and> fresh kend pgdir ps (km_mem s') p \<and> km_mem s' = km_mem s"
proof -
  note d = vmD [OF assms]
  from kalloc_page [OF d(2)] obtain s' where s': "kalloc s = (p, s')" "p \<noteq> 0" "free_pages kend s' ps" "km_mem s' = km_mem s" by blast
  have fp: "page_valid kend p" "p \<notin> set ps" using d(2) by (simp_all add: free_pages_def)
  then show ?thesis using s' d by (simp add: vm_def fresh_def dir_wf_Cons user_wf_Cons)
qed

lemma vm_write:
  assumes "vm kend pgdir ps s" "page_valid kend f" "f \<notin> set ps" "f \<notin> tabs (km_mem s) pgdir" "writes_page f s s'"
  shows "vm kend pgdir ps s' \<and> same_map pgdir (km_mem s) (km_mem s')"
proof -
  note d = vmD [OF assms(1)]
  have "same_map pgdir (km_mem s) (km_mem s')"
    using assms(5) by (intro same_map_write [OF d(3) assms(2,4)]) (simp add: writes_page_def)
  then show ?thesis using writes_page_ok [OF d(2) assms(2,3,5)] d by (simp add: vm_def same_mapD)
qed

lemma vm_push:
  assumes "vm kend pgdir ps s" "fresh kend pgdir ps (km_mem s) f"
  shows "\<exists>s'. kfree kend f s = Inr s' \<and> vm kend pgdir (f # ps) s' \<and> same_map pgdir (km_mem s) (km_mem s') \<and>
    (\<forall>x. \<not> in_page x f \<longrightarrow> km_mem s' x = km_mem s x)"
proof -
  note d = vmD [OF assms(1)]
  have f: "page_valid kend f" "f \<notin> set ps" "f \<notin> tabs (km_mem s) pgdir"
    using assms(2) by (auto simp: fresh_def)
  have "kend \<noteq> 0" using d(1) by (auto simp: KERNBASE_def)
  from kfree_ok [OF d(2) f(1,2) this] obtain s' where s': "kfree kend f s = Inr s'" "free_pages kend s' (f # ps)"
    "\<And>x. \<not> in_page x f \<Longrightarrow> km_mem s' x = km_mem s x" by blast
  have sm: "same_map pgdir (km_mem s) (km_mem s')" using s'(3) by (rule same_map_write [OF d(3) f(1,3)])
  have "dir_wf kend pgdir (f # ps) (km_mem s)" "user_wf kend pgdir (f # ps) (km_mem s)"
    using d(3,4) assms(2) by (simp_all add: dir_wf_Cons user_wf_Cons fresh_def)
  then have "vm kend pgdir (f # ps) s'" using s'(2) d(1) by (simp only: vm_def same_mapD(4,5) [OF sm] simp_thms)
  then show ?thesis using s' sm by blast
qed

text \<open>A new page table, all its entries zero.\<close>

lemma vm_new_table:
  fixes m defines "m' \<equiv> \<lambda>p pgdir i. store4 (memset m p 0 PGSIZE) (pgdir + 4 * of_nat i) (V2P p OR table_flags)"
  assumes wf: "dir_wf kend pgdir ps m" and p: "fresh kend pgdir ps m p" and i: "i < 1024" "table m pgdir i = None"
  shows "k < 1024 \<Longrightarrow> table (m' p pgdir i) pgdir k = (if k = i then Some p else table m pgdir k)"
    "k < 1024 \<Longrightarrow> j < 1024 \<Longrightarrow> ent (m' p pgdir i) pgdir k j = ent m pgdir k j"
proof -
  have al: "pgdir mod PGSIZE = 0" "p mod PGSIZE = 0" "p \<noteq> pgdir"
    using dir_wfD(3) [OF wf] p by (auto simp: fresh_def tabs_def page_valid_aligned)
  have pw: "pw (m' p pgdir i) q j = (if pgdir = q \<and> i = j then V2P p OR table_flags else if p = q then 0 else pw m q j)"
    if "q mod PGSIZE = 0" "j < 1024" for q j
    unfolding m'_def pw_store [OF al(1) that(1) i(1) that(2)] pw_memset [OF al(2) that] ..
  note e = new_entry [OF al(2) table_flags]
  show t: "table (m' p pgdir i) pgdir k = (if k = i then Some p else table m pgdir k)" if k: "k < 1024" for k
    using al pw [OF al(1) k] e by (auto simp: table_def)
  show "ent (m' p pgdir i) pgdir k j = ent m pgdir k j" if kj: "k < 1024" "j < 1024"
  proof (cases "k = i")
    case True
    then show ?thesis using t [OF kj(1)] pw [OF al(2) kj(2)] al(3) i(2) by (simp add: ent_def)
  next
    case False
    show ?thesis
    proof (cases "table m pgdir k")
      case (Some q)
      then have "q mod PGSIZE = 0" "q \<noteq> pgdir" using dir_wfD(4) [OF wf kj(1) Some] by simp_all
      moreover have "q \<noteq> p" using Some p kj(1) by (auto simp: fresh_def tabs_def)
      ultimately show ?thesis using t [OF kj(1)] False pw [of q j] kj(2) Some by (simp add: ent_def)
    qed (use t [OF kj(1)] False in \<open>simp add: ent_def\<close>)
  qed
qed

text \<open>A store to an entry.\<close>

lemma store_ent:
  assumes wf: "dir_wf kend pgdir ps m" and t: "i < 1024" "table m pgdir i = Some t" and j: "j < 1024"
  shows "k < 1024 \<Longrightarrow> table (store4 m (t + 4 * of_nat j) e) pgdir k = table m pgdir k"
    "k < 1024 \<Longrightarrow> l < 1024 \<Longrightarrow> ent (store4 m (t + 4 * of_nat j) e) pgdir k l = (if k = i \<and> l = j then e else ent m pgdir k l)"
proof -
  let ?m = "store4 m (t + 4 * of_nat j) e"
  have al: "pgdir mod PGSIZE = 0" "t mod PGSIZE = 0" "t \<noteq> pgdir" using dir_wfD(3,4) [OF wf] t by auto
  show tt: "table ?m pgdir k = table m pgdir k" if "k < 1024" for k
    using pw_store [OF al(2,1) j that] al(3) by (simp add: table_def)
  show "ent ?m pgdir k l = (if k = i \<and> l = j then e else ent m pgdir k l)" if kl: "k < 1024" "l < 1024"
  proof (cases "table m pgdir k")
    case None
    then show ?thesis using t tt [OF kl(1)] by (auto simp: ent_def)
  next
    case (Some q)
    have "q = t \<longleftrightarrow> k = i" using dir_wfD(5) [OF wf kl(1) t(1)] Some t(2) by auto
    moreover have "q mod PGSIZE = 0" using dir_wfD(4) [OF wf kl(1) Some] by simp
    ultimately show ?thesis using pw_store [OF al(2) _ j kl(2), of q] tt [OF kl(1)] Some by (auto simp: ent_def)
  qed
qed

lemma freshD:
  assumes "fresh kend pgdir ps m f"
  shows "page_valid kend f" "f \<notin> set ps" "f \<notin> tabs m pgdir"
    "i < 512 \<Longrightarrow> j < 1024 \<Longrightarrow> present (ent m pgdir i j) \<Longrightarrow> frame (ent m pgdir i j) \<noteq> f"
  using assms unfolding fresh_def by blast+

lemma store4_page:
  assumes "p mod PGSIZE = 0" "j < 1024" "\<not> in_page x p"
  shows "store4 m (p + 4 * of_nat j) e x = m x"
proof (rule store4_out, rule notI)
  assume "in_range x (p + 4 * of_nat j) 4"
  then have "x = p + 4 * of_nat j + of_nat (unat (x - (p + 4 * of_nat j)))" "unat (x - (p + 4 * of_nat j)) < 4"
    by (simp_all add: in_range_def)
  then have "in_page x p" using entry_in_page [OF assms(1,2)] by metis
  then show False using assms(3) by simp
qed

lemma user_wf_upd:
  assumes wf: "user_wf kend pgdir ps m" and t: "\<And>k. k < 1024 \<Longrightarrow> table m' pgdir k = table m pgdir k"
    and e: "\<And>k l. k < 512 \<Longrightarrow> l < 1024 \<Longrightarrow> ent m' pgdir k l = (if k = i \<and> l = j then e else ent m pgdir k l)"
    and f: "present e \<Longrightarrow> fresh kend pgdir ps m (frame e)"
  shows "user_wf kend pgdir ps m'"
proof -
  have tb: "tabs m' pgdir = tabs m pgdir" by (rule tables_only(1)) (rule t)
  show ?thesis unfolding user_wf_def
  proof (intro conjI allI impI)
    fix k l :: nat assume kl: "k < 512" "l < 1024" "present (ent m' pgdir k l)"
    show "page_valid kend (frame (ent m' pgdir k l))" "frame (ent m' pgdir k l) \<notin> set ps \<union> tabs m' pgdir"
      using wf f kl e [OF kl(1,2)] unfolding tb by (auto simp: user_wf_def fresh_def split: if_splits)
  next
    fix k l k' l' :: nat
    assume a: "k < 512" "l < 1024" "k' < 512" "l' < 1024"
      and b: "present (ent m' pgdir k l) \<and> present (ent m' pgdir k' l') \<and> frame (ent m' pgdir k l) = frame (ent m' pgdir k' l')"
    have old: "k = k' \<and> l = l'" if "present (ent m pgdir k l)" "present (ent m pgdir k' l')" "frame (ent m pgdir k l) = frame (ent m pgdir k' l')"
      using wf a that unfolding user_wf_def by blast
    have new: "frame (ent m pgdir x y) \<noteq> frame e" if "present e" "present (ent m pgdir x y)" "x < 512" "y < 1024" for x y
      using freshD(4) [OF f [OF that(1)] that(3,4,2)] by simp
    have "k = k' \<and> l = l'"
    proof (cases "k = i \<and> l = j")
      case True
      show ?thesis
      proof (rule ccontr)
        assume n: "\<not> (k = k' \<and> l = l')"
        then have "ent m' pgdir k' l' = ent m pgdir k' l'" "ent m' pgdir k l = e" using True e [OF a(1,2)] e [OF a(3,4)] by auto
        then show False using b new [OF _ _ a(3,4)] by simp
      qed
    next
      case k: False
      have kl: "ent m' pgdir k l = ent m pgdir k l" unfolding e [OF a(1,2)] using k by (rule if_not_P)
      show ?thesis
      proof (cases "k' = i \<and> l' = j")
        case True
        then have "ent m' pgdir k' l' = e" unfolding e [OF a(3,4)] by (rule if_P)
        then show ?thesis using b kl new [OF _ _ a(1,2)] by simp
      next
        case False
        then have "ent m' pgdir k' l' = ent m pgdir k' l'" unfolding e [OF a(3,4)] by (rule if_not_P)
        then show ?thesis using b kl old by simp
      qed
    qed
    then show "k = k'" "l = l'" by simp_all
  qed
qed

lemma vm_store:
  assumes vm: "vm kend pgdir ps s" and t: "i < 1024" "table (km_mem s) pgdir i = Some t" and j: "j < 1024"
    and f: "present e \<Longrightarrow> fresh kend pgdir ps (km_mem s) (frame e)"
  shows "vm kend pgdir ps (kset (store4 (km_mem s) (t + 4 * of_nat j) e) s)"
proof -
  note d = vmD [OF vm]
  note st = store_ent [OF d(3) t j]
  define s' where "s' = kset (store4 (km_mem s) (t + 4 * of_nat j) e) s"
  have tp: "page_valid kend t" "t \<notin> set ps" "t mod PGSIZE = 0" using dir_wfD(4) [OF d(3) t] by simp_all
  have "writes_page t s s'" by (simp add: writes_page_def s'_def kset_def store4_page [OF tp(3) j])
  then have "free_pages kend s' ps" by (rule writes_page_ok [OF d(2) tp(1,2)])
  moreover have m': "km_mem s' = store4 (km_mem s) (t + 4 * of_nat j) e" by (simp add: s'_def kset_def)
  have "dir_wf kend pgdir ps (km_mem s')" using tables_only(2) [of "km_mem s'" pgdir "km_mem s"] st(1) d(3) by (simp add: m')
  moreover have "user_wf kend pgdir ps (km_mem s')"
    using st by (intro user_wf_upd [OF d(4) _ _ f, of _ i j]) (simp_all add: m')
  ultimately show ?thesis using d(1) by (simp add: vm_def s'_def)
qed

lemma walk_empty:
  assumes "table (km_mem s) pgdir (pdx va) = None" "free_pages kend s []"
  shows "walkpgdir pgdir va True s = (0, s)"
  using assms kalloc_empty [OF assms(2)] unfolding table_def walkpgdir_def PDX_pdx Let_def pw_def [symmetric]
  by (auto simp: present_def split: if_splits)

text \<open>Pages outside the tables are not touched.\<close>

definition kept :: "u32 \<Rightarrow> mem \<Rightarrow> mem \<Rightarrow> bool" where
  "kept pgdir m m' \<longleftrightarrow> tabs m pgdir \<subseteq> tabs m' pgdir \<and> (\<forall>x. (\<forall>t \<in> tabs m' pgdir. \<not> in_page x t) \<longrightarrow> m' x = m x)"

lemma add_table_wf:
  assumes wf: "dir_wf kend pgdir ps m" "user_wf kend pgdir ps m" and p: "fresh kend pgdir ps m p"
    and i: "i < 1024" "table m pgdir i = None"
    and t: "\<And>k. k < 1024 \<Longrightarrow> table m' pgdir k = (if k = i then Some p else table m pgdir k)"
    and e: "\<And>k j. k < 1024 \<Longrightarrow> j < 1024 \<Longrightarrow> ent m' pgdir k j = ent m pgdir k j"
  shows "tabs m' pgdir = insert p (tabs m pgdir)" "dir_wf kend pgdir ps m'" "user_wf kend pgdir ps m'"
proof -
  have new: "q \<in> tabs m' pgdir \<longleftrightarrow> q = p \<or> q \<in> tabs m pgdir" for q
  proof -
    have "table m' pgdir k = Some q \<Longrightarrow> q = p \<or> table m pgdir k = Some q" if "k < 1024" for k using t [OF that] by (simp split: if_splits)
    moreover have "table m pgdir k = Some q \<Longrightarrow> table m' pgdir k = Some q" if "k < 1024" for k using t [OF that] i(2) by (cases "k = i") simp_all
    moreover have "table m' pgdir i = Some p" using t [OF i(1)] by simp
    ultimately show ?thesis using i(1) unfolding tabs_def by blast
  qed
  then show tb: "tabs m' pgdir = insert p (tabs m pgdir)" by auto
  note f = freshD [OF p]
  have np: "table m pgdir k \<noteq> Some p" "p \<noteq> pgdir" if "k < 1024" for k using f(3) that by (auto simp: tabs_def)
  have inj: "k = l" if kl: "k < 1024" "l < 1024" "table m' pgdir k = Some q" "table m' pgdir l = Some q" for k l q
  proof (cases "q = p")
    case True
    then show ?thesis using kl t [OF kl(1)] t [OF kl(2)] np [OF kl(1)] np [OF kl(2)] by (simp split: if_splits)
  next
    case False
    then show ?thesis using kl t [OF kl(1)] t [OF kl(2)] dir_wfD(5) [OF wf(1) kl(1,2)] by (simp split: if_splits)
  qed
  have "table m' pgdir k \<noteq> Some pgdir" if "k < 1024" for k
    using t [OF that] np [OF that] dir_wfD(4) [OF wf(1) that] by (auto split: if_splits)
  moreover have "page_valid kend q \<and> q \<notin> set ps" if "q \<in> tabs m' pgdir" for q
    using that f(1,2) wf(1) by (auto simp: tb dir_wf_def)
  ultimately show "dir_wf kend pgdir ps m'" using inj by (intro dir_wfI)
  have e': "ent m' pgdir k j = ent m pgdir k j" if "k < 512" "j < 1024" for k j using e that by simp
  show "user_wf kend pgdir ps m'"
    using wf(2) f(4) unfolding user_wf_def tb by (simp add: e' cong: imp_cong)
qed

lemma walk_alloc:
  assumes vm: "vm kend pgdir (p # ps) s" and none: "table (km_mem s) pgdir (pdx va) = None"
  shows "\<exists>s'. walkpgdir pgdir va True s = (p + 4 * of_nat (ptx va), s') \<and> vm kend pgdir ps s' \<and>
    table (km_mem s') pgdir (pdx va) = Some p \<and> tabs (km_mem s') pgdir = insert p (tabs (km_mem s) pgdir) \<and>
    (\<forall>i < 1024. \<forall>j < 1024. ent (km_mem s') pgdir i j = ent (km_mem s) pgdir i j) \<and> kept pgdir (km_mem s) (km_mem s')"
proof -
  define i where "i = pdx va"
  from vm_pop [OF vm] obtain s1 where s1: "kalloc s = (p, s1)" "p \<noteq> 0" "vm kend pgdir ps s1"
    "fresh kend pgdir ps (km_mem s1) p" "km_mem s1 = km_mem s" by blast
  note d = vmD [OF s1(3)]
  define m0 where "m0 = memset (km_mem s) p 0 PGSIZE"
  define m' where "m' = store4 m0 (pgdir + 4 * of_nat i) (V2P p OR table_flags)"
  define s' where "s' = kset m' s1"
  have i: "i < 1024" by (simp add: i_def pdx_less)
  have w: "walkpgdir pgdir va True s = (p + 4 * of_nat (ptx va), s')"
    using none s1 unfolding table_def walkpgdir_def PDX_pdx PTX_ptx Let_def pw_def [symmetric]
    by (auto simp: present_def s'_def m'_def m0_def i_def table_flags_def pw_def split: if_splits)
  note nt = vm_new_table [OF d(3) s1(4) i, unfolded s1(5), OF none [folded i_def], folded m0_def, folded m'_def]
  have mm: "km_mem s' = m'" by (simp add: s'_def kset_def)
  have pv: "page_valid kend p" "p \<notin> set ps" "p \<notin> tabs (km_mem s) pgdir" using freshD(1-3) [OF s1(4)] s1(5) by auto
  have out0: "m0 x = km_mem s x" if "\<not> in_page x p" for x using that by (simp add: m0_def memset_spec PGSIZE_def)
  have al: "pgdir mod PGSIZE = 0" using dir_wfD(3) [OF d(3)] .
  have out1: "m' x = m0 x" if "\<not> in_page x pgdir" for x unfolding m'_def by (rule store4_page [OF al i that])
  have wf: "tabs m' pgdir = insert p (tabs (km_mem s) pgdir)" "dir_wf kend pgdir ps m'" "user_wf kend pgdir ps m'"
    using add_table_wf [OF d(3,4) s1(4) i, unfolded s1(5), OF none [folded i_def] nt] by simp_all
  have "free_pages kend (kset m0 s1) ps"
    using out0 s1(5) by (intro writes_page_ok [OF d(2) pv(1,2)]) (simp add: writes_page_def kset_def)
  moreover have "writes_page pgdir (kset m0 s1) s'" using out1 by (simp add: writes_page_def kset_def s'_def)
  ultimately have "free_pages kend s' ps" using writes_page_ok dir_wfD(1,2) [OF d(3)] by blast
  then have "vm kend pgdir ps s'" using d(1) wf(2,3) by (simp add: vm_def mm)
  moreover have "kept pgdir (km_mem s) m'" unfolding kept_def wf(1) by (simp add: subset_insertI) (simp add: out0 out1 tabs_def)
  ultimately show ?thesis using w wf(1) nt i by (simp add: mm i_def)
qed

section \<open>What user addresses show\<close>

definition pg :: "u32 \<Rightarrow> nat" where "pg va = unat va div 4096"

text \<open>The byte at an address and the flags of its page.\<close>

definition uview :: "mem \<Rightarrow> u32 \<Rightarrow> u32 \<Rightarrow> (u8 \<times> u32) option" where
  "uview m pgdir va =
     (let e = ent m pgdir (pdx va) (ptx va)
      in if present e then Some (m (frame e + va mod PGSIZE), PTE_FLAGS e) else None)"

lemma pg_index: "pdx va = pg va div 1024" "ptx va = pg va mod 1024"
  by (simp_all add: pdx_def ptx_def pg_def div_mult2_eq)

lemma user_index: "va < KERNBASE \<Longrightarrow> pdx va < 512"
  by (simp add: pdx_def word_less_nat_alt KERNBASE_def div_less_iff_less_mult)

lemma pg_eq: "pg va = pg va' \<longleftrightarrow> pdx va = pdx va' \<and> ptx va = ptx va'"
  unfolding pg_index by (metis div_mult_mod_eq)

lemma offset_in_page: "in_page (p + va mod PGSIZE) p"
proof -
  have "unat (va mod PGSIZE) < 4096" by (simp add: unat_mod_distrib PGSIZE_def)
  then show ?thesis by (simp add: in_range_def)
qed

lemma uview_cong:
  assumes "ent m' pgdir (pdx va) (ptx va) = ent m pgdir (pdx va) (ptx va)"
    and "\<And>x. present (ent m pgdir (pdx va) (ptx va)) \<Longrightarrow> in_page x (frame (ent m pgdir (pdx va) (ptx va))) \<Longrightarrow> m' x = m x"
  shows "uview m' pgdir va = uview m pgdir va"
  using assms offset_in_page by (simp add: uview_def Let_def)

lemma user_frame:
  assumes "vm kend pgdir ps s" "i < 512" "j < 1024" "present (ent (km_mem s) pgdir i j)"
  shows "page_valid kend (frame (ent (km_mem s) pgdir i j))" "frame (ent (km_mem s) pgdir i j) \<notin> set ps"
    "frame (ent (km_mem s) pgdir i j) \<notin> tabs (km_mem s) pgdir"
  using vmD(4) [OF assms(1)] assms(2-) unfolding user_wf_def by blast+

lemma frame_inj:
  assumes "vm kend pgdir ps s" "i < 512" "j < 1024" "k < 512" "l < 1024" "present (ent (km_mem s) pgdir i j)"
    "present (ent (km_mem s) pgdir k l)" "frame (ent (km_mem s) pgdir i j) = frame (ent (km_mem s) pgdir k l)"
  shows "i = k \<and> j = l"
  using vmD(4) [OF assms(1)] assms(2-) unfolding user_wf_def by blast

text \<open>Pages that are neither tables nor the page written to keep their bytes.\<close>

lemma page_untouched:
  assumes "\<And>x. \<not> in_page x p \<Longrightarrow> m' x = m x" "p mod PGSIZE = 0" "q mod PGSIZE = 0" "p \<noteq> q" "in_page x q"
  shows "m' x = m x"
  using pages_disjoint [OF assms(2,3)] assms(1,4,5) by blast

lemma kept_page:
  assumes "kept pgdir m m'" "dir_wf kend pgdir ps m'" "q mod PGSIZE = 0" "q \<notin> tabs m' pgdir" "in_page x q"
  shows "m' x = m x"
proof -
  have "\<not> in_page x t" if "t \<in> tabs m' pgdir" for t
  proof
    assume "in_page x t"
    moreover have "t mod PGSIZE = 0" using assms(2) that unfolding dir_wf_def using page_valid_aligned by blast
    ultimately show False using pages_disjoint [of t q x] assms(3-5) that by auto
  qed
  then show ?thesis using assms(1) by (simp add: kept_def)
qed

end
