(* ===== verification/Xv6_Vm_Space.thy ===== *)
theory Xv6_Vm_Space
  imports Xv6_Vm_Map
begin

text \<open>
  Growing and shrinking an address space: what \<open>mappages\<close>, \<open>allocuvm\<close> and \<open>deallocuvm\<close> do to the bytes that user
  addresses show.
\<close>

section \<open>Mapping one page\<close>

definition va_of :: "nat \<Rightarrow> u32" where "va_of n = of_nat (4096 * n)"    \<comment> \<open>the first address of a page\<close>

lemma unat_va_of: "n \<le> 2 ^ 19 \<Longrightarrow> unat (va_of n) = 4096 * n"
  unfolding va_of_def by (simp only: unat_of_nat) simp

lemma va_of_index:
  assumes "n \<le> 2 ^ 19"
  shows "pdx (va_of n) = n div 1024" "ptx (va_of n) = n mod 1024" "va_of n mod PGSIZE = 0" "va_of (Suc n) = va_of n + PGSIZE"
proof -
  show "pdx (va_of n) = n div 1024" "ptx (va_of n) = n mod 1024"
    using assms by (simp_all add: pg_index pg_def unat_va_of)
  show "va_of n mod PGSIZE = 0" using assms by (simp add: page_aligned_nat unat_va_of)
  show "va_of (Suc n) = va_of n + PGSIZE" by (simp add: va_of_def PGSIZE_def)
qed

lemma page_index_less: "(n :: nat) < 2 ^ 19 \<Longrightarrow> n div 1024 < 512"
  by (simp add: div_less_iff_less_mult)

lemma mappages_one:
  assumes "va mod PGSIZE = 0"
  shows "mappages pgdir va PGSIZE pa perm s = mappages_from pgdir va pa perm 0 s"
proof -
  have al: "unat va mod 4096 = 0" using assms by (simp add: page_aligned_nat)
  have "PGROUNDDOWN va = va"
    using al by (simp add: word_unat_eq_iff unat_PGROUNDDOWN minus_mod_eq_div_mult [symmetric])
  moreover have "PGROUNDDOWN (va + PGSIZE - 1) = va"
  proof -
    have "va + PGSIZE - 1 = va + 4095" by (simp add: PGSIZE_def)
    moreover have "unat (va + 4095) = unat va + 4095"
      using page_no_wrap [OF assms] by (simp add: unat_plus_if')
    moreover have "(unat va + 4095) div 4096 * 4096 = unat va" using al by (auto elim!: dvdE)
    ultimately show ?thesis by (simp add: word_unat_eq_iff unat_PGROUNDDOWN)
  qed
  ultimately show ?thesis by (simp add: mappages_def Let_def)
qed

lemma tabs_memI: "i < 1024 \<Longrightarrow> table m pgdir i = Some t \<Longrightarrow> t \<in> tabs m pgdir"
  by (auto simp: tabs_def)

text \<open>Writing the entry of a page whose table exists.\<close>

lemma set_entry:
  assumes vm: "vm kend pgdir ps s" and n: "n < 2 ^ 19" and t: "table (km_mem s) pgdir (n div 1024) = Some t"
    and f: "fresh kend pgdir ps (km_mem s) f" and fl: "take_bit 12 fl = fl" "fl AND PTE_P \<noteq> 0"
    and none: "\<not> present (ent (km_mem s) pgdir (n div 1024) (n mod 1024))"
  defines "s' \<equiv> kset (store4 (km_mem s) (t + 4 * of_nat (n mod 1024)) (V2P f OR fl)) s"
  shows "vm kend pgdir ps s'"
    "va < KERNBASE \<Longrightarrow> uview (km_mem s') pgdir va = (if pg va = n then Some (km_mem s (f + va mod PGSIZE), fl) else uview (km_mem s) pgdir va)"
proof -
  have al: "f mod PGSIZE = 0" using freshD(1) [OF f] by (rule page_valid_aligned)
  note e = new_entry [OF al fl]
  have i: "n div 1024 < 1024" "n mod 1024 < 1024" using page_index_less [OF n] by simp_all
  show vm': "vm kend pgdir ps s'" unfolding s'_def using f e by (intro vm_store [OF vm i(1) t i(2)]) simp
  note st = store_ent [OF vmD(3) [OF vm] i(1) t i(2), where e = "V2P f OR fl"]
  have m': "km_mem s' = store4 (km_mem s) (t + 4 * of_nat (n mod 1024)) (V2P f OR fl)" by (simp add: s'_def kset_def)
  note tv = dir_wfD(4) [OF vmD(3) [OF vm] i(1) t]
  have tt: "t \<in> tabs (km_mem s) pgdir" using tabs_memI [OF i(1) t] .
  have same: "km_mem s' x = km_mem s x" if "page_valid kend q" "q \<notin> tabs (km_mem s) pgdir" "in_page x q" for q x
  proof (rule page_untouched [where p = t and q = q])
    show "km_mem s' y = km_mem s y" if "\<not> in_page y t" for y unfolding m' using store4_page [OF _ i(2) that] tv by simp
  qed (use tv that page_valid_aligned tt in auto)
  show "uview (km_mem s') pgdir va = (if pg va = n then Some (km_mem s (f + va mod PGSIZE), fl) else uview (km_mem s) pgdir va)"
    if va: "va < KERNBASE"
  proof (cases "pg va = n")
    case True
    then have ee: "ent (km_mem s') pgdir (pdx va) (ptx va) = V2P f OR fl" using st(2) i unfolding m' pg_index by simp
    have "km_mem s' (f + va mod PGSIZE) = km_mem s (f + va mod PGSIZE)"
      using same [OF freshD(1,3) [OF f] offset_in_page] .
    then show ?thesis unfolding uview_def Let_def ee using True e entry_parts(2) [OF V2P_aligned [OF al] fl(1)] by simp
  next
    case False
    have vi: "pdx va < 512" "ptx va < 1024" using user_index [OF va] ptx_less by simp_all
    have nn: "\<not> (pdx va = n div 1024 \<and> ptx va = n mod 1024)" using False unfolding pg_index by (metis div_mult_mod_eq)
    have ee: "ent (km_mem s') pgdir (pdx va) (ptx va) = ent (km_mem s) pgdir (pdx va) (ptx va)"
      unfolding m' st(2) [OF pdx_less ptx_less] by (rule if_not_P [OF nn])
    have "uview (km_mem s') pgdir va = uview (km_mem s) pgdir va"
    proof (rule uview_cong [OF ee])
      fix x assume p: "present (ent (km_mem s) pgdir (pdx va) (ptx va))" "in_page x (frame (ent (km_mem s) pgdir (pdx va) (ptx va)))"
      show "km_mem s' x = km_mem s x" using same user_frame(1,3) [OF vm vi p(1)] p(2) by blast
    qed
    then show ?thesis using False by simp
  qed
qed

lemma same_view:
  assumes vm: "vm kend pgdir ps s" and vm': "vm kend pgdir ps' s'" and k: "kept pgdir (km_mem s) (km_mem s')"
    and e: "\<And>i j. i < 1024 \<Longrightarrow> j < 1024 \<Longrightarrow> ent (km_mem s') pgdir i j = ent (km_mem s) pgdir i j" and va: "va < KERNBASE"
  shows "uview (km_mem s') pgdir va = uview (km_mem s) pgdir va"
proof -
  have vi: "pdx va < 512" "ptx va < 1024" using user_index [OF va] ptx_less by simp_all
  then have ee: "ent (km_mem s') pgdir (pdx va) (ptx va) = ent (km_mem s) pgdir (pdx va) (ptx va)" using e by simp
  show ?thesis
  proof (rule uview_cong [OF ee])
    fix x assume p: "present (ent (km_mem s) pgdir (pdx va) (ptx va))" "in_page x (frame (ent (km_mem s) pgdir (pdx va) (ptx va)))"
    note u = user_frame [OF vm' vi, unfolded ee, OF p(1)]
    show "km_mem s' x = km_mem s x" by (rule kept_page [OF k vmD(3) [OF vm'] _ u(3) p(2)]) (rule page_valid_aligned [OF u(1)])
  qed
qed

lemma uview_None: "uview m pgdir va = None \<longleftrightarrow> \<not> present (ent m pgdir (pdx va) (ptx va))"
  by (simp add: uview_def Let_def)

lemma map_core:
  assumes w: "walkpgdir pgdir va True s0 = (t + 4 * of_nat j, s)" and vm: "vm kend pgdir ps s" and i: "i < 1024" "j < 1024"
    and t: "table (km_mem s) pgdir i = Some t" and np: "\<not> present (ent (km_mem s) pgdir i j)"
  shows "mappages_from pgdir va pa perm 0 s0 = Inr (0, kset (store4 (km_mem s) (t + 4 * of_nat j) (pa OR (perm OR PTE_P))) s)"
proof -
  have "t + 4 * of_nat j \<noteq> 0" using page_nonzero [OF vmD(1) [OF vm], of t j] dir_wfD(4) [OF vmD(3) [OF vm] i(1) t] i(2) by auto
  moreover have "load4 (km_mem s) (t + 4 * of_nat j) AND PTE_P = 0"
    using np t by (simp add: ent_def present_def pw_def)
  ultimately show ?thesis using w by (simp add: mappages_from.simps Let_def or.assoc)
qed

text \<open>Mapping a page of the user fails only without memory for a table.\<close>

lemma map_page:
  assumes vm: "vm kend pgdir ps s" and n: "n < 2 ^ 19" and f: "fresh kend pgdir ps (km_mem s) f"
    and fl: "take_bit 12 (perm OR PTE_P) = perm OR PTE_P" and none: "uview (km_mem s) pgdir (va_of n) = None"
  shows "(mappages pgdir (va_of n) PGSIZE (V2P f) perm s = Inr (-1, s) \<and> ps = []) \<or>
    (\<exists>s' ps'. mappages pgdir (va_of n) PGSIZE (V2P f) perm s = Inr (0, s') \<and> vm kend pgdir ps' s' \<and> length ps \<le> Suc (length ps') \<and>
      (\<forall>va < KERNBASE. uview (km_mem s') pgdir va =
         (if pg va = n then Some (km_mem s (f + va mod PGSIZE), perm OR PTE_P) else uview (km_mem s) pgdir va)))"
proof -
  let ?i = "n div 1024" and ?j = "n mod 1024"
  have i: "?i < 1024" "?j < 1024" using page_index_less [OF n] by simp_all
  note vi = va_of_index [of n]
  have "bit ((perm OR PTE_P) AND PTE_P) 0" by (simp add: PTE_P_def bit_simps)
  then have fl': "(perm OR PTE_P) AND PTE_P \<noteq> 0" by auto
  note mp = mappages_one [OF vi(3)]
  have np: "\<not> present (ent (km_mem s) pgdir ?i ?j)" using none vi n by (simp add: uview_None)
  show ?thesis
  proof (cases "table (km_mem s) pgdir ?i")
    case (Some t)
    have w: "walkpgdir pgdir (va_of n) True s = (t + 4 * of_nat ?j, s)" using walk_found [of s pgdir "va_of n" t True] Some vi n by simp
    show ?thesis unfolding mp [OF less_imp_le [OF n]] map_core [OF w vm i Some np]
      using set_entry [OF vm n Some f fl fl' np] by auto
  next
    case None
    then have none': "table (km_mem s) pgdir (pdx (va_of n)) = None" using vi n by simp
    show ?thesis
    proof (cases ps)
      case Nil
      have "walkpgdir pgdir (va_of n) True s = (0, s)" using walk_empty [OF none'] vmD(2) [OF vm] Nil by simp
      then show ?thesis unfolding mp [OF less_imp_le [OF n]] using Nil by (simp add: mappages_from.simps)
    next
      case (Cons p qs)
      from walk_alloc [OF vm [unfolded Cons] none'] vi n obtain s1 where
        w: "walkpgdir pgdir (va_of n) True s = (p + 4 * of_nat ?j, s1)" and vm1: "vm kend pgdir qs s1"
        and t1: "table (km_mem s1) pgdir ?i = Some p" and tb: "tabs (km_mem s1) pgdir = insert p (tabs (km_mem s) pgdir)"
        and e1: "\<And>i j. i < 1024 \<Longrightarrow> j < 1024 \<Longrightarrow> ent (km_mem s1) pgdir i j = ent (km_mem s) pgdir i j"
        and k1: "kept pgdir (km_mem s) (km_mem s1)" by auto
      have np1: "\<not> present (ent (km_mem s1) pgdir ?i ?j)" using np e1 [OF i] by simp
      have f1: "fresh kend pgdir qs (km_mem s1) f"
        using f e1 Cons unfolding fresh_def tb by (simp add: less_trans [of _ 512 1024])
      note se = set_entry [OF vm1 n t1 f1 fl fl' np1]
      have z: "km_mem s1 (f + va mod PGSIZE) = km_mem s (f + va mod PGSIZE)" for va
        by (rule kept_page [OF k1 vmD(3) [OF vm1] _ _ offset_in_page]) (use freshD [OF f1] page_valid_aligned in auto)
      have v: "uview (km_mem s1) pgdir va = uview (km_mem s) pgdir va" if "va < KERNBASE" for va
        by (rule same_view [OF vm vm1 k1 e1 that])
      show ?thesis unfolding mp [OF less_imp_le [OF n]] map_core [OF w vm1 i t1 np1]
        using se v z Cons by auto
    qed
  qed
qed

section \<open>Unmapping\<close>

lemma present_0: "\<not> present 0" by (simp add: present_def)

text \<open>Freeing the frame of a page and clearing its entry.\<close>

lemma unmap_entry:
  assumes vm: "vm kend pgdir ps s" and n: "n < 2 ^ 19" and t: "table (km_mem s) pgdir (n div 1024) = Some t"
    and pr: "present (ent (km_mem s) pgdir (n div 1024) (n mod 1024))"
  defines "fr \<equiv> frame (ent (km_mem s) pgdir (n div 1024) (n mod 1024))"
  shows "\<exists>s1 m2. kfree kend fr s = Inr s1 \<and> m2 = store4 (km_mem s1) (t + 4 * of_nat (n mod 1024)) 0 \<and>
    vm kend pgdir (fr # ps) (kset m2 s1) \<and> tabs m2 pgdir = tabs (km_mem s) pgdir \<and>
    (\<forall>k < 512. \<forall>l < 1024. ent m2 pgdir k l = (if k = n div 1024 \<and> l = n mod 1024 then 0 else ent (km_mem s) pgdir k l)) \<and>
    (\<forall>x. \<not> in_page x fr \<longrightarrow> \<not> in_page x t \<longrightarrow> m2 x = km_mem s x)"
proof -
  let ?i = "n div 1024" and ?j = "n mod 1024"
  have i: "?i < 512" "?i < 1024" "?j < 1024" using page_index_less [OF n] by simp_all
  note d = vmD [OF vm]
  note u = user_frame [OF vm i(1,3) pr, folded fr_def]
  have "kend \<noteq> 0" using d(1) by (auto simp: KERNBASE_def)
  from kfree_ok [OF d(2) u(1,2) this] obtain s1 where s1: "kfree kend fr s = Inr s1" "free_pages kend s1 (fr # ps)"
    and out: "\<And>x. \<not> in_page x fr \<Longrightarrow> km_mem s1 x = km_mem s x" by blast
  have sm: "same_map pgdir (km_mem s) (km_mem s1)" using out by (rule same_map_write [OF d(3) u(1,3)])
  note q = same_mapD [OF sm]
  have wf1: "dir_wf kend pgdir ps (km_mem s1)" using d(3) q(4) by simp
  have t1: "table (km_mem s1) pgdir ?i = Some t" using t q(1) [OF i(2)] by simp
  note tv = dir_wfD(4) [OF wf1 i(2) t1]
  have tt: "t \<in> tabs (km_mem s) pgdir" by (rule tabs_memI [OF i(2) t])
  define m2 where "m2 = store4 (km_mem s1) (t + 4 * of_nat ?j) 0"
  define s2 where "s2 = kset m2 s1"
  note st = store_ent [OF wf1 i(2) t1 i(3), where e = 0, folded m2_def]
  have tab2: "table m2 pgdir k = table (km_mem s) pgdir k" if "k < 1024" for k using st(1) [OF that] q(1) [OF that] by simp
  have ent2: "ent m2 pgdir k l = (if k = ?i \<and> l = ?j then 0 else ent (km_mem s) pgdir k l)" if "k < 512" "l < 1024" for k l
    using st(2) [of k l] q(2) [of k l] that by simp
  have "writes_page t s1 s2" unfolding writes_page_def s2_def kset_def m2_def using store4_page [OF _ i(3)] tv by simp
  moreover have "t \<notin> set (fr # ps)" using tv u(3) tt by auto
  ultimately have "free_pages kend s2 (fr # ps)" using writes_page_ok [OF s1(2), of t s2] tv by blast
  moreover have tb: "tabs m2 pgdir = tabs (km_mem s) pgdir" "dir_wf kend pgdir ps m2 = dir_wf kend pgdir ps (km_mem s)"
    using tables_only [of m2 pgdir "km_mem s", OF tab2] by simp_all
  have "dir_wf kend pgdir (fr # ps) m2" unfolding dir_wf_Cons tb using d(3) u(3) by simp
  moreover have "user_wf kend pgdir ps m2"
    by (rule user_wf_upd [OF d(4) tab2 ent2]) (simp_all add: present_0)
  moreover have inj: "frame (ent m2 pgdir k l) \<noteq> fr" if kl: "k < 512" "l < 1024" "present (ent m2 pgdir k l)" for k l
  proof
    assume eq: "frame (ent m2 pgdir k l) = fr"
    have "\<not> (k = ?i \<and> l = ?j)" using ent2 [OF kl(1,2)] kl(3) present_0 by (cases "k = ?i \<and> l = ?j") simp_all
    moreover from this have "ent m2 pgdir k l = ent (km_mem s) pgdir k l" unfolding ent2 [OF kl(1,2)] by (rule if_not_P)
    then have "k = ?i \<and> l = ?j" using frame_inj [OF vm kl(1,2) i(1,3) _ pr] kl(3) eq by (simp add: fr_def)
    ultimately show False by simp
  qed
  ultimately have vm2: "vm kend pgdir (fr # ps) s2"
    unfolding vm_def user_wf_Cons s2_def using d(1) by (simp add: kset_def)
  have "m2 x = km_mem s x" if "\<not> in_page x fr" "\<not> in_page x t" for x
    unfolding m2_def using store4_page [OF _ i(3) that(2)] tv out [OF that(1)] by simp
  then show ?thesis using s1(1) vm2 tb(1) ent2 by (auto simp: s2_def m2_def)
qed

lemma unmap_page:
  assumes vm: "vm kend pgdir ps s" and n: "n < 2 ^ 19" and t: "table (km_mem s) pgdir (n div 1024) = Some t"
    and pr: "present (ent (km_mem s) pgdir (n div 1024) (n mod 1024))"
  defines "fr \<equiv> frame (ent (km_mem s) pgdir (n div 1024) (n mod 1024))"
  shows "\<exists>s1 s2. kfree kend fr s = Inr s1 \<and> s2 = kset (store4 (km_mem s1) (t + 4 * of_nat (n mod 1024)) 0) s1 \<and>
    vm kend pgdir (fr # ps) s2 \<and>
    (\<forall>va < KERNBASE. uview (km_mem s2) pgdir va = (if pg va = n then None else uview (km_mem s) pgdir va)) \<and>
    (\<forall>f. fresh kend pgdir ps (km_mem s) f \<longrightarrow> fresh kend pgdir (fr # ps) (km_mem s2) f)"
proof -
  let ?i = "n div 1024" and ?j = "n mod 1024"
  have i: "?i < 512" "?i < 1024" "?j < 1024" using page_index_less [OF n] by simp_all
  from unmap_entry [OF vm n t pr, folded fr_def] obtain s1 m2 where s1: "kfree kend fr s = Inr s1"
    and m2: "m2 = store4 (km_mem s1) (t + 4 * of_nat ?j) 0" and vm2: "vm kend pgdir (fr # ps) (kset m2 s1)"
    and tb: "tabs m2 pgdir = tabs (km_mem s) pgdir"
    and e2: "\<And>k l. k < 512 \<Longrightarrow> l < 1024 \<Longrightarrow> ent m2 pgdir k l = (if k = ?i \<and> l = ?j then 0 else ent (km_mem s) pgdir k l)"
    and out: "\<And>x. \<not> in_page x fr \<Longrightarrow> \<not> in_page x t \<Longrightarrow> m2 x = km_mem s x" by blast
  note tv = dir_wfD(4) [OF vmD(3) [OF vm] i(2) t]
  have tt: "t \<in> tabs (km_mem s) pgdir" by (rule tabs_memI [OF i(2) t])
  note u = user_frame [OF vm i(1,3) pr, folded fr_def]
  have "uview m2 pgdir va = (if pg va = n then None else uview (km_mem s) pgdir va)" if va: "va < KERNBASE" for va
  proof (cases "pg va = n")
    case True
    then show ?thesis using e2 [OF i(1,3)] present_0 by (simp add: uview_None pg_index)
  next
    case False
    have vi: "pdx va < 512" "ptx va < 1024" using user_index [OF va] ptx_less by simp_all
    have nn: "\<not> (pdx va = ?i \<and> ptx va = ?j)" using False unfolding pg_index by (metis div_mult_mod_eq)
    have ee: "ent m2 pgdir (pdx va) (ptx va) = ent (km_mem s) pgdir (pdx va) (ptx va)"
      unfolding e2 [OF vi] by (rule if_not_P [OF nn])
    have "uview m2 pgdir va = uview (km_mem s) pgdir va"
    proof (rule uview_cong [OF ee])
      fix x assume p: "present (ent (km_mem s) pgdir (pdx va) (ptx va))" "in_page x (frame (ent (km_mem s) pgdir (pdx va) (ptx va)))"
      let ?q = "frame (ent (km_mem s) pgdir (pdx va) (ptx va))"
      note v = user_frame [OF vm vi p(1)]
      have "?q \<noteq> fr" using frame_inj [OF vm vi i(1,3) p(1) pr] nn by (auto simp: fr_def)
      then have "\<not> in_page x fr" using pages_disjoint [OF page_valid_aligned page_valid_aligned, OF v(1) u(1) p(2)] by blast
      moreover have "\<not> in_page x t" using pages_disjoint [OF page_valid_aligned [OF v(1)], of t x] tv tt v(3) p(2) by auto
      ultimately show "m2 x = km_mem s x" by (rule out)
    qed
    then show ?thesis using False by simp
  qed
  moreover have "fresh kend pgdir (fr # ps) m2 f" if f: "fresh kend pgdir ps (km_mem s) f" for f
  proof -
    have "f \<noteq> fr" using freshD(4) [OF f i(1,3) pr] by (simp add: fr_def)
    moreover have "frame (ent m2 pgdir k l) \<noteq> f" if kl: "k < 512" "l < 1024" "present (ent m2 pgdir k l)" for k l
    proof (cases "k = ?i \<and> l = ?j")
      case True
      then show ?thesis using kl(3) e2 [OF i(1,3)] present_0 by simp
    next
      case False
      then have "ent m2 pgdir k l = ent (km_mem s) pgdir k l" unfolding e2 [OF kl(1,2)] by (rule if_not_P)
      then show ?thesis using kl(3) freshD(4) [OF f kl(1,2)] by simp
    qed
    ultimately show ?thesis unfolding fresh_def tb using freshD(1-3) [OF f] by simp
  qed
  ultimately show ?thesis using s1 vm2 m2 by (auto simp: kset_def)
qed

lemma skip_table:
  assumes "n < 2 ^ 19"
  shows "PGADDR (PDX (va_of n) + 1) 0 0 = va_of (1024 * (n div 1024 + 1))"
proof -
  let ?i = "n div 1024"
  have "PDX (va_of n) + 1 = of_nat (?i + 1)" using assms by (simp add: PDX_pdx va_of_index)
  then have "PGADDR (PDX (va_of n) + 1) 0 0 = of_nat (?i + 1) * 2 ^ 22"
    by (simp add: PGADDR_def push_bit_eq_mult)
  also have "\<dots> = va_of (1024 * (?i + 1))" by (simp add: va_of_def algebra_simps)
  finally show ?thesis .
qed

definition pages_to :: "u32 \<Rightarrow> nat" where "pages_to sz = (unat sz + 4095) div 4096"    \<comment> \<open>the pages below a size\<close>

lemma pages_to_le: "sz \<le> KERNBASE \<Longrightarrow> pages_to sz \<le> 2 ^ 19"
  by (simp add: pages_to_def word_le_nat_alt KERNBASE_def)

lemma below_iff:
  assumes "n \<le> 2 ^ 19"
  shows "va_of n < sz \<longleftrightarrow> n < pages_to sz"
proof -
  have "4096 * n < unat sz \<longleftrightarrow> n < (unat sz + 4095) div 4096" by linarith
  then show ?thesis using assms by (simp add: word_less_nat_alt unat_va_of pages_to_def)
qed

definition dropped :: "nat \<Rightarrow> nat \<Rightarrow> u32 \<Rightarrow> mem \<Rightarrow> mem \<Rightarrow> bool" where    \<comment> \<open>the pages from \<open>a\<close> to \<open>b\<close> are gone\<close>
  "dropped a b pgdir m m' \<longleftrightarrow>
     (\<forall>va < KERNBASE. uview m' pgdir va = (if a \<le> pg va \<and> pg va < b then None else uview m pgdir va))"

lemma dropped_cong:
  assumes "dropped a' b pgdir m1 m'" "a \<le> a'"
    and "\<And>va. va < KERNBASE \<Longrightarrow> uview m1 pgdir va = (if a \<le> pg va \<and> pg va < a' \<and> pg va < b then None else uview m pgdir va)"
  shows "dropped a b pgdir m m'"
  unfolding dropped_def
proof (intro allI impI)
  fix va assume va: "va < KERNBASE"
  then have "uview m' pgdir va = (if a' \<le> pg va \<and> pg va < b then None else uview m1 pgdir va)"
    using assms(1) by (simp add: dropped_def)
  also have "\<dots> = (if a \<le> pg va \<and> pg va < b then None else uview m pgdir va)" unfolding assms(3) [OF va] using assms(2) by auto
  finally show "uview m' pgdir va = (if a \<le> pg va \<and> pg va < b then None else uview m pgdir va)" .
qed

lemma dealloc_loop:
  assumes "vm kend pgdir ps s" "n \<le> 2 ^ 19" "sz \<le> KERNBASE"
  shows "\<exists>s' ps'. dealloc_from kend pgdir sz (va_of n) s = Some (Inr s') \<and> vm kend pgdir ps' s' \<and> length ps \<le> length ps' \<and>
    dropped n (pages_to sz) pgdir (km_mem s) (km_mem s') \<and>
    (\<forall>f. fresh kend pgdir ps (km_mem s) f \<longrightarrow> fresh kend pgdir ps' (km_mem s') f)"
  using assms(1,2)
proof (induction "pages_to sz - n" arbitrary: n s ps rule: less_induct)
  case less
  note N = pages_to_le [OF assms(3)]
  show ?case
  proof (cases "n < pages_to sz")
    case False
    then have "\<not> va_of n < sz" using below_iff [OF less.prems(2)] by simp
    then have "dealloc_from kend pgdir sz (va_of n) s = Some (Inr s)" by (subst dealloc_from.simps) simp
    moreover have "dropped n (pages_to sz) pgdir (km_mem s) (km_mem s)" using False by (auto simp: dropped_def)
    ultimately show ?thesis using less.prems(1) by blast
  next
    case n: True
    then have n19: "n < 2 ^ 19" and lt: "va_of n < sz" using N below_iff [OF less.prems(2)] by simp_all
    let ?i = "n div 1024" and ?j = "n mod 1024"
    have i: "?i < 1024" "?j < 1024" using page_index_less [OF n19] by simp_all
    note vi = va_of_index [OF less.prems(2)]
    show ?thesis
    proof (cases "table (km_mem s) pgdir ?i")
      case None
      let ?n = "1024 * (?i + 1)"
      have w: "walkpgdir pgdir (va_of n) False s = (0, s)" by (rule walk_none) (simp add: vi None)
      have step: "dealloc_from kend pgdir sz (va_of n) s = dealloc_from kend pgdir sz (va_of ?n) s"
        by (subst dealloc_from.simps) (simp add: lt w skip_table [OF n19])
      have gt: "n < ?n" "?n \<le> 2 ^ 19" using page_index_less [OF n19] by auto
      have "uview (km_mem s) pgdir va = None" if "n \<le> pg va" "pg va < ?n" for va
      proof -
        have "pg va div 1024 = ?i" using that by (intro div_nat_eqI) auto
        then show ?thesis using None present_0 by (simp add: uview_None pg_index ent_def)
      qed
      then have "dropped n (pages_to sz) pgdir (km_mem s) m'" if "dropped ?n (pages_to sz) pgdir (km_mem s) m'" for m'
        using that gt by (intro dropped_cong [OF that]) auto
      then show ?thesis using less.hyps [OF _ less.prems(1) gt(2)] n gt(1) unfolding step by (metis diff_less_mono2)
    next
      case (Some t)
      let ?e = "ent (km_mem s) pgdir ?i ?j" and ?p = "t + 4 * of_nat ?j"
      have w: "walkpgdir pgdir (va_of n) False s = (?p, s)" using walk_found [of s pgdir "va_of n" t False] Some vi by simp
      have nz: "?p \<noteq> 0"
        using page_nonzero [OF vmD(1) [OF less.prems(1)], of t ?j] dir_wfD(4) [OF vmD(3) [OF less.prems(1)] i(1) Some] i(2) by auto
      have l: "load4 (km_mem s) ?p = ?e" using Some by (simp add: ent_def pw_def)
      have nx: "Suc n \<le> 2 ^ 19" "pages_to sz - Suc n < pages_to sz - n" using n n19 by simp_all
      show ?thesis
      proof (cases "present ?e")
        case False
        have step: "dealloc_from kend pgdir sz (va_of n) s = dealloc_from kend pgdir sz (va_of (Suc n)) s"
          by (subst dealloc_from.simps) (use False in \<open>simp add: lt w nz l present_def vi(4)\<close>)
        have "dropped n (pages_to sz) pgdir (km_mem s) m'" if "dropped (Suc n) (pages_to sz) pgdir (km_mem s) m'" for m'
        proof (rule dropped_cong [OF that])
          fix va :: u32
          show "uview (km_mem s) pgdir va = (if n \<le> pg va \<and> pg va < Suc n \<and> pg va < pages_to sz then None else uview (km_mem s) pgdir va)"
            using False by (cases "pg va = n") (auto simp: uview_None pg_index)
        qed simp
        then show ?thesis using less.hyps [OF nx(2) less.prems(1) nx(1)] unfolding step by blast
      next
        case True
        from unmap_page [OF less.prems(1) n19 Some True] obtain s1 s2 where
          s1: "kfree kend (frame ?e) s = Inr s1" "s2 = kset (store4 (km_mem s1) ?p 0) s1" "vm kend pgdir (frame ?e # ps) s2"
          and v2: "\<And>va. va < KERNBASE \<Longrightarrow> uview (km_mem s2) pgdir va = (if pg va = n then None else uview (km_mem s) pgdir va)"
          and f2: "\<And>f. fresh kend pgdir ps (km_mem s) f \<Longrightarrow> fresh kend pgdir (frame ?e # ps) (km_mem s2) f" by blast
        have "frame ?e \<noteq> P2V 0"
          using user_frame(1) [OF less.prems(1) page_index_less [OF n19] i(2) True] vmD(1) [OF less.prems(1)]
          by (auto simp: page_valid_def P2V_def)
        then have "PTE_ADDR ?e \<noteq> 0" by (auto simp: frame_def)
        then have step: "dealloc_from kend pgdir sz (va_of n) s = dealloc_from kend pgdir sz (va_of (Suc n)) s2"
          by (subst dealloc_from.simps) (use True s1 in \<open>simp add: lt w nz l present_def vi(4) frame_def\<close>)
        have dr: "dropped n (pages_to sz) pgdir (km_mem s) m'" if "dropped (Suc n) (pages_to sz) pgdir (km_mem s2) m'" for m'
          using n by (intro dropped_cong [OF that]) (auto simp: v2)
        from less.hyps [OF nx(2) s1(3) nx(1)] obtain s' ps' where
          r: "dealloc_from kend pgdir sz (va_of (Suc n)) s2 = Some (Inr s')" "vm kend pgdir ps' s'" "length (frame ?e # ps) \<le> length ps'"
            "dropped (Suc n) (pages_to sz) pgdir (km_mem s2) (km_mem s')"
          and ff: "\<And>f. fresh kend pgdir (frame ?e # ps) (km_mem s2) f \<Longrightarrow> fresh kend pgdir ps' (km_mem s') f" by blast
        have "length ps \<le> length ps'" using r(3) by simp
        then show ?thesis using r(1,2) dr [OF r(4)] ff [OF f2] unfolding step by blast
      qed
    qed
  qed
qed

lemma PGROUNDUP_va_of:
  assumes "sz \<le> KERNBASE"
  shows "PGROUNDUP sz = va_of (pages_to sz)"
proof -
  have "unat sz \<le> 2 ^ 31" using assms by (simp add: word_le_nat_alt KERNBASE_def)
  then have "unat (PGROUNDUP sz) = pages_to sz * 4096" by (subst unat_PGROUNDUP) (simp_all add: pages_to_def)
  then show ?thesis using unat_va_of [OF pages_to_le [OF assms]] by (simp add: word_unat_eq_iff)
qed

lemma deallocuvm_ok:
  assumes "vm kend pgdir ps s" "oldsz \<le> KERNBASE" "newsz < oldsz"
  shows "\<exists>s' ps'. deallocuvm kend pgdir oldsz newsz s = Inr (newsz, s') \<and> vm kend pgdir ps' s' \<and> length ps \<le> length ps' \<and>
    dropped (pages_to newsz) (pages_to oldsz) pgdir (km_mem s) (km_mem s') \<and>
    (\<forall>f. fresh kend pgdir ps (km_mem s) f \<longrightarrow> fresh kend pgdir ps' (km_mem s') f)"
proof -
  have le: "newsz \<le> KERNBASE" using assms(2,3) by simp
  from dealloc_loop [OF assms(1) pages_to_le [OF le] assms(2)] assms(3) show ?thesis
    by (auto simp: deallocuvm_def PGROUNDUP_va_of [OF le] returns_def)
qed

section \<open>Growing\<close>

definition user_flags :: u32 where "user_flags = PTE_W OR PTE_U OR PTE_P"

definition grown :: "nat \<Rightarrow> nat \<Rightarrow> u32 \<Rightarrow> mem \<Rightarrow> mem \<Rightarrow> bool" where    \<comment> \<open>zeroed pages from \<open>a\<close> to \<open>b\<close>\<close>
  "grown a b pgdir m m' \<longleftrightarrow>
     (\<forall>va < KERNBASE. uview m' pgdir va = (if a \<le> pg va \<and> pg va < b then Some (0, user_flags) else uview m pgdir va))"

lemma alloc_fails:
  assumes vm: "vm kend pgdir ps s" and sz: "newsz < KERNBASE" "pages_to oldsz < pages_to newsz"
  shows "\<exists>s' ps'. deallocuvm kend pgdir newsz oldsz s = Inr (oldsz, s') \<and> vm kend pgdir ps' s' \<and> length ps \<le> length ps' \<and>
    dropped (pages_to oldsz) (pages_to newsz) pgdir (km_mem s) (km_mem s') \<and>
    (\<forall>f. fresh kend pgdir ps (km_mem s) f \<longrightarrow> fresh kend pgdir ps' (km_mem s') f)"
proof -
  have "oldsz < newsz"
  proof (rule ccontr)
    assume "\<not> oldsz < newsz"
    then have "pages_to newsz \<le> pages_to oldsz" by (simp add: pages_to_def not_less word_le_nat_alt div_le_mono)
    then show False using sz(2) by simp
  qed
  then show ?thesis using sz by (intro deallocuvm_ok [OF vm]) simp_all
qed

lemma view_same_map:
  assumes vm: "vm kend pgdir ps s" and f: "fresh kend pgdir ps (km_mem s) f" and sm: "same_map pgdir (km_mem s) m'"
    and out: "\<And>x. \<not> in_page x f \<Longrightarrow> m' x = km_mem s x" and va: "va < KERNBASE"
  shows "uview m' pgdir va = uview (km_mem s) pgdir va"
proof (rule uview_cong)
  have vi: "pdx va < 512" "ptx va < 1024" using user_index [OF va] ptx_less by simp_all
  show "ent m' pgdir (pdx va) (ptx va) = ent (km_mem s) pgdir (pdx va) (ptx va)" using same_mapD(2) [OF sm] vi by simp
  fix x assume p: "present (ent (km_mem s) pgdir (pdx va) (ptx va))" "in_page x (frame (ent (km_mem s) pgdir (pdx va) (ptx va)))"
  show "m' x = km_mem s x"
    using page_valid_aligned [OF freshD(1) [OF f]] page_valid_aligned [OF user_frame(1) [OF vm vi p(1)]] freshD(4) [OF f vi p(1)]
    by (intro page_untouched [where p = f and m' = m' and m = "km_mem s", OF out _ _ _ p(2)]) auto
qed

text \<open>A zeroed page taken from the free list.\<close>

lemma zeroed_page:
  assumes "vm kend pgdir (f # ps) s"
  shows "\<exists>s1 s2. kalloc s = (f, s1) \<and> f \<noteq> 0 \<and> s2 = kset (memset (km_mem s1) f 0 PGSIZE) s1 \<and> vm kend pgdir ps s2 \<and>
    fresh kend pgdir ps (km_mem s2) f \<and> (\<forall>va. km_mem s2 (f + va mod PGSIZE) = 0) \<and>
    (\<forall>va < KERNBASE. uview (km_mem s2) pgdir va = uview (km_mem s) pgdir va)"
proof -
  from vm_pop [OF assms] obtain s1 where s1: "kalloc s = (f, s1)" "f \<noteq> 0" "vm kend pgdir ps s1"
    "fresh kend pgdir ps (km_mem s1) f" "km_mem s1 = km_mem s" by blast
  define s2 where "s2 = kset (memset (km_mem s1) f 0 PGSIZE) s1"
  note f = freshD [OF s1(4)]
  have out: "km_mem s2 x = km_mem s1 x" if "\<not> in_page x f" for x using that by (simp add: s2_def kset_def memset_spec PGSIZE_def)
  then have "writes_page f s1 s2" by (simp add: writes_page_def s2_def kset_def)
  from vm_write [OF s1(3) f(1-3) this] have vm2: "vm kend pgdir ps s2" and sm: "same_map pgdir (km_mem s1) (km_mem s2)" by auto
  have "km_mem s2 (f + va mod PGSIZE) = 0" for va
    using offset_in_page [of f va] by (simp add: s2_def kset_def memset_spec PGSIZE_def)
  moreover have "uview (km_mem s2) pgdir va = uview (km_mem s) pgdir va" if "va < KERNBASE" for va
    using view_same_map [OF s1(3,4) sm out that] s1(5) by simp
  ultimately show ?thesis using s1 vm2 same_mapD(6) [OF sm] by (auto simp: s2_def)
qed

lemma user_flags: "take_bit 12 (PTE_W OR PTE_U OR PTE_P) = PTE_W OR PTE_U OR PTE_P"
  by (simp add: PTE_P_def PTE_W_def PTE_U_def)

lemma pg_va_of: "n \<le> 2 ^ 19 \<Longrightarrow> pg (va_of n) = n"
  by (simp add: pg_def unat_va_of)

lemma va_of_user: "n < 2 ^ 19 \<Longrightarrow> va_of n < KERNBASE"
  by (simp add: word_less_nat_alt unat_va_of KERNBASE_def)

lemma dropped_trans:
  assumes "dropped a b pgdir m1 m'" "a \<le> n" "n < b" "\<And>va. va < KERNBASE \<Longrightarrow> pg va \<noteq> n \<Longrightarrow> uview m1 pgdir va = uview m pgdir va"
  shows "dropped a b pgdir m m'"
  using assms unfolding dropped_def by auto

lemma alloc_loop:
  assumes "vm kend pgdir ps s" "n \<le> 2 ^ 19" "newsz < KERNBASE" "pages_to oldsz \<le> n"
    and "\<And>va. va < KERNBASE \<Longrightarrow> n \<le> pg va \<Longrightarrow> pg va < pages_to newsz \<Longrightarrow> uview (km_mem s) pgdir va = None"
  shows "\<exists>r s' ps'. alloc_from kend pgdir oldsz newsz (va_of n) s = Some (Inr (r, s')) \<and> vm kend pgdir ps' s' \<and>
    (r = newsz \<and> grown n (pages_to newsz) pgdir (km_mem s) (km_mem s') \<or>
     r = 0 \<and> length ps < 2 * (pages_to newsz - n) \<and> dropped (pages_to oldsz) (pages_to newsz) pgdir (km_mem s) (km_mem s'))"
  using assms(1,2,4,5)
proof (induction "pages_to newsz - n" arbitrary: n s ps)
  case 0
  then have "\<not> va_of n < newsz" using below_iff [of n newsz] by simp
  then have "alloc_from kend pgdir oldsz newsz (va_of n) s = Some (Inr (newsz, s))" by (subst alloc_from.simps) simp
  moreover have "grown n (pages_to newsz) pgdir (km_mem s) (km_mem s)" using 0(1) by (auto simp: grown_def)
  ultimately show ?case using 0(2) by blast
next
  case (Suc k)
  have N: "pages_to newsz \<le> 2 ^ 19" using pages_to_le [of newsz] assms(3) by simp
  have n: "n < pages_to newsz" "n < 2 ^ 19" "va_of n < newsz" using Suc.hyps(2) N below_iff [OF Suc.prems(2)] by auto
  have lt: "pages_to oldsz < pages_to newsz" using Suc.prems(3) n(1) by simp
  show ?case
  proof (cases ps)
    case Nil
    have "kalloc s = (0, s)" using vmD(2) [OF Suc.prems(1)] Nil by (simp add: kalloc_empty)
    then have step: "alloc_from kend pgdir oldsz newsz (va_of n) s = Some (bindE (deallocuvm kend pgdir newsz oldsz s) (\<lambda>(_, s). Inr (0, s)))"
      by (subst alloc_from.simps) (simp add: n(3))
    from alloc_fails [OF Suc.prems(1) assms(3) lt] show ?thesis unfolding step using n(1) Nil by auto
  next
    case (Cons f qs)
    from zeroed_page [OF Suc.prems(1) [unfolded Cons]] obtain s1 s2 where s1: "kalloc s = (f, s1)" "f \<noteq> 0"
      and s2: "kset (memset (km_mem s1) f 0 PGSIZE) s1 = s2" "vm kend pgdir qs s2" "fresh kend pgdir qs (km_mem s2) f"
      and z: "\<And>va. km_mem s2 (f + va mod PGSIZE) = 0"
      and v2: "\<And>va. va < KERNBASE \<Longrightarrow> uview (km_mem s2) pgdir va = uview (km_mem s) pgdir va" by blast
    have none: "uview (km_mem s2) pgdir (va_of n) = None"
      using v2 [OF va_of_user [OF n(2)]] Suc.prems(4) [OF va_of_user [OF n(2)]] n pg_va_of [of n] by simp
    from map_page [OF s2(2) n(2) s2(3) user_flags [folded or.assoc] none] show ?thesis
    proof (elim disjE conjE exE)
      assume m: "mappages pgdir (va_of n) PGSIZE (V2P f) (PTE_W OR PTE_U) s2 = Inr (-1, s2)" "qs = []"
      from alloc_fails [OF s2(2) assms(3) lt] obtain s3 ps3 where d: "deallocuvm kend pgdir newsz oldsz s2 = Inr (oldsz, s3)"
        "vm kend pgdir ps3 s3" "dropped (pages_to oldsz) (pages_to newsz) pgdir (km_mem s2) (km_mem s3)"
        "fresh kend pgdir ps3 (km_mem s3) f" using s2(3) by blast
      from vm_push [OF d(2,4)] obtain s4 where s4: "kfree kend f s3 = Inr s4" "vm kend pgdir (f # ps3) s4"
        "same_map pgdir (km_mem s3) (km_mem s4)" "\<And>x. \<not> in_page x f \<Longrightarrow> km_mem s4 x = km_mem s3 x" by blast
      have "alloc_from kend pgdir oldsz newsz (va_of n) s = Some (Inr (0, s4))"
        by (subst alloc_from.simps) (simp add: n(3) s1 s2(1) m d(1) s4(1))
      moreover have "dropped (pages_to oldsz) (pages_to newsz) pgdir (km_mem s) (km_mem s4)"
        using d(3) v2 view_same_map [OF d(2,4) s4(3,4)] by (simp add: dropped_def)
      moreover have "length ps < 2 * (pages_to newsz - n)" using Cons m(2) n(1) by simp
      ultimately show ?thesis using s4(2) by blast
    next
      fix s3 ps3
      assume m: "mappages pgdir (va_of n) PGSIZE (V2P f) (PTE_W OR PTE_U) s2 = Inr (0, s3)" and vm3: "vm kend pgdir ps3 s3"
        and len: "length qs \<le> Suc (length ps3)"
        and "\<forall>va < KERNBASE. uview (km_mem s3) pgdir va =
           (if pg va = n then Some (km_mem s2 (f + va mod PGSIZE), (PTE_W OR PTE_U) OR PTE_P) else uview (km_mem s2) pgdir va)"
      then have v3: "uview (km_mem s3) pgdir va = (if pg va = n then Some (0, user_flags) else uview (km_mem s) pgdir va)"
        if "va < KERNBASE" for va using that z v2 by (simp add: user_flags_def or.assoc)
      have step: "alloc_from kend pgdir oldsz newsz (va_of n) s = alloc_from kend pgdir oldsz newsz (va_of (Suc n)) s3"
        by (subst alloc_from.simps) (simp add: n(3) s1 s2(1) m va_of_index(4) [OF less_imp_le [OF n(2)]])
      have k: "k = pages_to newsz - Suc n" "Suc n \<le> 2 ^ 19" "pages_to oldsz \<le> Suc n" using Suc.hyps(2) n(2) Suc.prems(3) by simp_all
      have "uview (km_mem s3) pgdir va = None" if "va < KERNBASE" "Suc n \<le> pg va" "pg va < pages_to newsz" for va
        using v3 [OF that(1)] Suc.prems(4) [OF that(1)] that(2,3) by simp
      from Suc.hyps(1) [OF k(1) vm3 k(2,3) this] obtain r s' ps' where
        r: "alloc_from kend pgdir oldsz newsz (va_of (Suc n)) s3 = Some (Inr (r, s'))" "vm kend pgdir ps' s'"
        and c: "r = newsz \<and> grown (Suc n) (pages_to newsz) pgdir (km_mem s3) (km_mem s') \<or>
          r = 0 \<and> length ps3 < 2 * (pages_to newsz - Suc n) \<and> dropped (pages_to oldsz) (pages_to newsz) pgdir (km_mem s3) (km_mem s')" by blast
      have "grown n (pages_to newsz) pgdir (km_mem s) (km_mem s')" if "grown (Suc n) (pages_to newsz) pgdir (km_mem s3) (km_mem s')"
        using that v3 n(1) by (auto simp: grown_def)
      moreover have "dropped (pages_to oldsz) (pages_to newsz) pgdir (km_mem s) (km_mem s')"
        if "dropped (pages_to oldsz) (pages_to newsz) pgdir (km_mem s3) (km_mem s')"
        by (rule dropped_trans [OF that Suc.prems(3) n(1)]) (simp add: v3)
      moreover have "length ps < 2 * (pages_to newsz - n)" if "length ps3 < 2 * (pages_to newsz - Suc n)"
        using that len Cons by simp
      ultimately show ?thesis using r c unfolding step by blast
    qed
  qed
qed

section \<open>Address spaces\<close>

lemma round_le_iff:
  assumes "sz \<le> KERNBASE"
  shows "PGROUNDUP sz \<le> va \<longleftrightarrow> pages_to sz \<le> pg va"
proof -
  have "4096 * k \<le> a \<longleftrightarrow> k \<le> a div 4096" for k a :: nat by (simp add: less_eq_div_iff_mult_less_eq mult.commute)
  then show ?thesis
    unfolding PGROUNDUP_va_of [OF assms] word_le_nat_alt unat_va_of [OF pages_to_le [OF assms]] pg_def .
qed

text \<open>An address space with an empty directory and two free pages.\<close>

definition example_vm :: kmem where
  "example_vm = \<lparr>use_lock = 0, freelist = 0x80401000, km_mem = store4 (\<lambda>_. 0) 0x80401000 0x80402000\<rparr>"

lemma example_vm_empty: "i < 1024 \<Longrightarrow> table (km_mem example_vm) 0x80400000 i = None"
proof -
  assume i: "i < 1024"
  have "pw (store4 (\<lambda>_. 0) (0x80401000 + 4 * of_nat 0) 0x80402000) 0x80400000 i = pw (\<lambda>_. 0) 0x80400000 i"
    by (subst pw_store [OF _ _ _ i]) (simp_all add: PGSIZE_def)
  then have "pw (km_mem example_vm) 0x80400000 i = 0" by (simp add: example_vm_def pw_def load4_def)
  then show ?thesis by (simp add: table_def present_0)
qed

lemma example_vm_ok: "vm 0x80300000 0x80400000 [0x80401000, 0x80402000] example_vm"
proof -
  have tb: "tabs (km_mem example_vm) 0x80400000 = {0x80400000}" by (auto simp: tabs_def example_vm_empty)
  have "\<not> present (ent (km_mem example_vm) 0x80400000 i j)" if "i < 512" for i j
    using example_vm_empty [of i] that present_0 by (simp add: ent_def)
  then have "user_wf 0x80300000 0x80400000 [0x80401000, 0x80402000] (km_mem example_vm)" by (simp add: user_wf_def)
  moreover have "dir_wf 0x80300000 0x80400000 [0x80401000, 0x80402000] (km_mem example_vm)"
    by (rule dir_wfI) (simp_all add: tb example_vm_empty page_valid_def PGSIZE_def V2P_def KERNBASE_def PHYSTOP_def)
  moreover have "free_pages 0x80300000 example_vm [0x80401000, 0x80402000]"
    by (simp add: free_pages_def example_vm_def page_valid_def PGSIZE_def V2P_def KERNBASE_def PHYSTOP_def load4_store4)
      (simp add: load4_def store4_def)
  ultimately show ?thesis by (simp add: vm_def KERNBASE_def)
qed

lemma page_bounds:
  assumes "lo \<le> KERNBASE" "hi \<le> KERNBASE"
  shows "PGROUNDUP lo \<le> va \<and> va < PGROUNDUP hi \<longleftrightarrow> pages_to lo \<le> pg va \<and> pg va < pages_to hi"
  using round_le_iff [OF assms(1)] round_le_iff [OF assms(2), of va] by auto

lemma deallocuvm_view:
  assumes vm: "vm kend pgdir ps s" and lo: "lo \<le> hi" and hi: "hi \<le> KERNBASE"
  shows "\<exists>s' ps'. deallocuvm kend pgdir hi lo s = Inr (lo, s') \<and> vm kend pgdir ps' s' \<and>
    (\<forall>va < KERNBASE. uview (km_mem s') pgdir va =
       (if PGROUNDUP lo \<le> va \<and> va < PGROUNDUP hi then None else uview (km_mem s) pgdir va))"
proof (cases "lo = hi")
  case True
  then have "deallocuvm kend pgdir hi lo s = Inr (lo, s)" by (simp add: deallocuvm_def)
  then show ?thesis using vm True by (intro exI [of _ s] exI [of _ ps]) auto
next
  case False
  then have "lo < hi" "lo \<le> KERNBASE" using lo hi by simp_all
  then show ?thesis unfolding page_bounds [OF \<open>lo \<le> KERNBASE\<close> hi]
    using deallocuvm_ok [OF vm hi, of lo] unfolding dropped_def by blast
qed

lemma allocuvm_view:
  assumes vm: "vm kend pgdir ps s" and lo: "lo \<le> hi" and hi: "hi < KERNBASE"
    and none: "\<And>va. va < KERNBASE \<Longrightarrow> PGROUNDUP lo \<le> va \<Longrightarrow> uview (km_mem s) pgdir va = None"
  shows "\<exists>r s' ps'. allocuvm kend pgdir lo hi s = Inr (r, s') \<and> vm kend pgdir ps' s' \<and>
    (r = hi \<and> (\<forall>va < KERNBASE. uview (km_mem s') pgdir va =
        (if PGROUNDUP lo \<le> va \<and> va < PGROUNDUP hi then Some (0, user_flags) else uview (km_mem s) pgdir va)) \<or>
     r = 0 \<and> length ps < 2 * (pages_to hi - pages_to lo) \<and> (\<forall>va < KERNBASE. uview (km_mem s') pgdir va = uview (km_mem s) pgdir va))"
proof -
  have b: "lo \<le> KERNBASE" "hi \<le> KERNBASE" using lo hi by simp_all
  have n: "uview (km_mem s) pgdir va = None" if "va < KERNBASE" "pages_to lo \<le> pg va" for va
    using none that round_le_iff [OF b(1)] by simp
  have "allocuvm kend pgdir lo hi s = returns (alloc_from kend pgdir lo hi (va_of (pages_to lo)) s)"
    using leD [OF lo] leD [of KERNBASE hi] hi by (auto simp: allocuvm_def PGROUNDUP_va_of [OF b(1)])
  moreover from alloc_loop [OF vm pages_to_le [OF b(1)] hi order_refl n] obtain r s' ps' where
    r: "alloc_from kend pgdir lo hi (va_of (pages_to lo)) s = Some (Inr (r, s'))" "vm kend pgdir ps' s'"
    and c: "r = hi \<and> grown (pages_to lo) (pages_to hi) pgdir (km_mem s) (km_mem s') \<or>
      r = 0 \<and> length ps < 2 * (pages_to hi - pages_to lo) \<and> dropped (pages_to lo) (pages_to hi) pgdir (km_mem s) (km_mem s')" by blast
  moreover have "uview (km_mem s') pgdir va = uview (km_mem s) pgdir va"
    if "dropped (pages_to lo) (pages_to hi) pgdir (km_mem s) (km_mem s')" "va < KERNBASE" for va
    using that n [OF that(2)] by (auto simp: dropped_def)
  ultimately show ?thesis unfolding page_bounds [OF b] by (auto simp: returns_def grown_def)
qed

text \<open> C7. Growing and shrinking user memory. Take an address space whose directory, page tables and user pages are
  distinct pages in use, with no page at or above the rounded old size. Then \<open>allocuvm\<close> either makes exactly the
  addresses between the rounded sizes show zeroed, writable user pages and leaves every other user address as it was,
  or, only when fewer than two free pages per new page are left, returns 0 with all user memory as it was.
  \<open>deallocuvm\<close> makes exactly the addresses between the rounded sizes absent. Both keep the address space well formed.\<close>

theorem address_space_resize:
  assumes "vm kend pgdir ps s" "lo \<le> hi" "hi < KERNBASE"
  shows "((\<forall>va < KERNBASE. PGROUNDUP lo \<le> va \<longrightarrow> uview (km_mem s) pgdir va = None) \<longrightarrow>
      (\<exists>r s' ps'. allocuvm kend pgdir lo hi s = Inr (r, s') \<and> vm kend pgdir ps' s' \<and>
        (r = hi \<and> (\<forall>va < KERNBASE. uview (km_mem s') pgdir va =
            (if PGROUNDUP lo \<le> va \<and> va < PGROUNDUP hi then Some (0, user_flags) else uview (km_mem s) pgdir va)) \<or>
         r = 0 \<and> length ps < 2 * (pages_to hi - pages_to lo) \<and> (\<forall>va < KERNBASE. uview (km_mem s') pgdir va = uview (km_mem s) pgdir va)))) \<and>
    (\<exists>s' ps'. deallocuvm kend pgdir hi lo s = Inr (lo, s') \<and> vm kend pgdir ps' s' \<and>
        (\<forall>va < KERNBASE. uview (km_mem s') pgdir va =
           (if PGROUNDUP lo \<le> va \<and> va < PGROUNDUP hi then None else uview (km_mem s) pgdir va)))"
proof (intro conjI impI)
  assume "\<forall>va < KERNBASE. PGROUNDUP lo \<le> va \<longrightarrow> uview (km_mem s) pgdir va = None"
  then show "\<exists>r s' ps'. allocuvm kend pgdir lo hi s = Inr (r, s') \<and> vm kend pgdir ps' s' \<and>
    (r = hi \<and> (\<forall>va < KERNBASE. uview (km_mem s') pgdir va =
        (if PGROUNDUP lo \<le> va \<and> va < PGROUNDUP hi then Some (0, user_flags) else uview (km_mem s) pgdir va)) \<or>
     r = 0 \<and> length ps < 2 * (pages_to hi - pages_to lo) \<and> (\<forall>va < KERNBASE. uview (km_mem s') pgdir va = uview (km_mem s) pgdir va))"
    by (intro allocuvm_view [OF assms]) simp
qed (use assms in \<open>intro deallocuvm_view, simp_all\<close>)

theorem address_space_resize_witness:
  "\<exists>s'. allocuvm 0x80300000 0x80400000 0 0x1000 example_vm = Inr (0x1000, s') \<and> uview (km_mem s') 0x80400000 5 = Some (0, user_flags)"
proof -
  have none: "uview (km_mem example_vm) 0x80400000 va = None" if "va < KERNBASE" for va
    using example_vm_empty [of "pdx va"] pdx_less [of va] present_0 by (simp add: uview_None ent_def)
  have "(0 :: u32) \<le> 0x1000" "(0x1000 :: u32) < KERNBASE" by (simp_all add: KERNBASE_def)
  from address_space_resize [OF example_vm_ok this] none obtain r s' where
    "allocuvm 0x80300000 0x80400000 0 0x1000 example_vm = Inr (r, s')"
    and c: "r = 0x1000 \<and> (\<forall>va < KERNBASE. uview (km_mem s') 0x80400000 va =
        (if PGROUNDUP 0 \<le> va \<and> va < PGROUNDUP 0x1000 then Some (0, user_flags) else uview (km_mem example_vm) 0x80400000 va)) \<or>
      r = 0 \<and> length [0x80401000, 0x80402000 :: u32] < 2 * (pages_to 0x1000 - pages_to 0)" by blast
  moreover have "\<not> length [0x80401000, 0x80402000 :: u32] < 2 * (pages_to 0x1000 - pages_to 0)" by (simp add: pages_to_def)
  moreover have "PGROUNDUP 0 \<le> 5" "5 < PGROUNDUP 0x1000" "(5 :: u32) < KERNBASE" by (simp_all add: PGROUNDUP_def PGSIZE_def KERNBASE_def)
  ultimately show ?thesis by auto
qed

end
