(* ===== verification/Xv6_Sh.thy ===== *)
theory Xv6_Sh
  imports Prelude
begin

text \<open>
  The xv6 shell (\<open>sh.c\<close>): its tokens, its recursive descent parser and \<open>nulterminate\<close>. The pointers \<open>s\<close> and \<open>es\<close>
  into the line buffer are positions; \<open>b\<close> is the string in the buffer, so \<open>es\<close> is its length and the character
  there is the NUL. A command holds the positions where its words start and end, as the structs do. The shell's
  \<open>panic\<close>, which prints a message and exits, is the error \<open>Panic\<close>; \<open>malloc\<close> is taken to succeed.
\<close>

unbundle bit_operations_syntax

declare bindE_cong [fundef_cong]

section \<open>Commands\<close>

definition MAXARGS :: nat where "MAXARGS = 10"
definition whitespace :: string where "whitespace = [CHR '' '', CHR 0x09, CHR 0x0D, CHR 0x0A, CHR 0x0B]"
definition symbols :: string where "symbols = ''<|>&;()''"

datatype 'w cmd =
    EXEC "'w list"
  | REDIR "'w cmd" 'w u32 int
  | PIPE "'w cmd" "'w cmd"
  | LIST "'w cmd" "'w cmd"
  | BACK "'w cmd"

definition RD_MODE :: u32 where "RD_MODE = 0"        \<comment> \<open>\<open>O_RDONLY\<close>\<close>
definition WR_MODE :: u32 where "WR_MODE = 0x001 OR 0x200"    \<comment> \<open>\<open>O_WRONLY|O_CREATE\<close>\<close>

section \<open>Tokens\<close>

definition line_char :: "string \<Rightarrow> nat \<Rightarrow> char" where    \<comment> \<open>\<open>*s\<close>\<close>
  "line_char b s = (if s < length b then b ! s else CHR 0x00)"

function skip :: "(char \<Rightarrow> bool) \<Rightarrow> string \<Rightarrow> nat \<Rightarrow> nat" where    \<comment> \<open>\<open>while(s < es && ...) s++\<close>\<close>
  "skip P b s = (if s < length b \<and> P (b ! s) then skip P b (Suc s) else s)"
  by pat_completeness auto
termination by (relation "measure (\<lambda>(P, b, s). length b - s)") auto

declare skip.simps [simp del]

abbreviation skip_ws :: "string \<Rightarrow> nat \<Rightarrow> nat" where "skip_ws \<equiv> skip (\<lambda>c. c \<in> set whitespace)"

definition gettoken :: "string \<Rightarrow> nat \<Rightarrow> char \<times> nat \<times> nat \<times> nat" where    \<comment> \<open>the token, \<open>*q\<close>, \<open>*eq\<close> and \<open>*ps\<close>\<close>
  "gettoken b s =
     (let q = skip_ws b s; c = line_char b q;
          (ret, e) =
            (if c = CHR 0x00 then (c, q)
             else if c \<in> set ''|();&<'' then (c, q + 1)
             else if c = CHR ''>'' then (if line_char b (q + 1) = CHR ''>'' then (CHR ''+'', q + 2) else (c, q + 1))
             else (CHR ''a'', skip (\<lambda>c. c \<notin> set whitespace \<and> c \<notin> set symbols) b q))
      in (ret, q, e, skip_ws b e))"

definition peek :: "string \<Rightarrow> nat \<Rightarrow> string \<Rightarrow> bool \<times> nat" where
  "peek b s toks = (let s = skip_ws b s in (line_char b s \<noteq> CHR 0x00 \<and> line_char b s \<in> set toks, s))"

section \<open>The parser\<close>

lemma skip_ge: "s \<le> skip P b s"
proof (induction P b s rule: skip.induct)
  case (1 P b s)
  then show ?case by (subst skip.simps) (simp add: Suc_leD)
qed

lemma peek_le: "peek b s toks = (p, s') \<Longrightarrow> s \<le> s' \<and> (p \<longrightarrow> s' < length b)"
  using skip_ge by (auto simp: peek_def Let_def line_char_def split: if_splits)

lemma gettoken_le: "gettoken b s = (t, q, e, s') \<Longrightarrow> s \<le> q \<and> q \<le> e \<and> e \<le> s'"
proof -
  assume "gettoken b s = (t, q, e, s')"
  then have "q = skip_ws b s" "s' = skip_ws b e" "q \<le> e"
    using skip_ge by (auto simp: gettoken_def Let_def split: if_splits prod.splits)
  then show ?thesis using skip_ge by simp
qed

lemma skip_spec:
  "(s \<le> length b \<longrightarrow> skip P b s \<le> length b) \<and> (\<forall>k. s \<le> k \<and> k < skip P b s \<longrightarrow> P (b ! k)) \<and> (skip P b s < length b \<longrightarrow> \<not> P (b ! skip P b s))"
proof (induction P b s rule: skip.induct)
  case (1 P b s)
  show ?case
  proof (cases "s < length b \<and> P (b ! s)")
    case True
    then have "skip P b s = skip P b (Suc s)" by (subst skip.simps) simp
    moreover have "P (b ! k)" if "s \<le> k" "k < skip P b (Suc s)" for k
      using 1 [OF True] True that by (cases "k = s") auto
    ultimately show ?thesis using 1 [OF True] True by auto
  next
    case False
    then have "skip P b s = s" by (subst skip.simps) auto
    then show ?thesis using False by auto
  qed
qed

lemma skip_step: "s < length b \<Longrightarrow> P (b ! s) \<Longrightarrow> s < skip P b s"
  using skip_ge [of "Suc s" P b] by (subst skip.simps) simp

lemma gettoken_parts:
  assumes "gettoken b s = (t, q, e, s')"
  shows "q = skip_ws b s" "s' = skip_ws b e" "t = CHR 0x00 \<longleftrightarrow> line_char b q = CHR 0x00" "t = CHR 0x00 \<longrightarrow> e = q" "t \<noteq> CHR 0x00 \<longrightarrow> q < e"
proof -
  show q: "q = skip_ws b s" and s': "s' = skip_ws b e" using assms by (auto simp: gettoken_def Let_def split: if_splits prod.splits)
  have w: "q < skip (\<lambda>c. c \<notin> set whitespace \<and> c \<notin> set symbols) b q"
    if c: "line_char b q \<noteq> CHR 0x00" "line_char b q \<notin> set ''|();&<''" "line_char b q \<noteq> CHR ''>''"
  proof -
    have ql: "q < length b" "line_char b q = b ! q" using c(1) by (auto simp: line_char_def split: if_splits)
    then have "b ! q \<notin> set whitespace" using skip_spec [of s b "\<lambda>c. c \<in> set whitespace"] q by simp
    moreover have "b ! q \<notin> set symbols" using c(2,3) ql by (auto simp: symbols_def)
    ultimately show ?thesis using ql by (intro skip_step) simp_all
  qed
  show "t = CHR 0x00 \<longleftrightarrow> line_char b q = CHR 0x00" "t = CHR 0x00 \<longrightarrow> e = q" "t \<noteq> CHR 0x00 \<longrightarrow> q < e"
    using assms w by (auto simp: gettoken_def Let_def q [symmetric] split: if_splits prod.splits)
qed

lemma gettoken_advances: "gettoken b s = (t, q, e, s') \<Longrightarrow> t \<noteq> CHR 0x00 \<Longrightarrow> s < s' \<and> q < length b"
proof -
  assume g: "gettoken b s = (t, q, e, s')" and t: "t \<noteq> CHR 0x00"
  note p = gettoken_parts [OF g]
  have "line_char b q \<noteq> CHR 0x00" using p(3) t by simp
  then have "q < length b" by (auto simp: line_char_def split: if_splits)
  moreover have "s < s'" using p(5) t gettoken_le [OF g] by simp
  ultimately show ?thesis by simp
qed

lemma peek_gettoken:
  assumes "peek b s toks = (True, s1)" "gettoken b s1 = (t, q, e, s')"
  shows "s < s'" "s < length b"
proof -
  have s1: "s1 = skip_ws b s" "line_char b s1 \<noteq> CHR 0x00" using assms(1) by (auto simp: peek_def Let_def)
  have "skip_ws b s1 = s1"
    using skip_spec [of s b "\<lambda>c. c \<in> set whitespace"] s1(1) by (subst skip.simps) auto
  then have "t \<noteq> CHR 0x00" using gettoken_parts(1,3) [OF assms(2)] s1(2) by simp
  then show "s < s'" "s < length b"
    using gettoken_advances [OF assms(2)] peek_le [OF assms(1)] by auto
qed

function parseredirs :: "string \<Rightarrow> (nat \<times> nat) cmd \<Rightarrow> nat \<Rightarrow> ((nat \<times> nat) cmd \<times> nat) c_result" where
  "parseredirs b cmd s =
     (case peek b s ''<>'' of (p, s) \<Rightarrow>
        if p
        then (case gettoken b s of (tok, _, _, s) \<Rightarrow>
              case gettoken b s of (t, q, eq, s) \<Rightarrow>
                if t \<noteq> CHR ''a'' then Inl (Panic ''missing file for redirection'')
                else parseredirs b
                       (if tok = CHR ''<'' then REDIR cmd (q, eq) RD_MODE 0
                        else if tok = CHR ''>'' then REDIR cmd (q, eq) WR_MODE 1
                        else if tok = CHR ''+'' then REDIR cmd (q, eq) WR_MODE 1
                        else cmd) s)
        else Inr (cmd, s))"
  by pat_completeness auto
termination
proof (relation "measure (\<lambda>(b, c, s). length b - s)", goal_cases)
  case (2 b cmd s x y xa ya xb yb xc yc xd yd xe ye xf yf)
  then have g: "peek b s ''<>'' = (True, y)" "gettoken b y = (xa, xb, xc, yc)" "gettoken b yc = (xd, xe, xf, yf)" by auto
  show ?case using peek_gettoken [OF g(1,2)] gettoken_le [OF g(3)] by auto
qed simp

declare parseredirs.simps [simp del]

lemma parseredirs_le: "parseredirs b cmd s = Inr (cmd', s') \<Longrightarrow> s \<le> s'"
proof (induction b cmd s rule: parseredirs.induct)
  case (1 b cmd s)
  obtain p s1 where p: "peek b s ''<>'' = (p, s1)" by fastforce
  show ?case
  proof (cases p)
    case False
    then show ?thesis using 1(2) p peek_le [OF p] by (subst (asm) parseredirs.simps) simp
  next
    case True
    obtain tok q1 e1 s2 t q e s3 where g: "gettoken b s1 = (tok, q1, e1, s2)" "gettoken b s2 = (t, q, e, s3)" by (metis prod_cases4)
    have "t = CHR ''a''" using 1(2) p True g by (subst (asm) parseredirs.simps) (simp split: if_splits)
    then have "s3 \<le> s'" using 1(1) [OF p [symmetric] True g(1) [symmetric] refl refl g(2) [symmetric] refl refl] 1(2) p True g
      by (subst (asm) (2) parseredirs.simps) simp
    then show ?thesis using peek_le [OF p] gettoken_le [OF g(1)] gettoken_le [OF g(2)] by simp
  qed
qed

fun add_arg :: "'w \<Rightarrow> 'w cmd \<Rightarrow> 'w cmd" where    \<comment> \<open>\<open>cmd->argv[argc] = q\<close>, below the redirections around the \<open>execcmd\<close>\<close>
  "add_arg a (EXEC as) = EXEC (as @ [a])"
| "add_arg a (REDIR c f m fd) = REDIR (add_arg a c) f m fd"
| "add_arg a c = c"

function parse_args :: "string \<Rightarrow> (nat \<times> nat) cmd \<Rightarrow> nat \<Rightarrow> nat \<Rightarrow> ((nat \<times> nat) cmd \<times> nat) c_result" where
  "parse_args b ret argc s =
     (case peek b s ''|)&;'' of (p, s) \<Rightarrow>
        if p then Inr (ret, s)
        else (case gettoken b s of (tok, q, eq, s) \<Rightarrow>
                if tok = CHR 0x00 then Inr (ret, s)
                else if tok \<noteq> CHR ''a'' then Inl (Panic ''syntax'')
                else if argc + 1 \<ge> MAXARGS then Inl (Panic ''too many args'')
                else bindE (parseredirs b (add_arg (q, eq) ret) s) (\<lambda>(ret, s). parse_args b ret (argc + 1) s)))"
  by pat_completeness auto
termination
proof (relation "measure (\<lambda>(b, c, n, s). length b - s)", goal_cases)
  case (2 b ret argc s x y xa ya xb yb xc yc xd xe ye)
  then have g: "peek b s ''|)&;'' = (x, y)" "gettoken b y = (xa, xb, xc, yc)" "parseredirs b (add_arg (xb, xc) ret) yc = Inr (xe, ye)"
    "xa \<noteq> CHR 0x00" by auto
  show ?case using peek_le [OF g(1)] gettoken_advances [OF g(2,4)] gettoken_le [OF g(2)] parseredirs_le [OF g(3)] by auto
qed simp

declare parse_args.simps [simp del]

function parse_amps :: "string \<Rightarrow> 'w cmd \<Rightarrow> nat \<Rightarrow> 'w cmd \<times> nat" where    \<comment> \<open>the loop of \<open>parseline\<close>\<close>
  "parse_amps b cmd s =
     (case peek b s ''&'' of (p, s) \<Rightarrow>
        if p then (case gettoken b s of (_, _, _, s) \<Rightarrow> parse_amps b (BACK cmd) s) else (cmd, s))"
  by pat_completeness auto
termination
proof (relation "measure (\<lambda>(b, c, s). length b - s)", goal_cases)
  case (2 b cmd s x y xa ya xb yb xc yc)
  then have g: "peek b s ''&'' = (True, y)" "gettoken b y = (xa, xb, xc, yc)" by auto
  show ?case using peek_gettoken [OF g] by auto
qed simp

declare parse_amps.simps [simp del]

lemma parse_amps_le: "parse_amps b cmd s = (cmd', s') \<Longrightarrow> s \<le> s'"
proof (induction b cmd s rule: parse_amps.induct)
  case (1 b cmd s)
  obtain p s1 t q e s2 where g: "peek b s ''&'' = (p, s1)" "gettoken b s1 = (t, q, e, s2)" by (metis prod_cases4 surj_pair)
  show ?case
  proof (cases p)
    case False
    then show ?thesis using 1(2) g(1) peek_le [OF g(1)] by (subst (asm) parse_amps.simps) simp
  next
    case True
    then have "s2 \<le> s'" using 1(1) [OF g(1) [symmetric] True g(2) [symmetric] refl refl] 1(2) g by (subst (asm) (2) parse_amps.simps) simp
    then show ?thesis using peek_le [OF g(1)] gettoken_le [OF g(2)] by simp
  qed
qed

type_synonym parsed = "((nat \<times> nat) cmd \<times> nat) c_result"

lemma parse_args_le: "parse_args b ret argc s = Inr (cmd', s') \<Longrightarrow> s \<le> s'"
proof (induction b ret argc s rule: parse_args.induct)
  case (1 b ret argc s)
  obtain p s1 t q e s2 where g: "peek b s ''|)&;'' = (p, s1)" "gettoken b s1 = (t, q, e, s2)" by (metis prod_cases4 surj_pair)
  note le = peek_le [OF g(1)] gettoken_le [OF g(2)]
  consider "p" | "\<not> p" "t = CHR 0x00"
    | r s3 where "\<not> p" "t \<noteq> CHR 0x00" "\<not> t \<noteq> CHR ''a''" "\<not> MAXARGS \<le> argc + 1" "parseredirs b (add_arg (q, e) ret) s2 = Inr (r, s3)"
      "parse_args b r (argc + 1) s3 = Inr (cmd', s')"
    using 1(2) g by (subst (asm) parse_args.simps) (auto simp: bindE_eq_Inr_iff split: if_splits)
  then show ?case
  proof cases
    case 1
    then show ?thesis using "1.prems" g le by (subst (asm) parse_args.simps) simp
  next
    case 2
    then show ?thesis using "1.prems" g le by (subst (asm) parse_args.simps) simp
  next
    case (3 r s3)
    have "s3 \<le> s'" using "1.IH" [OF g(1) [symmetric] 3(1) g(2) [symmetric] refl refl 3(2,3,4,5) refl 3(6)] .
    then show ?thesis using le parseredirs_le [OF 3(5)] by simp
  qed
qed

function parseline :: "string \<Rightarrow> nat \<Rightarrow> parsed" and parsepipe :: "string \<Rightarrow> nat \<Rightarrow> parsed"
  and parseexec :: "string \<Rightarrow> nat \<Rightarrow> parsed" and parseblock :: "string \<Rightarrow> nat \<Rightarrow> parsed" where
  "parseline b s =
     bindE (parsepipe b s) (\<lambda>(cmd, s).
     case parse_amps b cmd s of (cmd, s) \<Rightarrow>
     case peek b s '';'' of (p, s) \<Rightarrow>
       if p then (case gettoken b s of (_, _, _, s) \<Rightarrow> bindE (parseline b s) (\<lambda>(r, s). Inr (LIST cmd r, s)))
       else Inr (cmd, s))"
| "parsepipe b s =
     bindE (parseexec b s) (\<lambda>(cmd, s).
     case peek b s ''|'' of (p, s) \<Rightarrow>
       if p then (case gettoken b s of (_, _, _, s) \<Rightarrow> bindE (parsepipe b s) (\<lambda>(r, s). Inr (PIPE cmd r, s)))
       else Inr (cmd, s))"
| "parseexec b s =
     (case peek b s ''('' of (p, s) \<Rightarrow>
        if p then parseblock b s
        else bindE (parseredirs b (EXEC []) s) (\<lambda>(ret, s). parse_args b ret 0 s))"
| "parseblock b s =
     (case peek b s ''('' of (p, s) \<Rightarrow>
        if \<not> p then Inl (Panic ''parseblock'')
        else (case gettoken b s of (_, _, _, s) \<Rightarrow>
              bindE (parseline b s) (\<lambda>(cmd, s).
              case peek b s '')'' of (p, s) \<Rightarrow>
                if \<not> p then Inl (Panic ''syntax - missing )'')
                else (case gettoken b s of (_, _, _, s) \<Rightarrow> parseredirs b cmd s))))"
  by pat_completeness auto

termination
proof -
  have le: "parseline_parsepipe_parseexec_parseblock_dom (Inl (Inl (b, s))) \<Longrightarrow> parseline b s = Inr (c, s') \<Longrightarrow> s \<le> s'"
    "parseline_parsepipe_parseexec_parseblock_dom (Inl (Inr (b, s))) \<Longrightarrow> parsepipe b s = Inr (c, s') \<Longrightarrow> s \<le> s'"
    "parseline_parsepipe_parseexec_parseblock_dom (Inr (Inl (b, s))) \<Longrightarrow> parseexec b s = Inr (c, s') \<Longrightarrow> s \<le> s'"
    "parseline_parsepipe_parseexec_parseblock_dom (Inr (Inr (b, s))) \<Longrightarrow> parseblock b s = Inr (c, s') \<Longrightarrow> s \<le> s'" for b s c s'
  proof (induction b s and b s and b s and b s arbitrary: c s' and c s' and c s' and c s' rule: parseline_parsepipe_parseexec_parseblock.pinduct)
    case (1 b s)
    from 1(1,4) obtain c1 s1 where g1: "parsepipe b s = Inr (c1, s1)"
      by (subst (asm) parseline.psimps) (auto simp: bindE_eq_Inr_iff)
    obtain c2 s2 p s3 t q e s4 where g: "parse_amps b c1 s1 = (c2, s2)" "peek b s2 '';'' = (p, s3)" "gettoken b s3 = (t, q, e, s4)"
      by (metis prod_cases4 surj_pair)
    have le: "s \<le> s1" "s1 \<le> s2" "s2 \<le> s3" "s3 \<le> s4"
      using 1(2) [OF g1] parse_amps_le [OF g(1)] peek_le [OF g(2)] gettoken_le [OF g(3)] by auto
    show ?case
    proof (cases p)
      case True
      with 1(1,4) g1 g obtain r where "parseline b s4 = Inr (r, s')" by (subst (asm) parseline.psimps) (auto simp: bindE_eq_Inr_iff)
      then show ?thesis using 1(3) [OF g1 refl g(1) [symmetric] g(2) [symmetric] True g(3) [symmetric] refl refl] le by fastforce
    next
      case False
      then show ?thesis using 1(1,4) g1 g le by (subst (asm) parseline.psimps) auto
    qed
  next
    case (2 b s)
    from 2(1,4) obtain c1 s1 where g1: "parseexec b s = Inr (c1, s1)"
      by (subst (asm) parsepipe.psimps) (auto simp: bindE_eq_Inr_iff)
    obtain p s2 t q e s3 where g: "peek b s1 ''|'' = (p, s2)" "gettoken b s2 = (t, q, e, s3)" by (metis prod_cases4 surj_pair)
    have le: "s \<le> s1" "s1 \<le> s2" "s2 \<le> s3" using 2(2) [OF g1] peek_le [OF g(1)] gettoken_le [OF g(2)] by auto
    show ?case
    proof (cases p)
      case True
      with 2(1,4) g1 g obtain r where "parsepipe b s3 = Inr (r, s')" by (subst (asm) parsepipe.psimps) (auto simp: bindE_eq_Inr_iff)
      then show ?thesis using 2(3) [OF g1 refl g(1) [symmetric] True g(2) [symmetric] refl refl] le by fastforce
    next
      case False
      then show ?thesis using 2(1,4) g1 g le by (subst (asm) parsepipe.psimps) auto
    qed
  next
    case (3 b s)
    obtain p s1 where g: "peek b s ''('' = (p, s1)" by fastforce
    show ?case
    proof (cases p)
      case True
      with 3(1,3) g have "parseblock b s1 = Inr (c, s')" by (subst (asm) parseexec.psimps) simp_all
      then show ?thesis using 3(2) [OF g [symmetric] True] peek_le [OF g] by fastforce
    next
      case False
      with 3(1,3) g obtain r s2 where "parseredirs b (EXEC []) s1 = Inr (r, s2)" "parse_args b r 0 s2 = Inr (c, s')"
        by (subst (asm) parseexec.psimps) (auto simp: bindE_eq_Inr_iff)
      then show ?thesis using parseredirs_le parse_args_le peek_le [OF g] by fastforce
    qed
  next
    case (4 b s)
    obtain p s1 t q e s2 where g: "peek b s ''('' = (p, s1)" "gettoken b s1 = (t, q, e, s2)" by (metis prod_cases4 surj_pair)
    from 4(1,3) g obtain c1 s3 where p: p and g1: "parseline b s2 = Inr (c1, s3)"
      by (subst (asm) parseblock.psimps) (auto simp: bindE_eq_Inr_iff split: if_splits)
    obtain p' s4 t' q' e' s5 where h: "peek b s3 '')'' = (p', s4)" "gettoken b s4 = (t', q', e', s5)" by (metis prod_cases4 surj_pair)
    have "parseredirs b c1 s5 = Inr (c, s')"
      using 4(1,3) g p g1 h by (subst (asm) parseblock.psimps) (auto split: if_splits)
    then have "s5 \<le> s'" by (rule parseredirs_le)
    moreover have "s2 \<le> s3" using 4(2) [OF g(1) [symmetric] _ g(2) [symmetric] refl refl g1] p by simp
    ultimately show ?case using peek_le [OF g(1)] gettoken_le [OF g(2)] peek_le [OF h(1)] gettoken_le [OF h(2)] by simp
  qed
  show ?thesis
  proof (relation "measures [case_sum (case_sum (\<lambda>(b, s). length b - s) (\<lambda>(b, s). length b - s))
          (case_sum (\<lambda>(b, s). length b - s) (\<lambda>(b, s). length b - s)),
        case_sum (case_sum (\<lambda>_. 3) (\<lambda>_. 2)) (case_sum (\<lambda>_. 1) (\<lambda>_. 0))]", goal_cases)
    case (3 b s x xa y xb ya xc yb xd yc xe yd xf ye)
    then have g: "parsepipe b s = Inr (xa, y)" "parse_amps b xa y = (xb, ya)" "peek b ya '';'' = (True, yb)" "gettoken b yb = (xd, xe, xf, ye)" by auto
    show ?case using le(2) [OF 3(9) g(1)] parse_amps_le [OF g(2)] peek_gettoken [OF g(3,4)] by auto
  next
    case (5 b s x xa y xb ya xc yb xd yc xe yd)
    then have g: "parseexec b s = Inr (xa, y)" "peek b y ''|'' = (True, ya)" "gettoken b ya = (xc, xd, xe, yd)" by auto
    show ?case using le(3) [OF 5(8) g(1)] peek_gettoken [OF g(2,3)] by auto
  next
    case (6 b s x y)
    then show ?case using peek_le [of b s "''(''" x y] by auto
  next
    case (7 b s x y xa ya xb yb xc yc)
    then have g: "peek b s ''('' = (True, y)" "gettoken b y = (xa, xb, xc, yc)" by auto
    show ?case using peek_gettoken [OF g] by auto
  qed auto
qed

declare parseline.simps [simp del] parsepipe.simps [simp del] parseexec.simps [simp del] parseblock.simps [simp del]

section \<open>nulterminate and parsecmd\<close>

fun nulterminate :: "(nat \<times> nat) cmd \<Rightarrow> string \<Rightarrow> string" where    \<comment> \<open>the buffer afterwards\<close>
  "nulterminate (EXEC as) buf = fold (\<lambda>(q, eq) buf. buf[eq := CHR 0x00]) as buf"
| "nulterminate (REDIR c (q, efile) m fd) buf = (nulterminate c buf)[efile := CHR 0x00]"
| "nulterminate (PIPE l r) buf = nulterminate r (nulterminate l buf)"
| "nulterminate (LIST l r) buf = nulterminate r (nulterminate l buf)"
| "nulterminate (BACK c) buf = nulterminate c buf"

definition parsecmd :: "string \<Rightarrow> ((nat \<times> nat) cmd \<times> string) c_result" where
  "parsecmd buf =
     (if CHR 0x00 \<notin> set buf then Inl Out_Of_Bounds
      else (let b = takeWhile (\<lambda>c. c \<noteq> CHR 0x00) buf
            in bindE (parseline b 0) (\<lambda>(cmd, s).
               case peek b s [] of (_, s) \<Rightarrow>
                 if s \<noteq> length b then Inl (Panic ''syntax'') else Inr (cmd, nulterminate cmd buf))))"

definition word_at :: "string \<Rightarrow> nat \<Rightarrow> string" where    \<comment> \<open>the C string at a position\<close>
  "word_at buf q = takeWhile (\<lambda>c. c \<noteq> CHR 0x00) (drop q buf)"

section \<open>What a parsed command looks like\<close>

definition word_char :: "char \<Rightarrow> bool" where
  "word_char c \<longleftrightarrow> c \<noteq> CHR 0x00 \<and> c \<notin> set whitespace \<and> c \<notin> set symbols"

definition token_ok :: "string \<Rightarrow> nat \<times> nat \<Rightarrow> bool" where    \<comment> \<open>a maximal word of the line\<close>
  "token_ok b w \<longleftrightarrow> fst w < snd w \<and> snd w \<le> length b \<and> (\<forall>k. fst w \<le> k \<and> k < snd w \<longrightarrow> word_char (b ! k)) \<and>
     (snd w < length b \<longrightarrow> \<not> word_char (b ! snd w))"

definition redir_ok :: "u32 \<Rightarrow> int \<Rightarrow> bool" where
  "redir_ok m fd \<longleftrightarrow> m = RD_MODE \<and> fd = 0 \<or> m = WR_MODE \<and> fd = 1"

fun cmd_ok :: "('w \<Rightarrow> bool) \<Rightarrow> 'w cmd \<Rightarrow> bool" where
  "cmd_ok P (EXEC as) \<longleftrightarrow> length as < MAXARGS \<and> list_all P as"
| "cmd_ok P (REDIR c f m fd) \<longleftrightarrow> cmd_ok P c \<and> P f \<and> redir_ok m fd"
| "cmd_ok P (PIPE l r) \<longleftrightarrow> cmd_ok P l \<and> cmd_ok P r"
| "cmd_ok P (LIST l r) \<longleftrightarrow> cmd_ok P l \<and> cmd_ok P r"
| "cmd_ok P (BACK c) \<longleftrightarrow> cmd_ok P c"

fun nargs :: "'w cmd \<Rightarrow> nat" where
  "nargs (EXEC as) = length as"
| "nargs (REDIR c f m fd) = nargs c"
| "nargs c = 0"

lemma nargs_add_arg: "nargs (add_arg a c) \<le> Suc (nargs c)"
  by (induction c) auto

lemma cmd_ok_add_arg: "cmd_ok P c \<Longrightarrow> P a \<Longrightarrow> Suc (nargs c) < MAXARGS \<Longrightarrow> cmd_ok P (add_arg a c)"
  by (induction c) auto

lemma gettoken_word:
  assumes g: "gettoken b s = (CHR ''a'', q, e, s')" and b: "CHR 0x00 \<notin> set b"
  shows "token_ok b (q, e)"
proof -
  let ?P = "\<lambda>c. c \<notin> set whitespace \<and> c \<notin> set symbols"
  have q: "q < length b" using gettoken_advances [OF g] by simp
  have e: "e = skip ?P b q" using g by (auto simp: gettoken_def Let_def split: if_splits prod.splits)
  note sp = skip_spec [of q b ?P, folded e]
  have wc: "word_char (b ! k) \<longleftrightarrow> ?P (b ! k)" if "k < length b" for k using b that by (auto simp: word_char_def in_set_conv_nth)
  have "e \<le> length b" using sp q by simp
  then show ?thesis using gettoken_parts(5) [OF g] sp wc by (auto simp: token_ok_def)
qed

lemma parseredirs_ok:
  "parseredirs b c s = Inr (c', s') \<Longrightarrow> CHR 0x00 \<notin> set b \<Longrightarrow> cmd_ok (token_ok b) c \<Longrightarrow> cmd_ok (token_ok b) c' \<and> nargs c' = nargs c"
proof (induction b c s rule: parseredirs.induct)
  case (1 b c s)
  obtain p s1 tok q1 e1 s2 t q e s3 where g: "peek b s ''<>'' = (p, s1)" "gettoken b s1 = (tok, q1, e1, s2)" "gettoken b s2 = (t, q, e, s3)"
    by (metis prod_cases4 surj_pair)
  show ?case
  proof (cases p)
    case False
    then show ?thesis using 1(2-4) g by (subst (asm) parseredirs.simps) simp
  next
    case True
    let ?c = "if tok = CHR ''<'' then REDIR c (q, e) RD_MODE 0 else if tok = CHR ''>'' then REDIR c (q, e) WR_MODE 1
      else if tok = CHR ''+'' then REDIR c (q, e) WR_MODE 1 else c"
    have t: "t = CHR ''a''" using 1(2) g True by (subst (asm) parseredirs.simps) (simp split: if_splits)
    then have r: "parseredirs b ?c s3 = Inr (c', s')" using 1(2) g True by (subst (asm) parseredirs.simps) simp
    have "token_ok b (q, e)" using gettoken_word g(3) t 1(3) by blast
    then have "cmd_ok (token_ok b) ?c \<and> nargs ?c = nargs c" using 1(4) by (simp add: redir_ok_def)
    then show ?thesis
      using 1(1) [OF g(1) [symmetric] True g(2) [symmetric] refl refl g(3) [symmetric] refl refl _ r 1(3)] t by simp
  qed
qed

lemma parse_args_ok:
  "parse_args b c argc s = Inr (c', s') \<Longrightarrow> CHR 0x00 \<notin> set b \<Longrightarrow> cmd_ok (token_ok b) c \<Longrightarrow> nargs c \<le> argc \<Longrightarrow> cmd_ok (token_ok b) c'"
proof (induction b c argc s rule: parse_args.induct)
  case (1 b c argc s)
  obtain p s1 t q e s2 where g: "peek b s ''|)&;'' = (p, s1)" "gettoken b s1 = (t, q, e, s2)" by (metis prod_cases4 surj_pair)
  consider "c' = c" | r s3 where "\<not> p" "t \<noteq> CHR 0x00" "\<not> t \<noteq> CHR ''a''" "\<not> MAXARGS \<le> argc + 1"
      "parseredirs b (add_arg (q, e) c) s2 = Inr (r, s3)" "parse_args b r (argc + 1) s3 = Inr (c', s')"
    using 1(2) g by (subst (asm) parse_args.simps) (auto simp: bindE_eq_Inr_iff split: if_splits)
  then show ?case
  proof cases
    case (2 r s3)
    have "token_ok b (q, e)" using gettoken_word g(2) 2(3) "1.prems"(2) by blast
    then have "cmd_ok (token_ok b) (add_arg (q, e) c)" using "1.prems" 2(4) by (intro cmd_ok_add_arg) simp_all
    from parseredirs_ok [OF 2(5) "1.prems"(2) this] have "cmd_ok (token_ok b) r" "nargs r \<le> argc + 1"
      using nargs_add_arg [of "(q, e)" c] "1.prems"(4) by auto
    then show ?thesis
      using "1.IH" [OF g(1) [symmetric] 2(1) g(2) [symmetric] refl refl 2(2,3,4,5) refl 2(6) "1.prems"(2)] by simp
  qed (use "1.prems" in simp)
qed

lemma parse_amps_ok: "parse_amps b c s = (c', s') \<Longrightarrow> cmd_ok P c \<Longrightarrow> cmd_ok P c'"
proof (induction b c s rule: parse_amps.induct)
  case (1 b c s)
  obtain p s1 t q e s2 where g: "peek b s ''&'' = (p, s1)" "gettoken b s1 = (t, q, e, s2)" by (metis prod_cases4 surj_pair)
  show ?case
  proof (cases p)
    case True
    have "parse_amps b (BACK c) s2 = (c', s')" using 1(2) g True by (subst (asm) parse_amps.simps) simp
    then show ?thesis using 1(1) [OF g(1) [symmetric] True g(2) [symmetric] refl refl] 1(3) by simp
  next
    case False
    then show ?thesis using 1(2,3) g by (subst (asm) parse_amps.simps) simp
  qed
qed

lemma parse_ok:
  shows "parseline b s = Inr (c, s') \<Longrightarrow> CHR 0x00 \<notin> set b \<Longrightarrow> cmd_ok (token_ok b) c"
    and "parsepipe b s = Inr (c, s') \<Longrightarrow> CHR 0x00 \<notin> set b \<Longrightarrow> cmd_ok (token_ok b) c"
    and "parseexec b s = Inr (c, s') \<Longrightarrow> CHR 0x00 \<notin> set b \<Longrightarrow> cmd_ok (token_ok b) c"
    and "parseblock b s = Inr (c, s') \<Longrightarrow> CHR 0x00 \<notin> set b \<Longrightarrow> cmd_ok (token_ok b) c"
proof (induction b s and b s and b s and b s arbitrary: c s' and c s' and c s' and c s' rule: parseline_parsepipe_parseexec_parseblock.induct)
  case (1 b s)
  from 1(3) obtain c1 s1 where g1: "parsepipe b s = Inr (c1, s1)" by (subst (asm) parseline.simps) (auto simp: bindE_eq_Inr_iff)
  obtain c2 s2 p s3 t q e s4 where g: "parse_amps b c1 s1 = (c2, s2)" "peek b s2 '';'' = (p, s3)" "gettoken b s3 = (t, q, e, s4)"
    by (metis prod_cases4 surj_pair)
  have c2: "cmd_ok (token_ok b) c2" using parse_amps_ok [OF g(1)] 1(1) [OF g1 1(4)] by simp
  show ?case
  proof (cases p)
    case True
    with 1(3) g1 g obtain r where r: "parseline b s4 = Inr (r, s')" "c = LIST c2 r" by (subst (asm) parseline.simps) (auto simp: bindE_eq_Inr_iff)
    then show ?thesis using 1(2) [OF g1 refl g(1) [symmetric] g(2) [symmetric] True g(3) [symmetric] refl refl r(1) 1(4)] c2 by simp
  next
    case False
    then show ?thesis using 1(3) g1 g c2 by (subst (asm) parseline.simps) auto
  qed
next
  case (2 b s)
  from 2(3) obtain c1 s1 where g1: "parseexec b s = Inr (c1, s1)" by (subst (asm) parsepipe.simps) (auto simp: bindE_eq_Inr_iff)
  obtain p s2 t q e s3 where g: "peek b s1 ''|'' = (p, s2)" "gettoken b s2 = (t, q, e, s3)" by (metis prod_cases4 surj_pair)
  note c1 = 2(1) [OF g1 2(4)]
  show ?case
  proof (cases p)
    case True
    with 2(3) g1 g obtain r where r: "parsepipe b s3 = Inr (r, s')" "c = PIPE c1 r" by (subst (asm) parsepipe.simps) (auto simp: bindE_eq_Inr_iff)
    then show ?thesis using 2(2) [OF g1 refl g(1) [symmetric] True g(2) [symmetric] refl refl r(1) 2(4)] c1 by simp
  next
    case False
    then show ?thesis using 2(3) g1 g c1 by (subst (asm) parsepipe.simps) auto
  qed
next
  case (3 b s)
  obtain p s1 where g: "peek b s ''('' = (p, s1)" by fastforce
  show ?case
  proof (cases p)
    case True
    with 3(2) g have "parseblock b s1 = Inr (c, s')" by (subst (asm) parseexec.simps) simp_all
    then show ?thesis using 3(1) [OF g [symmetric] True] 3(3) by simp
  next
    case False
    with 3(2) g obtain r s2 where r: "parseredirs b (EXEC []) s1 = Inr (r, s2)" "parse_args b r 0 s2 = Inr (c, s')"
      by (subst (asm) parseexec.simps) (auto simp: bindE_eq_Inr_iff)
    have "cmd_ok (token_ok b) r \<and> nargs r = 0" using parseredirs_ok [OF r(1) 3(3)] by (simp add: MAXARGS_def)
    then show ?thesis using parse_args_ok [OF r(2) 3(3)] by simp
  qed
next
  case (4 b s)
  obtain p s1 t q e s2 where g: "peek b s ''('' = (p, s1)" "gettoken b s1 = (t, q, e, s2)" by (metis prod_cases4 surj_pair)
  from 4(2) g obtain c1 s3 where p: p and g1: "parseline b s2 = Inr (c1, s3)"
    by (subst (asm) parseblock.simps) (auto simp: bindE_eq_Inr_iff split: if_splits)
  obtain p' s4 t' q' e' s5 where h: "peek b s3 '')'' = (p', s4)" "gettoken b s4 = (t', q', e', s5)" by (metis prod_cases4 surj_pair)
  have "parseredirs b c1 s5 = Inr (c, s')" using 4(2) g p g1 h by (subst (asm) parseblock.simps) (auto split: if_splits)
  moreover have "cmd_ok (token_ok b) c1" using 4(1) [OF g(1) [symmetric] _ g(2) [symmetric] refl refl g1 4(3)] p by simp
  ultimately show ?case using parseredirs_ok 4(3) by blast
qed

lemma cmd_ok_set: "cmd_ok P c \<Longrightarrow> w \<in> set_cmd c \<Longrightarrow> P w"
  by (induction c) (auto simp: list_all_iff)

lemma nulterminate_nth:
  "length (nulterminate c buf) = length buf \<and>
   (k < length buf \<longrightarrow> nulterminate c buf ! k = (if k \<in> snd ` set_cmd c then CHR 0x00 else buf ! k))"
proof (induction c arbitrary: buf)
  case (EXEC as)
  show ?case
  proof (induction as arbitrary: buf)
    case (Cons a as)
    obtain q e where a: "a = (q, e)" by fastforce
    show ?case using Cons [of "buf[e := CHR 0x00]"] by (auto simp: a nth_list_update)
  qed simp
next
  case (REDIR c f m fd)
  obtain q e where f: "f = (q, e)" by fastforce
  show ?case using REDIR [of buf] by (cases "k = e") (simp_all add: f)
qed auto

text \<open>The words of a command, as C strings after \<open>nulterminate\<close>, are the words of the line.\<close>

definition slice :: "string \<Rightarrow> nat \<times> nat \<Rightarrow> string" where
  "slice b w = take (snd w - fst w) (drop (fst w) b)"

lemma line_end: "CHR 0x00 \<in> set buf \<Longrightarrow> length (takeWhile (\<lambda>c. c \<noteq> CHR 0x00) buf) < length buf"
  by (induction buf) auto

lemma word_at_token:
  assumes buf: "CHR 0x00 \<in> set buf" and b: "b = takeWhile (\<lambda>c. c \<noteq> CHR 0x00) buf"
    and ok: "\<And>w. w \<in> set_cmd c \<Longrightarrow> token_ok b w" and w: "w \<in> set_cmd c"
  shows "word_at (nulterminate c buf) (fst w) = slice b w"
proof -
  let ?n = "nulterminate c buf"
  have lb: "length b < length buf" using buf unfolding b by (rule line_end)
  have nb: "buf ! k = b ! k" if "k < length b" for k using that b by (simp add: takeWhile_nth)
  note n = nulterminate_nth [of c buf]
  note t = ok [OF w, unfolded token_ok_def]
  have keep: "?n ! k = b ! k \<and> b ! k \<noteq> CHR 0x00" if "fst w \<le> k" "k < snd w" for k
  proof -
    have k: "k < length b" "word_char (b ! k)" using t that by auto
    have "k \<notin> snd ` set_cmd c"
    proof
      assume "k \<in> snd ` set_cmd c"
      then obtain v where "v \<in> set_cmd c" "k = snd v" by auto
      then show False using ok [of v] k by (auto simp: token_ok_def)
    qed
    then show ?thesis using n k lb nb by (auto simp: word_char_def)
  qed
  have z: "?n ! snd w = CHR 0x00" using n w t lb by auto
  have d: "drop (fst w) ?n = slice b w @ drop (snd w) ?n"
  proof -
    have "take (snd w - fst w) (drop (fst w) ?n) = slice b w"
      unfolding slice_def using t lb n keep by (intro nth_equalityI) auto
    then show ?thesis using append_take_drop_id [of "snd w - fst w" "drop (fst w) ?n"] t by simp
  qed
  have "CHR 0x00 \<notin> set (slice b w)"
  proof
    assume "CHR 0x00 \<in> set (slice b w)"
    then obtain i where "i < snd w - fst w" "slice b w ! i = CHR 0x00" "i < length (slice b w)" by (auto simp: in_set_conv_nth slice_def)
    then show False using keep [of "fst w + i"] t by (auto simp: slice_def)
  qed
  moreover have "drop (snd w) ?n = CHR 0x00 # drop (Suc (snd w)) ?n" using z t lb n by (simp add: Cons_nth_drop_Suc [symmetric])
  ultimately show ?thesis unfolding word_at_def d by (subst takeWhile_append2) auto
qed

lemma parsecmd_Inr:
  assumes "parsecmd buf = Inr (c, buf')"
  shows "CHR 0x00 \<in> set buf" "buf' = nulterminate c buf" "\<exists>s. parseline (takeWhile (\<lambda>c. c \<noteq> CHR 0x00) buf) 0 = Inr (c, s)"
  using assms by (auto simp: parsecmd_def Let_def bindE_eq_Inr_iff peek_def split: if_splits)

lemma parsecmd_words:
  assumes "parsecmd buf = Inr (c, buf')"
  shows "cmd_ok (token_ok (takeWhile (\<lambda>c. c \<noteq> CHR 0x00) buf)) c"
    "map_cmd (\<lambda>w. word_at buf' (fst w)) c = map_cmd (slice (takeWhile (\<lambda>c. c \<noteq> CHR 0x00) buf)) c"
proof -
  let ?b = "takeWhile (\<lambda>c. c \<noteq> CHR 0x00) buf"
  note p = parsecmd_Inr [OF assms]
  have "CHR 0x00 \<notin> set ?b" by (auto dest: set_takeWhileD)
  then show ok: "cmd_ok (token_ok ?b) c" using p(3) parse_ok(1) by blast
  show "map_cmd (\<lambda>w. word_at buf' (fst w)) c = map_cmd (slice ?b) c"
    unfolding p(2) using cmd_ok_set [OF ok] by (intro cmd.map_cong0 word_at_token [OF p(1) refl])
qed

text \<open> C22. Parsed commands are well formed. Whatever line is in the buffer, a command that the parser accepts has fewer
  than \<open>MAXARGS\<close> arguments in every \<open>execcmd\<close>, only the modes and descriptors of \<open>parseredirs\<close>, and only maximal words
  of the line as its words; and after \<open>nulterminate\<close> each of its pointers shows, as a C string, exactly its word:
  no terminator is written into another word.\<close>

theorem parsecmd_well_formed:
  assumes "parsecmd buf = Inr (c, buf')"
  shows "cmd_ok (token_ok (takeWhile (\<lambda>c. c \<noteq> CHR 0x00) buf)) c \<and> length buf' = length buf \<and>
    map_cmd (\<lambda>w. word_at buf' (fst w)) c = map_cmd (slice (takeWhile (\<lambda>c. c \<noteq> CHR 0x00) buf)) c"
  using parsecmd_words [OF assms] parsecmd_Inr(2) [OF assms] nulterminate_nth [of c buf] by simp

theorem parsecmd_well_formed_witness:
  "\<exists>c buf'. parsecmd (''a>b;c'' @ [CHR 0x00]) = Inr (c, buf') \<and> map_cmd (\<lambda>w. word_at buf' (fst w)) c = LIST (REDIR (EXEC [''a'']) ''b'' WR_MODE 1) (EXEC [''c''])"
proof -
  have p: "parsecmd (''a>b;c'' @ [CHR 0x00]) = Inr (LIST (REDIR (EXEC [(0, 1)]) (2, 3) WR_MODE 1) (EXEC [(4, 5)]),
      [CHR ''a'', CHR 0x00, CHR ''b'', CHR 0x00, CHR ''c'', CHR 0x00])"
    by code_simp
  show ?thesis using parsecmd_well_formed [OF p] p by (intro exI conjI) (assumption, simp add: slice_def)
qed

end
