(* ===== verification/Xv6_Sh_Print.thy ===== *)
theory Xv6_Sh_Print
  imports Xv6_Sh
begin

text \<open>
  Parsing undoes printing. A printer for command trees writes parentheses only where the precedences of the grammar
  ask for them; the parser of \<open>sh.c\<close> reads its output back as the same tree.
\<close>

section \<open>The printer\<close>

definition paren :: "bool \<Rightarrow> string \<Rightarrow> string" where
  "paren p u = (if p then ''('' @ u @ '')'' else u)"

definition redirect :: "string \<Rightarrow> u32 \<Rightarrow> string" where
  "redirect f m = (if m = RD_MODE then CHR ''<'' else CHR ''>'') # f @ '' ''"

text \<open>Levels: 0 a line, 1 background commands, 2 a pipeline, 3 a single command.\<close>

fun pr :: "nat \<Rightarrow> string cmd \<Rightarrow> string" where
  "pr l (EXEC ws) = concat (map (\<lambda>w. w @ '' '') ws)"
| "pr l (REDIR c f m fd) = pr 3 c @ redirect f m"
| "pr l (PIPE a b) = paren (2 < l) (pr 3 a @ ''|'' @ pr 2 b)"
| "pr l (BACK a) = paren (1 < l) (pr 1 a @ ''&'')"
| "pr l (LIST a b) = paren (0 < l) (pr 1 a @ '';'' @ pr 0 b)"

definition is_word :: "string \<Rightarrow> bool" where
  "is_word w \<longleftrightarrow> w \<noteq> [] \<and> list_all word_char w"

section \<open>Reading what is printed\<close>

definition clean :: "string \<Rightarrow> bool" where    \<comment> \<open>does not start with white space\<close>
  "clean u \<longleftrightarrow> u = [] \<or> hd u \<notin> set whitespace"

definition at :: "string \<Rightarrow> nat \<Rightarrow> string \<Rightarrow> bool" where    \<comment> \<open>the rest of the line at a position\<close>
  "at b s u \<longleftrightarrow> s \<le> length b \<and> drop s b = u \<and> clean u"

lemma symbol_char [simp]: "CHR ''('' \<notin> set whitespace" "CHR '')'' \<notin> set whitespace" "CHR ''|'' \<notin> set whitespace"
  "CHR ''&'' \<notin> set whitespace" "CHR '';'' \<notin> set whitespace" "CHR ''<'' \<notin> set whitespace" "CHR ''>'' \<notin> set whitespace"
  by (simp_all add: whitespace_def)

lemma clean_simps [simp]: "clean []" "clean (c # u) \<longleftrightarrow> c \<notin> set whitespace"
  by (simp_all add: clean_def)

lemma at_char: "at b s u \<Longrightarrow> line_char b s = (case u of [] \<Rightarrow> CHR 0x00 | c # _ \<Rightarrow> c)"
  by (cases u) (auto simp: at_def line_char_def nth_via_drop)

lemma at_skip:
  assumes "s \<le> length b" "drop s b = w @ u" "list_all P w" "u = [] \<or> \<not> P (hd u)"
  shows "skip P b s = s + length w"
  using assms
proof (induction w arbitrary: s)
  case Nil
  then show ?case by (subst skip.simps) (auto simp: hd_drop_conv_nth)
next
  case (Cons c w)
  have l: "s < length b" "b ! s = c" using Cons.prems(1,2) nth_via_drop [of s b c "w @ u"] by (auto simp: le_less)
  have "drop (Suc s) b = w @ u" using Cons.prems(2) by (metis append_Cons drop_Suc list.sel(3) tl_drop)
  then have "skip P b (Suc s) = Suc s + length w" using Cons.IH [of "Suc s"] Cons.prems l by simp
  then show ?case using l Cons.prems(3) by (subst skip.simps) simp
qed

lemma at_ws: "at b s u \<Longrightarrow> skip_ws b s = s"
  using at_skip [of s b "[]" u "\<lambda>c. c \<in> set whitespace"] by (auto simp: at_def clean_def)

lemma at_peek: "at b s u \<Longrightarrow> peek b s toks = (u \<noteq> [] \<and> hd u \<noteq> CHR 0x00 \<and> hd u \<in> set toks, s)"
  by (cases u) (auto simp: peek_def Let_def at_ws at_char)

lemma at_step: "at b s (c # u) \<Longrightarrow> clean u \<Longrightarrow> at b (Suc s) u"
proof -
  assume a: "at b s (c # u)" "clean u"
  then have "s < length b" "drop (Suc s) b = u"
    by (auto simp: at_def le_less drop_Suc) (metis list.sel(3) tl_drop)
  then show ?thesis using a by (simp add: at_def)
qed

lemma at_symbol:
  assumes "at b s (c # u)" "clean u" "c \<in> set ''|();&<'' \<or> c = CHR ''>'' \<and> (u = [] \<or> hd u \<noteq> CHR ''>'')"
  shows "gettoken b s = (c, s, s + 1, s + 1)"
proof -
  note n = at_step [OF assms(1,2)]
  have "line_char b (s + 1) = (case u of [] \<Rightarrow> CHR 0x00 | c # _ \<Rightarrow> c)" using at_char [OF n] by simp
  then have "line_char b (s + 1) \<noteq> CHR ''>''" if "c = CHR ''>''" using assms(3) that by (auto split: list.splits)
  then show ?thesis
    using assms(3) at_ws [OF n] by (auto simp: gettoken_def Let_def at_ws [OF assms(1)] at_char [OF assms(1)])
qed

lemma at_word:
  assumes a: "at b s (w @ CHR '' '' # u)" and w: "is_word w" and u: "clean u"
  shows "gettoken b s = (CHR ''a'', s, s + length w, s + length w + 1)" "at b (s + length w + 1) u" "slice b (s, s + length w) = w"
proof -
  have d: "s \<le> length b" "drop s b = w @ CHR '' '' # u" using a by (auto simp: at_def)
  obtain c v where cv: "w = c # v" using w by (cases w) (auto simp: is_word_def)
  have wc: "word_char c" using w cv by (simp add: is_word_def)
  then have c: "line_char b s = c" "c \<noteq> CHR 0x00" "c \<notin> set ''|();&<''" "c \<noteq> CHR ''>''"
    using at_char [OF a] cv by (auto simp: word_char_def symbols_def)
  have sw: "skip (\<lambda>c. c \<notin> set whitespace \<and> c \<notin> set symbols) b s = s + length w"
    using w by (intro at_skip [OF d]) (auto simp: is_word_def word_char_def list_all_iff whitespace_def)
  have l: "length b = s + length w + 1 + length u" using arg_cong [OF d(2), of length] d(1) by simp
  have d2: "drop (s + length w) b = '' '' @ u"
  proof -
    have "drop (s + length w) b = drop (length w) (drop s b)" by (simp add: add.commute)
    then show ?thesis by (simp add: d(2))
  qed
  have sp: "skip_ws b (s + length w) = s + length w + 1"
    using at_skip [of "s + length w" b "'' ''" u "\<lambda>c. c \<in> set whitespace"] d2 l u by (auto simp: clean_def whitespace_def)
  show "gettoken b s = (CHR ''a'', s, s + length w, s + length w + 1)"
    using c by (auto simp: gettoken_def Let_def at_ws [OF a] sw sp)
  have "drop (s + length w + 1) b = drop 1 (drop (s + length w) b)" by simp
  then show "at b (s + length w + 1) u" using l u by (simp add: at_def d2)
  show "slice b (s, s + length w) = w" by (simp add: slice_def d(2))
qed

section \<open>Single commands\<close>

abbreviation starts :: "string \<Rightarrow> string \<Rightarrow> bool" where    \<comment> \<open>the rest is empty or starts with one of the characters\<close>
  "starts u cs \<equiv> u = [] \<or> hd u \<in> set cs"

lemma word_head: "is_word w \<Longrightarrow> word_char (hd (w @ u))"
  by (cases w) (auto simp: is_word_def)

lemma word_charD: "word_char c \<Longrightarrow> c \<notin> set whitespace \<and> c \<notin> set ''<>|)&;('' \<and> c \<noteq> CHR 0x00"
  by (auto simp: word_char_def symbols_def)

lemma clean_word: "is_word w \<Longrightarrow> clean (w @ u)"
  using word_charD [OF word_head, of w u] by (auto simp: clean_def)

lemma redirs_stop: "at b s u \<Longrightarrow> \<not> (u \<noteq> [] \<and> hd u \<in> set ''<>'') \<Longrightarrow> parseredirs b c s = Inr (c, s)"
  by (subst parseredirs.simps) (auto simp: at_peek)

lemma redirs_one:
  assumes a: "at b s (redirect f m @ u)" and f: "is_word f" and m: "redir_ok m fd" and u: "clean u"
  shows "\<exists>w s'. parseredirs b c s = parseredirs b (REDIR c w m fd) s' \<and> slice b w = f \<and> at b s' u"
proof -
  define x where "x = (if m = RD_MODE then CHR ''<'' else CHR ''>'')"
  have a': "at b s (x # f @ CHR '' '' # u)" using a by (simp add: redirect_def x_def)
  have cl: "clean (f @ CHR '' '' # u)" using clean_word [OF f] .
  have h: "f @ CHR '' '' # u = [] \<or> hd (f @ CHR '' '' # u) \<noteq> CHR ''>''" using word_charD [OF word_head [OF f]] by auto
  have g1: "gettoken b s = (x, s, s + 1, s + 1)" by (rule at_symbol [OF a' cl]) (use h in \<open>simp add: x_def\<close>)
  have n: "at b (s + 1) (f @ CHR '' '' # u)" using at_step [OF a' cl] by simp
  note w = at_word [OF n f u]
  have r: "parseredirs b c s = parseredirs b (REDIR c (s + 1, s + 1 + length f) m fd) (s + 1 + length f + 1)"
    using m by (subst parseredirs.simps) (auto simp: at_peek [OF a'] g1 w(1) [simplified] x_def redir_ok_def RD_MODE_def WR_MODE_def)
  show ?thesis using r w(2,3) by blast
qed

lemma map_add_arg: "map_cmd f (add_arg a c) = add_arg (f a) (map_cmd f c)"
  by (induction c) auto

lemma args_words:
  assumes "at b s (concat (map (\<lambda>w. w @ '' '') ws) @ u)" "list_all is_word ws" "clean u" "argc + length ws < MAXARGS"
    and "map_cmd (slice b) c = EXEC vs"
  shows "\<exists>c' s'. bindE (parseredirs b c s) (\<lambda>(ret, s). parse_args b ret argc s) =
      bindE (parseredirs b c' s') (\<lambda>(ret, s). parse_args b ret (argc + length ws) s) \<and>
    map_cmd (slice b) c' = EXEC (vs @ ws) \<and> at b s' u"
  using assms
proof (induction ws arbitrary: s argc c vs)
  case Nil
  then show ?case by auto
next
  case (Cons w ws)
  let ?u = "concat (map (\<lambda>w. w @ '' '') ws) @ u"
  have w: "is_word w" and ws: "list_all is_word ws" using Cons.prems(2) by simp_all
  have a: "at b s (w @ CHR '' '' # ?u)" using Cons.prems(1) by simp
  have cl: "clean ?u" using ws Cons.prems(3) clean_word by (cases ws) auto
  note g = at_word [OF a w cl]
  have h: "hd (w @ CHR '' '' # ?u) \<notin> set ''<>|)&;(''" using word_charD [OF word_head [OF w]] by blast
  let ?c = "add_arg (s, s + length w) c" and ?s = "s + length w + 1"
  have "parseredirs b c s = Inr (c, s)" by (rule redirs_stop [OF a]) (use h in auto)
  moreover have "parse_args b c argc s = bindE (parseredirs b ?c ?s) (\<lambda>(ret, s). parse_args b ret (argc + 1) s)"
    by (subst parse_args.simps) (use h Cons.prems(4) in \<open>auto simp: at_peek [OF a] g(1)\<close>)
  ultimately have step: "bindE (parseredirs b c s) (\<lambda>(ret, s). parse_args b ret argc s) =
      bindE (parseredirs b ?c ?s) (\<lambda>(ret, s). parse_args b ret (argc + 1) s)" by simp
  have "map_cmd (slice b) ?c = EXEC (vs @ [w])" using Cons.prems(5) g(3) by (simp add: map_add_arg)
  from Cons.IH [OF g(2) ws Cons.prems(3) _ this, of "argc + 1"] Cons.prems(4) show ?case unfolding step by simp
qed

fun exec_chain :: "'w cmd \<Rightarrow> bool" where
  "exec_chain (EXEC ws) = True"
| "exec_chain (REDIR c f m fd) = exec_chain c"
| "exec_chain c = False"

lemma pr_clean: "cmd_ok is_word t \<Longrightarrow> clean u \<Longrightarrow> clean (pr l t @ u)"
proof (induction t arbitrary: l u)
  case (EXEC ws)
  then show ?case by (cases ws) (auto intro: clean_word)
qed (auto simp: redirect_def paren_def)

text \<open>Up to the last redirection of a single command.\<close>

lemma exec_chain_parses:
  assumes "exec_chain t" "cmd_ok is_word t" "at b s (pr 3 t @ u)" "clean u" "\<not> (u \<noteq> [] \<and> hd u = CHR ''('')"
  shows "\<exists>c s'. parseexec b s = bindE (parseredirs b c s') (\<lambda>(ret, s). parse_args b ret (nargs t) s) \<and> map_cmd (slice b) c = t \<and> at b s' u"
  using assms
proof (induction t arbitrary: u)
  case (EXEC ws)
  let ?v = "concat (map (\<lambda>w. w @ '' '') ws) @ u"
  have ws: "list_all is_word ws" "0 + length ws < MAXARGS" using EXEC.prems(2) by simp_all
  have "\<not> (?v \<noteq> [] \<and> hd ?v = CHR ''('')"
    using EXEC.prems(5) ws word_charD [OF word_head] by (cases ws) force+
  then have pe: "parseexec b s = bindE (parseredirs b (EXEC []) s) (\<lambda>(ret, s). parse_args b ret 0 s)"
    using EXEC.prems(3) by (subst parseexec.simps) (auto simp: at_peek)
  from args_words [of b s ws u 0 "EXEC []" "[]", OF _ ws(1) EXEC.prems(4) ws(2)] EXEC.prems(3) show ?case
    unfolding pe by simp
next
  case (REDIR t f m fd)
  have cl: "clean (redirect f m @ u)" by (simp add: redirect_def)
  from REDIR.prems have p: "exec_chain t" "cmd_ok is_word t" "at b s (pr 3 t @ redirect f m @ u)" "is_word f" "redir_ok m fd" by simp_all
  have "\<not> (redirect f m @ u \<noteq> [] \<and> hd (redirect f m @ u) = CHR ''('')" by (simp add: redirect_def)
  from REDIR.IH [OF p(1-3) cl this] obtain c s1 where
    c: "parseexec b s = bindE (parseredirs b c s1) (\<lambda>(ret, s). parse_args b ret (nargs t) s)" "map_cmd (slice b) c = t"
      "at b s1 (redirect f m @ u)" by blast
  from redirs_one [OF c(3) p(4,5) REDIR.prems(4), of c] obtain w s2 where
    "parseredirs b c s1 = parseredirs b (REDIR c w m fd) s2" "slice b w = f" "at b s2 u" by blast
  then show ?case using c by (intro exI [of _ "REDIR c w m fd"] exI [of _ s2]) simp
qed simp_all

text \<open>A command in parentheses with its redirections.\<close>

definition reads_line :: "string cmd \<Rightarrow> bool" where
  "reads_line t \<longleftrightarrow> (\<forall>b s u. at b s (pr 0 t @ u) \<and> clean u \<and> starts u '')'' \<longrightarrow>
     (\<exists>c s'. parseline b s = Inr (c, s') \<and> map_cmd (slice b) c = t \<and> at b s' u))"

definition reads_exec :: "string cmd \<Rightarrow> bool" where
  "reads_exec t \<longleftrightarrow> (\<forall>b s u. at b s (pr 3 t @ u) \<and> clean u \<and> starts u ''|)&;'' \<longrightarrow>
     (\<exists>c s'. parseexec b s = Inr (c, s') \<and> map_cmd (slice b) c = t \<and> at b s' u))"

lemma exec_chain_reads:
  assumes "exec_chain t" "cmd_ok is_word t"
  shows "reads_exec t"
  unfolding reads_exec_def
proof (intro allI impI, elim conjE)
  fix b s u assume a: "at b s (pr 3 t @ u)" "clean u" "starts u ''|)&;''"
  have "\<not> (u \<noteq> [] \<and> hd u = CHR ''('')" using a(3) by auto
  from exec_chain_parses [OF assms a(1,2) this] obtain c s1 where
    c: "parseexec b s = bindE (parseredirs b c s1) (\<lambda>(ret, s). parse_args b ret (nargs t) s)" "map_cmd (slice b) c = t" "at b s1 u" by blast
  have "parseredirs b c s1 = Inr (c, s1)" by (rule redirs_stop [OF c(3)]) (use a(3) in auto)
  moreover have "parse_args b c (nargs t) s1 = Inr (c, s1)"
  proof (cases u)
    case Nil
    then have "gettoken b s1 = (CHR 0x00, s1, s1, s1)"
      using c(3) by (simp add: gettoken_def Let_def at_ws [OF c(3)] at_char [OF c(3)])
    then show ?thesis using Nil by (subst parse_args.simps) (simp add: at_peek [OF c(3)])
  next
    case (Cons x v)
    then show ?thesis using a(3) by (subst parse_args.simps) (auto simp: at_peek [OF c(3)])
  qed
  ultimately show "\<exists>c s'. parseexec b s = Inr (c, s') \<and> map_cmd (slice b) c = t \<and> at b s' u" using c by auto
qed


fun base :: "'w cmd \<Rightarrow> 'w cmd" where    \<comment> \<open>below the redirections\<close>
  "base (REDIR c f m fd) = base c"
| "base c = c"

lemma block_parses:
  assumes l: "reads_line t" and t: "cmd_ok is_word t" and a: "at b s (''('' @ pr 0 t @ '')'' @ u)" and u: "clean u"
  shows "\<exists>c s'. parseexec b s = parseredirs b c s' \<and> map_cmd (slice b) c = t \<and> at b s' u"
proof -
  let ?v = "pr 0 t @ CHR '')'' # u"
  have a1: "at b s (CHR ''('' # ?v)" using a by simp
  have cl: "clean ?v" by (rule pr_clean [OF t]) simp
  have g1: "gettoken b s = (CHR ''('', s, s + 1, s + 1)" by (rule at_symbol [OF a1 cl]) simp
  have a2: "at b (s + 1) ?v" using at_step [OF a1 cl] by simp
  with l obtain c s1 where c: "parseline b (s + 1) = Inr (c, s1)" "map_cmd (slice b) c = t" and a3: "at b s1 (CHR '')'' # u)"
    unfolding reads_line_def by (metis clean_simps(2) list.sel(1) list.set_intros(1) symbol_char(2))
  have g2: "gettoken b s1 = (CHR '')'', s1, s1 + 1, s1 + 1)" by (rule at_symbol [OF a3 u]) simp
  have "parseblock b s = parseredirs b c (s1 + 1)"
    by (subst parseblock.simps) (simp add: at_peek [OF a1] g1 [simplified] c(1) [simplified] at_peek [OF a3] g2 [simplified])
  moreover have "parseexec b s = parseblock b s" by (subst parseexec.simps) (simp add: at_peek [OF a1])
  ultimately show ?thesis using c(2) at_step [OF a3 u] by auto
qed

lemma pr_block: "\<not> exec_chain t \<Longrightarrow> base t = t \<Longrightarrow> pr 3 t = ''('' @ pr 0 t @ '')''"
proof (cases t)
  case (REDIR c f m fd)
  assume "base t = t"
  moreover have "size (base c) \<le> size c" by (induction c rule: base.induct) auto
  ultimately show ?thesis using REDIR by auto
qed (auto simp: paren_def)

lemma block_chain_parses:
  assumes "\<not> exec_chain t" "cmd_ok is_word t" "reads_line (base t)" "at b s (pr 3 t @ u)" "clean u"
  shows "\<exists>c s'. parseexec b s = parseredirs b c s' \<and> map_cmd (slice b) c = t \<and> at b s' u"
  using assms
proof (induction t arbitrary: u)
  case (REDIR t f m fd)
  have cl: "clean (redirect f m @ u)" by (simp add: redirect_def)
  from REDIR.prems have p: "\<not> exec_chain t" "cmd_ok is_word t" "reads_line (base t)" "at b s (pr 3 t @ redirect f m @ u)" "is_word f" "redir_ok m fd"
    by simp_all
  from REDIR.IH [OF p(1-4) cl] obtain c s1 where
    c: "parseexec b s = parseredirs b c s1" "map_cmd (slice b) c = t" "at b s1 (redirect f m @ u)" by blast
  from redirs_one [OF c(3) p(5,6) REDIR.prems(5), of c] obtain w s2 where
    "parseredirs b c s1 = parseredirs b (REDIR c w m fd) s2" "slice b w = f" "at b s2 u" by blast
  then show ?case using c by (intro exI [of _ "REDIR c w m fd"] exI [of _ s2]) simp
next
  case (PIPE t1 t2)
  then show ?case using block_parses [of "PIPE t1 t2"] pr_block [of "PIPE t1 t2"] by simp
next
  case (LIST t1 t2)
  then show ?case using block_parses [of "LIST t1 t2"] pr_block [of "LIST t1 t2"] by simp
next
  case (BACK t)
  then show ?case using block_parses [of "BACK t"] pr_block [of "BACK t"] by simp
qed simp

lemma reads_execI:
  assumes "cmd_ok is_word t" "\<not> exec_chain t \<Longrightarrow> reads_line (base t)"
  shows "reads_exec t"
proof (cases "exec_chain t")
  case True
  then show ?thesis using assms(1) by (rule exec_chain_reads)
next
  case False
  show ?thesis unfolding reads_exec_def
  proof (intro allI impI, elim conjE)
    fix b s u assume a: "at b s (pr 3 t @ u)" "clean u" "starts u ''|)&;''"
    from block_chain_parses [OF False assms(1) assms(2) [OF False] a(1,2)] obtain c s1 where
      c: "parseexec b s = parseredirs b c s1" "map_cmd (slice b) c = t" "at b s1 u" by blast
    have "parseredirs b c s1 = Inr (c, s1)" by (rule redirs_stop [OF c(3)]) (use a(3) in auto)
    then show "\<exists>c s'. parseexec b s = Inr (c, s') \<and> map_cmd (slice b) c = t \<and> at b s' u" using c by auto
  qed
qed

section \<open>Pipelines, background commands and lines\<close>

definition reads_pipe :: "string cmd \<Rightarrow> bool" where
  "reads_pipe t \<longleftrightarrow> (\<forall>b s u. at b s (pr 2 t @ u) \<and> clean u \<and> starts u '')&;'' \<longrightarrow>
     (\<exists>c s'. parsepipe b s = Inr (c, s') \<and> map_cmd (slice b) c = t \<and> at b s' u))"

definition reads_back :: "string cmd \<Rightarrow> bool" where
  "reads_back t \<longleftrightarrow> (\<forall>b s u. at b s (pr 1 t @ u) \<and> clean u \<and> starts u '')&;'' \<longrightarrow>
     (\<exists>c0 s0 c s'. parsepipe b s = Inr (c0, s0) \<and> parse_amps b c0 s0 = parse_amps b c s' \<and> map_cmd (slice b) c = t \<and> at b s' u))"

lemma reads_pipe_exec:
  assumes e: "reads_exec t" and l: "pr 2 t = pr 3 t"
  shows "reads_pipe t"
  unfolding reads_pipe_def
proof (intro allI impI, elim conjE)
  fix b s u assume a: "at b s (pr 2 t @ u)" "clean u" "starts u '')&;''"
  have "starts u ''|)&;''" using a(3) by auto
  with e a l obtain c s1 where c: "parseexec b s = Inr (c, s1)" "map_cmd (slice b) c = t" "at b s1 u" unfolding reads_exec_def by metis
  have "parsepipe b s = Inr (c, s1)" by (subst parsepipe.simps) (use a(3) in \<open>auto simp: c(1) at_peek [OF c(3)]\<close>)
  then show "\<exists>c s'. parsepipe b s = Inr (c, s') \<and> map_cmd (slice b) c = t \<and> at b s' u" using c by blast
qed

lemma reads_pipe_PIPE:
  assumes e: "reads_exec t1" and p: "reads_pipe t2" and ok: "cmd_ok is_word t2"
  shows "reads_pipe (PIPE t1 t2)"
  unfolding reads_pipe_def
proof (intro allI impI, elim conjE)
  fix b s u assume a: "at b s (pr 2 (PIPE t1 t2) @ u)" "clean u" "starts u '')&;''"
  let ?v = "pr 2 t2 @ u"
  have "at b s (pr 3 t1 @ CHR ''|'' # ?v)" using a(1) by (simp add: paren_def)
  moreover have "clean (CHR ''|'' # ?v)" "starts (CHR ''|'' # ?v) ''|)&;''" by simp_all
  ultimately obtain c s1 where c: "parseexec b s = Inr (c, s1)" "map_cmd (slice b) c = t1" "at b s1 (CHR ''|'' # ?v)"
    using e unfolding reads_exec_def by blast
  have cl: "clean ?v" using pr_clean [OF ok a(2)] .
  have g: "gettoken b s1 = (CHR ''|'', s1, s1 + 1, s1 + 1)" by (rule at_symbol [OF c(3) cl]) simp
  have "at b (s1 + 1) ?v" using at_step [OF c(3) cl] by simp
  with p a obtain d s2 where d: "parsepipe b (s1 + 1) = Inr (d, s2)" "map_cmd (slice b) d = t2" "at b s2 u"
    unfolding reads_pipe_def by blast
  have "parsepipe b s = Inr (PIPE c d, s2)"
    by (subst parsepipe.simps) (simp add: c(1) at_peek [OF c(3)] g [simplified] d(1) [simplified])
  then show "\<exists>c s'. parsepipe b s = Inr (c, s') \<and> map_cmd (slice b) c = PIPE t1 t2 \<and> at b s' u" using c d by auto
qed

lemma reads_back_pipe: "reads_pipe t \<Longrightarrow> pr 1 t = pr 2 t \<Longrightarrow> reads_back t"
  unfolding reads_pipe_def reads_back_def by metis

lemma reads_back_BACK:
  assumes "reads_back t"
  shows "reads_back (BACK t)"
  unfolding reads_back_def
proof (intro allI impI, elim conjE)
  fix b s u assume a: "at b s (pr 1 (BACK t) @ u)" "clean u" "starts u '')&;''"
  have "at b s (pr 1 t @ CHR ''&'' # u)" using a(1) by (simp add: paren_def)
  moreover have "clean (CHR ''&'' # u)" "starts (CHR ''&'' # u) '')&;''" by simp_all
  ultimately obtain c0 s0 c s1 where c: "parsepipe b s = Inr (c0, s0)" "parse_amps b c0 s0 = parse_amps b c s1"
    "map_cmd (slice b) c = t" "at b s1 (CHR ''&'' # u)" using assms unfolding reads_back_def by blast
  have g: "gettoken b s1 = (CHR ''&'', s1, s1 + 1, s1 + 1)" by (rule at_symbol [OF c(4) a(2)]) simp
  have "parse_amps b c s1 = parse_amps b (BACK c) (s1 + 1)"
    by (subst parse_amps.simps) (simp add: at_peek [OF c(4)] g [simplified])
  then show "\<exists>c0 s0 c s'. parsepipe b s = Inr (c0, s0) \<and> parse_amps b c0 s0 = parse_amps b c s' \<and> map_cmd (slice b) c = BACK t \<and> at b s' u"
    using c at_step [OF c(4) a(2)] by (intro exI [of _ c0] exI [of _ s0] exI [of _ "BACK c"] exI [of _ "s1 + 1"]) simp
qed

lemma back_amps:
  assumes "reads_back t" "at b s (pr 1 t @ u)" "clean u" "starts u '');''"
  shows "\<exists>c0 s0 c s'. parsepipe b s = Inr (c0, s0) \<and> parse_amps b c0 s0 = (c, s') \<and> map_cmd (slice b) c = t \<and> at b s' u"
proof -
  have "starts u '')&;''" using assms(4) by auto
  with assms obtain c0 s0 c s1 where c: "parsepipe b s = Inr (c0, s0)" "parse_amps b c0 s0 = parse_amps b c s1"
    "map_cmd (slice b) c = t" "at b s1 u" unfolding reads_back_def by metis
  have "parse_amps b c s1 = (c, s1)" by (subst parse_amps.simps) (use assms(4) in \<open>auto simp: at_peek [OF c(4)]\<close>)
  then show ?thesis using c by auto
qed

lemma reads_line_back:
  assumes "reads_back t" "pr 0 t = pr 1 t"
  shows "reads_line t"
  unfolding reads_line_def
proof (intro allI impI, elim conjE)
  fix b s u assume a: "at b s (pr 0 t @ u)" "clean u" "starts u '')''"
  have "starts u '');''" using a(3) by auto
  from back_amps [OF assms(1) a(1) [unfolded assms(2)] a(2) this] obtain c0 s0 c s1 where
    c: "parsepipe b s = Inr (c0, s0)" "parse_amps b c0 s0 = (c, s1)" "map_cmd (slice b) c = t" "at b s1 u" by blast
  have "parseline b s = Inr (c, s1)" by (subst parseline.simps) (use a(3) in \<open>auto simp: c(1,2) at_peek [OF c(4)]\<close>)
  then show "\<exists>c s'. parseline b s = Inr (c, s') \<and> map_cmd (slice b) c = t \<and> at b s' u" using c by blast
qed

lemma reads_line_LIST:
  assumes "reads_back t1" "reads_line t2" "cmd_ok is_word t2"
  shows "reads_line (LIST t1 t2)"
  unfolding reads_line_def
proof (intro allI impI, elim conjE)
  fix b s u assume a: "at b s (pr 0 (LIST t1 t2) @ u)" "clean u" "starts u '')''"
  let ?v = "pr 0 t2 @ u"
  have "at b s (pr 1 t1 @ CHR '';'' # ?v)" using a(1) by (simp add: paren_def)
  then obtain c0 s0 c s1 where c: "parsepipe b s = Inr (c0, s0)" "parse_amps b c0 s0 = (c, s1)"
    "map_cmd (slice b) c = t1" "at b s1 (CHR '';'' # ?v)" using back_amps [OF assms(1)] by fastforce
  have cl: "clean ?v" using pr_clean [OF assms(3) a(2)] .
  have g: "gettoken b s1 = (CHR '';'', s1, s1 + 1, s1 + 1)" by (rule at_symbol [OF c(4) cl]) simp
  have "at b (s1 + 1) ?v" using at_step [OF c(4) cl] by simp
  with assms(2) a obtain d s2 where d: "parseline b (s1 + 1) = Inr (d, s2)" "map_cmd (slice b) d = t2" "at b s2 u"
    unfolding reads_line_def by blast
  have "parseline b s = Inr (LIST c d, s2)"
    by (subst parseline.simps) (simp add: c(1,2) at_peek [OF c(4)] g [simplified] d(1) [simplified])
  then show "\<exists>c s'. parseline b s = Inr (c, s') \<and> map_cmd (slice b) c = LIST t1 t2 \<and> at b s' u" using c d by auto
qed

lemma reads_all:
  "cmd_ok is_word t \<Longrightarrow> reads_exec t \<and> reads_pipe t \<and> reads_back t \<and> reads_line t \<and> reads_line (base t)"
proof (induction t)
  case (EXEC ws)
  then have e: "reads_exec (EXEC ws)" by (intro exec_chain_reads) simp_all
  then have "reads_pipe (EXEC ws)" by (intro reads_pipe_exec) simp_all
  then have "reads_back (EXEC ws)" by (intro reads_back_pipe) simp_all
  then have "reads_line (EXEC ws)" by (intro reads_line_back) simp_all
  then show ?case using e \<open>reads_pipe (EXEC ws)\<close> \<open>reads_back (EXEC ws)\<close> by simp
next
  case (REDIR t f m fd)
  let ?t = "REDIR t f m fd"
  have e: "reads_exec ?t" using REDIR by (intro reads_execI) simp_all
  then have p: "reads_pipe ?t" by (intro reads_pipe_exec) simp_all
  then have k: "reads_back ?t" by (intro reads_back_pipe) simp_all
  then have "reads_line ?t" by (intro reads_line_back) simp_all
  then show ?case using e p k REDIR by simp
next
  case (PIPE t1 t2)
  let ?t = "PIPE t1 t2"
  have p: "reads_pipe ?t" using PIPE by (intro reads_pipe_PIPE) simp_all
  then have k: "reads_back ?t" by (intro reads_back_pipe) (simp_all add: paren_def)
  then have l: "reads_line ?t" by (intro reads_line_back) (simp_all add: paren_def)
  then show ?case using p k PIPE.prems reads_execI [of ?t] by simp
next
  case (LIST t1 t2)
  let ?t = "LIST t1 t2"
  have l: "reads_line ?t" using LIST by (intro reads_line_LIST) simp_all
  then have e: "reads_exec ?t" using LIST.prems by (intro reads_execI) simp_all
  then have p: "reads_pipe ?t" by (intro reads_pipe_exec) (simp_all add: paren_def)
  then have "reads_back ?t" by (intro reads_back_pipe) (simp_all add: paren_def)
  then show ?case using e p l by simp
next
  case (BACK t)
  let ?t = "BACK t"
  have k: "reads_back ?t" using BACK by (intro reads_back_BACK) simp_all
  then have l: "reads_line ?t" by (intro reads_line_back) (simp_all add: paren_def)
  then have e: "reads_exec ?t" using BACK.prems by (intro reads_execI) simp_all
  then have "reads_pipe ?t" by (intro reads_pipe_exec) (simp_all add: paren_def)
  then show ?case using e k l by simp
qed

lemma is_word_nul: "is_word w \<Longrightarrow> CHR 0x00 \<notin> set w"
proof
  assume w: "is_word w" "CHR 0x00 \<in> set w"
  then have "word_char (CHR 0x00)" unfolding is_word_def list_all_iff by blast
  then show False by (simp add: word_char_def)
qed

lemma pr_no_nul: "cmd_ok is_word t \<Longrightarrow> CHR 0x00 \<notin> set (pr l t)"
proof (induction t arbitrary: l)
  case (EXEC ws)
  then show ?case using is_word_nul by (auto simp: list_all_iff)
next
  case (REDIR t f m fd)
  then show ?case using is_word_nul [of f] by (auto simp: redirect_def)
qed (auto simp: paren_def)

text \<open> C10. Parsing undoes printing. Take any command tree with words free of white space and symbols, fewer than
  \<open>MAXARGS\<close> arguments per command and the redirections of the shell, and print it with parentheses only where the
  precedences of \<open>|\<close>, \<open>&\<close> and \<open>;\<close> need them. Then \<open>parsecmd\<close> accepts the line, whatever follows its NUL in the buffer,
  and the command it builds, read through its pointers after \<open>nulterminate\<close>, is the tree.\<close>

theorem parse_print_roundtrip:
  assumes "cmd_ok is_word t"
  shows "\<exists>c buf'. parsecmd (pr 0 t @ CHR 0x00 # rest) = Inr (c, buf') \<and> map_cmd (\<lambda>w. word_at buf' (fst w)) c = t"
proof -
  let ?b = "pr 0 t" and ?buf = "pr 0 t @ CHR 0x00 # rest"
  have b: "takeWhile (\<lambda>c. c \<noteq> CHR 0x00) ?buf = ?b" using pr_no_nul [OF assms, of 0] by (simp add: takeWhile_tail takeWhile_eq_all_conv takeWhile_append)
  have "at ?b 0 (pr 0 t @ [])" using pr_clean [OF assms, of "[]" 0] by (simp add: at_def)
  with reads_all [OF assms] obtain c s where c: "parseline ?b 0 = Inr (c, s)" "map_cmd (slice ?b) c = t" "at ?b s []"
    unfolding reads_line_def by (metis clean_simps(1))
  have "s = length ?b" using c(3) by (simp add: at_def)
  then have p: "parsecmd ?buf = Inr (c, nulterminate c ?buf)"
    using c(1) at_peek [OF c(3)] by (simp add: parsecmd_def b Let_def)
  show ?thesis using parsecmd_words(2) [OF p] p c(2) b by auto
qed

theorem parse_print_roundtrip_witness:
  "pr 0 (LIST (BACK (PIPE (EXEC [''ls'']) (REDIR (LIST (EXEC [''wc'']) (EXEC [''p''])) ''out'' WR_MODE 1))) (EXEC [''a'', ''b''])) =
     ''ls |(wc ;p )>out &;a b '' \<and>
   (\<exists>c buf'. parsecmd (''ls |(wc ;p )>out &;a b '' @ [CHR 0x00]) = Inr (c, buf') \<and> map_cmd (\<lambda>w. word_at buf' (fst w)) c =
     LIST (BACK (PIPE (EXEC [''ls'']) (REDIR (LIST (EXEC [''wc'']) (EXEC [''p''])) ''out'' WR_MODE 1))) (EXEC [''a'', ''b'']))"
proof -
  let ?t = "LIST (BACK (PIPE (EXEC [''ls'']) (REDIR (LIST (EXEC [''wc'']) (EXEC [''p''])) ''out'' WR_MODE 1))) (EXEC [''a'', ''b''])"
  have p: "pr 0 ?t = ''ls |(wc ;p )>out &;a b ''" by (simp add: paren_def redirect_def RD_MODE_def WR_MODE_def)
  have "cmd_ok is_word ?t" by (simp add: MAXARGS_def redir_ok_def is_word_def word_char_def whitespace_def symbols_def)
  from parse_print_roundtrip [OF this, of "[]", unfolded p] show ?thesis by (intro conjI p)
qed

end
