(* ===== verification/Xv6_Sh_Run.thy ===== *)
theory Xv6_Sh_Run
  imports Xv6_Sh
begin

text \<open>
  Running a command (\<open>runcmd\<close> and \<open>main\<close> of \<open>sh.c\<close>). A process is its table of open descriptors, which \<open>close\<close>,
  \<open>dup\<close>, \<open>open\<close> and \<open>pipe\<close> change as the kernel does, always taking the lowest free number. Whether a call that
  may fail succeeds is an input, for each call by the place in the command (\<open>path\<close>) where it is made. The result is
  the list of programs started, each with its arguments and descriptors; the two ends of a pipe carry the place of
  the \<open>pipe\<close> call.
\<close>

section \<open>Descriptors\<close>

datatype open_file = Inherited nat | Opened string u32 | Read_End "nat list" | Write_End "nat list"

type_synonym fds = "nat \<Rightarrow> open_file option"

definition MAXFD :: nat where "MAXFD = 16"    \<comment> \<open>\<open>NOFILE\<close>\<close>

definition fd_free :: "fds \<Rightarrow> nat option" where
  "fd_free t = find (\<lambda>i. t i = None) [0..<MAXFD]"

definition fd_close :: "nat \<Rightarrow> fds \<Rightarrow> fds" where "fd_close i t = t(i := None)"

definition fd_add :: "open_file \<Rightarrow> fds \<Rightarrow> nat option \<times> fds" where    \<comment> \<open>the number, or \<open>None\<close> when the table is full\<close>
  "fd_add x t = (case fd_free t of None \<Rightarrow> (None, t) | Some i \<Rightarrow> (Some i, t(i \<mapsto> x)))"

definition fd_dup :: "nat \<Rightarrow> fds \<Rightarrow> fds" where
  "fd_dup i t = (case t i of None \<Rightarrow> t | Some x \<Rightarrow> snd (fd_add x t))"

record calls =    \<comment> \<open>which calls succeed\<close>
  fork_ok :: "nat list \<Rightarrow> bool"
  open_ok :: "nat list \<Rightarrow> bool"
  pipe_ok :: "nat list \<Rightarrow> bool"

section \<open>runcmd\<close>

type_synonym launch = "string list \<times> fds"

fun runcmd :: "calls \<Rightarrow> nat list \<Rightarrow> string cmd \<Rightarrow> fds \<Rightarrow> launch list" where
  "runcmd k path (EXEC argv) t = (if argv = [] then [] else [(argv, t)])"
| "runcmd k path (REDIR c f mode fd) t =
     (let t = fd_close (nat fd) t
      in case (if open_ok k path then fd_add (Opened f mode) t else (None, t)) of
           (None, t) \<Rightarrow> []
         | (Some _, t) \<Rightarrow> runcmd k (0 # path) c t)"
| "runcmd k path (LIST l r) t =
     (if fork_ok k path then runcmd k (0 # path) l t @ runcmd k (1 # path) r t else [])"
| "runcmd k path (PIPE l r) t =
     (if \<not> pipe_ok k path then []
      else case fd_add (Read_End path) t of
           (None, t) \<Rightarrow> []
         | (Some p0, t) \<Rightarrow>
             (case fd_add (Write_End path) t of
                (None, t) \<Rightarrow> []
              | (Some p1, t) \<Rightarrow>
                  if \<not> fork_ok k (2 # path) then []
                  else runcmd k (0 # path) l (fd_close p1 (fd_close p0 (fd_dup p1 (fd_close 1 t)))) @
                       (if \<not> fork_ok k (3 # path) then []
                        else runcmd k (1 # path) r (fd_close p1 (fd_close p0 (fd_dup p0 (fd_close 0 t)))))))"
| "runcmd k path (BACK c) t = (if fork_ok k path then runcmd k (0 # path) c t else [])"

text \<open>A line of \<open>main\<close>: change directory in the shell itself, or run the command in a child.\<close>

datatype sh_action = Chdir string | Runs "launch list" | Rejects c_error

definition sh_line :: "calls \<Rightarrow> string \<Rightarrow> fds \<Rightarrow> sh_action" where
  "sh_line k buf t =
     (if take 3 buf = ''cd ''
      then Chdir (word_at (buf[length (takeWhile (\<lambda>c. c \<noteq> CHR 0x00) buf) - 1 := CHR 0x00]) 3)
      else if \<not> fork_ok k [] then Rejects (Panic ''fork'')
      else case parsecmd buf of
           Inl e \<Rightarrow> Rejects e
         | Inr (c, buf') \<Rightarrow> Runs (runcmd k [0] (map_cmd (\<lambda>w. word_at buf' (fst w)) c) t))"

section \<open>Plumbing\<close>

text \<open>Where each program of a command reads and writes.\<close>

fun plumb :: "nat list \<Rightarrow> string cmd \<Rightarrow> open_file \<Rightarrow> open_file \<Rightarrow> (string list \<times> open_file \<times> open_file) list" where
  "plumb path (EXEC argv) i out = (if argv = [] then [] else [(argv, i, out)])"
| "plumb path (REDIR c f mode fd) i out =
     (if fd = 0 then plumb (0 # path) c (Opened f mode) out else plumb (0 # path) c i (Opened f mode))"
| "plumb path (LIST l r) i out = plumb (0 # path) l i out @ plumb (1 # path) r i out"
| "plumb path (PIPE l r) i out = plumb (0 # path) l i (Write_End path) @ plumb (1 # path) r (Read_End path) out"
| "plumb path (BACK c) i out = plumb (0 # path) c i out"

definition std_fds :: "fds \<Rightarrow> open_file \<Rightarrow> open_file \<Rightarrow> fds" where
  "std_fds t i out = t(0 \<mapsto> i, 1 \<mapsto> out)"

lemma fd_freeI: "i < MAXFD \<Longrightarrow> t i = None \<Longrightarrow> \<forall>j < i. t j \<noteq> None \<Longrightarrow> fd_free t = Some i"
  unfolding fd_free_def find_Some_iff by (rule exI [of _ i]) auto

lemma fd_free_least: "fd_free t = Some i \<Longrightarrow> i < MAXFD \<and> t i = None \<and> (\<forall>j < i. t j \<noteq> None)"
  by (auto simp: fd_free_def find_Some_iff)

lemma fd_free_exists: "i < MAXFD \<Longrightarrow> t i = None \<Longrightarrow> \<exists>j. fd_free t = Some j"
  by (cases "fd_free t") (auto simp: fd_free_def find_None_iff)

text \<open>Closing standard input or output makes it the next number.\<close>

lemma reuse_std:
  assumes "t 0 \<noteq> None"
  shows "fd_free (t(0 := None)) = Some 0" "fd_free (t(1 := None)) = Some 1"
  using assms by (auto intro!: fd_freeI simp: MAXFD_def)

lemma std_fds_simps [simp]: "std_fds t i out 0 = Some i" "std_fds t i out (Suc 0) = Some out" "2 \<le> n \<Longrightarrow> std_fds t i out n = t n"
  by (simp_all add: std_fds_def)

lemma redirect_std:
  "fd_add x (fd_close 0 (std_fds t i out)) = (Some 0, std_fds t x out)"
  "fd_add x (fd_close 1 (std_fds t i out)) = (Some 1, std_fds t i x)"
  using reuse_std [of "std_fds t i out"] by (auto simp: fd_add_def fd_close_def) (auto simp: std_fds_def)

lemma pipe_std:
  fixes y
  assumes free: "fd_free (std_fds t i out) = Some p0" "fd_free ((std_fds t i out)(p0 \<mapsto> x)) = Some p1"
  defines "t2 \<equiv> (std_fds t i out)(p0 \<mapsto> x, p1 \<mapsto> y)"
  shows "fd_close p1 (fd_close p0 (fd_dup p1 (fd_close 1 t2))) = std_fds t i y"
    "fd_close p1 (fd_close p0 (fd_dup p0 (fd_close 0 t2))) = std_fds t x out"
proof -
  note f0 = fd_free_least [OF free(1)] and f1 = fd_free_least [OF free(2)]
  have std: "n \<noteq> 0 \<and> n \<noteq> 1" if "std_fds t i out n = None" for n using that by (auto simp: std_fds_def split: if_splits)
  have p0: "p0 \<noteq> 0" "p0 \<noteq> 1" using f0 std by auto
  have p1: "p1 \<noteq> p0" using f1 by auto
  then have p1': "p1 \<noteq> 0" "p1 \<noteq> 1" using f1 std [of p1] by auto
  have keep: "t p0 = None" "t p1 = None" using f0 f1 p0 p1 p1' by (auto simp: std_fds_def)
  have z: "t2 0 = Some i" "t2 1 = Some out" "t2 p0 = Some x" "t2 p1 = Some y" using p0 p1 p1' by (auto simp: t2_def)
  have "fd_free (t2(1 := None)) = Some 1" "fd_free (t2(0 := None)) = Some 0" using reuse_std [of t2] z by auto
  then show "fd_close p1 (fd_close p0 (fd_dup p1 (fd_close 1 t2))) = std_fds t i y"
    "fd_close p1 (fd_close p0 (fd_dup p0 (fd_close 0 t2))) = std_fds t x out"
    using z p0 p1 p1' keep
    by (auto simp: fd_dup_def fd_close_def fd_add_def) (auto simp: t2_def std_fds_def fun_eq_iff)
qed

lemma runcmd_plumb:
  assumes "\<And>p. fork_ok k p \<and> open_ok k p \<and> pipe_ok k p" "cmd_ok P c" "x < MAXFD" "y < MAXFD" "x \<noteq> y" "2 \<le> x" "2 \<le> y" "t x = None" "t y = None"
  shows "runcmd k path c (std_fds t i out) = map (\<lambda>(argv, i, out). (argv, std_fds t i out)) (plumb path c i out)"
  using assms(2)
proof (induction c arbitrary: path i out)
  case (REDIR c f m fd)
  then have "fd = 0 \<or> fd = 1" "cmd_ok P c" by (auto simp: redir_ok_def)
  then show ?case using REDIR.IH assms(1) by (auto simp: Let_def redirect_std redirect_std [simplified])
next
  case (PIPE l r)
  have "std_fds t i out x = None" using assms(6,8) by simp
  then obtain p0 where f0: "fd_free (std_fds t i out) = Some p0" using fd_free_exists [OF assms(3)] by blast
  let ?t1 = "(std_fds t i out)(p0 \<mapsto> Read_End path)"
  have "\<exists>z < MAXFD. ?t1 z = None"
  proof (cases "x = p0")
    case True
    then show ?thesis using assms(4,5,7,9) by (intro exI [of _ y]) auto
  next
    case False
    then show ?thesis using assms(3,6,8) by (intro exI [of _ x]) auto
  qed
  then obtain p1 where f1: "fd_free ?t1 = Some p1" using fd_free_exists by blast
  show ?case using PIPE assms(1) pipe_std [OF f0 f1, where y = "Write_End path"] by (simp add: fd_add_def f0 f1)
qed (use assms(1) in auto)

text \<open> C21. Plumbing. When the calls it makes succeed and two descriptors are free, running a command starts exactly its
  programs, in order, each with standard input and output where the redirections and pipes of the command put them, and with
  every other descriptor as the shell has it: no program keeps an end of a pipe it does not use.\<close>

theorem runcmd_plumbing:
  assumes "\<And>p. fork_ok k p \<and> open_ok k p \<and> pipe_ok k p" "cmd_ok P c" "t 0 = Some i" "t 1 = Some out"
    and "x < MAXFD" "y < MAXFD" "x \<noteq> y" "t x = None" "t y = None"
  shows "runcmd k path c t = map (\<lambda>(argv, i, out). (argv, t(0 \<mapsto> i, 1 \<mapsto> out))) (plumb path c i out)"
proof -
  have t: "std_fds t i out = t" using assms(3,4) by (auto simp: std_fds_def)
  have "2 \<le> z" if "t z = None" for z
  proof -
    have "z \<noteq> 0" "z \<noteq> 1" using that assms(3,4) by (metis option.distinct(1))+
    then show ?thesis by linarith
  qed
  then show ?thesis using runcmd_plumb [OF assms(1,2,5,6,7) _ _ assms(8,9), of path i out] assms(8,9) unfolding t
    by (simp add: std_fds_def)
qed

theorem runcmd_plumbing_witness:
  "runcmd \<lparr>fork_ok = \<lambda>_. True, open_ok = \<lambda>_. True, pipe_ok = \<lambda>_. True\<rparr> [] (PIPE (EXEC [''ls'']) (REDIR (EXEC [''wc'']) ''f'' WR_MODE 1))
      [0 \<mapsto> Inherited 0, 1 \<mapsto> Inherited 1, 2 \<mapsto> Inherited 2] =
    [([''ls''], [0 \<mapsto> Inherited 0, 1 \<mapsto> Write_End [], 2 \<mapsto> Inherited 2]),
     ([''wc''], [0 \<mapsto> Read_End [], 1 \<mapsto> Opened ''f'' WR_MODE, 2 \<mapsto> Inherited 2])]"
  by (subst runcmd_plumbing [where P = "\<lambda>_. True" and i = "Inherited 0" and out = "Inherited 1" and x = 3 and y = 4])
    (auto simp: MAXARGS_def redir_ok_def MAXFD_def fun_eq_iff)

end
