(* ===== verification/Xv6_Umalloc.thy ===== *)
theory Xv6_Umalloc
  imports Prelude
begin

text \<open>
  The user memory allocator of xv6 (\<open>umalloc.c\<close>). Memory is an array of headers: an address is an index in units of
  \<open>sizeof(Header)\<close>, 8 bytes, and 0 is the null pointer. \<open>base\<close> is the address of the static header. \<open>sbrk\<close> is a system
  call and a parameter: from the number of bytes to the start of the new memory, or \<open>None\<close> for -1. The search loops run
  around a circular list and need not end on a corrupt one, so they are partial.
\<close>

record uheader =    \<comment> \<open>\<open>union header\<close>\<close>
  uptr :: nat
  usize :: nat

record umem =
  hdr :: "nat \<Rightarrow> uheader"
  freep :: nat

definition set_ptr :: "nat \<Rightarrow> nat \<Rightarrow> umem \<Rightarrow> umem" where
  "set_ptr p v s = s\<lparr>hdr := (hdr s)(p := (hdr s p)\<lparr>uptr := v\<rparr>)\<rparr>"

definition set_size :: "nat \<Rightarrow> nat \<Rightarrow> umem \<Rightarrow> umem" where
  "set_size p v s = s\<lparr>hdr := (hdr s)(p := (hdr s p)\<lparr>usize := v\<rparr>)\<rparr>"

abbreviation ptr :: "umem \<Rightarrow> nat \<Rightarrow> nat" where "ptr s p \<equiv> uptr (hdr s p)"
abbreviation sz :: "umem \<Rightarrow> nat \<Rightarrow> nat" where "sz s p \<equiv> usize (hdr s p)"

partial_function (option) free_find :: "umem \<Rightarrow> nat \<Rightarrow> nat \<Rightarrow> nat option" where    \<comment> \<open>the loop of \<open>free\<close>\<close>
  "free_find s bp p =
     (if bp > p \<and> bp < ptr s p then Some p
      else if p \<ge> ptr s p \<and> (bp > p \<or> bp < ptr s p) then Some p
      else free_find s bp (ptr s p))"

definition join_after :: "nat \<Rightarrow> nat \<Rightarrow> umem \<Rightarrow> umem" where    \<comment> \<open>\<open>bp\<close> and the block after it\<close>
  "join_after bp p s =
     (if bp + sz s bp = ptr s p
      then (let s = set_size bp (sz s bp + sz s (ptr s p)) s in set_ptr bp (ptr s (ptr s p)) s)
      else set_ptr bp (ptr s p) s)"

definition join_before :: "nat \<Rightarrow> nat \<Rightarrow> umem \<Rightarrow> umem" where    \<comment> \<open>\<open>bp\<close> and the block before it\<close>
  "join_before bp p s =
     (if p + sz s p = bp
      then (let s = set_size p (sz s p + sz s bp) s in set_ptr p (ptr s bp) s)
      else set_ptr p bp s)"

definition ufree :: "nat \<Rightarrow> umem \<Rightarrow> umem option" where
  "ufree ap s =
     (let bp = ap - 1
      in map_option (\<lambda>p. (join_before bp p (join_after bp p s))\<lparr>freep := p\<rparr>) (free_find s bp (freep s)))"

definition morecore :: "(int \<Rightarrow> nat option) \<Rightarrow> u32 \<Rightarrow> umem \<Rightarrow> (nat \<times> umem) option" where
  "morecore sbrk nu s =
     (let nu = (if nu < 4096 then 4096 else nu)
      in case sbrk (sint (nu * 8)) of
           None \<Rightarrow> Some (0, s)
         | Some hp \<Rightarrow> map_option (\<lambda>s. (freep s, s)) (ufree (hp + 1) (set_size hp (unat nu) s)))"

definition take_block :: "u32 \<Rightarrow> nat \<Rightarrow> nat \<Rightarrow> umem \<Rightarrow> nat \<times> umem" where    \<comment> \<open>\<open>p\<close> is large enough\<close>
  "take_block nunits prevp p s =
     (if sz s p = unat nunits then (p + 1, (set_ptr prevp (ptr s p) s)\<lparr>freep := prevp\<rparr>)
      else (let s = set_size p (sz s p - unat nunits) s; q = p + sz s p
            in (q + 1, (set_size q (unat nunits) s)\<lparr>freep := prevp\<rparr>)))"

partial_function (option) malloc_from :: "(int \<Rightarrow> nat option) \<Rightarrow> u32 \<Rightarrow> nat \<Rightarrow> nat \<Rightarrow> umem \<Rightarrow> (nat \<times> umem) option" where
  "malloc_from sbrk nunits prevp p s =
     (if sz s p \<ge> unat nunits then Some (take_block nunits prevp p s)
      else if p = freep s
      then (case morecore sbrk nunits s of
              None \<Rightarrow> None
            | Some (q, s) \<Rightarrow> if q = 0 then Some (0, s) else malloc_from sbrk nunits q (ptr s q) s)
      else malloc_from sbrk nunits p (ptr s p) s)"

definition nunits_of :: "u32 \<Rightarrow> u32" where
  "nunits_of nbytes = (nbytes + 8 - 1) div 8 + 1"

definition umalloc :: "nat \<Rightarrow> (int \<Rightarrow> nat option) \<Rightarrow> u32 \<Rightarrow> umem \<Rightarrow> (nat \<times> umem) option" where
  "umalloc base sbrk nbytes s =
     (let s = (if freep s = 0 then set_size base 0 (set_ptr base base s)\<lparr>freep := base\<rparr> else s)
      in malloc_from sbrk (nunits_of nbytes) (freep s) (ptr s (freep s)) s)"

section \<open>The free list\<close>

type_synonym block = "nat \<times> nat"    \<comment> \<open>address and size\<close>

fun linked :: "umem \<Rightarrow> nat \<Rightarrow> block list \<Rightarrow> nat \<Rightarrow> bool" where    \<comment> \<open>the blocks after \<open>a\<close>, up to \<open>z\<close>\<close>
  "linked s a [] z \<longleftrightarrow> ptr s a = z"
| "linked s a ((x, n) # bs) z \<longleftrightarrow> ptr s a = x \<and> sz s x = n \<and> linked s x bs z"

fun spread :: "nat \<Rightarrow> block list \<Rightarrow> bool" where    \<comment> \<open>blocks in order of address with gaps between them, the first beyond \<open>a\<close>\<close>
  "spread a [] \<longleftrightarrow> True"
| "spread a ((x, n) # bs) \<longleftrightarrow> a < x \<and> 0 < n \<and> spread (x + n) bs"

definition last_addr :: "nat \<Rightarrow> block list \<Rightarrow> nat" where
  "last_addr a bs = (if bs = [] then a else fst (last bs))"

definition free_ok :: "nat \<Rightarrow> umem \<Rightarrow> block list \<Rightarrow> bool" where
  "free_ok base s fl \<longleftrightarrow> 0 < base \<and> linked s base fl base \<and> sz s base = 0 \<and> spread base fl \<and> freep s \<in> insert base (fst ` set fl)"

lemma linked_append: "linked s a (xs @ ys) z \<longleftrightarrow> linked s a xs (if ys = [] then z else fst (hd ys)) \<and> linked s (last_addr a xs) ys z"
proof (induction xs arbitrary: a)
  case Nil
  then show ?case by (cases ys) (auto simp: last_addr_def)
next
  case (Cons x xs)
  obtain b n where "x = (b, n)" by fastforce
  then show ?case using Cons by (auto simp: last_addr_def)
qed

definition end_of :: "nat \<Rightarrow> block list \<Rightarrow> nat" where
  "end_of a bs = (if bs = [] then a else fst (last bs) + snd (last bs))"

definition cells :: "block list \<Rightarrow> nat set" where    \<comment> \<open>the units the blocks cover\<close>
  "cells bs = (\<Union>(x, n) \<in> set bs. {x..<x + n})"

lemma cells_simps [simp]: "cells [] = {}" "cells ((x, n) # bs) = {x..<x + n} \<union> cells bs" "cells (xs @ ys) = cells xs \<union> cells ys"
  by (auto simp: cells_def)

lemma spread_append: "spread a (xs @ ys) \<longleftrightarrow> spread a xs \<and> spread (end_of a xs) ys"
proof (induction xs arbitrary: a)
  case (Cons x xs)
  obtain b n where "x = (b, n)" by fastforce
  then show ?case using Cons by (auto simp: end_of_def)
qed (simp add: end_of_def)

lemma spread_mono: "spread a bs \<Longrightarrow> b \<le> a \<Longrightarrow> spread b bs"
  by (cases bs) auto

lemma spread_gt: "spread a bs \<Longrightarrow> (x, n) \<in> set bs \<Longrightarrow> a < x \<and> 0 < n"
proof (induction bs arbitrary: a)
  case (Cons y bs)
  obtain b k where y: "y = (b, k)" by fastforce
  show ?case
  proof (cases "(x, n) = y")
    case False
    then have "b + k < x \<and> 0 < n" using Cons y by auto
    then show ?thesis using Cons.prems(1) y by auto
  qed (use Cons.prems(1) y in auto)
qed simp

lemma spread_addr_gt: "spread a bs \<Longrightarrow> x \<in> fst ` set bs \<Longrightarrow> a < x"
  using spread_gt by fastforce

lemma linked_cong: "(\<And>x. x \<in> insert a (fst ` set bs) \<Longrightarrow> hdr s' x = hdr s x) \<Longrightarrow> linked s' a bs z \<longleftrightarrow> linked s a bs z"
proof (induction bs arbitrary: a)
  case (Cons y bs)
  obtain b k where "y = (b, k)" by fastforce
  then show ?case using Cons by auto
qed simp

lemma last_addr_in: "last_addr a bs \<in> insert a (fst ` set bs)"
  by (simp add: last_addr_def)

lemma last_addr_Cons: "last_addr a ((x, n) # bs) = last_addr x bs"
  by (simp add: last_addr_def)

lemma linked_relink:
  assumes "linked s a bs z" "spread a bs"
  shows "linked (set_ptr (last_addr a bs) v s) a bs v"
  using assms
proof (induction bs arbitrary: a)
  case Nil
  then show ?case by (simp add: last_addr_def set_ptr_def)
next
  case (Cons y bs)
  obtain x n where y: "y = (x, n)" by fastforce
  have x: "a < x" "spread x bs" using Cons.prems(2) y spread_mono by auto
  have "last_addr x bs \<noteq> a" using last_addr_in [of x bs] spread_addr_gt [OF x(2)] x(1) by fastforce
  then show ?case using Cons.IH [of x] Cons.prems(1) x y by (auto simp: last_addr_Cons set_ptr_def)
qed

section \<open>Finding the place of a freed block\<close>

lemma find_below:
  assumes "linked s a (bs @ cs) base" "spread a bs" "base \<le> a" "a < bp" "\<And>x. x \<in> fst ` set bs \<Longrightarrow> x < bp" "\<And>x. x \<in> fst ` set cs \<Longrightarrow> bp < x"
  shows "free_find s bp a = Some (last_addr a bs)"
  using assms
proof (induction bs arbitrary: a)
  case Nil
  have "ptr s a = base \<or> bp < ptr s a" using Nil.prems(1,6) by (cases cs) force+
  then show ?case using Nil.prems(3,4) by (subst free_find.simps) (auto simp: last_addr_def)
next
  case (Cons y bs)
  obtain x n where y: "y = (x, n)" by fastforce
  have x: "ptr s a = x" "a < x" "x < bp" "spread x bs" using Cons.prems y spread_mono by auto
  have "free_find s bp a = free_find s bp x" using x by (subst free_find.simps) simp
  then show ?case using Cons.IH [of x] Cons.prems x y by (simp add: last_addr_Cons)
qed

lemma find_above:
  assumes "linked s a bs base" "spread a bs" "bp < a" "base < bp"
  shows "free_find s bp a = free_find s bp base"
  using assms
proof (induction bs arbitrary: a)
  case Nil
  then show ?case by (subst free_find.simps) simp
next
  case (Cons y bs)
  obtain x n where y: "y = (x, n)" by fastforce
  have x: "ptr s a = x" "a < x" "spread x bs" using Cons.prems y spread_mono by auto
  then have "free_find s bp a = free_find s bp x" using Cons.prems by (subst free_find.simps) simp
  then show ?case using Cons.IH [of x] Cons.prems x y by simp
qed

text \<open>Splitting the list at an address, and at a node.\<close>

lemma spread_split:
  assumes "spread a bs" "bp \<notin> fst ` set bs"
  shows "\<exists>as cs. bs = as @ cs \<and> (\<forall>x \<in> fst ` set as. x < bp) \<and> (\<forall>x \<in> fst ` set cs. bp < x)"
  using assms
proof (induction bs arbitrary: a)
  case (Cons y bs)
  obtain x n where y: "y = (x, n)" by fastforce
  show ?case
  proof (cases "x < bp")
    case True
    have "spread (x + n) bs" "bp \<notin> fst ` set bs" using Cons.prems y by auto
    from Cons.IH [OF this] obtain as cs where "bs = as @ cs" "\<forall>x \<in> fst ` set as. x < bp" "\<forall>x \<in> fst ` set cs. bp < x" by blast
    then show ?thesis using True y by (intro exI [of _ "y # as"] exI [of _ cs]) auto
  next
    case False
    then have "bp < x" using Cons.prems(2) y by auto
    moreover have "x < z" if "z \<in> fst ` set bs" for z using spread_addr_gt [of "x + n" bs z] Cons.prems(1) y that by auto
    ultimately show ?thesis using y by (intro exI [of _ "[]"] exI [of _ "y # bs"]) fastforce
  qed
qed simp

lemma linked_node:
  assumes "linked s a bs z" "spread a bs" "x \<in> fst ` set bs"
  shows "\<exists>us n vs. bs = us @ (x, n) # vs \<and> linked s x vs z \<and> spread x vs"
proof -
  obtain us n vs where b: "bs = us @ (x, n) # vs" using assms(3) by (metis imageE prod.collapse split_list)
  then have "linked s x vs z" "spread (x + n) vs" using assms(1,2) by (auto simp: linked_append spread_append)
  then show ?thesis using b spread_mono [of "x + n" vs x] by auto
qed

lemma free_find_ok:
  assumes ok: "free_ok base s (as @ cs)" and bp: "base < bp" "\<And>x. x \<in> fst ` set as \<Longrightarrow> x < bp" "\<And>x. x \<in> fst ` set cs \<Longrightarrow> bp < x"
  shows "free_find s bp (freep s) = Some (last_addr base as)"
proof -
  have l: "linked s base (as @ cs) base" "spread base (as @ cs)" and f: "freep s \<in> insert base (fst ` set (as @ cs))" using ok by (auto simp: free_ok_def)
  have b: "free_find s bp base = Some (last_addr base as)"
    using l bp by (intro find_below [where cs = cs]) (auto simp: spread_append)
  from f consider "freep s = base" | "freep s \<in> fst ` set as" | "freep s \<in> fst ` set cs" by auto
  then show ?thesis
  proof cases
    case 1
    then show ?thesis using b by simp
  next
    case 2
    then obtain us n vs where as: "as = us @ (freep s, n) # vs" by (metis imageE prod.collapse split_list)
    have k: "linked s (freep s) (vs @ cs) base" "spread (freep s + n) (vs @ cs)" "base < freep s"
      using l as spread_addr_gt [of base "as @ cs" "freep s"] 2 by (auto simp: linked_append spread_append last_addr_def)
    have "spread (freep s) vs" using k(2) spread_mono [of "freep s + n" vs "freep s"] by (simp add: spread_append)
    then have "free_find s bp (freep s) = Some (last_addr (freep s) vs)"
      using k bp as by (intro find_below [where cs = cs]) auto
    then show ?thesis by (simp add: as last_addr_def)
  next
    case 3
    then have "freep s \<in> fst ` set (as @ cs)" by auto
    from linked_node [OF l this] obtain us n vs where "linked s (freep s) vs base" "spread (freep s) vs" by blast
    then show ?thesis using find_above [of s "freep s" vs base bp] bp 3 b by simp
  qed
qed

section \<open>Joining blocks\<close>

definition above :: "nat \<Rightarrow> block list \<Rightarrow> bool" where    \<comment> \<open>blocks from an address on, the first possibly adjacent\<close>
  "above e cs \<longleftrightarrow> (case cs of [] \<Rightarrow> True | (x, n) # bs \<Rightarrow> e \<le> x \<and> 0 < n \<and> spread (x + n) bs)"

lemma join_after_ok:
  assumes l: "linked s p cs base" and bp: "base < bp" "p \<noteq> bp" "0 < sz s bp" and ab: "above (bp + sz s bp) cs"
  defines "s' \<equiv> join_after bp p s"
  shows "\<exists>cs' m. linked s' bp cs' base \<and> sz s' bp = m \<and> sz s bp \<le> m \<and> spread (bp + m) cs' \<and> cells ((bp, m) # cs') = cells ((bp, sz s bp) # cs) \<and>
    (\<forall>x. x \<noteq> bp \<longrightarrow> hdr s' x = hdr s x) \<and> freep s' = freep s \<and> fst ` set cs' \<subseteq> fst ` set cs"
proof (cases cs)
  case Nil
  then have s': "s' = set_ptr bp base s" using l bp by (simp add: s'_def join_after_def)
  then show ?thesis using Nil by (intro exI [of _ "[]"]) (auto simp: set_ptr_def)
next
  case (Cons y bs)
  obtain x n where y: "y = (x, n)" by fastforce
  have x: "ptr s p = x" "sz s x = n" "linked s x bs base" and a: "bp + sz s bp \<le> x" "0 < n" "spread (x + n) bs"
    using l ab Cons y by (auto simp: above_def)
  have gt: "bp < z" if "z \<in> insert x (fst ` set bs)" for z using that a bp(3) spread_addr_gt [OF a(3)] by fastforce
  show ?thesis
  proof (cases "bp + sz s bp = x")
    case True
    let ?m = "sz s bp + n"
    have s': "s' = set_ptr bp (ptr s x) (set_size bp ?m s)"
      using True x bp(2) a(1) bp(3) by (auto simp: s'_def join_after_def Let_def set_size_def)
    have h: "hdr s' z = hdr s z" if "z \<noteq> bp" for z using that by (simp add: s' set_ptr_def set_size_def)
    have h': "hdr s' z = hdr s z" if "z \<in> insert x (fst ` set bs)" for z using h [of z] gt [OF that] by simp
    have "linked s' bp bs base"
    proof (cases bs)
      case Nil
      then show ?thesis using x by (simp add: s' set_ptr_def)
    next
      case (Cons w ws)
      obtain u k where w: "w = (u, k)" by fastforce
      have "linked s' u ws base \<longleftrightarrow> linked s u ws base" by (rule linked_cong, rule h') (use Cons w in auto)
      then show ?thesis using x(3) Cons w h [of u] gt [of u] by (simp add: s' set_ptr_def set_size_def)
    qed
    moreover have "spread (bp + ?m) bs" using True a(3) by (simp add: add.assoc [symmetric])
    moreover have "cells ((bp, ?m) # bs) = cells ((bp, sz s bp) # cs)" using True Cons y by auto
    ultimately show ?thesis using h Cons y by (intro exI [of _ bs] exI [of _ ?m]) (auto simp: s' set_ptr_def set_size_def)
  next
    case False
    have s': "s' = set_ptr bp x s" using False x by (simp add: s'_def join_after_def)
    have h: "hdr s' z = hdr s z" if "z \<noteq> bp" for z using that by (simp add: s' set_ptr_def)
    have "linked s' x bs base \<longleftrightarrow> linked s x bs base" using h gt by (intro linked_cong h) (metis less_irrefl)
    then have "linked s' bp cs base" using x h [of x] gt [of x] Cons y by (simp add: s' set_ptr_def)
    moreover have "spread (bp + sz s bp) cs" using False a Cons y by simp
    ultimately show ?thesis using h by (intro exI [of _ cs] exI [of _ "sz s bp"]) (auto simp: s' set_ptr_def)
  qed
qed

lemma spread_end: "spread a bs \<Longrightarrow> (x, n) \<in> set bs \<Longrightarrow> x + n \<le> end_of a bs"
proof (induction bs arbitrary: a)
  case (Cons y bs)
  obtain b k where y: "y = (b, k)" by fastforce
  have e: "b + k \<le> end_of (b + k) bs" "end_of a (y # bs) = end_of (b + k) bs"
    using spread_gt [of "b + k" bs "fst (last bs)" "snd (last bs)"] Cons.prems(1) y by (auto simp: end_of_def)
  show ?case
  proof (cases "(x, n) = y")
    case False
    then show ?thesis using Cons.IH [of "b + k"] Cons.prems y e by auto
  qed (use e y in auto)
qed simp

lemma linked_last: "linked s a bs z \<Longrightarrow> bs \<noteq> [] \<Longrightarrow> sz s (last_addr a bs) = snd (last bs)"
proof (induction bs arbitrary: a)
  case (Cons y bs)
  obtain x n where "y = (x, n)" by fastforce
  then show ?case using Cons by (cases bs) (auto simp: last_addr_def)
qed simp

lemma linked_from:
  assumes "linked s bp cs z" "ptr s' p = ptr s bp" "\<And>x. x \<in> fst ` set cs \<Longrightarrow> hdr s' x = hdr s x"
  shows "linked s' p cs z"
proof (cases cs)
  case (Cons y bs)
  obtain x n where "y = (x, n)" by fastforce
  then show ?thesis using assms Cons linked_cong [of x bs s' s z] by auto
qed (use assms in simp)

lemma join_before_ok:
  assumes l: "linked s base as z" "spread base as" "sz s base = 0" and r: "linked s bp cs base" "spread (bp + sz s bp) cs" "0 < sz s bp"
    and bp: "base < bp" "end_of base as \<le> bp"
  defines "s' \<equiv> join_before bp (last_addr base as) s"
  shows "\<exists>fl. linked s' base fl base \<and> sz s' base = 0 \<and> spread base fl \<and> cells fl = cells as \<union> cells ((bp, sz s bp) # cs) \<and>
    last_addr base as \<in> insert base (fst ` set fl) \<and> (\<forall>x. x \<noteq> last_addr base as \<longrightarrow> hdr s' x = hdr s x)"
proof -
  define p where "p = last_addr base as"
  note s'_def = s'_def [folded p_def]
  have lt: "x < bp" if "x \<in> fst ` set as" for x using that spread_end [OF l(2)] spread_gt [OF l(2)] bp(2) by fastforce
  have gt: "bp < x" if "x \<in> fst ` set cs" for x using spread_addr_gt [OF r(2) that] by simp
  have pbp: "p < bp" using lt bp(1) last_addr_in [of base as] by (auto simp: p_def)
  show ?thesis
  proof (cases "p + sz s p = bp")
    case False
    have s': "s' = set_ptr p bp s" using False by (simp add: s'_def join_before_def)
    have h: "hdr s' x = hdr s x" if "x \<noteq> p" for x using that by (simp add: s' set_ptr_def)
    have sizes: "sz s' x = sz s x" for x by (simp add: s' set_ptr_def)
    have "linked s' base as bp" unfolding s' p_def by (rule linked_relink [OF l(1,2)])
    moreover have "linked s' bp cs base" using h pbp gt by (intro linked_from [OF r(1)]) fastforce+
    ultimately have "linked s' base (as @ (bp, sz s bp) # cs) base" using sizes by (simp add: linked_append p_def [symmetric]) (simp add: s' set_ptr_def)
    moreover have "end_of base as < bp"
      using bp False linked_last [OF l(1)] by (cases "as = []") (auto simp: end_of_def last_addr_def p_def)
    ultimately show ?thesis using l(2,3) r sizes h
      by (intro exI [of _ "as @ (bp, sz s bp) # cs"]) (auto simp: spread_append last_addr_def p_def)
  next
    case True
    have "as \<noteq> []" using True l(3) bp(1) by (auto simp: last_addr_def p_def)
    then obtain pre k where as: "as = pre @ [(p, k)]" unfolding p_def by (metis append_butlast_last_id last_addr_def prod.collapse)
    have k: "sz s p = k" using linked_last [OF l(1) \<open>as \<noteq> []\<close>, folded p_def] as by simp
    have pre: "linked s base pre p" "spread base pre" "end_of base pre < p" "0 < k"
      using l(1,2) unfolding as by (auto simp: linked_append spread_append)
    let ?m = "k + sz s bp"
    have s': "s' = set_ptr p (ptr s bp) (set_size p ?m s)"
      using True k pbp by (auto simp: s'_def join_before_def Let_def set_size_def)
    have h: "hdr s' x = hdr s x" if "x \<noteq> p" for x using that by (simp add: s' set_ptr_def set_size_def)
    have below: "x < p" if "x \<in> insert base (fst ` set pre)" for x
      using that spread_end [OF pre(2)] spread_gt [OF pre(2)] pre(3) spread_addr_gt [OF l(2), of p] as by fastforce
    have "linked s' base pre p \<longleftrightarrow> linked s base pre p" using below by (intro linked_cong h) blast
    moreover have "linked s' p cs base"
      using h gt pbp by (intro linked_from [OF r(1)]) (simp add: s' set_ptr_def, fastforce)
    moreover have "sz s' p = ?m" by (simp add: s' set_ptr_def set_size_def)
    moreover have "ptr s' (last_addr base pre) = p" using calculation(1) pre(1) linked_append [of s' base pre "[]" p] by simp
    ultimately have "linked s' base (pre @ (p, ?m) # cs) base" using pre(1) by (simp add: linked_append)
    moreover have "sz s' base = 0" using below [of base] h [of base] l(3) by simp
    moreover have "spread base (pre @ (p, ?m) # cs)" using pre True k r(2) by (simp add: spread_append add.assoc [symmetric])
    moreover have "cells (pre @ (p, ?m) # cs) = cells as \<union> cells ((bp, sz s bp) # cs)"
      using True k unfolding as by auto
    ultimately show ?thesis using h by (intro exI [of _ "pre @ (p, ?m) # cs"]) (auto simp: p_def [symmetric])
  qed
qed

lemma node_cell: "spread a fl \<Longrightarrow> x \<in> fst ` set fl \<Longrightarrow> x \<in> cells fl"
proof -
  assume a: "spread a fl" "x \<in> fst ` set fl"
  then obtain n where n: "(x, n) \<in> set fl" by auto
  then have "x \<in> (case (x, n) of (x, n) \<Rightarrow> {x..<x + n})" using spread_gt [OF a(1) n] by simp
  then show ?thesis using n unfolding cells_def by blast
qed

lemma free_block:
  assumes ok: "free_ok base s fl" and bp: "base < bp" "0 < sz s bp" and dis: "{bp..<bp + sz s bp} \<inter> cells fl = {}"
  shows "\<exists>s' fl'. ufree (bp + 1) s = Some s' \<and> free_ok base s' fl' \<and> cells fl' = cells fl \<union> {bp..<bp + sz s bp} \<and>
    (\<forall>x. x \<noteq> base \<and> x \<notin> cells fl' \<longrightarrow> hdr s' x = hdr s x)"
proof -
  have l: "0 < base" "linked s base fl base" "sz s base = 0" "spread base fl" using ok by (auto simp: free_ok_def)
  have in_cells: "x \<in> cells fl" if "(x, n) \<in> set fl" for x n using node_cell [OF l(4)] that by force
  have "bp \<notin> fst ` set fl" using in_cells dis bp(2) by fastforce
  from spread_split [OF l(4) this] obtain as cs where fl: "fl = as @ cs"
    and ac: "\<forall>x \<in> fst ` set as. x < bp" "\<forall>x \<in> fst ` set cs. bp < x" by blast
  have as: "x < bp" if "x \<in> fst ` set as" for x using ac(1) that by (rule bspec)
  have cs: "bp < x" if "x \<in> fst ` set cs" for x using ac(2) that by (rule bspec)
  let ?p = "last_addr base as"
  have lk: "linked s base as (if cs = [] then base else fst (hd cs))" "linked s ?p cs base" "spread base as" "spread (end_of base as) cs"
    using l fl by (auto simp: linked_append spread_append)
  have p: "?p < bp" "?p = base \<or> ?p \<in> cells fl" using last_addr_in [of base as] as bp(1) in_cells fl by fastforce+
  have ea: "end_of base as \<le> bp"
  proof (cases "as = []")
    case False
    then have "last as \<in> set fl" "fst (last as) < bp" using fl as by auto
    moreover have "bp \<notin> {fst (last as)..<fst (last as) + snd (last as)}"
      using dis bp(2) calculation(1) by (force simp: cells_def)
    ultimately show ?thesis using False by (auto simp: end_of_def)
  qed (use bp in \<open>simp add: end_of_def\<close>)
  have ab: "above (bp + sz s bp) cs"
  proof (cases cs)
    case (Cons y bs)
    obtain x n where y: "y = (x, n)" by fastforce
    have "x \<in> cells fl" by (rule in_cells [of x n]) (simp add: fl Cons y)
    then have "x \<notin> {bp..<bp + sz s bp}" using dis by blast
    moreover have "bp < x" by (rule cs) (simp add: Cons y)
    ultimately show ?thesis using lk(4) Cons y by (auto simp: above_def)
  qed (simp add: above_def)
  define s1 where "s1 = join_after bp ?p s"
  from join_after_ok [OF lk(2) bp(1) _ bp(2) ab, folded s1_def] p(1) obtain cs' m where
    j: "linked s1 bp cs' base" "sz s1 bp = m" "sz s bp \<le> m" "spread (bp + m) cs'" "cells ((bp, m) # cs') = cells ((bp, sz s bp) # cs)"
    and h1: "\<And>x. x \<noteq> bp \<Longrightarrow> hdr s1 x = hdr s x" by auto
  have "hdr s1 x = hdr s x" if "x \<in> insert base (fst ` set as)" for x using h1 [of x] that as [of x] bp(1) by auto
  then have "linked s1 base as (if cs = [] then base else fst (hd cs))" using lk(1) linked_cong [of base as s1 s] by blast
  moreover have "sz s1 base = 0" using h1 [of base] bp(1) l(3) by simp
  ultimately have "\<exists>fl'. linked (join_before bp ?p s1) base fl' base \<and> sz (join_before bp ?p s1) base = 0 \<and> spread base fl' \<and>
      cells fl' = cells as \<union> cells ((bp, sz s1 bp) # cs') \<and> ?p \<in> insert base (fst ` set fl') \<and>
      (\<forall>x. x \<noteq> ?p \<longrightarrow> hdr (join_before bp ?p s1) x = hdr s1 x)"
    using j bp ea lk(3) by (intro join_before_ok) auto
  then obtain fl' where f: "linked (join_before bp ?p s1) base fl' base" "sz (join_before bp ?p s1) base = 0" "spread base fl'"
    "cells fl' = cells as \<union> cells ((bp, m) # cs')" "?p \<in> insert base (fst ` set fl')"
    and h2: "\<And>x. x \<noteq> ?p \<Longrightarrow> hdr (join_before bp ?p s1) x = hdr s1 x" using j(2) by blast
  have c: "cells fl' = cells fl \<union> {bp..<bp + sz s bp}" using f(4) j(5) fl by auto
  have "ufree (bp + 1) s = Some ((join_before bp ?p s1)\<lparr>freep := ?p\<rparr>)"
    using free_find_ok [OF ok [unfolded fl] bp(1) as cs] by (simp add: ufree_def s1_def)
  moreover have "free_ok base ((join_before bp ?p s1)\<lparr>freep := ?p\<rparr>) fl'"
    using f l(1) linked_cong [of base fl' "(join_before bp ?p s1)\<lparr>freep := ?p\<rparr>" "join_before bp ?p s1"] by (simp add: free_ok_def)
  moreover have "hdr ((join_before bp ?p s1)\<lparr>freep := ?p\<rparr>) x = hdr s x" if "x \<noteq> base" "x \<notin> cells fl'" for x
  proof -
    have "x \<noteq> bp" "x \<noteq> ?p" using that c bp(2) p(2) by auto
    then show ?thesis using h1 h2 by simp
  qed
  ultimately show ?thesis using c by blast
qed

section \<open>Taking a block\<close>

lemma malloc_walk:
  assumes "linked s a bs z" "freep s \<notin> fst ` set bs"
  shows "(\<exists>xs x n ys. bs = xs @ (x, n) # ys \<and> unat nu \<le> n \<and> malloc_from sbrk nu a (ptr s a) s = Some (take_block nu (last_addr a xs) x s)) \<or>
    (\<forall>(x, n) \<in> set bs. n < unat nu) \<and> malloc_from sbrk nu a (ptr s a) s = malloc_from sbrk nu (last_addr a bs) z s"
  using assms
proof (induction bs arbitrary: a)
  case Nil
  then show ?case by (simp add: last_addr_def)
next
  case (Cons y bs)
  obtain x n where y: "y = (x, n)" by fastforce
  have x: "ptr s a = x" "sz s x = n" "linked s x bs z" "x \<noteq> freep s" using Cons.prems y by auto
  show ?case
  proof (cases "unat nu \<le> n")
    case True
    then have "malloc_from sbrk nu a (ptr s a) s = Some (take_block nu a x s)" using x by (subst malloc_from.simps) simp
    then show ?thesis using True y by (intro disjI1 exI [of _ "[]"] exI [of _ x] exI [of _ n] exI [of _ bs]) (simp add: last_addr_def)
  next
    case False
    then have st: "malloc_from sbrk nu a (ptr s a) s = malloc_from sbrk nu x (ptr s x) s" using x by (subst malloc_from.simps) simp
    have "freep s \<notin> fst ` set bs" using Cons.prems(2) by simp
    from Cons.IH [OF x(3) this] show ?thesis
    proof (elim disjE exE conjE)
      fix xs x' n' ys assume "bs = xs @ (x', n') # ys" "unat nu \<le> n'" "malloc_from sbrk nu x (ptr s x) s = Some (take_block nu (last_addr x xs) x' s)"
      then show ?thesis using st y
        by (intro disjI1 exI [of _ "y # xs"] exI [of _ x'] exI [of _ n'] exI [of _ ys]) (simp add: last_addr_Cons)
    qed (use st y False in \<open>auto simp: last_addr_Cons\<close>)
  qed
qed

lemma spread_distinct: "spread a bs \<Longrightarrow> distinct (map fst bs) \<and> a \<notin> fst ` set bs"
proof (induction bs arbitrary: a)
  case (Cons y bs)
  obtain x n where y: "y = (x, n)" by fastforce
  have "spread (x + n) bs" "a < x" using Cons.prems y by auto
  moreover have "spread x bs" using calculation spread_mono by simp
  ultimately show ?case using Cons.IH [of x] y spread_addr_gt [of "x + n" bs] by fastforce
qed simp

definition no_room :: "u32 \<Rightarrow> block list \<Rightarrow> bool" where
  "no_room nu fl \<longleftrightarrow> (\<forall>(x, n) \<in> set fl. n < unat nu)"

lemma malloc_scan:
  assumes ok: "free_ok base s fl" and nu: "0 < unat nu"
  shows "(\<exists>xs x n ys. fl = xs @ (x, n) # ys \<and> unat nu \<le> n \<and>
      malloc_from sbrk nu (freep s) (ptr s (freep s)) s = Some (take_block nu (last_addr base xs) x s)) \<or>
    no_room nu fl \<and> malloc_from sbrk nu (freep s) (ptr s (freep s)) s =
      (case morecore sbrk nu s of None \<Rightarrow> None
       | Some (q, s) \<Rightarrow> if q = 0 then Some (0, s) else malloc_from sbrk nu q (ptr s q) s)"
proof -
  have l: "linked s base fl base" "sz s base = 0" "spread base fl" "freep s \<in> insert base (fst ` set fl)" using ok by (auto simp: free_ok_def)
  note d = spread_distinct [OF l(3)]
  show ?thesis
  proof (cases "freep s = base")
    case True
    have "freep s \<notin> fst ` set fl" using d True by simp
    from malloc_walk [OF l(1) this, of nu sbrk] show ?thesis
    proof (elim disjE exE conjE)
      assume "\<forall>(x, n) \<in> set fl. n < unat nu" and m: "malloc_from sbrk nu base (ptr s base) s = malloc_from sbrk nu (last_addr base fl) base s"
      moreover have "malloc_from sbrk nu (last_addr base fl) base s =
        (case morecore sbrk nu s of None \<Rightarrow> None | Some (q, s) \<Rightarrow> if q = 0 then Some (0, s) else malloc_from sbrk nu q (ptr s q) s)"
        using l(2) nu True by (subst malloc_from.simps) simp
      ultimately show ?thesis using True by (simp add: no_room_def)
    qed (use True in auto)
  next
    case False
    then obtain us k vs where fl: "fl = us @ (freep s, k) # vs" using l(4) by (metis imageE insertE prod.collapse split_list)
    have lv: "linked s (freep s) vs base" and lu: "linked s base us (freep s)" and k: "sz s (freep s) = k"
      using l(1) fl by (auto simp: linked_append)
    have nv: "freep s \<notin> fst ` set vs" and nus: "freep s \<notin> fst ` set us" using d fl by auto
    have step: "malloc_from sbrk nu (last_addr (freep s) vs) base s = malloc_from sbrk nu base (ptr s base) s"
      using l(2) nu False by (subst malloc_from.simps) auto
    from malloc_walk [OF lv nv, of nu sbrk] show ?thesis
    proof (elim disjE exE conjE)
      fix xs x n ys assume v: "vs = xs @ (x, n) # ys" "unat nu \<le> n"
        "malloc_from sbrk nu (freep s) (ptr s (freep s)) s = Some (take_block nu (last_addr (freep s) xs) x s)"
      then show ?thesis using fl
        by (intro disjI1 exI [of _ "us @ (freep s, k) # xs"] exI [of _ x] exI [of _ n] exI [of _ ys]) (simp add: last_addr_def)
    next
      assume v: "\<forall>(x, n) \<in> set vs. n < unat nu"
        "malloc_from sbrk nu (freep s) (ptr s (freep s)) s = malloc_from sbrk nu (last_addr (freep s) vs) base s"
      from malloc_walk [OF lu nus, of nu sbrk] show ?thesis
      proof (elim disjE exE conjE)
        fix xs x n ys assume u: "us = xs @ (x, n) # ys" "unat nu \<le> n" "malloc_from sbrk nu base (ptr s base) s = Some (take_block nu (last_addr base xs) x s)"
        then show ?thesis using fl v step
          by (intro disjI1 exI [of _ xs] exI [of _ x] exI [of _ n] exI [of _ "ys @ (freep s, k) # vs"]) simp
      next
        assume u: "\<forall>(x, n) \<in> set us. n < unat nu" "malloc_from sbrk nu base (ptr s base) s = malloc_from sbrk nu (last_addr base us) (freep s) s"
        show ?thesis
        proof (cases "unat nu \<le> k")
          case True
          then have "malloc_from sbrk nu (last_addr base us) (freep s) s = Some (take_block nu (last_addr base us) (freep s) s)"
            using k by (subst malloc_from.simps) simp
          then show ?thesis using True fl v u step
            by (intro disjI1 exI [of _ us] exI [of _ "freep s"] exI [of _ k] exI [of _ vs]) simp
        next
          case False
          then have "malloc_from sbrk nu (last_addr base us) (freep s) s =
            (case morecore sbrk nu s of None \<Rightarrow> None | Some (q, s) \<Rightarrow> if q = 0 then Some (0, s) else malloc_from sbrk nu q (ptr s q) s)"
            using k by (subst malloc_from.simps) simp
          moreover have "no_room nu fl" using False fl v(1) u(1) by (auto simp: no_room_def)
          ultimately show ?thesis using v u step by simp
        qed
      qed
    qed
  qed
qed

lemma take_block_ok:
  assumes ok: "free_ok base s fl" and fl: "fl = xs @ (x, n) # ys" and nu: "0 < unat nu" "unat nu \<le> n"
  shows "\<exists>q s' fl'. take_block nu (last_addr base xs) x s = (q + 1, s') \<and> free_ok base s' fl' \<and> sz s' q = unat nu \<and> base < q \<and>
    cells fl = cells fl' \<union> {q..<q + unat nu} \<and> cells fl' \<inter> {q..<q + unat nu} = {} \<and>
    (\<forall>y. y \<noteq> base \<and> y \<notin> cells fl \<longrightarrow> hdr s' y = hdr s y)"
proof -
  let ?p = "last_addr base xs"
  have l: "0 < base" "linked s base fl base" "sz s base = 0" "spread base fl" using ok by (auto simp: free_ok_def)
  have k: "linked s base xs x" "sz s x = n" "linked s x ys base" "spread base xs" "end_of base xs < x" "spread (x + n) ys"
    using l(2,4) fl by (auto simp: linked_append spread_append)
  have bx: "base < x" using spread_gt [OF l(4), of x n] fl by simp
  have xs_lt: "z < x" if "z \<in> insert base (fst ` set xs)" for z
    using that spread_end [OF k(4)] spread_gt [OF k(4)] k(5) bx by fastforce
  have ys_gt: "x + n < z" if "z \<in> fst ` set ys" for z using spread_addr_gt [OF k(6) that] .
  have px: "?p < x" using xs_lt last_addr_in by blast
  have pc: "?p = base \<or> ?p \<in> cells fl" using last_addr_in [of base xs] node_cell [OF k(4), of ?p] fl by auto
  have xs_cells: "z < x" if "z \<in> cells xs" for z using that spread_end [OF k(4)] k(5) by (fastforce simp: cells_def)
  have ys_cells: "x + n < z" if "z \<in> cells ys" for z using that spread_gt [OF k(6)] by (fastforce simp: cells_def)
  show ?thesis
  proof (cases "n = unat nu")
    case True
    let ?s = "(set_ptr ?p (ptr s x) s)\<lparr>freep := ?p\<rparr>"
    have t: "take_block nu ?p x s = (x + 1, ?s)" using True k(2) by (simp add: take_block_def)
    have h: "hdr ?s y = hdr s y" if "y \<noteq> ?p" for y using that by (simp add: set_ptr_def)
    have lx: "linked ?s base xs (ptr s x)"
      using linked_relink [OF k(1,4), of "ptr s x"] linked_cong [of base xs ?s "set_ptr ?p (ptr s x) s"] by simp
    have "linked ?s ?p ys base"
    proof (rule linked_from [OF k(3)])
      show "ptr ?s ?p = ptr s x" by (simp add: set_ptr_def)
      show "hdr ?s z = hdr s z" if "z \<in> fst ` set ys" for z by (rule h) (use ys_gt [OF that] px in auto)
    qed
    moreover have "linked ?s base xs (if ys = [] then base else fst (hd ys))"
      using lx k(3) by (cases ys) auto
    ultimately have "linked ?s base (xs @ ys) base" by (simp add: linked_append)
    moreover have "spread base (xs @ ys)" using k(4-6) spread_mono [of "x + n" ys "end_of base xs"] by (simp add: spread_append)
    moreover have "sz ?s base = 0" using l(3) by (simp add: set_ptr_def)
    moreover have "?p \<in> insert base (fst ` set (xs @ ys))" using last_addr_in [of base xs] by auto
    ultimately have "free_ok base ?s (xs @ ys)" using l(1) by (simp add: free_ok_def)
    moreover have "cells fl = cells (xs @ ys) \<union> {x..<x + unat nu}" using fl True by auto
    moreover have "cells (xs @ ys) \<inter> {x..<x + unat nu} = {}" using xs_cells ys_cells True by fastforce
    moreover have "sz ?s x = unat nu" using h [of x] px k(2) True by simp
    moreover have "hdr ?s y = hdr s y" if "y \<noteq> base" "y \<notin> cells fl" for y by (rule h) (use that pc in auto)
    ultimately show ?thesis using t bx by blast
  next
    case False
    then have lt: "unat nu < n" using nu(2) by simp
    define q where "q = x + (n - unat nu)"
    let ?s = "(set_size q (unat nu) (set_size x (n - unat nu) s))\<lparr>freep := ?p\<rparr>"
    have qx: "x < q" "q + unat nu = x + n" using lt nu by (auto simp: q_def)
    have t: "take_block nu ?p x s = (q + 1, ?s)" using False k(2) by (simp add: take_block_def Let_def q_def set_size_def)
    have h: "hdr ?s y = hdr s y" if "y \<noteq> x" "y \<noteq> q" for y using that by (simp add: set_size_def)
    have pt: "ptr ?s y = ptr s y" for y by (simp add: set_size_def)
    have hl: "hdr ?s y = hdr s y" if "y < x" for y using h [of y] that qx by simp
    have hg: "hdr ?s y = hdr s y" if "x + n < y" for y using h [of y] that qx by simp
    have "linked ?s base xs x \<longleftrightarrow> linked s base xs x" by (rule linked_cong, rule hl, rule xs_lt)
    moreover have "linked ?s x ys base" by (rule linked_from [OF k(3) pt], rule hg, rule ys_gt)
    moreover have "sz ?s x = n - unat nu" using qx by (simp add: set_size_def)
    moreover have "ptr ?s ?p = x" using pt [of ?p] k(1) linked_append [of s base xs "[]" x] by simp
    ultimately have "linked ?s base (xs @ (x, n - unat nu) # ys) base" using k(1) by (simp add: linked_append)
    moreover have "spread base (xs @ (x, n - unat nu) # ys)"
      using k(4-6) lt spread_mono [of "x + n" ys "x + (n - unat nu)"] by (simp add: spread_append)
    moreover have "sz ?s base = 0" using h [of base] bx qx l(3) by simp
    moreover have "?p \<in> insert base (fst ` set (xs @ (x, n - unat nu) # ys))" using last_addr_in [of base xs] by auto
    ultimately have "free_ok base ?s (xs @ (x, n - unat nu) # ys)" using l(1) by (simp add: free_ok_def)
    moreover have "cells fl = cells (xs @ (x, n - unat nu) # ys) \<union> {q..<q + unat nu}" using fl qx lt by (auto simp: q_def)
    moreover have "cells (xs @ (x, n - unat nu) # ys) \<inter> {q..<q + unat nu} = {}"
      using xs_cells ys_cells qx lt by (fastforce simp: q_def)
    moreover have "sz ?s q = unat nu" by (simp add: set_size_def)
    moreover have "hdr ?s y = hdr s y" if "y \<noteq> base" "y \<notin> cells fl" for y
      by (rule h) (use that fl qx nu lt in auto)
    ultimately show ?thesis using t bx qx(1) by (intro exI [of _ q] exI [of _ ?s] exI [of _ "xs @ (x, n - unat nu) # ys"]) simp
  qed
qed

text \<open>An interval of free units lies in one block, as no two blocks are adjacent.\<close>

lemma interval_in_block:
  assumes "spread a fl" "{x..<x + m} \<subseteq> cells fl" "0 < m"
  shows "\<exists>(y, n) \<in> set fl. y \<le> x \<and> x + m \<le> y + n"
  using assms
proof (induction fl arbitrary: a)
  case (Cons b fl)
  obtain y n where b: "b = (y, n)" by fastforce
  have sp: "spread (y + n) fl" using Cons.prems(1) b by simp
  have gt: "y + n < z" if "z \<in> cells fl" for z using that spread_gt [OF sp] by (fastforce simp: cells_def)
  show ?case
  proof (cases "x \<in> {y..<y + n}")
    case True
    have "x + m \<le> y + n"
    proof (rule ccontr)
      assume "\<not> x + m \<le> y + n"
      then have "y + n \<in> {x..<x + m}" using True by auto
      then have "y + n \<in> cells fl" using Cons.prems(2) b by auto
      then show False using gt by blast
    qed
    then show ?thesis using True b by auto
  next
    case False
    have "x \<in> {x..<x + m}" using Cons.prems(3) by simp
    then have "x \<in> {y..<y + n} \<union> cells fl" using Cons.prems(2) unfolding b cells_simps by (rule rev_subsetD)
    then have "x \<in> cells fl" using False by blast
    then have "{x..<x + m} \<inter> {y..<y + n} = {}" using gt by fastforce
    then have "{x..<x + m} \<subseteq> cells fl" using Cons.prems(2) b by auto
    from Cons.IH [OF sp this Cons.prems(3)] show ?thesis by auto
  qed
qed auto

section \<open>The heap\<close>

definition held :: "block set \<Rightarrow> nat set" where    \<comment> \<open>the units of the allocated blocks\<close>
  "held al = (\<Union>(x, n) \<in> al. {x..<x + n})"

definition heap_ok :: "nat \<Rightarrow> umem \<Rightarrow> block list \<Rightarrow> block set \<Rightarrow> bool" where
  "heap_ok base s fl al \<longleftrightarrow> 0 < base \<and> (freep s = 0 \<and> fl = [] \<and> al = {} \<or> free_ok base s fl) \<and> held al \<inter> cells fl = {} \<and>
     (\<forall>(x, n) \<in> al. base < x \<and> 0 < n \<and> sz s x = n) \<and>
     (\<forall>b \<in> al. \<forall>c \<in> al. b \<noteq> c \<longrightarrow> {fst b..<fst b + snd b} \<inter> {fst c..<fst c + snd c} = {})"

text \<open>\<open>sbrk\<close> hands out memory that is in no block.\<close>

definition sbrk_fresh :: "nat \<Rightarrow> nat set \<Rightarrow> (int \<Rightarrow> nat option) \<Rightarrow> bool" where
  "sbrk_fresh base used sbrk \<longleftrightarrow> (\<forall>n hp. 0 \<le> n \<and> sbrk n = Some hp \<longrightarrow> base < hp \<and> {hp..<hp + nat n div 8} \<inter> used = {})"

lemma heldI: "(x, n) \<in> al \<Longrightarrow> {x..<x + n} \<subseteq> held al"
  unfolding held_def by auto

lemma set_size_free:
  assumes "free_ok base s fl" "hp \<notin> cells fl" "hp \<noteq> base"
  shows "free_ok base (set_size hp n s) fl"
proof -
  have h: "hdr (set_size hp n s) x = hdr s x" if "x \<in> insert base (fst ` set fl)" for x
    using that assms node_cell [of base fl x] by (auto simp: free_ok_def set_size_def)
  have "linked (set_size hp n s) base fl base \<longleftrightarrow> linked s base fl base" by (rule linked_cong) (rule h)
  then show ?thesis using assms h [of base] by (simp add: free_ok_def) (simp add: set_size_def)
qed

lemma sbrk_bytes:
  fixes nu :: u32
  assumes "unat nu < 2 ^ 28"
  shows "sint (nu * 8) = 8 * int (unat nu)"
proof -
  have u: "unat (nu * 8) = unat nu * 8" using assms by (simp add: unat_word_ariths)
  have i: "sint w = int (unat w)" if "unat w < 2147483648" for w :: u32
  proof -
    have "int (unat w) < 2147483648" using that by linarith
    then have "uint w < 2 ^ 31" by simp
    moreover have "sint w = signed_take_bit 31 (uint w)" by (simp add: sint_uint)
    moreover have "- (2 ^ 31) \<le> uint w" by (rule order_trans [OF _ uint_ge_0]) simp
    ultimately have "sint w = uint w" using signed_take_bit_int_eq_self [of 31 "uint w"] by simp
    then show ?thesis by simp
  qed
  have "sint (nu * 8) = int (unat nu * 8)" using i [of "nu * 8"] u assms by (simp only: u) simp
  then show ?thesis by simp
qed

lemma morecore_ok:
  assumes ok: "free_ok base s fl" and nu: "unat nu < 2 ^ 28" and sb: "sbrk_fresh base used sbrk" and used: "cells fl \<subseteq> used"
  shows "morecore sbrk nu s = Some (0, s) \<and> sbrk (8 * int (max 4096 (unat nu))) = None \<or>
    (\<exists>s' fl' hp m. morecore sbrk nu s = Some (freep s', s') \<and> freep s' \<noteq> 0 \<and> free_ok base s' fl' \<and> unat nu \<le> m \<and> 0 < m \<and>
      cells fl' = cells fl \<union> {hp..<hp + m} \<and> {hp..<hp + m} \<inter> used = {} \<and> (\<forall>x. x \<noteq> base \<and> x \<notin> cells fl' \<longrightarrow> hdr s' x = hdr s x))"
proof -
  define k where "k = (if nu < 4096 then 4096 else nu)"
  have k: "unat k < 2 ^ 28" "unat nu \<le> unat k" "0 < unat k" using nu by (auto simp: k_def word_less_nat_alt)
  have m: "morecore sbrk nu s = (case sbrk (sint (k * 8)) of None \<Rightarrow> Some (0, s)
    | Some hp \<Rightarrow> map_option (\<lambda>s. (freep s, s)) (ufree (hp + 1) (set_size hp (unat k) s)))" unfolding morecore_def Let_def k_def ..
  show ?thesis
  proof (cases "sbrk (sint (k * 8))")
    case None
    moreover have "sint (k * 8) = 8 * int (max 4096 (unat nu))" unfolding sbrk_bytes [OF k(1)] by (simp add: k_def word_less_nat_alt max_def)
    ultimately show ?thesis using m by simp
  next
    case (Some hp)
    let ?s = "set_size hp (unat k) s"
    have "nat (8 * int (unat k)) div 8 = unat k" by (simp only: nat_mult_distrib) simp
    moreover have "base < hp \<and> {hp..<hp + nat (8 * int (unat k)) div 8} \<inter> used = {}"
      using sb Some unfolding sbrk_fresh_def sbrk_bytes [OF k(1)] by (metis of_nat_0_le_iff of_nat_mult of_nat_numeral)
    ultimately have f: "base < hp" "{hp..<hp + unat k} \<inter> used = {}" by simp_all
    have "hp \<in> {hp..<hp + unat k}" using k(3) by simp
    then have "hp \<notin> cells fl" using f(2) used by blast
    then have ok': "free_ok base ?s fl" using f(1) by (intro set_size_free [OF ok]) simp_all
    have z: "sz ?s hp = unat k" by (simp add: set_size_def)
    from free_block [OF ok' f(1), unfolded z, OF k(3)] f(2) used obtain s' fl' where
      s': "ufree (hp + 1) ?s = Some s'" "free_ok base s' fl'" "cells fl' = cells fl \<union> {hp..<hp + unat k}"
      and fr: "\<And>x. x \<noteq> base \<Longrightarrow> x \<notin> cells fl' \<Longrightarrow> hdr s' x = hdr ?s x" by blast
    have "base \<le> freep s'" using s'(2) spread_addr_gt [of base fl' "freep s'"] unfolding free_ok_def by (metis insertE less_imp_le order_refl)
    then have "freep s' \<noteq> 0" using s'(2) by (auto simp: free_ok_def)
    moreover have "hdr s' x = hdr s x" if "x \<noteq> base" "x \<notin> cells fl'" for x
      using fr [OF that] that(2) s'(3) k(3) by (auto simp: set_size_def)
    ultimately show ?thesis using s' m Some k f(2) by (intro disjI2 exI [of _ s'] exI [of _ fl'] exI [of _ hp] exI [of _ "unat k"]) simp
  qed
qed

lemma malloc_from_ok:
  assumes ok: "free_ok base s fl" and nu: "0 < unat nu" "unat nu < 2 ^ 28" and sb: "sbrk_fresh base used sbrk" and used: "cells fl \<subseteq> used"
  shows "malloc_from sbrk nu (freep s) (ptr s (freep s)) s = Some (0, s) \<and> no_room nu fl \<and> sbrk (8 * int (max 4096 (unat nu))) = None \<or>
    (\<exists>q s' fl'. malloc_from sbrk nu (freep s) (ptr s (freep s)) s = Some (q + 1, s') \<and> free_ok base s' fl' \<and> sz s' q = unat nu \<and> base < q \<and>
      cells fl' \<inter> {q..<q + unat nu} = {} \<and> cells fl \<subseteq> cells fl' \<union> {q..<q + unat nu} \<and> (cells fl' \<union> {q..<q + unat nu}) \<inter> (used - cells fl) = {} \<and>
      (\<forall>y \<in> used - cells fl. y \<noteq> base \<longrightarrow> hdr s' y = hdr s y))"
  using malloc_scan [OF ok nu(1), of sbrk]
proof (elim disjE exE conjE)
  fix xs x n ys assume t: "fl = xs @ (x, n) # ys" "unat nu \<le> n"
    "malloc_from sbrk nu (freep s) (ptr s (freep s)) s = Some (take_block nu (last_addr base xs) x s)"
  from take_block_ok [OF ok t(1) nu(1) t(2)] obtain q s' fl' where
    q: "take_block nu (last_addr base xs) x s = (q + 1, s')" "free_ok base s' fl'" "sz s' q = unat nu" "base < q"
      "cells fl = cells fl' \<union> {q..<q + unat nu}" "cells fl' \<inter> {q..<q + unat nu} = {}"
    and h: "\<And>y. y \<noteq> base \<Longrightarrow> y \<notin> cells fl \<Longrightarrow> hdr s' y = hdr s y" by blast
  show ?thesis using t(3) q h by (intro disjI2 exI [of _ q] exI [of _ s'] exI [of _ fl']) auto
next
  assume nr: "no_room nu fl" and m: "malloc_from sbrk nu (freep s) (ptr s (freep s)) s =
      (case morecore sbrk nu s of None \<Rightarrow> None | Some (q, s) \<Rightarrow> if q = 0 then Some (0, s) else malloc_from sbrk nu q (ptr s q) s)"
  from morecore_ok [OF ok nu(2) sb used] show ?thesis
  proof (elim disjE exE conjE)
    assume "morecore sbrk nu s = Some (0, s)" "sbrk (8 * int (max 4096 (unat nu))) = None"
    then show ?thesis using m nr by simp
  next
    fix s1 fl1 hp k
    assume c: "morecore sbrk nu s = Some (freep s1, s1)" "freep s1 \<noteq> 0" "free_ok base s1 fl1" "unat nu \<le> k" "0 < k"
      "cells fl1 = cells fl \<union> {hp..<hp + k}" "{hp..<hp + k} \<inter> used = {}" and h1: "\<forall>x. x \<noteq> base \<and> x \<notin> cells fl1 \<longrightarrow> hdr s1 x = hdr s x"
    have "\<exists>(y, n) \<in> set fl1. y \<le> hp \<and> hp + k \<le> y + n" using c(3,5,6) by (intro interval_in_block [of base]) (auto simp: free_ok_def)
    then have "\<not> no_room nu fl1" using c(4) by (force simp: no_room_def)
    with malloc_scan [OF c(3) nu(1), of sbrk] obtain xs x n ys where t: "fl1 = xs @ (x, n) # ys" "unat nu \<le> n"
      "malloc_from sbrk nu (freep s1) (ptr s1 (freep s1)) s1 = Some (take_block nu (last_addr base xs) x s1)" by blast
    from take_block_ok [OF c(3) t(1) nu(1) t(2)] obtain q s' fl' where
      q: "take_block nu (last_addr base xs) x s1 = (q + 1, s')" "free_ok base s' fl'" "sz s' q = unat nu" "base < q"
        "cells fl1 = cells fl' \<union> {q..<q + unat nu}" "cells fl' \<inter> {q..<q + unat nu} = {}"
      and h: "\<And>y. y \<noteq> base \<Longrightarrow> y \<notin> cells fl1 \<Longrightarrow> hdr s' y = hdr s1 y" by blast
    have out: "y \<notin> cells fl1" if "y \<in> used - cells fl" for y using that c(6,7) by blast
    have "malloc_from sbrk nu (freep s) (ptr s (freep s)) s = Some (q + 1, s')" using m c(1,2) t(3) q(1) by simp
    moreover have "hdr s' y = hdr s y" if "y \<in> used - cells fl" "y \<noteq> base" for y using h [OF that(2) out [OF that(1)]] h1 that(2) out [OF that(1)] by simp
    moreover have "cells fl \<subseteq> cells fl' \<union> {q..<q + unat nu}" using c(6) q(5) by blast
    moreover have "(cells fl' \<union> {q..<q + unat nu}) \<inter> (used - cells fl) = {}" using out q(5) by blast
    ultimately show ?thesis using q(2-4,6) by blast
  qed
qed

lemma nunits_of_value:
  assumes "unat nbytes < 2 ^ 31 - 16"
  shows "unat (nunits_of nbytes) = (unat nbytes + 7) div 8 + 1"
proof -
  have a: "unat (nbytes + 7) = unat nbytes + 7" using assms by (simp add: unat_word_ariths)
  have "unat ((nbytes + 7) div 8) = (unat nbytes + 7) div 8" by (simp add: unat_div_distrib a)
  moreover have "(unat nbytes + 7) div 8 + 1 < 2 ^ 32" using assms by simp
  ultimately have "unat ((nbytes + 7) div 8 + 1) = (unat nbytes + 7) div 8 + 1" by (simp add: unat_word_ariths)
  then show ?thesis by (simp add: nunits_of_def add.commute)
qed

lemma held_insert: "held (insert (q, n) al) = {q..<q + n} \<union> held al"
  by (auto simp: held_def)

lemma heap_okD:
  assumes "heap_ok base s fl al"
  shows "0 < base" "held al \<inter> cells fl = {}" "(x, n) \<in> al \<Longrightarrow> base < x \<and> 0 < n \<and> sz s x = n" "base \<notin> held al"
    "(x, n) \<in> al \<Longrightarrow> (y, m) \<in> al \<Longrightarrow> (x, n) \<noteq> (y, m) \<Longrightarrow> {x..<x + n} \<inter> {y..<y + m} = {}"
proof -
  show "0 < base" "held al \<inter> cells fl = {}" using assms by (auto simp: heap_ok_def)
  show b: "(x, n) \<in> al \<Longrightarrow> base < x \<and> 0 < n \<and> sz s x = n" for x n using assms by (auto simp: heap_ok_def)
  then show "base \<notin> held al" by (force simp: held_def)
  show "(x, n) \<in> al \<Longrightarrow> (y, m) \<in> al \<Longrightarrow> (x, n) \<noteq> (y, m) \<Longrightarrow> {x..<x + n} \<inter> {y..<y + m} = {}"
    using assms unfolding heap_ok_def by (metis fst_conv snd_conv)
qed

lemma heap_okI:
  assumes "free_ok base s fl" "held al \<inter> cells fl = {}" "\<And>x n. (x, n) \<in> al \<Longrightarrow> base < x \<and> 0 < n \<and> sz s x = n"
    and "\<And>x n y m. (x, n) \<in> al \<Longrightarrow> (y, m) \<in> al \<Longrightarrow> (x, n) \<noteq> (y, m) \<Longrightarrow> {x..<x + n} \<inter> {y..<y + m} = {}"
  shows "heap_ok base s fl al"
proof -
  have "{fst b..<fst b + snd b} \<inter> {fst c..<fst c + snd c} = {}" if "b \<in> al" "c \<in> al" "b \<noteq> c" for b c
    using assms(4) [of "fst b" "snd b" "fst c" "snd c"] that by simp
  moreover have "0 < base" using assms(1) by (simp add: free_ok_def)
  ultimately show ?thesis using assms(1-3) by (auto simp: heap_ok_def)
qed

lemma held_frame:
  assumes "heap_ok base s fl al" "al' \<subseteq> al" "\<And>y. y \<in> held al' \<Longrightarrow> hdr s' y = hdr s y"
  shows "(x, n) \<in> al' \<Longrightarrow> base < x \<and> 0 < n \<and> sz s' x = n"
proof -
  assume x: "(x, n) \<in> al'"
  then have b: "base < x \<and> 0 < n \<and> sz s x = n" using heap_okD(3) [OF assms(1)] assms(2) by blast
  then have "x \<in> held al'" using heldI [OF x] by auto
  then show ?thesis using b assms(3) by simp
qed

lemma first_call:
  assumes "heap_ok base s fl al"
  shows "free_ok base (if freep s = 0 then set_size base 0 (set_ptr base base s)\<lparr>freep := base\<rparr> else s) fl"
proof (cases "freep s = 0")
  case True
  have "\<not> free_ok base s fl"
  proof
    assume ok: "free_ok base s fl"
    then have "0 < base" "spread base fl" "0 \<in> insert base (fst ` set fl)" using True by (auto simp: free_ok_def)
    then show False using spread_addr_gt [of base fl 0] by blast
  qed
  then have "fl = []" "0 < base" using assms by (auto simp: heap_ok_def)
  then show ?thesis using True by (simp add: free_ok_def set_size_def set_ptr_def)
next
  case False
  then show ?thesis using assms by (auto simp: heap_ok_def)
qed

lemma umalloc_ok:
  assumes h: "heap_ok base s fl al" and sb: "sbrk_fresh base (cells fl \<union> held al) sbrk" and nb: "unat nbytes < 2 ^ 31 - 16"
  shows "\<exists>r s' fl'. umalloc base sbrk nbytes s = Some (r, s') \<and> (\<forall>y \<in> held al. hdr s' y = hdr s y) \<and>
    (r = 0 \<and> no_room (nunits_of nbytes) fl \<and> sbrk (8 * int (max 4096 (unat (nunits_of nbytes)))) = None \<and> heap_ok base s' fl al \<or>
     (\<exists>q n. r = q + 1 \<and> unat nbytes \<le> 8 * (n - 1) \<and> (q, n) \<notin> al \<and> heap_ok base s' fl' (insert (q, n) al)))"
proof -
  let ?nu = "nunits_of nbytes"
  define s0 where "s0 = (if freep s = 0 then set_size base 0 (set_ptr base base s)\<lparr>freep := base\<rparr> else s)"
  note d = heap_okD [OF h]
  have nu: "0 < unat ?nu" "unat ?nu < 2 ^ 28" "unat nbytes \<le> 8 * (unat ?nu - 1)" using nunits_of_value [OF nb] nb by auto
  have ok0: "free_ok base s0 fl" unfolding s0_def by (rule first_call [OF h])
  have h0: "hdr s0 y = hdr s y" if "y \<noteq> base" for y using that by (simp add: s0_def set_size_def set_ptr_def)
  have m: "umalloc base sbrk nbytes s = malloc_from sbrk ?nu (freep s0) (ptr s0 (freep s0)) s0" unfolding umalloc_def Let_def s0_def ..
  have fr: "hdr s0 y = hdr s y" if "y \<in> held al" for y using h0 that d(4) by metis
  from malloc_from_ok [OF ok0 nu(1,2) sb Un_upper1] show ?thesis
  proof (elim disjE exE conjE)
    assume e: "malloc_from sbrk ?nu (freep s0) (ptr s0 (freep s0)) s0 = Some (0, s0)" "no_room ?nu fl" "sbrk (8 * int (max 4096 (unat ?nu))) = None"
    have "heap_ok base s0 fl al" using d held_frame [OF h order_refl fr] by (intro heap_okI [OF ok0]) auto
    then show ?thesis using e m fr by auto
  next
    fix q s' fl'
    assume e: "malloc_from sbrk ?nu (freep s0) (ptr s0 (freep s0)) s0 = Some (q + 1, s')" "free_ok base s' fl'" "sz s' q = unat ?nu" "base < q"
      "cells fl' \<inter> {q..<q + unat ?nu} = {}" "cells fl \<subseteq> cells fl' \<union> {q..<q + unat ?nu}" "(cells fl' \<union> {q..<q + unat ?nu}) \<inter> (cells fl \<union> held al - cells fl) = {}"
      and hh: "\<forall>y \<in> cells fl \<union> held al - cells fl. y \<noteq> base \<longrightarrow> hdr s' y = hdr s0 y"
    have al: "cells fl \<union> held al - cells fl = held al" using d(2) by blast
    have hf: "hdr s' y = hdr s y" if "y \<in> held al" for y using hh that fr [OF that] d(4) unfolding al by metis
    have sep: "{q..<q + unat ?nu} \<inter> held al = {}" "cells fl' \<inter> held al = {}" using e(7) unfolding al by blast+
    have qin: "q \<in> {q..<q + unat ?nu}" using nu(1) by simp
    have new: "(q, unat ?nu) \<notin> al" using heldI [of q "unat ?nu" al] sep(1) qin by blast
    have apart: "{q..<q + unat ?nu} \<inter> {x..<x + n} = {}" if "(x, n) \<in> al" for x n using heldI [OF that] sep(1) by blast
    have "heap_ok base s' fl' (insert (q, unat ?nu) al)"
    proof (rule heap_okI [OF e(2)])
      show "held (insert (q, unat ?nu) al) \<inter> cells fl' = {}" using sep(2) e(5) by (auto simp: held_insert)
      show "base < x \<and> 0 < n \<and> sz s' x = n" if "(x, n) \<in> insert (q, unat ?nu) al" for x n
        using that held_frame [OF h order_refl hf, of x n] e(3,4) nu(1) by auto
      show "{x..<x + n} \<inter> {y..<y + k} = {}" if "(x, n) \<in> insert (q, unat ?nu) al" "(y, k) \<in> insert (q, unat ?nu) al" "(x, n) \<noteq> (y, k)" for x n y k
        using that d(5) [of x n y k] apart [of x n] apart [of y k] by (auto simp: Int_commute)
    qed
    then show ?thesis using e(1) m hf new nu(3) by (intro exI [of _ "q + 1"] exI [of _ s'] exI [of _ fl']) auto
  qed
qed

lemma ufree_ok:
  assumes h: "heap_ok base s fl al" and b: "(q, n) \<in> al"
  shows "\<exists>s' fl'. ufree (q + 1) s = Some s' \<and> heap_ok base s' fl' (al - {(q, n)}) \<and> cells fl' = cells fl \<union> {q..<q + n} \<and>
    (\<forall>y \<in> held (al - {(q, n)}). hdr s' y = hdr s y)"
proof -
  note d = heap_okD [OF h]
  have ok: "free_ok base s fl" using h b by (auto simp: heap_ok_def)
  have bq: "base < q" "0 < n" "sz s q = n" using d(3) [OF b] by auto
  have "{q..<q + n} \<inter> cells fl = {}" using heldI [OF b] d(2) by blast
  from free_block [OF ok bq(1), unfolded bq(3), OF bq(2) this] obtain s' fl' where
    f: "ufree (q + 1) s = Some s'" "free_ok base s' fl'" "cells fl' = cells fl \<union> {q..<q + n}"
    and fr: "\<And>x. x \<noteq> base \<Longrightarrow> x \<notin> cells fl' \<Longrightarrow> hdr s' x = hdr s x" by blast
  have sub: "held (al - {(q, n)}) \<subseteq> held al" by (auto simp: held_def)
  have "{q..<q + n} \<inter> {x..<x + k} = {}" if "(x, k) \<in> al - {(q, n)}" for x k
    using d(5) [of q n x k] b that by auto
  then have "held (al - {(q, n)}) \<inter> {q..<q + n} = {}" unfolding held_def by fast
  then have sep: "held (al - {(q, n)}) \<inter> cells fl' = {}" using f(3) d(2) sub by blast
  have hf: "hdr s' y = hdr s y" if "y \<in> held (al - {(q, n)})" for y
    using fr [of y] that sep sub d(4) by blast
  have "heap_ok base s' fl' (al - {(q, n)})"
  proof (rule heap_okI [OF f(2) sep])
    show "base < x \<and> 0 < k \<and> sz s' x = k" if "(x, k) \<in> al - {(q, n)}" for x k by (rule held_frame [OF h _ hf that]) auto
    show "{x..<x + k} \<inter> {y..<y + m} = {}" if "(x, k) \<in> al - {(q, n)}" "(y, m) \<in> al - {(q, n)}" "(x, k) \<noteq> (y, m)" for x k y m
      using d(5) [of x k y m] that by blast
  qed
  then show ?thesis using f(1,3) hf by blast
qed

text \<open> C5. The user allocator. On every well-formed heap \<open>malloc\<close> and \<open>free\<close> return, although their searches run around a
  circular list. \<open>malloc\<close> returns a block large enough for the bytes asked for that overlaps no allocated block and no free
  one; it returns 0, leaving the heap as it was, only when no free block is large enough and \<open>sbrk\<close> refuses. \<open>free\<close> of an allocated
  block makes exactly its units free. Neither touches a unit of any other allocated block, and both keep the free list
  sorted by address with neighbours joined. Requests are below \<open>2^31 - 16\<close> bytes and \<open>sbrk\<close> gives memory in no block.\<close>

theorem umalloc_correct:
  assumes "heap_ok base s fl al" "sbrk_fresh base (cells fl \<union> held al) sbrk" "unat nbytes < 2 ^ 31 - 16"
  shows "(\<exists>r s' fl'. umalloc base sbrk nbytes s = Some (r, s') \<and> (\<forall>y \<in> held al. hdr s' y = hdr s y) \<and>
      (r = 0 \<and> no_room (nunits_of nbytes) fl \<and> sbrk (8 * int (max 4096 (unat (nunits_of nbytes)))) = None \<and> heap_ok base s' fl al \<or>
       (\<exists>q n. r = q + 1 \<and> unat nbytes \<le> 8 * (n - 1) \<and> (q, n) \<notin> al \<and> heap_ok base s' fl' (insert (q, n) al)))) \<and>
    (\<forall>(q, n) \<in> al. \<exists>s' fl'. ufree (q + 1) s = Some s' \<and> heap_ok base s' fl' (al - {(q, n)}) \<and> cells fl' = cells fl \<union> {q..<q + n} \<and>
      (\<forall>y \<in> held (al - {(q, n)}). hdr s' y = hdr s y))"
  using umalloc_ok [OF assms] ufree_ok [OF assms(1)] by auto

definition example_heap :: umem where    \<comment> \<open>before the first call\<close>
  "example_heap = \<lparr>hdr = \<lambda>_. \<lparr>uptr = 0, usize = 0\<rparr>, freep = 0\<rparr>"

theorem umalloc_correct_witness:
  "\<exists>r s' fl'. umalloc 1 (\<lambda>n. if n = 32768 then Some 512 else None) 100 example_heap = Some (r, s') \<and> r \<noteq> 0 \<and>
     (\<exists>n. 100 \<le> 8 * (n - 1) \<and> heap_ok 1 s' fl' {(r - 1, n)})"
proof -
  let ?sb = "\<lambda>n :: int. if n = 32768 then Some (512 :: nat) else None"
  have h: "heap_ok 1 example_heap [] {}" by (simp add: heap_ok_def held_def example_heap_def)
  have sb: "sbrk_fresh 1 (cells [] \<union> held {}) ?sb" by (simp add: sbrk_fresh_def held_def)
  have nb: "unat (100 :: u32) < 2 ^ 31 - 16" by simp
  from umalloc_correct [OF h sb nb] obtain r s' fl' where r: "umalloc 1 ?sb 100 example_heap = Some (r, s')"
    and c: "r = 0 \<and> no_room (nunits_of 100) [] \<and> ?sb (8 * int (max 4096 (unat (nunits_of 100)))) = None \<and> heap_ok 1 s' [] {} \<or>
      (\<exists>q n. r = q + 1 \<and> unat (100 :: u32) \<le> 8 * (n - 1) \<and> (q, n) \<notin> {} \<and> heap_ok 1 s' fl' (insert (q, n) {}))" by blast
  have "unat (nunits_of 100) = 14" by (simp add: nunits_of_def)
  then have r0: "r \<noteq> 0" using c by auto
  then obtain q n where q: "r = q + 1" "unat (100 :: u32) \<le> 8 * (n - 1)" "heap_ok 1 s' fl' {(q, n)}" using c by auto
  then have "100 \<le> 8 * (n - 1) \<and> heap_ok 1 s' fl' {(r - 1, n)}" by simp
  then show ?thesis using r r0 by blast
qed

end
