(* ===== verification/Xv6_Console.thy ===== *)
theory Xv6_Console
  imports Prelude
begin

text \<open>
  The console of xv6 (\<open>console.c\<close>): the screen and the serial line, the editing of input lines by the keyboard
  interrupt and their delivery to readers. The three 32-bit indices of \<open>input\<close> only grow, apart from editing, and
  wrap around; a position in the buffer is an index modulo 128. The bytes sent to the serial line are collected in
  \<open>serial\<close>; the cursor of the display is a 16-bit register. Each operation runs under the lock of the console up to
  its end or to \<open>sleep\<close>. A panicked console, which stops all output, is not a state of the model: a panic ends the run.
\<close>

unbundle bit_operations_syntax

section \<open>The screen\<close>

definition BACKSPACE :: int where "BACKSPACE = 0x100"

record screen =
  crt :: "u16 list"
  cursor :: u16
  serial :: "u8 list"

definition scroll :: "nat \<Rightarrow> u16 list \<Rightarrow> u16 list" where    \<comment> \<open>\<open>memmove\<close> and \<open>memset\<close> for the new position \<open>p\<close>\<close>
  "scroll p m = (let m = take (23 * 80) (drop 80 m) @ drop (23 * 80) m in take p m @ replicate (24 * 80 - p) 0 @ drop (24 * 80) m)"

definition set_pos :: "int \<Rightarrow> u16 list \<Rightarrow> screen \<Rightarrow> screen c_result" where    \<comment> \<open>the second half of \<open>cgaputc\<close>\<close>
  "set_pos pos m sc =
     (if pos < 0 \<or> pos > 25 * 80 then Inl (Panic ''pos under/overflow'')
      else (let (pos, m) = (if pos div 80 \<ge> 24 then (pos - 80, scroll (nat (pos - 80)) m) else (pos, m))
            in bindE (arr_set m (nat pos) (0x20 OR 0x0700)) (\<lambda>m.
               Inr (sc\<lparr>crt := m, cursor := word_of_int pos\<rparr>))))"

definition cgaputc :: "int \<Rightarrow> screen \<Rightarrow> screen c_result" where
  "cgaputc c sc =
     (let pos = uint (cursor sc)
      in if c = 10 then set_pos (pos + (80 - pos mod 80)) (crt sc) sc
         else if c = BACKSPACE then set_pos (if pos > 0 then pos - 1 else pos) (crt sc) sc
         else bindE (arr_set (crt sc) (nat pos) ((word_of_int c AND 0xff) OR 0x0700)) (\<lambda>m. set_pos (pos + 1) m sc))"

definition uartputc :: "int \<Rightarrow> screen \<Rightarrow> screen" where
  "uartputc c sc = sc\<lparr>serial := serial sc @ [word_of_int c]\<rparr>"

definition consputc :: "int \<Rightarrow> screen \<Rightarrow> screen c_result" where
  "consputc c sc =
     cgaputc c (if c = BACKSPACE then uartputc 8 (uartputc 32 (uartputc 8 sc)) else uartputc c sc)"

fun put_all :: "int list \<Rightarrow> screen \<Rightarrow> screen c_result" where
  "put_all [] sc = Inr sc"
| "put_all (c # cs) sc = bindE (consputc c sc) (put_all cs)"

definition consolewrite :: "u8 list \<Rightarrow> int \<Rightarrow> screen \<Rightarrow> (int \<times> screen) c_result" where    \<comment> \<open>\<open>buf\<close> holds at least \<open>n\<close> bytes\<close>
  "consolewrite buf n sc =
     guardE (nat n \<le> length buf) Out_Of_Bounds (bindE (put_all (map uint (take (nat n) buf)) sc) (\<lambda>sc. Inr (n, sc)))"

section \<open>The keyboard interrupt\<close>

definition INPUT_BUF :: u32 where "INPUT_BUF = 128"

definition ctrl :: "char \<Rightarrow> int" where "ctrl x = of_char x - of_char CHR ''@''"    \<comment> \<open>the macro \<open>C\<close>\<close>

record console =
  ibuf :: "u8 list"
  ir :: u32
  iw :: u32
  ie :: u32
  scr :: screen

function kill_line :: "console \<Rightarrow> console c_result" where    \<comment> \<open>the loop for Control-U\<close>
  "kill_line s =
     (if ie s = iw s then Inr s
      else bindE (arr_get (ibuf s) (unat ((ie s - 1) mod INPUT_BUF))) (\<lambda>c.
           if c = 10 then Inr s
           else bindE (consputc BACKSPACE (scr s)) (\<lambda>sc. kill_line (s\<lparr>ie := ie s - 1, scr := sc\<rparr>))))"
  by pat_completeness auto
termination
proof (relation "measure (\<lambda>s. unat (ie s - iw s))", goal_cases)
  case (2 s c sc)
  then have "ie s - iw s \<noteq> 0" by auto
  then have "unat (ie s - iw s - 1) < unat (ie s - iw s)" using unat_dec_no_wrap [of "ie s - iw s"] by (simp add: unat_gt_0)
  moreover have "ie s - 1 - iw s = ie s - iw s - 1" by (simp add: algebra_simps)
  ultimately have "unat (ie s - 1 - iw s) < unat (ie s - iw s)" by metis
  then show ?case by simp
qed simp

declare kill_line.simps [simp del]

definition type_char :: "int \<Rightarrow> console \<Rightarrow> (bool \<times> console) c_result" where    \<comment> \<open>the default case; whether \<open>wakeup(&input.r)\<close> is called\<close>
  "type_char c s =
     (if c \<noteq> 0 \<and> ie s - ir s < INPUT_BUF
      then (let c = (if c = 13 then 10 else c)
            in bindE (arr_set (ibuf s) (unat (ie s mod INPUT_BUF)) (word_of_int c)) (\<lambda>b.
               bindE (consputc c (scr s)) (\<lambda>sc.
               let s = s\<lparr>ibuf := b, ie := ie s + 1, scr := sc\<rparr>
               in if c = 10 \<or> c = ctrl CHR ''D'' \<or> ie s = ir s + INPUT_BUF then Inr (True, s\<lparr>iw := ie s\<rparr>) else Inr (False, s))))
      else Inr (False, s))"

definition key :: "int \<Rightarrow> console \<Rightarrow> (bool \<times> console) c_result" where    \<comment> \<open>the \<open>switch\<close> on one character\<close>
  "key c s =
     (if c = ctrl CHR ''P'' then Inr (False, s)
      else if c = ctrl CHR ''U'' then bindE (kill_line s) (\<lambda>s. Inr (False, s))
      else if c = ctrl CHR ''H'' \<or> c = 0x7f
      then (if ie s \<noteq> iw s
            then bindE (consputc BACKSPACE (scr s)) (\<lambda>sc. Inr (False, s\<lparr>ie := ie s - 1, scr := sc\<rparr>))
            else Inr (False, s))
      else type_char c s)"

fun consoleintr :: "int list \<Rightarrow> console \<Rightarrow> (bool \<times> bool \<times> console) c_result" where
    \<comment> \<open>what \<open>getc\<close> returns until it is negative; wakes readers, \<open>doprocdump\<close>\<close>
  "consoleintr [] s = Inr (False, False, s)"
| "consoleintr (c # cs) s =
     (if c < 0 then Inr (False, False, s)
      else bindE (key c s) (\<lambda>(w, s). bindE (consoleintr cs s) (\<lambda>(w', d, s). Inr (w \<or> w', c = ctrl CHR ''P'' \<or> d, s))))"

section \<open>Reading\<close>

datatype read_out = Read_Returns int "u8 list" | Read_Sleeps nat "u8 list"    \<comment> \<open>with what is in \<open>dst\<close>; a sleeper has \<open>n\<close> bytes to go\<close>

fun read_from :: "bool \<Rightarrow> nat \<Rightarrow> u8 list \<Rightarrow> console \<Rightarrow> (read_out \<times> console) c_result" where    \<comment> \<open>the loop of \<open>consoleread\<close>\<close>
  "read_from killed 0 dst s = Inr (Read_Returns (int (length dst)) dst, s)"
| "read_from killed (Suc n) dst s =
     (if ir s = iw s
      then (if killed then Inr (Read_Returns (-1) dst, s) else Inr (Read_Sleeps (Suc n) dst, s))
      else bindE (arr_get (ibuf s) (unat (ir s mod INPUT_BUF))) (\<lambda>c.
           let s' = s\<lparr>ir := ir s + 1\<rparr>
           in if sint c = ctrl CHR ''D''
              then Inr (Read_Returns (int (length dst)) dst, if dst \<noteq> [] then s'\<lparr>ir := ir s' - 1\<rparr> else s')
              else if c = 10 then Inr (Read_Returns (int (length (dst @ [c]))) (dst @ [c]), s')
              else read_from killed n (dst @ [c]) s'))"

definition consoleread :: "bool \<Rightarrow> int \<Rightarrow> console \<Rightarrow> (read_out \<times> console) c_result" where
  "consoleread killed n s = read_from killed (nat n) [] s"
section \<open>Output never fails\<close>

definition screen_ok :: "screen \<Rightarrow> bool" where    \<comment> \<open>25 rows, the cursor in the first 24\<close>
  "screen_ok sc \<longleftrightarrow> length (crt sc) = 25 * 80 \<and> uint (cursor sc) < 24 * 80"

lemma length_scroll: "length m = 2000 \<Longrightarrow> p \<le> 1920 \<Longrightarrow> length (scroll p m) = 2000"
  by (simp add: scroll_def Let_def)

lemma cursor_value: "0 \<le> p \<Longrightarrow> p < 65536 \<Longrightarrow> uint (word_of_int p :: u16) = p"
  by (simp add: uint_word_of_int)

lemma set_pos_ok:
  assumes "length m = 2000" "0 \<le> p" "p \<le> 1920"
  shows "\<exists>sc'. set_pos p m sc = Inr sc' \<and> screen_ok sc' \<and> serial sc' = serial sc"
proof (cases "p div 80 \<ge> 24")
  case True
  then have "p = 1920" using assms(3) by simp
  then show ?thesis using True length_scroll [OF assms(1), of 1840] by (simp add: set_pos_def screen_ok_def)
next
  case False
  then have "p < 1920" by simp
  then show ?thesis using False assms by (simp add: set_pos_def screen_ok_def cursor_value nat_less_iff)
qed

lemma cgaputc_ok:
  assumes "screen_ok sc"
  shows "\<exists>sc'. cgaputc c sc = Inr sc' \<and> screen_ok sc' \<and> serial sc' = serial sc"
proof -
  let ?p = "uint (cursor sc)"
  have p: "0 \<le> ?p" "?p < 1920" "length (crt sc) = 2000" using assms by (auto simp: screen_ok_def)
  have "?p + (80 - ?p mod 80) = 80 * (?p div 80 + 1)" by (simp add: minus_mod_eq_mult_div [symmetric])
  moreover have "?p div 80 < 24" using p(2) by simp
  ultimately have nl: "0 \<le> ?p + (80 - ?p mod 80)" "?p + (80 - ?p mod 80) \<le> 1920" using p(1) by auto
  have un: "unat (cursor sc) < 2000" using p(1,2) by (simp add: nat_less_iff flip: nat_uint_eq)
  have bs: "0 \<le> (if ?p > 0 then ?p - 1 else ?p)" "(if ?p > 0 then ?p - 1 else ?p) \<le> 1920" using p by auto
  have "\<exists>sc'. bindE (arr_set (crt sc) (nat ?p) v) (\<lambda>m. set_pos (?p + 1) m sc) = Inr sc' \<and> screen_ok sc' \<and> serial sc' = serial sc" for v
    using set_pos_ok [of "(crt sc)[nat ?p := v]" "?p + 1" sc] p un by simp
  then show ?thesis using set_pos_ok [OF p(3) nl, of sc] set_pos_ok [OF p(3) bs, of sc] by (simp add: cgaputc_def Let_def)
qed

definition sent :: "int \<Rightarrow> u8 list" where    \<comment> \<open>what \<open>consputc\<close> sends to the serial line\<close>
  "sent c = (if c = BACKSPACE then [8, 32, 8] else [word_of_int c])"

lemma consputc_ok:
  assumes "screen_ok sc"
  shows "\<exists>sc'. consputc c sc = Inr sc' \<and> screen_ok sc' \<and> serial sc' = serial sc @ sent c"
proof -
  let ?sc = "if c = BACKSPACE then uartputc 8 (uartputc 32 (uartputc 8 sc)) else uartputc c sc"
  have "screen_ok ?sc" "serial ?sc = serial sc @ sent c" using assms by (auto simp: screen_ok_def uartputc_def sent_def)
  then show ?thesis using cgaputc_ok [of ?sc c] unfolding consputc_def by metis
qed

lemma put_all_ok:
  "screen_ok sc \<Longrightarrow> \<exists>sc'. put_all cs sc = Inr sc' \<and> screen_ok sc' \<and> serial sc' = serial sc @ concat (map sent cs)"
proof (induction cs arbitrary: sc)
  case (Cons c cs)
  obtain sc1 where 1: "consputc c sc = Inr sc1" "screen_ok sc1" "serial sc1 = serial sc @ sent c" using consputc_ok [OF Cons.prems] by blast
  obtain sc2 where "put_all cs sc1 = Inr sc2" "screen_ok sc2" "serial sc2 = serial sc1 @ concat (map sent cs)" using Cons.IH [OF 1(2)] by blast
  then show ?case using 1 by simp
qed simp

section \<open>The line discipline\<close>

text \<open>
  What a user and a reader see: the bytes of finished lines not yet read and the line being typed, together at
  most 128 bytes. \<open>Control-U\<close> empties the current line, backspace takes off its last byte, newline, end of
  file and a full buffer finish it.
\<close>

type_synonym tty = "u8 list \<times> u8 list"

definition tty_type :: "int \<Rightarrow> tty \<Rightarrow> bool \<times> tty" where
  "tty_type c t =
     (if c \<noteq> 0 \<and> length (fst t) + length (snd t) < 128
      then (let c = (if c = 13 then 10 else c); L = snd t @ [word_of_int c]
            in if c = 10 \<or> c = 4 \<or> length (fst t) + length L = 128 then (True, fst t @ L, []) else (False, fst t, L))
      else (False, t))"

definition tty_key :: "int \<Rightarrow> tty \<Rightarrow> bool \<times> tty" where
  "tty_key c t =
     (if c = 0x10 then (False, t)
      else if c = 0x15 then (False, fst t, [])
      else if c = 8 \<or> c = 0x7f then (False, fst t, butlast (snd t))
      else tty_type c t)"

fun tty_read :: "bool \<Rightarrow> nat \<Rightarrow> u8 list \<Rightarrow> u8 list \<Rightarrow> read_out \<times> u8 list" where
  "tty_read killed 0 dst R = (Read_Returns (int (length dst)) dst, R)"
| "tty_read killed (Suc n) dst [] = ((if killed then Read_Returns (-1) dst else Read_Sleeps (Suc n) dst), [])"
| "tty_read killed (Suc n) dst (c # R) =
     (if c = 4 then (Read_Returns (int (length dst)) dst, if dst = [] then R else c # R)
      else if c = 10 then (Read_Returns (int (length dst) + 1) (dst @ [c]), R)
      else tty_read killed n (dst @ [c]) R)"

definition shows_tty :: "console \<Rightarrow> tty \<Rightarrow> bool" where
  "shows_tty s t \<longleftrightarrow> screen_ok (scr s) \<and> length (ibuf s) = 128 \<and> length (fst t) + length (snd t) \<le> 128 \<and>
     iw s = ir s + of_nat (length (fst t)) \<and> ie s = iw s + of_nat (length (snd t)) \<and> 10 \<notin> set (snd t) \<and>
     (\<forall>i < length (fst t) + length (snd t). ibuf s ! ((unat (ir s) + i) mod 128) = (fst t @ snd t) ! i)"

lemma ring_index: "unat ((a + of_nat i) mod INPUT_BUF) = (unat a + i) mod 128"
proof -
  have "unat (a + of_nat i) = (unat a + i) mod 2 ^ 32" by (simp add: unat_word_ariths unat_of_nat mod_add_right_eq)
  then show ?thesis by (simp add: INPUT_BUF_def unat_mod_distrib mod_mod_cancel)
qed

lemma small_of_nat:
  assumes "n \<le> 128" "m \<le> 128"
  shows "(of_nat n = (of_nat m :: u32)) \<longleftrightarrow> n = m"
proof -
  have "unat (of_nat n :: u32) = n" "unat (of_nat m :: u32) = m" using assms by (simp_all add: unat_of_nat_small)
  then show ?thesis by metis
qed

lemma shows_ttyD:
  assumes "shows_tty s (R, L)"
  shows "screen_ok (scr s)" "length (ibuf s) = 128" "length R + length L \<le> 128" "iw s = ir s + of_nat (length R)"
    "ie s = iw s + of_nat (length L)" "10 \<notin> set L" "ie s = iw s \<longleftrightarrow> L = []" "ir s = iw s \<longleftrightarrow> R = []"
    "i < length R + length L \<Longrightarrow> ibuf s ! ((unat (ir s) + i) mod 128) = (R @ L) ! i"
    "ie s - ir s = of_nat (length R + length L)"
proof -
  show r: "screen_ok (scr s)" "length (ibuf s) = 128" "length R + length L \<le> 128" "iw s = ir s + of_nat (length R)"
    "ie s = iw s + of_nat (length L)" "10 \<notin> set L" "i < length R + length L \<Longrightarrow> ibuf s ! ((unat (ir s) + i) mod 128) = (R @ L) ! i"
    using assms by (auto simp: shows_tty_def)
  show "ie s = iw s \<longleftrightarrow> L = []" using r(3,5) small_of_nat [of "length L" 0] by auto
  show "ir s = iw s \<longleftrightarrow> R = []" using r(3,4) small_of_nat [of "length R" 0] by auto
  show "ie s - ir s = of_nat (length R + length L)" using r(4,5) by simp
qed

lemma back_ok:
  assumes "shows_tty s (R, L)" "L \<noteq> []" "screen_ok sc"
  shows "shows_tty (s\<lparr>ie := ie s - 1, scr := sc\<rparr>) (R, butlast L)"
proof -
  note d = shows_ttyD [OF assms(1)]
  obtain k where k: "length L = Suc k" using assms(2) by (cases "length L") auto
  then have "ie s - 1 = iw s + of_nat (length L - 1)" using d(5) by simp
  moreover have "(R @ butlast L) ! i = (R @ L) ! i" if "i < length R + (length L - 1)" for i
    using that by (auto simp: nth_append nth_butlast)
  ultimately show ?thesis using d assms by (auto simp: shows_tty_def dest: in_set_butlastD)
qed

lemma kill_line_ok: "shows_tty s (R, L) \<Longrightarrow> \<exists>s'. kill_line s = Inr s' \<and> shows_tty s' (R, [])"
proof (induction "length L" arbitrary: s L)
  case 0
  then show ?case using shows_ttyD(7) [OF 0(2)] by (subst kill_line.simps) auto
next
  case (Suc n)
  note d = shows_ttyD [OF Suc.prems]
  have ne: "L \<noteq> []" using Suc(2) by auto
  have "ie s - 1 = ir s + of_nat (length R + n)" using d(4,5) Suc(2) [symmetric] by (simp add: algebra_simps)
  then have i: "unat ((ie s - 1) mod INPUT_BUF) = (unat (ir s) + (length R + n)) mod 128" by (simp only: ring_index)
  have "ibuf s ! ((unat (ir s) + (length R + n)) mod 128) = L ! n" using d(9) [of "length R + n"] Suc(2) by (simp add: nth_append)
  moreover have "L ! n \<noteq> 10" using d(6) Suc(2) by (metis lessI nth_mem)
  ultimately have g: "arr_get (ibuf s) (unat ((ie s - 1) mod INPUT_BUF)) = Inr (L ! n)" "L ! n \<noteq> 10" using d(2) i by simp_all
  obtain sc where sc: "consputc BACKSPACE (scr s) = Inr sc" "screen_ok sc" using consputc_ok [OF d(1)] by blast
  have "kill_line s = kill_line (s\<lparr>ie := ie s - 1, scr := sc\<rparr>)" using d(7) ne g sc by (subst kill_line.simps) simp
  then show ?case using Suc(1) [of "butlast L" "s\<lparr>ie := ie s - 1, scr := sc\<rparr>"] back_ok [OF Suc.prems ne sc(2)] Suc(2) by simp
qed

lemma ctrl_values [simp]: "ctrl CHR ''P'' = 0x10" "ctrl CHR ''U'' = 0x15" "ctrl CHR ''H'' = 8" "ctrl CHR ''D'' = 4"
  by (simp_all add: ctrl_def)

lemma store_ok:
  fixes x :: u8
  assumes "shows_tty s (R, L)" "length R + length L < 128" "screen_ok sc"
  defines "b \<equiv> (ibuf s)[unat (ie s mod INPUT_BUF) := x]"
  shows "arr_set (ibuf s) (unat (ie s mod INPUT_BUF)) x = Inr b"
    "x \<noteq> 10 \<Longrightarrow> shows_tty (s\<lparr>ibuf := b, ie := ie s + 1, scr := sc\<rparr>) (R, L @ [x])"
    "shows_tty (s\<lparr>ibuf := b, iw := ie s + 1, ie := ie s + 1, scr := sc\<rparr>) (R @ L @ [x], [])"
proof -
  note d = shows_ttyD [OF assms(1)]
  let ?n = "length R + length L"
  have "ie s = ir s + of_nat ?n" using d(4,5) by simp
  then have e: "unat (ie s mod INPUT_BUF) = (unat (ir s) + ?n) mod 128" by (simp only: ring_index)
  then show "arr_set (ibuf s) (unat (ie s mod INPUT_BUF)) x = Inr b" using d(2) by (simp add: b_def)
  have b: "b ! ((unat (ir s) + i) mod 128) = (R @ L @ [x]) ! i" if "i < Suc ?n" for i
  proof (cases "i = ?n")
    case True
    then show ?thesis using e d(2) by (simp add: b_def nth_append)
  next
    case False
    then have i: "i < ?n" using that by simp
    then have "(unat (ir s) + i) mod 128 \<noteq> (unat (ir s) + ?n) mod 128" using mod_add_eq_iff_small [of i 128 ?n "unat (ir s)"] assms(2) by simp
    then have "b ! ((unat (ir s) + i) mod 128) = (R @ L) ! i" using d(9) [OF i] e by (simp add: b_def)
    moreover have "(R @ L @ [x]) ! i = (R @ L) ! i" using i nth_append_left [of i "R @ L" "[x]"] by simp
    ultimately show ?thesis by simp
  qed
  show "x \<noteq> 10 \<Longrightarrow> shows_tty (s\<lparr>ibuf := b, ie := ie s + 1, scr := sc\<rparr>) (R, L @ [x])"
    using b d assms(2,3) by (auto simp: shows_tty_def b_def)
  show "shows_tty (s\<lparr>ibuf := b, iw := ie s + 1, ie := ie s + 1, scr := sc\<rparr>) (R @ L @ [x], [])"
    using b d assms(2,3) by (auto simp: shows_tty_def b_def)
qed

lemma byte_not_newline: "0 \<le> c \<Longrightarrow> c < 256 \<Longrightarrow> c \<noteq> 10 \<Longrightarrow> (word_of_int c :: u8) \<noteq> 10"
proof
  assume c: "0 \<le> c" "c < 256" "c \<noteq> 10" and "(word_of_int c :: u8) = 10"
  then have "uint (word_of_int c :: u8) = 10" by simp
  then show False using c by (simp add: uint_word_of_int)
qed

lemma type_char_ok:
  assumes t: "shows_tty s t" and c: "0 \<le> c" "c < 256"
  shows "\<exists>s'. type_char c s = Inr (fst (tty_type c t), s') \<and> shows_tty s' (snd (tty_type c t))"
proof -
  obtain R L where RL: "t = (R, L)" by fastforce
  note d = shows_ttyD [OF t [unfolded RL]]
  let ?n = "length R + length L" and ?c = "if c = 13 then 10 else c"
  have room: "ie s - ir s < INPUT_BUF \<longleftrightarrow> ?n < 128"
    unfolding d(10) using d(3) unat_of_nat_small [of ?n] by (simp add: INPUT_BUF_def word_less_nat_alt)
  show ?thesis
  proof (cases "c \<noteq> 0 \<and> ?n < 128")
    case True
    let ?b = "(ibuf s)[unat (ie s mod INPUT_BUF) := word_of_int ?c]"
    obtain sc where sc: "consputc ?c (scr s) = Inr sc" "screen_ok sc" using consputc_ok [OF d(1)] by blast
    note st = store_ok [OF t [unfolded RL] _ sc(2), where x = "word_of_int ?c"]
    have "ie s + 1 = ir s + of_nat (Suc ?n)" using d(4,5) by simp
    then have full: "ie s + 1 = ir s + INPUT_BUF \<longleftrightarrow> Suc ?n = 128"
      using small_of_nat [of "Suc ?n" 128] True by (simp add: INPUT_BUF_def)
    have ty: "type_char c s = (if ?c = 10 \<or> ?c = 4 \<or> Suc ?n = 128 then Inr (True, s\<lparr>ibuf := ?b, iw := ie s + 1, ie := ie s + 1, scr := sc\<rparr>)
        else Inr (False, s\<lparr>ibuf := ?b, ie := ie s + 1, scr := sc\<rparr>))"
      using True room sc(1) st(1) full by (simp add: type_char_def Let_def)
    have tt: "tty_type c t = (if ?c = 10 \<or> ?c = 4 \<or> Suc ?n = 128 then (True, R @ L @ [word_of_int ?c], []) else (False, R, L @ [word_of_int ?c]))"
      using True RL by (simp add: tty_type_def Let_def)
    show ?thesis
    proof (cases "?c = 10 \<or> ?c = 4 \<or> Suc ?n = 128")
      case c: True
      then show ?thesis using st(3) True unfolding ty tt if_P [OF c] by simp
    next
      case c: False
      then have "(word_of_int ?c :: u8) \<noteq> 10" using byte_not_newline [of ?c] assms(2,3) by auto
      then show ?thesis using st(2) True unfolding ty tt if_not_P [OF c] by simp
    qed
  next
    case False
    then show ?thesis using t room RL by (auto simp: type_char_def tty_type_def)
  qed
qed

lemma key_ok:
  assumes t: "shows_tty s t" and c: "0 \<le> c" "c < 256"
  shows "\<exists>s'. key c s = Inr (fst (tty_key c t), s') \<and> shows_tty s' (snd (tty_key c t))"
proof -
  obtain R L where RL: "t = (R, L)" by fastforce
  note t' = t [unfolded RL] note d = shows_ttyD [OF t']
  obtain sc where sc: "consputc BACKSPACE (scr s) = Inr sc" "screen_ok sc" using consputc_ok [OF d(1)] by blast
  consider "c = 0x10" | "c = 0x15" | "c = 8 \<or> c = 0x7f" | "c \<notin> {0x10, 0x15, 8, 0x7f}" by auto
  then show ?thesis
  proof cases
    case 1
    then show ?thesis using t by (simp add: key_def tty_key_def)
  next
    case 2
    then show ?thesis using kill_line_ok [OF t'] RL by (auto simp: key_def tty_key_def)
  next
    case 3
    show ?thesis using 3 t' d(7) sc back_ok [OF t' _ sc(2)] RL by (cases "L = []") (auto simp: key_def tty_key_def)
  next
    case 4
    then have "key c s = type_char c s" "tty_key c t = tty_type c t" by (simp_all add: key_def tty_key_def)
    then show ?thesis using type_char_ok [OF t c] by simp
  qed
qed

fun tty_keys :: "int list \<Rightarrow> tty \<Rightarrow> bool \<times> tty" where
  "tty_keys [] t = (False, t)"
| "tty_keys (c # cs) t = (let (w, t) = tty_key c t; (w', t) = tty_keys cs t in (w \<or> w', t))"

lemma consoleintr_ok:
  assumes "shows_tty s t" "\<forall>c \<in> set cs. 0 \<le> c \<and> c < 256"
  shows "\<exists>s'. consoleintr cs s = Inr (fst (tty_keys cs t), 0x10 \<in> set cs, s') \<and> shows_tty s' (snd (tty_keys cs t))"
  using assms
proof (induction cs arbitrary: s t)
  case (Cons c cs)
  obtain w t1 where 1: "tty_key c t = (w, t1)" by (metis surj_pair)
  then obtain s1 where s1: "key c s = Inr (w, s1)" "shows_tty s1 t1" using key_ok [OF Cons.prems(1), of c] Cons.prems(2) by auto
  obtain w' t2 where 2: "tty_keys cs t1 = (w', t2)" by (metis surj_pair)
  then obtain s2 where "consoleintr cs s1 = Inr (w', 0x10 \<in> set cs, s2)" "shows_tty s2 t2" using Cons.IH [OF s1(2)] Cons.prems(2) by auto
  then show ?case using 1 2 s1 Cons.prems(2) by auto
qed simp

lemma take_byte:
  assumes "shows_tty s (c # R, L)"
  shows "arr_get (ibuf s) (unat (ir s mod INPUT_BUF)) = Inr c" "shows_tty (s\<lparr>ir := ir s + 1\<rparr>) (R, L)"
proof -
  note d = shows_ttyD [OF assms]
  have "unat (ir s mod INPUT_BUF) = unat (ir s) mod 128" using ring_index [of "ir s" 0] by simp
  then show "arr_get (ibuf s) (unat (ir s mod INPUT_BUF)) = Inr c" using d(2) d(9) [of 0] by simp
  have i: "(unat (ir s + 1) + i) mod 128 = (unat (ir s) + Suc i) mod 128" for i
    using ring_index [of "ir s + 1" i] ring_index [of "ir s" "Suc i"] by (simp add: algebra_simps)
  have "ibuf s ! ((unat (ir s + 1) + i) mod 128) = (R @ L) ! i" if "i < length R + length L" for i
    using d(9) [of "Suc i"] that unfolding i by simp
  then show "shows_tty (s\<lparr>ir := ir s + 1\<rparr>) (R, L)" using d by (simp add: shows_tty_def)
qed

lemma sint_eq_4: "sint (c :: u8) = 4 \<longleftrightarrow> c = 4"
proof -
  have "sint (4 :: u8) = 4" by simp
  then show ?thesis by (metis signed_word_eqI)
qed

lemma read_from_ok:
  assumes "shows_tty s (R, L)"
  shows "\<exists>s'. read_from killed n dst s = Inr (fst (tty_read killed n dst R), s') \<and> shows_tty s' (snd (tty_read killed n dst R), L)"
  using assms
proof (induction n arbitrary: R dst s)
  case (Suc n)
  note d = shows_ttyD [OF Suc.prems]
  show ?case
  proof (cases R)
    case Nil
    then show ?thesis using Suc.prems d(8) by simp
  next
    case (Cons c R')
    note t = take_byte [OF Suc.prems [unfolded Cons]]
    have ne: "ir s \<noteq> iw s" using d(8) Cons by simp
    consider "c = 4" | "c = 10" | "c \<noteq> 4" "c \<noteq> 10" by blast
    then show ?thesis
    proof cases
      case 1
      have "s\<lparr>ir := ir s\<rparr> = s" by simp
      then show ?thesis using 1 ne t Cons Suc.prems by (auto simp: sint_eq_4)
    next
      case 2
      then show ?thesis using ne t Cons by (simp add: sint_eq_4)
    next
      case 3
      then show ?thesis using ne t(1) Cons Suc.IH [OF t(2), of "dst @ [c]"] by (simp add: sint_eq_4)
    qed
  qed
qed simp

section \<open>Refinement\<close>

text \<open>Interrupts, with what \<open>getc\<close> returns, and runs of readers, with the bytes to go and those already copied.\<close>

datatype tty_event = Keys "int list" | Reads bool nat "u8 list"

datatype tty_out = Typed bool bool | Reader read_out    \<comment> \<open>whether readers are woken and processes listed; what a run of a reader does\<close>

fun console_run :: "tty_event list \<Rightarrow> console \<Rightarrow> (tty_out list \<times> console) c_result" where
  "console_run [] s = Inr ([], s)"
| "console_run (Keys cs # es) s =
     bindE (consoleintr cs s) (\<lambda>(w, d, s). bindE (console_run es s) (\<lambda>(os, s). Inr (Typed w d # os, s)))"
| "console_run (Reads killed n dst # es) s =
     bindE (read_from killed n dst s) (\<lambda>(r, s). bindE (console_run es s) (\<lambda>(os, s). Inr (Reader r # os, s)))"

fun tty_run :: "tty_event list \<Rightarrow> tty \<Rightarrow> tty_out list \<times> tty" where
  "tty_run [] t = ([], t)"
| "tty_run (Keys cs # es) t =
     (let (w, t) = tty_keys cs t; (os, t) = tty_run es t in (Typed w (0x10 \<in> set cs) # os, t))"
| "tty_run (Reads killed n dst # es) t =
     (let (r, R) = tty_read killed n dst (fst t); (os, t) = tty_run es (R, snd t) in (Reader r # os, t))"

lemma console_run_ok:
  assumes "shows_tty s t" "\<forall>cs c. Keys cs \<in> set es \<and> c \<in> set cs \<longrightarrow> 0 \<le> c \<and> c < 256"
  shows "\<exists>s'. console_run es s = Inr (fst (tty_run es t), s') \<and> shows_tty s' (snd (tty_run es t))"
  using assms
proof (induction es arbitrary: s t)
  case (Cons e es)
  show ?case
  proof (cases e)
    case (Keys cs)
    obtain w t1 where 1: "tty_keys cs t = (w, t1)" by (metis surj_pair)
    then obtain s1 where s1: "consoleintr cs s = Inr (w, 0x10 \<in> set cs, s1)" "shows_tty s1 t1"
      using consoleintr_ok [OF Cons.prems(1), of cs] Cons.prems(2) Keys by auto
    obtain os t2 where 2: "tty_run es t1 = (os, t2)" by (metis surj_pair)
    then obtain s2 where "console_run es s1 = Inr (os, s2)" "shows_tty s2 t2" using Cons.IH [OF s1(2)] Cons.prems(2) by auto
    then show ?thesis using Keys 1 2 s1 by simp
  next
    case (Reads killed n dst)
    obtain r R where 1: "tty_read killed n dst (fst t) = (r, R)" by (metis surj_pair)
    then obtain s1 where s1: "read_from killed n dst s = Inr (r, s1)" "shows_tty s1 (R, snd t)"
      using read_from_ok [of s "fst t" "snd t" killed n dst] Cons.prems(1) by auto
    obtain os t2 where 2: "tty_run es (R, snd t) = (os, t2)" by (metis surj_pair)
    then obtain s2 where "console_run es s1 = Inr (os, s2)" "shows_tty s2 t2" using Cons.IH [OF s1(2)] Cons.prems(2) by auto
    then show ?thesis using Reads 1 2 s1 by simp
  qed
qed simp

text \<open>Bytes become ready only together with a wakeup, so a reader that sleeps, which is when none are, is not forgotten.\<close>

lemma tty_keys_wake: "fst (tty_keys cs t) \<or> fst (snd (tty_keys cs t)) = fst t"
proof (induction cs arbitrary: t)
  case (Cons c cs)
  have "fst (tty_key c t) \<or> fst (snd (tty_key c t)) = fst t" by (simp add: tty_key_def tty_type_def Let_def)
  then show ?case using Cons.IH [of "snd (tty_key c t)"] by (auto split: prod.splits)
qed simp

lemma tty_read_sleeps: "fst (tty_read killed n dst R) = Read_Sleeps m d \<Longrightarrow> snd (tty_read killed n dst R) = []"
  by (induction killed n dst R rule: tty_read.induct) (auto split: if_splits)

text \<open> C11. The console is a line editor. Under every sequence of keyboard interrupts and reads the ring buffer with its three
  wrapping indices behaves as two short lists: finished bytes and the line being edited. Every interrupt and every
  read gives the answer the lists give. Echoing never panics and the cursor stays in the first 24 rows. Finished bytes only
  grow together with a wakeup, so a reader that sleeps, which is when there are none, is woken. Keys are bytes.\<close>

theorem console_refines_tty:
  assumes "shows_tty s t" "\<forall>cs c. Keys cs \<in> set es \<and> c \<in> set cs \<longrightarrow> 0 \<le> c \<and> c < 256"
  shows "(\<exists>s'. console_run es s = Inr (fst (tty_run es t), s') \<and> shows_tty s' (snd (tty_run es t)) \<and> screen_ok (scr s')) \<and>
    (\<forall>cs. fst (tty_keys cs t) \<or> fst (snd (tty_keys cs t)) = fst t) \<and>
    (\<forall>killed n dst m d. fst (tty_read killed n dst (fst t)) = Read_Sleeps m d \<longrightarrow> snd (tty_read killed n dst (fst t)) = [])"
  using console_run_ok [OF assms] tty_keys_wake tty_read_sleeps shows_tty_def by meson

definition example_console :: console where    \<comment> \<open>the indices are about to wrap\<close>
  "example_console = \<lparr>ibuf = replicate 128 0, ir = 0xFFFFFFFE, iw = 0xFFFFFFFE, ie = 0xFFFFFFFE,
     scr = \<lparr>crt = replicate 2000 0, cursor = 1900, serial = []\<rparr>\<rparr>"

theorem console_refines_tty_witness:
  "\<exists>s'. console_run [Reads False 10 [], Keys [0x61, 0x62, 0x7f, 0x63, 13], Reads False 10 []] example_console =
     Inr ([Reader (Read_Sleeps 10 []), Typed True False, Reader (Read_Returns 3 [0x61, 0x63, 10])], s') \<and> shows_tty s' ([], [])"
proof -
  let ?es = "[Reads False 10 [], Keys [0x61, 0x62, 0x7f, 0x63, 13], Reads False 10 []]"
  have s: "shows_tty example_console ([], [])" by (simp add: shows_tty_def example_console_def screen_ok_def)
  have k: "\<forall>cs c. Keys cs \<in> set ?es \<and> c \<in> set cs \<longrightarrow> 0 \<le> c \<and> c < 256" by auto
  have t: "tty_run ?es ([], []) = ([Reader (Read_Sleeps 10 []), Typed True False, Reader (Read_Returns 3 [0x61, 0x63, 10])], [], [])"
    by code_simp
  from console_refines_tty [OF s k] show ?thesis unfolding t fst_conv snd_conv by blast
qed

end
