(* ===== verification/Xv6_Printf.thy ===== *)
theory Xv6_Printf
  imports Xv6_Console
begin

text \<open>
  Formatted output: \<open>printint\<close> and \<open>cprintf\<close> of the kernel (\<open>console.c\<close>) and \<open>printint\<close> and \<open>printf\<close> of user programs
  (\<open>printf.c\<close>). The arguments after the format are the words on the stack; \<open>str\<close> gives the string at an address.
  An operation returns the characters it passes to \<open>consputc\<close> or \<open>putc\<close>, in order.
\<close>

section \<open>Integers\<close>

function digits_loop :: "string \<Rightarrow> u32 \<Rightarrow> u32 \<Rightarrow> string \<Rightarrow> string c_result" where    \<comment> \<open>the \<open>do\<close> loop; the characters in \<open>buf\<close>\<close>
  "digits_loop digits base x buf =
     (if base = 0 then Inl Div_By_Zero
      else bindE (arr_get digits (unat (x mod base))) (\<lambda>d.
           if length buf < 16
           then (let buf = buf @ [d]; x = x div base in if x \<noteq> 0 then digits_loop digits base x buf else Inr buf)
           else Inl Out_Of_Bounds))"
  by pat_completeness auto
termination by (relation "measure (\<lambda>(digits, base, x, buf). 16 - length buf)") auto

declare digits_loop.simps [simp del]

definition minus_sign :: "bool \<Rightarrow> string \<Rightarrow> string c_result" where
  "minus_sign neg buf = (if neg then guardE (length buf < 16) Out_Of_Bounds (Inr (buf @ ''-'')) else Inr buf)"

definition negate :: "u32 \<Rightarrow> u32 c_result" where    \<comment> \<open>\<open>-xx\<close> of an \<open>int\<close>\<close>
  "negate xx = guardE (sint xx \<noteq> - (2 ^ 31)) Int_Overflow (Inr (- xx))"

definition printint :: "u32 \<Rightarrow> u32 \<Rightarrow> bool \<Rightarrow> string c_result" where
  "printint xx base sign =
     (let sign = (sign \<and> sint xx < 0)
      in bindE (if sign then negate xx else Inr xx) (\<lambda>x.
         bindE (digits_loop ''0123456789abcdef'' base x []) (\<lambda>buf.
         bindE (minus_sign sign buf) (\<lambda>buf. Inr (rev buf)))))"

definition uprintint :: "u32 \<Rightarrow> u32 \<Rightarrow> bool \<Rightarrow> string c_result" where    \<comment> \<open>\<open>printf.c\<close>\<close>
  "uprintint xx base signed_print =
     (let neg = (signed_print \<and> sint xx < 0)
      in bindE (if neg then negate xx else Inr xx) (\<lambda>x.
         bindE (digits_loop ''0123456789ABCDEF'' base x []) (\<lambda>buf.
         bindE (minus_sign neg buf) (\<lambda>buf. Inr (rev buf)))))"

section \<open>Formats\<close>

definition next_arg :: "u32 list \<Rightarrow> (u32 \<times> u32 list) c_result" where    \<comment> \<open>\<open>*argp++\<close>\<close>
  "next_arg args = (case args of [] \<Rightarrow> Inl Uninit_Read | a # as \<Rightarrow> Inr (a, as))"

definition arg_string :: "(u32 \<Rightarrow> string) \<Rightarrow> u32 \<Rightarrow> string" where
  "arg_string str a = (if a = 0 then ''(null)'' else str a)"

definition emit :: "string \<Rightarrow> string c_result \<Rightarrow> string c_result" where
  "emit cs m = bindE m (\<lambda>out. Inr (cs @ out))"

fun cprintf_loop :: "(u32 \<Rightarrow> string) \<Rightarrow> string \<Rightarrow> u32 list \<Rightarrow> string c_result" where
  "cprintf_loop str [] args = Inr []"
| "cprintf_loop str [c] args = (if c \<noteq> CHR ''%'' then Inr [c] else Inr [])"
| "cprintf_loop str (c # d # fmt) args =
     (if c \<noteq> CHR ''%'' then emit [c] (cprintf_loop str (d # fmt) args)
      else if d = CHR ''d'' then bindE (next_arg args) (\<lambda>(a, args). bindE (printint a 10 True) (\<lambda>s. emit s (cprintf_loop str fmt args)))
      else if d = CHR ''x'' \<or> d = CHR ''p''
      then bindE (next_arg args) (\<lambda>(a, args). bindE (printint a 16 False) (\<lambda>s. emit s (cprintf_loop str fmt args)))
      else if d = CHR ''s'' then bindE (next_arg args) (\<lambda>(a, args). emit (arg_string str a) (cprintf_loop str fmt args))
      else if d = CHR ''%'' then emit ''%'' (cprintf_loop str fmt args)
      else emit [CHR ''%'', d] (cprintf_loop str fmt args))"

definition cprintf :: "(u32 \<Rightarrow> string) \<Rightarrow> string option \<Rightarrow> u32 list \<Rightarrow> screen \<Rightarrow> screen c_result" where
  "cprintf str fmt args sc =
     (case fmt of
        None \<Rightarrow> Inl (Panic ''null fmt'')
      | Some fmt \<Rightarrow> bindE (cprintf_loop str fmt args) (\<lambda>out. put_all (map of_char out) sc))"

fun printf_loop :: "(u32 \<Rightarrow> string) \<Rightarrow> bool \<Rightarrow> string \<Rightarrow> u32 list \<Rightarrow> string c_result" where    \<comment> \<open>whether \<open>state\<close> is \<open>'%'\<close>\<close>
  "printf_loop str state [] args = Inr []"
| "printf_loop str state (c # fmt) args =
     (if \<not> state
      then (if c = CHR ''%'' then printf_loop str True fmt args else emit [c] (printf_loop str False fmt args))
      else if c = CHR ''d'' then bindE (next_arg args) (\<lambda>(a, args). bindE (uprintint a 10 True) (\<lambda>s. emit s (printf_loop str False fmt args)))
      else if c = CHR ''x'' \<or> c = CHR ''p''
      then bindE (next_arg args) (\<lambda>(a, args). bindE (uprintint a 16 False) (\<lambda>s. emit s (printf_loop str False fmt args)))
      else if c = CHR ''s'' then bindE (next_arg args) (\<lambda>(a, args). emit (arg_string str a) (printf_loop str False fmt args))
      else if c = CHR ''c'' then bindE (next_arg args) (\<lambda>(a, args). emit [char_of (unat a)] (printf_loop str False fmt args))
      else if c = CHR ''%'' then emit ''%'' (printf_loop str False fmt args)
      else emit [CHR ''%'', c] (printf_loop str False fmt args))"

definition printf :: "(u32 \<Rightarrow> string) \<Rightarrow> string \<Rightarrow> u32 list \<Rightarrow> string c_result" where
  "printf str fmt args = printf_loop str False fmt args"

section \<open>Reading numbers back\<close>

definition digit_value :: "char \<Rightarrow> nat" where
  "digit_value c =
     (let n = of_char c :: nat
      in if n \<le> of_char CHR ''9'' then n - of_char CHR ''0''
         else if n \<le> of_char CHR ''F'' then n - of_char CHR ''A'' + 10 else n - of_char CHR ''a'' + 10)"

definition num_value :: "nat \<Rightarrow> string \<Rightarrow> nat" where
  "num_value base cs = foldl (\<lambda>n c. n * base + digit_value c) 0 cs"

definition read_int :: "nat \<Rightarrow> string \<Rightarrow> int" where
  "read_int base cs = (case cs of [] \<Rightarrow> 0 | c # ds \<Rightarrow> if c = CHR ''-'' then - int (num_value base ds) else int (num_value base cs))"

fun number :: "string \<Rightarrow> nat \<Rightarrow> nat \<Rightarrow> string" where    \<comment> \<open>the shortest numeral\<close>
  "number digits base n =
     (if n < base \<or> base < 2 then [digits ! n] else number digits base (n div base) @ [digits ! (n mod base)])"

declare number.simps [simp del]

lemma number_length: "n < base ^ Suc k \<Longrightarrow> length (number digits base n) \<le> Suc k"
proof (induction k arbitrary: n)
  case 0
  then show ?case by (subst number.simps) simp
next
  case (Suc k)
  show ?case
  proof (cases "n < base \<or> base < 2")
    case True
    then show ?thesis by (subst number.simps) simp
  next
    case False
    then have "n div base < base ^ Suc k" using Suc.prems by (simp add: less_mult_imp_div_less mult.commute)
    then show ?thesis using Suc.IH [of "n div base"] False by (subst number.simps) simp
  qed
qed

lemma digits_loop_number:
  assumes "2 \<le> unat base" "unat base \<le> length digits" "length buf + length (number digits (unat base) (unat x)) \<le> 16"
  shows "digits_loop digits base x buf = Inr (buf @ rev (number digits (unat base) (unat x)))"
  using assms
proof (induction digits base x buf rule: digits_loop.induct)
  case (1 digits base x buf)
  let ?d = "digits ! (unat x mod unat base)"
  have b0: "base \<noteq> 0" using 1(2) by auto
  have "unat x mod unat base < unat base" using 1(2) by simp
  then have "unat x mod unat base < length digits" using 1(3) by linarith
  then have g: "arr_get digits (unat (x mod base)) = Inr ?d" by (simp add: unat_mod_distrib)
  have z: "x div base = 0 \<longleftrightarrow> unat x < unat base" using 1(2) by (auto simp: word_unat_eq_iff unat_div_distrib div_eq_0_iff)
  have len: "length buf < 16" using 1(4) by (subst (asm) number.simps) (simp split: if_splits)
  show ?case
  proof (cases "unat x < unat base")
    case True
    then have "number digits (unat base) (unat x) = [?d]" by (subst number.simps) simp
    then show ?thesis using b0 g len z True by (subst digits_loop.simps) simp
  next
    case False
    then have n: "number digits (unat base) (unat x) = number digits (unat base) (unat (x div base)) @ [?d]"
      using 1(2) by (subst number.simps) (simp add: unat_div_distrib)
    have "digits_loop digits base (x div base) (buf @ [?d]) = Inr ((buf @ [?d]) @ rev (number digits (unat base) (unat (x div base))))"
      using 1(1) [OF b0 len refl refl, of ?d] 1(2-4) z False n by simp
    then show ?thesis using b0 g len z False n by (subst digits_loop.simps) simp
  qed
qed

lemma num_value_snoc: "num_value base (cs @ [c]) = num_value base cs * base + digit_value c"
  by (simp add: num_value_def)

definition digits_ok :: "string \<Rightarrow> nat \<Rightarrow> bool" where
  "digits_ok digits base \<longleftrightarrow> 2 \<le> base \<and> base \<le> length digits \<and> (\<forall>i < base. digit_value (digits ! i) = i \<and> CHR ''-'' \<noteq> digits ! i)"

lemma num_value_number: "digits_ok digits base \<Longrightarrow> num_value base (number digits base n) = n \<and> CHR ''-'' \<notin> set (number digits base n)"
proof (induction digits base n rule: number.induct)
  case (1 digits base n)
  show ?case
  proof (cases "n < base")
    case True
    then have "number digits base n = [digits ! n]" by (subst number.simps) simp
    then show ?thesis using 1(2) True by (simp add: digits_ok_def num_value_def)
  next
    case False
    then have b: "\<not> (n < base \<or> base < 2)" using 1(2) by (simp add: digits_ok_def)
    then have "number digits base n = number digits base (n div base) @ [digits ! (n mod base)]" by (subst number.simps) simp
    moreover have "n mod base < base" using b by simp
    ultimately show ?thesis using 1(1) [OF b 1(2)] 1(2) by (simp add: num_value_snoc digits_ok_def)
  qed
qed

lemma number_not_Nil: "number digits base n \<noteq> []"
  by (subst number.simps) simp

lemma read_number: "digits_ok digits base \<Longrightarrow> read_int base (number digits base n) = int n \<and> read_int base (CHR ''-'' # number digits base n) = - int n"
  using num_value_number [of digits base n] number_not_Nil [of digits base n] by (cases "number digits base n") (auto simp: read_int_def)

lemma digits_okI: "digits_ok ''0123456789abcdef'' 10" "digits_ok ''0123456789abcdef'' 16" "digits_ok ''0123456789ABCDEF'' 10" "digits_ok ''0123456789ABCDEF'' 16"
  unfolding digits_ok_def by (code_simp)+

section \<open>printint\<close>

definition numeral_of :: "string \<Rightarrow> nat \<Rightarrow> int \<Rightarrow> string" where
  "numeral_of digits base n = (if n < 0 then CHR ''-'' # number digits base (nat (- n)) else number digits base (nat n))"

lemma read_numeral_of: "digits_ok digits base \<Longrightarrow> read_int base (numeral_of digits base n) = n"
  using read_number [of digits base] by (simp add: numeral_of_def)

lemma number_fits:
  assumes "10 \<le> base"
  shows "length (number digits base (unat (x :: u32))) \<le> 10"
proof -
  have "(2 :: nat) ^ 32 < 10 ^ 10" by simp
  also have "(10 :: nat) ^ 10 \<le> base ^ 10" using assms by (rule power_mono) simp
  finally have "unat x < base ^ Suc 9" using u32_bound(1) [of x] by simp
  then show ?thesis using number_length [of "unat x" base 9] by simp
qed

lemma sint_u32: "sint (x :: u32) = (if uint x < 2 ^ 31 then uint x else uint x - 2 ^ 32)"
proof -
  have x: "0 \<le> uint x" "uint x < 2 ^ 32" using uint_lt2p [of x] by simp_all
  have "uint x div 2 ^ 31 = (if uint x < 2 ^ 31 then 0 else 1)" using x by (auto simp: div_pos_pos_trivial int_div_pos_eq [of _ _ 1 "uint x - 2 ^ 31"])
  then have "bit (uint x) 31 \<longleftrightarrow> \<not> uint x < 2 ^ 31" by (simp add: bit_iff_odd)
  moreover have "take_bit 32 (uint x) = uint x" using x by (simp add: take_bit_int_eq_self)
  ultimately show ?thesis by (simp add: sint_uint signed_take_bit_eq_take_bit_minus)
qed

lemma unat_neg:
  fixes xx :: u32
  assumes "sint xx < 0"
  shows "unat (- xx) = nat (- sint xx)"
proof -
  have x: "0 \<le> uint xx" "uint xx < 2 ^ 32" using uint_lt2p [of xx] by simp_all
  have "uint (- xx) = (- uint xx) mod 2 ^ 32" by (simp add: uint_word_ariths)
  moreover have "2 ^ 31 \<le> uint xx" using assms x by (simp add: sint_u32 split: if_splits)
  moreover have "(- uint xx) mod 2 ^ 32 = 2 ^ 32 - uint xx" using x calculation(2) by (simp add: zmod_zminus1_eq_if)
  ultimately have "uint (- xx) = - sint xx" by (simp add: sint_u32)
  then show ?thesis by (metis nat_uint_eq)
qed

lemma digits_numeral:
  fixes base :: u32
  assumes "digits_ok digits (unat base)" "10 \<le> unat base" "sg \<Longrightarrow> sint xx \<noteq> - (2 ^ 31)"
  defines "neg \<equiv> sg \<and> sint xx < 0"
  shows "bindE (if neg then negate xx else Inr xx) (\<lambda>x. bindE (digits_loop digits base x []) (\<lambda>buf.
      bindE (minus_sign neg buf) (\<lambda>buf. Inr (rev buf)))) = Inr (numeral_of digits (unat base) (if sg then sint xx else uint xx))"
proof -
  define x where "x = (if neg then - xx else xx)"
  have x: "(if neg then negate xx else Inr xx) = Inr x" using assms(3) by (auto simp: x_def neg_def negate_def)
  have f: "length (number digits (unat base) (unat x)) \<le> 10" by (rule number_fits [OF assms(2)])
  have "digits_loop digits base x [] = Inr (rev (number digits (unat base) (unat x)))"
    using digits_loop_number [of base digits "[]" x] assms(1) f by (simp add: digits_ok_def)
  then have "bindE (digits_loop digits base x []) (\<lambda>buf. bindE (minus_sign neg buf) (\<lambda>buf. Inr (rev buf))) =
      Inr (if neg then CHR ''-'' # number digits (unat base) (unat x) else number digits (unat base) (unat x))"
    using f by (simp add: minus_sign_def)
  moreover have "neg \<Longrightarrow> unat x = nat (- sint xx)" using unat_neg by (simp add: x_def neg_def)
  moreover have "unat x = nat (if sg then sint xx else uint xx)" "0 \<le> (if sg then sint xx else uint xx)" if "\<not> neg"
  proof -
    have "sg \<Longrightarrow> sint xx = uint xx" using that uint_lt2p [of xx] by (simp add: neg_def sint_u32 split: if_splits)
    then show "unat x = nat (if sg then sint xx else uint xx)" "0 \<le> (if sg then sint xx else uint xx)" using that by (simp_all add: x_def)
  qed
  ultimately show ?thesis unfolding x by (auto simp: numeral_of_def neg_def)
qed

section \<open>What a format prints\<close>

datatype piece = Lit char | Dec u32 | Hex char u32 | Str u32 | Chr u32 | Percent | Other char

fun piece_ok :: "piece \<Rightarrow> bool" where
  "piece_ok (Lit c) \<longleftrightarrow> c \<noteq> CHR ''%''"
| "piece_ok (Dec n) \<longleftrightarrow> sint n \<noteq> - (2 ^ 31)"
| "piece_ok (Hex c n) \<longleftrightarrow> c = CHR ''x'' \<or> c = CHR ''p''"
| "piece_ok (Other c) \<longleftrightarrow> c \<notin> set ''dxpsc%''"
| "piece_ok _ \<longleftrightarrow> True"

fun piece_fmt :: "piece \<Rightarrow> string" where
  "piece_fmt (Lit c) = [c]"
| "piece_fmt (Dec n) = ''%d''"
| "piece_fmt (Hex c n) = [CHR ''%'', c]"
| "piece_fmt (Str a) = ''%s''"
| "piece_fmt (Chr a) = ''%c''"
| "piece_fmt Percent = ''%%''"
| "piece_fmt (Other c) = [CHR ''%'', c]"

fun piece_args :: "piece \<Rightarrow> u32 list" where
  "piece_args (Dec n) = [n]"
| "piece_args (Hex c n) = [n]"
| "piece_args (Str a) = [a]"
| "piece_args (Chr a) = [a]"
| "piece_args _ = []"

fun piece_text :: "(u32 \<Rightarrow> string) \<Rightarrow> string \<Rightarrow> piece \<Rightarrow> string" where
  "piece_text str digits (Lit c) = [c]"
| "piece_text str digits (Dec n) = numeral_of digits 10 (sint n)"
| "piece_text str digits (Hex c n) = numeral_of digits 16 (uint n)"
| "piece_text str digits (Str a) = arg_string str a"
| "piece_text str digits (Chr a) = [char_of (unat a)]"
| "piece_text str digits Percent = ''%''"
| "piece_text str digits (Other c) = [CHR ''%'', c]"

lemma printint_numeral:
  "sint n \<noteq> - (2 ^ 31) \<Longrightarrow> printint n 10 True = Inr (numeral_of ''0123456789abcdef'' 10 (sint n))"
  "printint n 16 False = Inr (numeral_of ''0123456789abcdef'' 16 (uint n))"
  "sint n \<noteq> - (2 ^ 31) \<Longrightarrow> uprintint n 10 True = Inr (numeral_of ''0123456789ABCDEF'' 10 (sint n))"
  "uprintint n 16 False = Inr (numeral_of ''0123456789ABCDEF'' 16 (uint n))"
  using digits_numeral [of "''0123456789abcdef''" 10 True n] digits_numeral [of "''0123456789abcdef''" 16 False n]
    digits_numeral [of "''0123456789ABCDEF''" 10 True n] digits_numeral [of "''0123456789ABCDEF''" 16 False n] digits_okI
  by (simp_all add: printint_def uprintint_def Let_def)

lemma emit_Inr: "emit cs (Inr out) = Inr (cs @ out)"
  by (simp add: emit_def)

lemmas format_simps = printint_numeral emit_Inr next_arg_def

lemma cprintf_cons: "c \<noteq> CHR ''%'' \<Longrightarrow> cprintf_loop str (c # fmt) args = emit [c] (cprintf_loop str fmt args)"
  by (cases fmt) (simp_all add: emit_def)

lemma cprintf_pieces:
  assumes "list_all piece_ok ps" "\<forall>a. Chr a \<notin> set ps"
  shows "cprintf_loop str (concat (map piece_fmt ps)) (concat (map piece_args ps) @ rest) =
    Inr (concat (map (piece_text str ''0123456789abcdef'') ps))"
  using assms
proof (induction ps)
  case (Cons p ps)
  then show ?case by (cases p) (auto simp: cprintf_cons format_simps simp del: cprintf_loop.simps(2))
qed simp

lemma printf_pieces:
  assumes "list_all piece_ok ps"
  shows "printf_loop str False (concat (map piece_fmt ps)) (concat (map piece_args ps) @ rest) =
    Inr (concat (map (piece_text str ''0123456789ABCDEF'') ps))"
  using assms
proof (induction ps)
  case (Cons p ps)
  then show ?case by (cases p) (auto simp: format_simps)
qed simp

lemma sent_char: "sent (of_char c) = [word_of_int (of_char c)]"
proof -
  have "(of_char c :: int) \<noteq> BACKSPACE" using of_char_of [where 'a = int] by (cases c) (simp add: BACKSPACE_def of_char_def horner_sum_simps)
  then show ?thesis by (simp add: sent_def)
qed

lemma sent_chars: "concat (map sent (map of_char cs)) = map (\<lambda>c. word_of_int (of_char c)) cs"
  by (induction cs) (simp_all add: sent_char)



end
