(* ===== verification/Xv6_Mkfs.thy ===== *)
theory Xv6_Mkfs
  imports Xv6_Fs_Dir
begin

text \<open>
  The program that builds the file system image (\<open>mkfs.c\<close>). The image file is its blocks and their number; blocks that
  were never written read as zeroes. A system call that fails ends the program with status 1. \<open>xint\<close> and \<open>xshort\<close>, which
  give integers the byte order of the disk, are part of writing and reading the fields. The host files are given by
  their names and the pieces that \<open>read\<close> returns.
\<close>

section \<open>The program\<close>

definition FSSIZE :: nat where "FSSIZE = 1000"
definition NINODES :: nat where "NINODES = 200"
definition nbitmap :: nat where "nbitmap = FSSIZE div (BSIZE * 8) + 1"
definition ninodeblocks :: nat where "ninodeblocks = NINODES div IPB + 1"
definition nmeta :: nat where "nmeta = 2 + nat LOGSIZE + ninodeblocks + nbitmap"

definition mkfs_sb :: superblock where
  "mkfs_sb = \<lparr>sb_size = of_nat FSSIZE, sb_nblocks = of_nat (FSSIZE - nmeta), sb_ninodes = of_nat NINODES, sb_nlog = word_of_int LOGSIZE,
     sb_logstart = 2, sb_inodestart = 2 + word_of_int LOGSIZE, sb_bmapstart = 2 + word_of_int LOGSIZE + of_nat ninodeblocks\<rparr>"

record mkfs =
  img :: "u32 \<Rightarrow> block"
  nimg :: nat
  freeinode :: u32
  freeblock :: u32

definition zeroes :: block where "zeroes = replicate BSIZE 0"

definition sect :: "u32 \<Rightarrow> u32" where    \<comment> \<open>where \<open>lseek\<close> to \<open>sec * BSIZE\<close> leads\<close>
  "sect sec = sec * 512 div 512"

definition wsect :: "u32 \<Rightarrow> block \<Rightarrow> mkfs \<Rightarrow> mkfs" where
  "wsect sec d s = s\<lparr>img := (img s)(sect sec := d), nimg := max (nimg s) (Suc (unat (sect sec)))\<rparr>"

definition rsect :: "u32 \<Rightarrow> mkfs \<Rightarrow> block c_result" where
  "rsect sec s = (if unat (sect sec) < nimg s then Inr (img s (sect sec)) else Inl (Exit_Process 1))"

definition winode :: "u32 \<Rightarrow> dinode \<Rightarrow> mkfs \<Rightarrow> mkfs c_result" where
  "winode inum ip s =
     (let bn = IBLOCK inum mkfs_sb in bindE (rsect bn s) (\<lambda>d. Inr (wsect bn (put_dinode d (dinode_off inum) ip) s)))"

definition rinode :: "u32 \<Rightarrow> mkfs \<Rightarrow> dinode c_result" where
  "rinode inum s = bindE (rsect (IBLOCK inum mkfs_sb) s) (\<lambda>d. Inr (get_dinode d (dinode_off inum)))"

definition mk_ialloc :: "u16 \<Rightarrow> mkfs \<Rightarrow> (u32 \<times> mkfs) c_result" where
  "mk_ialloc type s =
     bindE (winode (freeinode s)
       \<lparr>d_type = type, d_major = 0, d_minor = 0, d_nlink = 1, d_size = 0, d_addrs = replicate (NDIRECT + 1) 0\<rparr>
       (s\<lparr>freeinode := freeinode s + 1\<rparr>)) (\<lambda>s'. Inr (freeinode s, s'))"

definition mk_balloc :: "nat \<Rightarrow> mkfs \<Rightarrow> mkfs c_result" where
  "mk_balloc n s =
     guardE (n < BSIZE * 8) Assert_Failed (Inr (wsect (sb_bmapstart mkfs_sb) (fold (\<lambda>i d. set_bit_used d i) [0..<n] zeroes) s))"

text \<open>The block of \<open>iappend\<close> that holds byte block \<open>fbn\<close>, allocated when it is not there; first through the indirect block.\<close>

definition map_indirect :: "dinode \<Rightarrow> nat \<Rightarrow> mkfs \<Rightarrow> (u32 \<times> dinode \<times> mkfs) c_result" where
  "map_indirect din fbn s =
     bindE (rsect (d_addrs din ! NDIRECT) s) (\<lambda>indirect.
       let (indirect, s) =
         (if get32 indirect (4 * (fbn - NDIRECT)) = 0
          then (let indirect = put32 indirect (4 * (fbn - NDIRECT)) (freeblock s)
                in (indirect, wsect (d_addrs din ! NDIRECT) indirect (s\<lparr>freeblock := freeblock s + 1\<rparr>)))
          else (indirect, s))
       in Inr (get32 indirect (4 * (fbn - NDIRECT)), din, s))"

definition map_block :: "dinode \<Rightarrow> nat \<Rightarrow> mkfs \<Rightarrow> (u32 \<times> dinode \<times> mkfs) c_result" where
  "map_block din fbn s =
     (if fbn < NDIRECT
      then (let (din, s) = (if d_addrs din ! fbn = 0
                            then (din\<lparr>d_addrs := (d_addrs din)[fbn := freeblock s]\<rparr>, s\<lparr>freeblock := freeblock s + 1\<rparr>)
                            else (din, s))
            in Inr (d_addrs din ! fbn, din, s))
      else (let (din, s) = (if d_addrs din ! NDIRECT = 0
                            then (din\<lparr>d_addrs := (d_addrs din)[NDIRECT := freeblock s]\<rparr>, s\<lparr>freeblock := freeblock s + 1\<rparr>)
                            else (din, s))
            in map_indirect din fbn s))"

function iappend_loop :: "dinode \<Rightarrow> nat \<Rightarrow> u8 list \<Rightarrow> mkfs \<Rightarrow> (dinode \<times> nat \<times> mkfs) c_result" where    \<comment> \<open>\<open>p\<close> holds the bytes to go\<close>
  "iappend_loop din off p s =
     (if p = [] then Inr (din, off, s)
      else (let fbn = off div BSIZE
            in guardE (fbn < MAXFILE) Assert_Failed (bindE (map_block din fbn s) (\<lambda>(x, din, s).
               let n1 = min (length p) ((fbn + 1) * BSIZE - off)
               in bindE (rsect x s) (\<lambda>buf.
                  iappend_loop din (off + n1) (drop n1 p) (wsect x (splice buf (off - fbn * BSIZE) (take n1 p)) s))))))"
  by pat_completeness auto
termination
proof (relation "measure (\<lambda>(din, off, p, s). length p)", goal_cases)
  case (2 din off p s)
  have "off < (off div BSIZE + 1) * BSIZE" using dividend_less_div_times [of BSIZE off] by (simp add: BSIZE_def)
  then show ?case using 2 by auto
qed simp

declare iappend_loop.simps [simp del]

definition iappend :: "u32 \<Rightarrow> u8 list \<Rightarrow> mkfs \<Rightarrow> mkfs c_result" where
  "iappend inum p s =
     bindE (rinode inum s) (\<lambda>din.
     bindE (iappend_loop din (unat (d_size din)) p s) (\<lambda>(din, off, s). winode inum (din\<lparr>d_size := of_nat off\<rparr>) s))"

fun append_all :: "u32 \<Rightarrow> u8 list list \<Rightarrow> mkfs \<Rightarrow> mkfs c_result" where    \<comment> \<open>the loop that copies a file\<close>
  "append_all inum [] s = Inr s"
| "append_all inum (p # pieces) s = bindE (iappend inum p s) (append_all inum pieces)"

definition skip_underscore :: "u8 list \<Rightarrow> u8 list" where
  "skip_underscore name = (case name of [] \<Rightarrow> [] | c # cs \<Rightarrow> if c = 0x5F then cs else name)"

fun add_files :: "u32 \<Rightarrow> (u8 list \<times> u8 list list) list \<Rightarrow> mkfs \<Rightarrow> mkfs c_result" where    \<comment> \<open>the loop over the arguments\<close>
  "add_files rootino [] s = Inr s"
| "add_files rootino ((name, pieces) # files) s =
     guardE (slash \<notin> set name) Assert_Failed
       (bindE (mk_ialloc T_FILE s) (\<lambda>(inum, s).
        bindE (iappend rootino (mk_dirent (ucast inum) (skip_underscore name)) s) (\<lambda>s.
        bindE (append_all inum pieces s) (add_files rootino files))))"

definition fix_root :: "u32 \<Rightarrow> mkfs \<Rightarrow> mkfs c_result" where
  "fix_root rootino s =
     bindE (rinode rootino s) (\<lambda>din. winode rootino (din\<lparr>d_size := (d_size din div of_nat BSIZE + 1) * of_nat BSIZE\<rparr>) s)"

definition mkfs_start :: mkfs where    \<comment> \<open>after the zeroes and the super block are written\<close>
  "mkfs_start =
     wsect 1 (put_words zeroes 0 [sb_size mkfs_sb, sb_nblocks mkfs_sb, sb_ninodes mkfs_sb, sb_nlog mkfs_sb, sb_logstart mkfs_sb,
        sb_inodestart mkfs_sb, sb_bmapstart mkfs_sb])
       (fold (\<lambda>i. wsect (of_nat i) zeroes) [0..<FSSIZE] \<lparr>img = \<lambda>_. zeroes, nimg = 0, freeinode = 1, freeblock = of_nat nmeta\<rparr>)"

definition mkfs_main :: "(u8 list \<times> u8 list list) list \<Rightarrow> mkfs c_result" where
  "mkfs_main files =
     bindE (mk_ialloc T_DIR mkfs_start) (\<lambda>(rootino, s).
     guardE (rootino = ROOTINO) Assert_Failed
       (bindE (iappend rootino (mk_dirent (ucast rootino) [0x2E]) s) (\<lambda>s.
        bindE (iappend rootino (mk_dirent (ucast rootino) [0x2E, 0x2E]) s) (\<lambda>s.
        bindE (add_files rootino files s) (\<lambda>s.
        bindE (fix_root rootino s) (\<lambda>s. mk_balloc (unat (freeblock s)) s))))))"
section \<open>Files in the image\<close>

lemma mkfs_consts: "nmeta = 59" "FSSIZE = 1000" "MAXFILE = 140" "NDIRECT = 12" "unat (sb_size mkfs_sb) = 1000" "unat (sb_ninodes mkfs_sb) = 200"
    "unat (sb_inodestart mkfs_sb) = 32" "unat (sb_bmapstart mkfs_sb) = 58" "data_start mkfs_sb = 59"
  by (simp_all add: nmeta_def nbitmap_def ninodeblocks_def NINODES_def FSSIZE_def IPB_def BSIZE_def LOGSIZE_def MAXOPBLOCKS_def mkfs_sb_def
      MAXFILE_def NDIRECT_def NINDIRECT_def data_start_def BPB_def)

lemma sect_id: "unat b < 1000 \<Longrightarrow> sect b = b"
  by (simp add: sect_def word_unat_eq_iff unat_div_distrib unat_word_ariths)

text \<open>
  The blocks from \<open>nmeta\<close> up to \<open>fb\<close> are in use. \<open>ow\<close> records for which inode and which of its blocks each was taken, so
  that no block serves twice. \<open>holds m ow fb i din nb hi bs\<close>: inode \<open>i\<close> has \<open>nb\<close> blocks, an indirect block when \<open>hi\<close>, and
  the bytes \<open>bs\<close> followed by zeroes in them.
\<close>

definition in_use :: "nat \<Rightarrow> u32 \<Rightarrow> bool" where
  "in_use fb b \<longleftrightarrow> 59 \<le> unat b \<and> unat b < fb"

definition dmap :: "(u32 \<Rightarrow> block) \<Rightarrow> dinode \<Rightarrow> nat \<Rightarrow> u32" where
  "dmap m din bn = (if bn < NDIRECT then d_addrs din ! bn
     else if d_addrs din ! NDIRECT = 0 then 0 else get32 (m (d_addrs din ! NDIRECT)) (4 * (bn - NDIRECT)))"

definition holds :: "(u32 \<Rightarrow> block) \<Rightarrow> (u32 \<Rightarrow> nat \<times> nat) \<Rightarrow> nat \<Rightarrow> nat \<Rightarrow> dinode \<Rightarrow> nat \<Rightarrow> bool \<Rightarrow> u8 list \<Rightarrow> bool" where
  "holds m ow fb i din nb hi bs \<longleftrightarrow> length (d_addrs din) = NDIRECT + 1 \<and> nb \<le> MAXFILE \<and> length bs \<le> nb * BSIZE \<and> (NDIRECT < nb \<longrightarrow> hi) \<and>
     (\<forall>bn < nb. in_use fb (dmap m din bn) \<and> ow (dmap m din bn) = (i, bn)) \<and> (\<forall>bn. nb \<le> bn \<and> bn < MAXFILE \<longrightarrow> dmap m din bn = 0) \<and>
     (if hi then in_use fb (d_addrs din ! NDIRECT) \<and> ow (d_addrs din ! NDIRECT) = (i, MAXFILE) else d_addrs din ! NDIRECT = 0) \<and>
     (\<forall>k < nb * BSIZE. m (dmap m din (k div BSIZE)) ! (k mod BSIZE) = (if k < length bs then bs ! k else 0))"

lemma holdsD:
  assumes "holds m ow fb i din nb hi bs"
  shows "length (d_addrs din) = NDIRECT + 1" "nb \<le> MAXFILE" "length bs \<le> nb * BSIZE" "NDIRECT < nb \<Longrightarrow> hi"
    "bn < nb \<Longrightarrow> in_use fb (dmap m din bn) \<and> ow (dmap m din bn) = (i, bn)" "nb \<le> bn \<Longrightarrow> bn < MAXFILE \<Longrightarrow> dmap m din bn = 0"
    "hi \<Longrightarrow> in_use fb (d_addrs din ! NDIRECT) \<and> ow (d_addrs din ! NDIRECT) = (i, MAXFILE)" "\<not> hi \<Longrightarrow> d_addrs din ! NDIRECT = 0"
    "k < nb * BSIZE \<Longrightarrow> m (dmap m din (k div BSIZE)) ! (k mod BSIZE) = (if k < length bs then bs ! k else 0)"
  using assms unfolding holds_def by (auto split: if_splits)

lemma in_use_nonzero: "in_use fb b \<Longrightarrow> b \<noteq> 0"
  by (auto simp: in_use_def)

lemma in_use_mono: "in_use fb b \<Longrightarrow> fb \<le> fb' \<Longrightarrow> in_use fb' b"
  by (simp add: in_use_def)

lemma dmap_cong: "(d_addrs din ! NDIRECT \<noteq> 0 \<Longrightarrow> m' (d_addrs din ! NDIRECT) = m (d_addrs din ! NDIRECT)) \<Longrightarrow> dmap m' din bn = dmap m din bn"
  by (simp add: dmap_def)

lemma block_index: "k < nb * BSIZE \<Longrightarrow> k div BSIZE < nb" "k mod BSIZE < BSIZE"
  by (simp_all add: less_mult_imp_div_less BSIZE_def)

lemma holds_frame:
  assumes h: "holds m ow fb i din nb hi bs" and fb: "fb \<le> fb'"
    and same: "\<And>b. in_use fb b \<Longrightarrow> fst (ow b) = i \<Longrightarrow> m' b = m b \<and> ow' b = ow b"
  shows "holds m' ow' fb' i din nb hi bs"
proof -
  note d = holdsD [OF h]
  have ind: "m' (d_addrs din ! NDIRECT) = m (d_addrs din ! NDIRECT)" if "d_addrs din ! NDIRECT \<noteq> 0" using d(7,8) same that by fastforce
  then have dm: "dmap m' din bn = dmap m din bn" for bn by (rule dmap_cong)
  have blk: "m' (dmap m din bn) = m (dmap m din bn)" "ow' (dmap m din bn) = (i, bn)" if "bn < nb" for bn using d(5) [OF that] same by fastforce+
  have "m' (dmap m din (k div BSIZE)) ! (k mod BSIZE) = (if k < length bs then bs ! k else 0)" if "k < nb * BSIZE" for k
    using blk(1) [OF block_index(1) [OF that]] d(9) [OF that] by simp
  moreover have "in_use fb' (dmap m din bn)" if "bn < nb" for bn using d(5) [OF that] fb by (simp add: in_use_def)
  moreover have "if hi then in_use fb' (d_addrs din ! NDIRECT) \<and> ow' (d_addrs din ! NDIRECT) = (i, MAXFILE) else d_addrs din ! NDIRECT = 0"
    using d(7,8) same [of "d_addrs din ! NDIRECT"] fb by (auto simp: in_use_def)
  ultimately show ?thesis using d(1-4,6) blk(2) unfolding holds_def dm by auto
qed

text \<open>A new data block, directly in the inode or in the indirect block, and a new indirect block.\<close>

lemma new_zero_block:
  assumes h: "holds m ow fb i din nb hi bs" and z: "m' x = zeroes" and new: "dmap m' din' nb = x"
    and old: "\<And>bn. bn < nb \<Longrightarrow> dmap m' din' bn = dmap m din bn \<and> m' (dmap m din bn) = m (dmap m din bn)" and k: "k < Suc nb * BSIZE"
  shows "m' (dmap m' din' (k div BSIZE)) ! (k mod BSIZE) = (if k < length bs then bs ! k else 0)"
proof (cases "k < nb * BSIZE")
  case True
  then show ?thesis using old [OF block_index(1) [OF True]] holdsD(9) [OF h True] by simp
next
  case False
  then have "k div BSIZE = nb" using k by (intro div_nat_eqI) (simp_all add: mult.commute)
  then show ?thesis using False holdsD(3) [OF h] z new block_index(2) [of k] by (simp add: zeroes_def)
qed

lemma add_direct:
  assumes h: "holds m ow fb i din nb hi bs" and nb: "nb < NDIRECT" and x: "unat x = fb" "59 \<le> fb" and z: "m x = zeroes"
  shows "holds m (ow(x := (i, nb))) (Suc fb) i (din\<lparr>d_addrs := (d_addrs din)[nb := x]\<rparr>) (Suc nb) hi bs"
proof -
  note d = holdsD [OF h]
  let ?din = "din\<lparr>d_addrs := (d_addrs din)[nb := x]\<rparr>"
  have dm: "dmap m ?din bn = (if bn = nb then x else dmap m din bn)" for bn using nb d(1) by (auto simp: dmap_def)
  have ne: "b \<noteq> x" if "in_use fb b" for b using that x(1) by (auto simp: in_use_def)
  have up: "in_use (Suc fb) b" if "in_use fb b" for b using that by (simp add: in_use_def)
  have ix: "in_use (Suc fb) x" using x by (simp add: in_use_def)
  have "m (dmap m ?din (k div BSIZE)) ! (k mod BSIZE) = (if k < length bs then bs ! k else 0)" if "k < Suc nb * BSIZE" for k
    by (rule new_zero_block [OF h, where m' = m and x = x]) (use z that in \<open>simp_all add: dm\<close>)
  moreover have "in_use (Suc fb) (dmap m ?din bn) \<and> (ow(x := (i, nb))) (dmap m ?din bn) = (i, bn)" if "bn < Suc nb" for bn
    using that d(5) [of bn] ne [of "dmap m din bn"] up ix by (cases "bn = nb") (auto simp: dm)
  moreover have "dmap m ?din bn = 0" if "Suc nb \<le> bn" "bn < MAXFILE" for bn using d(6) [of bn] that by (simp add: dm)
  moreover have "d_addrs ?din ! NDIRECT = d_addrs din ! NDIRECT" using nb by simp
  moreover have "hi \<Longrightarrow> in_use (Suc fb) (d_addrs din ! NDIRECT) \<and> (ow(x := (i, nb))) (d_addrs din ! NDIRECT) = (i, MAXFILE)" using d(7) ne up by auto
  ultimately show ?thesis using d(1,3,4,8) nb unfolding holds_def by (auto simp: MAXFILE_def)
qed

lemma get32_zeroes: "4 * k + 3 < BSIZE \<Longrightarrow> get32 zeroes (4 * k) = 0"
  by (simp add: get32_def zeroes_def)

lemma add_ind_block:
  assumes h: "holds m ow fb i din NDIRECT False bs" and x: "unat x = fb" "59 \<le> fb" and z: "m x = zeroes"
  shows "holds m (ow(x := (i, MAXFILE))) (Suc fb) i (din\<lparr>d_addrs := (d_addrs din)[NDIRECT := x]\<rparr>) NDIRECT True bs"
proof -
  note d = holdsD [OF h]
  let ?din = "din\<lparr>d_addrs := (d_addrs din)[NDIRECT := x]\<rparr>"
  have x0: "x \<noteq> 0" using x by auto
  have dm: "dmap m ?din bn = dmap m din bn" if "bn < MAXFILE" for bn
    using d(1,6,8) that x0 z get32_zeroes [of "bn - NDIRECT"] by (auto simp: dmap_def MAXFILE_def NINDIRECT_def BSIZE_def)
  have bn: "bn < MAXFILE" if "bn < NDIRECT" for bn using that by (simp add: MAXFILE_def)
  have ne: "b \<noteq> x" if "in_use fb b" for b using that x(1) by (auto simp: in_use_def)
  have up: "in_use (Suc fb) b" if "in_use fb b" for b using that by (simp add: in_use_def)
  have "m (dmap m ?din (k div BSIZE)) ! (k mod BSIZE) = (if k < length bs then bs ! k else 0)" if "k < NDIRECT * BSIZE" for k
    using d(9) [OF that] dm [OF bn [OF block_index(1) [OF that]]] by simp
  moreover have "in_use (Suc fb) (dmap m ?din bn) \<and> (ow(x := (i, MAXFILE))) (dmap m ?din bn) = (i, bn)" if "bn < NDIRECT" for bn
    using d(5) [OF that] dm [OF bn [OF that]] ne up by auto
  moreover have "dmap m ?din bn = 0" if "NDIRECT \<le> bn" "bn < MAXFILE" for bn using d(6) [OF that] dm [OF that(2)] by simp
  moreover have "d_addrs ?din ! NDIRECT = x" "in_use (Suc fb) x" using d(1) x by (simp_all add: in_use_def)
  ultimately show ?thesis using d(1-3) unfolding holds_def by auto
qed

lemma add_indirect:
  assumes h: "holds m ow fb i din nb True bs" and nb: "NDIRECT \<le> nb" "nb < MAXFILE" and x: "unat x = fb" "59 \<le> fb" and z: "m x = zeroes"
    and len: "\<And>b. length (m b) = BSIZE"
  defines "a \<equiv> d_addrs din ! NDIRECT"
  shows "holds (m(a := put32 (m a) (4 * (nb - NDIRECT)) x)) (ow(x := (i, nb))) (Suc fb) i din (Suc nb) True bs"
proof -
  note d = holdsD [OF h]
  let ?m = "m(a := put32 (m a) (4 * (nb - NDIRECT)) x)"
  have a: "in_use fb a" "ow a = (i, MAXFILE)" "a \<noteq> 0" using d(7) in_use_nonzero by (auto simp: a_def)
  have ne: "b \<noteq> x" if "in_use fb b" for b using that x(1) by (auto simp: in_use_def)
  have up: "in_use (Suc fb) b" if "in_use fb b" for b using that by (simp add: in_use_def)
  have ix: "in_use (Suc fb) x" using x by (simp add: in_use_def)
  have off: "4 * (bn - NDIRECT) + 3 < BSIZE" if "bn < MAXFILE" for bn using that by (simp add: MAXFILE_def NDIRECT_def NINDIRECT_def BSIZE_def)
  have other: "get32 (put32 (m a) (4 * (nb - NDIRECT)) x) (4 * (bn - NDIRECT)) = get32 (m a) (4 * (bn - NDIRECT))" if "NDIRECT \<le> bn" "bn \<noteq> nb" for bn
    by (rule get32_put32_other) (use that nb(1) in linarith)
  have dm: "dmap ?m din bn = (if bn = nb then x else dmap m din bn)" if "bn < MAXFILE" for bn
    using a(3) nb off [OF nb(2)] len [of a] other [of bn] by (auto simp: dmap_def a_def [symmetric])
  have lt: "bn < MAXFILE" if "bn < Suc nb" for bn using that nb by simp
  have na: "dmap m din bn \<noteq> a" if "bn < nb" for bn using d(5) [OF that] a(2) that nb by auto
  have xa: "x \<noteq> a" using ne [OF a(1)] by simp
  have "?m (dmap ?m din (k div BSIZE)) ! (k mod BSIZE) = (if k < length bs then bs ! k else 0)" if "k < Suc nb * BSIZE" for k
    by (rule new_zero_block [OF h, where m' = ?m and x = x]) (use z that xa na lt dm in \<open>auto\<close>)
  moreover have "in_use (Suc fb) (dmap ?m din bn) \<and> (ow(x := (i, nb))) (dmap ?m din bn) = (i, bn)" if "bn < Suc nb" for bn
    using that d(5) [of bn] ne [of "dmap m din bn"] up ix dm [OF lt [OF that]] by (cases "bn = nb") auto
  moreover have "dmap ?m din bn = 0" if "Suc nb \<le> bn" "bn < MAXFILE" for bn using d(6) [of bn] that dm by simp
  moreover have "in_use (Suc fb) (d_addrs din ! NDIRECT) \<and> (ow(x := (i, nb))) (d_addrs din ! NDIRECT) = (i, MAXFILE)" using a ne up by (auto simp: a_def)
  ultimately show ?thesis using d(1,3) nb unfolding holds_def by auto
qed

lemma write_bytes:
  assumes h: "holds m ow fb i din nb hi bs" and bn: "length bs div BSIZE = bn" "bn < nb" and c: "length c \<le> (bn + 1) * BSIZE - length bs"
    and len: "\<And>b. length (m b) = BSIZE"
  defines "x \<equiv> dmap m din bn"
  shows "holds (m(x := splice (m x) (length bs - bn * BSIZE) c)) ow fb i din nb hi (bs @ c)"
proof -
  note d = holdsD [OF h]
  let ?o = "length bs - bn * BSIZE" and ?m = "m(x := splice (m x) (length bs - bn * BSIZE) c)"
  have xi: "in_use fb x" "ow x = (i, bn)" using d(5) [OF bn(2)] by (auto simp: x_def)
  have bl: "bn * BSIZE \<le> length bs" "length bs < (bn + 1) * BSIZE" using bn(1) dividend_less_div_times [of BSIZE "length bs"] by (auto simp: BSIZE_def)
  have "d_addrs din ! NDIRECT \<noteq> x" if "d_addrs din ! NDIRECT \<noteq> 0" using d(7,8) that xi(2) bn(2) d(2) by (cases hi) auto
  then have dm: "dmap ?m din b = dmap m din b" for b by (intro dmap_cong) simp
  have ol: "?o + length c \<le> BSIZE" using c bl by simp
  have "?m (dmap m din (k div BSIZE)) ! (k mod BSIZE) = (if k < length (bs @ c) then (bs @ c) ! k else 0)" if k: "k < nb * BSIZE" for k
  proof (cases "k div BSIZE = bn")
    case True
    then have km: "k mod BSIZE = k - bn * BSIZE" "bn * BSIZE \<le> k" using minus_div_mult_eq_mod [of k BSIZE] div_times_less_eq_dividend [of k BSIZE] by auto
    have "splice (m x) ?o c ! (k mod BSIZE) = (if ?o \<le> k mod BSIZE \<and> k mod BSIZE < ?o + length c then c ! (k mod BSIZE - ?o) else m x ! (k mod BSIZE))"
      by (rule nth_splice) (use ol len [of x] block_index(2) [of k] in simp_all)
    then show ?thesis using d(9) [OF k] True km bl c by (auto simp: x_def nth_append)
  next
    case False
    then have "dmap m din (k div BSIZE) \<noteq> x" using d(5) [OF block_index(1) [OF k]] xi(2) by auto
    moreover have "k < bn * BSIZE \<or> (bn + 1) * BSIZE \<le> k"
    proof (rule ccontr)
      assume "\<not> ?thesis"
      then have "k div BSIZE = bn" by (intro div_nat_eqI) (simp_all add: mult.commute)
      then show False using False by simp
    qed
    then have "k < length bs + length c \<longleftrightarrow> k < length bs" using c bl by auto
    ultimately show ?thesis using d(9) [OF k] by (auto simp: nth_append)
  qed
  moreover have "length (bs @ c) \<le> nb * BSIZE"
  proof -
    have "(bn + 1) * BSIZE \<le> nb * BSIZE" using bn(2) by (intro mult_right_mono) simp_all
    then show ?thesis using c bl by simp
  qed
  ultimately show ?thesis using d(1,2,4-8) unfolding holds_def dm by auto
qed

section \<open>iappend\<close>

definition mk_ok :: "mkfs \<Rightarrow> bool" where
  "mk_ok s \<longleftrightarrow> nimg s = 1000 \<and> (\<forall>b. length (img s b) = BSIZE) \<and> (\<forall>b. unat (freeblock s) \<le> unat b \<longrightarrow> img s b = zeroes) \<and> 59 \<le> unat (freeblock s)"

lemma mk_okD:
  assumes "mk_ok s"
  shows "nimg s = 1000" "length (img s b) = BSIZE" "unat (freeblock s) \<le> unat b \<Longrightarrow> img s b = zeroes" "59 \<le> unat (freeblock s)"
  using assms by (auto simp: mk_ok_def)

text \<open>What \<open>iappend\<close> leaves alone: blocks before the data blocks and those of other inodes.\<close>

definition keeps :: "nat \<Rightarrow> mkfs \<Rightarrow> (u32 \<Rightarrow> nat \<times> nat) \<Rightarrow> mkfs \<Rightarrow> (u32 \<Rightarrow> nat \<times> nat) \<Rightarrow> bool" where
  "keeps i s ow s' ow' \<longleftrightarrow> freeinode s' = freeinode s \<and> unat (freeblock s) \<le> unat (freeblock s') \<and>
     (\<forall>b. unat b < unat (freeblock s) \<and> (unat b < 59 \<or> fst (ow b) \<noteq> i) \<longrightarrow> img s' b = img s b) \<and> (\<forall>b. unat b < unat (freeblock s) \<longrightarrow> ow' b = ow b)"

lemma keeps_refl: "keeps i s ow s ow"
  by (simp add: keeps_def)

lemma keepsD:
  assumes "keeps i s ow s' ow'"
  shows "freeinode s' = freeinode s" "unat (freeblock s) \<le> unat (freeblock s')" "unat b < unat (freeblock s) \<Longrightarrow> ow' b = ow b"
    "unat b < unat (freeblock s) \<Longrightarrow> unat b < 59 \<or> fst (ow b) \<noteq> i \<Longrightarrow> img s' b = img s b"
  using assms unfolding keeps_def by blast+

lemma keeps_trans:
  assumes a: "keeps i s ow s1 ow1" and b: "keeps i s1 ow1 s2 ow2"
  shows "keeps i s ow s2 ow2"
proof -
  have lt: "unat x < unat (freeblock s1)" if "unat x < unat (freeblock s)" for x using keepsD(2) [OF a] that by simp
  have "img s2 x = img s x" if x: "unat x < unat (freeblock s)" "unat x < 59 \<or> fst (ow x) \<noteq> i" for x
    using keepsD(4) [OF a x] keepsD(4) [OF b lt [OF x(1)]] keepsD(3) [OF a x(1)] x(2) by simp
  moreover have "ow2 x = ow x" if "unat x < unat (freeblock s)" for x using keepsD(3) [OF a that] keepsD(3) [OF b lt [OF that]] by simp
  ultimately show ?thesis using keepsD(1,2) [OF a] keepsD(1,2) [OF b] by (simp add: keeps_def)
qed

definition need :: "nat \<Rightarrow> bool \<Rightarrow> nat" where "need nb hi = nb + of_bool hi"

lemma unat_succ: "unat b < 1000 \<Longrightarrow> unat (b + 1 :: u32) = Suc (unat b)"
  by (simp add: unat_word_ariths)

lemma rsect_ok: "mk_ok s \<Longrightarrow> unat b < 1000 \<Longrightarrow> rsect b s = Inr (img s b)"
  by (simp add: rsect_def sect_id mk_okD)

lemma wsect_ok: "nimg s = 1000 \<Longrightarrow> unat b < 1000 \<Longrightarrow> wsect b d s = s\<lparr>img := (img s)(b := d)\<rparr>"
  by (simp add: wsect_def sect_id)

lemma mk_ok_write: "mk_ok s \<Longrightarrow> unat b < unat (freeblock s) \<Longrightarrow> length d = BSIZE \<Longrightarrow> mk_ok (s\<lparr>img := (img s)(b := d)\<rparr>)"
  by (auto simp: mk_ok_def)

lemma mk_ok_take: "mk_ok s \<Longrightarrow> unat (freeblock s) < 1000 \<Longrightarrow> mk_ok (s\<lparr>freeblock := freeblock s + 1\<rparr>)"
  by (auto simp: mk_ok_def unat_succ)

lemma take_direct:
  assumes s: "mk_ok s" and h: "holds (img s) ow (unat (freeblock s)) i din nb hi bs" and nb: "nb < NDIRECT" and room: "unat (freeblock s) < 1000"
  defines "s' \<equiv> s\<lparr>freeblock := freeblock s + 1\<rparr>" and "ow' \<equiv> ow(freeblock s := (i, nb))" and "din' \<equiv> din\<lparr>d_addrs := (d_addrs din)[nb := freeblock s]\<rparr>"
  shows "map_block din nb s = Inr (dmap (img s') din' nb, din', s')" "mk_ok s'" "holds (img s') ow' (unat (freeblock s')) i din' (Suc nb) hi bs"
    "keeps i s ow s' ow'" "unat (freeblock s') = Suc (unat (freeblock s))"
proof -
  note d = holdsD [OF h]
  show s': "unat (freeblock s') = Suc (unat (freeblock s))" using room by (simp add: s'_def unat_succ)
  show "mk_ok s'" unfolding s'_def by (rule mk_ok_take [OF s room])
  show "holds (img s') ow' (unat (freeblock s')) i din' (Suc nb) hi bs"
    unfolding s' ow'_def din'_def using add_direct [OF h nb refl mk_okD(4) [OF s] mk_okD(3) [OF s order_refl]] by (simp add: s'_def)
  show "keeps i s ow s' ow'" using s' by (auto simp: keeps_def s'_def ow'_def)
  have "dmap (img s) din nb = 0" using d(6) [of nb] nb by (simp add: MAXFILE_def)
  then have "d_addrs din ! nb = 0" using nb by (simp add: dmap_def)
  then show "map_block din nb s = Inr (dmap (img s') din' nb, din', s')" using nb d(1) by (simp add: map_block_def s'_def din'_def dmap_def)
qed

lemma take_indirect:
  assumes s: "mk_ok s" and h: "holds (img s) ow (unat (freeblock s)) i din nb True bs" and nb: "NDIRECT \<le> nb" "nb < MAXFILE" and room: "unat (freeblock s) < 1000"
  shows "\<exists>s' ow'. map_indirect din nb s = Inr (dmap (img s') din nb, din, s') \<and> mk_ok s' \<and> holds (img s') ow' (unat (freeblock s')) i din (Suc nb) True bs \<and>
    keeps i s ow s' ow' \<and> unat (freeblock s') = Suc (unat (freeblock s))"
proof -
  note d = holdsD [OF h]
  let ?a = "d_addrs din ! NDIRECT" let ?d = "put32 (img s ?a) (4 * (nb - NDIRECT)) (freeblock s)"
  define s' where "s' = s\<lparr>freeblock := freeblock s + 1, img := (img s)(?a := ?d)\<rparr>"
  let ?ow = "ow(freeblock s := (i, nb))"
  have a: "59 \<le> unat ?a" "unat ?a < unat (freeblock s)" "ow ?a = (i, MAXFILE)" using d(7) by (auto simp: in_use_def)
  have a0: "?a \<noteq> 0" using a(1) by auto
  have off: "4 * (nb - NDIRECT) + 3 < BSIZE" using nb by (simp add: MAXFILE_def NDIRECT_def NINDIRECT_def BSIZE_def)
  have z: "get32 (img s ?a) (4 * (nb - NDIRECT)) = 0" using d(6) [of nb] nb a0 by (simp add: dmap_def)
  have fb: "unat (freeblock s') = Suc (unat (freeblock s))" using room by (simp add: s'_def unat_succ)
  have "mk_ok (s\<lparr>freeblock := freeblock s + 1\<rparr>)" by (rule mk_ok_take [OF s room])
  moreover have "unat ?a < unat (freeblock (s\<lparr>freeblock := freeblock s + 1\<rparr>))" using a(2) room by (simp add: unat_succ)
  ultimately have ok: "mk_ok s'" using mk_ok_write [of "s\<lparr>freeblock := freeblock s + 1\<rparr>" ?a ?d] mk_okD(2) [OF s] by (simp add: s'_def)
  have "holds (img s') ?ow (unat (freeblock s')) i din (Suc nb) True bs"
    unfolding fb using add_indirect [OF h nb refl mk_okD(4) [OF s] mk_okD(3) [OF s order_refl] mk_okD(2) [OF s]] by (simp add: s'_def)
  moreover have "keeps i s ow s' ?ow" using fb a(1,3) by (auto simp: keeps_def s'_def)
  moreover have "map_indirect din nb s = Inr (dmap (img s') din nb, din, s')"
    using a room z nb a0 off mk_okD(1,2) [OF s] by (simp add: map_indirect_def Let_def rsect_ok [OF s] wsect_ok s'_def dmap_def)
  ultimately show ?thesis using ok fb by blast
qed

abbreviation needs :: "nat \<Rightarrow> nat" where "needs nb \<equiv> need nb (NDIRECT < nb)"

lemma map_block_there:
  assumes s: "mk_ok s" and h: "holds (img s) ow (unat (freeblock s)) i din nb hi bs" and bn: "bn < nb" and fb: "unat (freeblock s) \<le> 1000"
  shows "map_block din bn s = Inr (dmap (img s) din bn, din, s)"
proof -
  note d = holdsD [OF h]
  have ne: "dmap (img s) din bn \<noteq> 0" using d(5) [OF bn] in_use_nonzero by blast
  show ?thesis
  proof (cases "bn < NDIRECT")
    case True
    then show ?thesis using ne by (simp add: map_block_def dmap_def)
  next
    case False
    then have hi: hi using bn d(4) by simp
    have a: "unat (d_addrs din ! NDIRECT) < 1000" "d_addrs din ! NDIRECT \<noteq> 0" using d(7) [OF hi] fb in_use_nonzero by (auto simp: in_use_def)
    then show ?thesis using False ne rsect_ok [OF s a(1)] by (simp add: map_block_def map_indirect_def dmap_def)
  qed
qed

lemma map_block_next:
  assumes s: "mk_ok s" and h: "holds (img s) ow (unat (freeblock s)) i din nb (NDIRECT < nb) bs" and nb: "nb < MAXFILE"
    and room: "unat (freeblock s) + needs (Suc nb) \<le> 1000 + needs nb"
  shows "\<exists>din' s' ow'. map_block din nb s = Inr (dmap (img s') din' nb, din', s') \<and> mk_ok s' \<and>
    holds (img s') ow' (unat (freeblock s')) i din' (Suc nb) (NDIRECT < Suc nb) bs \<and> keeps i s ow s' ow' \<and>
    unat (freeblock s') + needs nb = unat (freeblock s) + needs (Suc nb) \<and> (\<exists>a. din' = din\<lparr>d_addrs := a\<rparr>)"
proof -
  note d = holdsD [OF h]
  have fb: "unat (freeblock s) < 1000" using room by (simp add: need_def split: split_of_bool_asm)
  consider "nb < NDIRECT" | "nb = NDIRECT" | "NDIRECT < nb" by linarith
  then show ?thesis
  proof cases
    case 1
    note t = take_direct [OF s h 1 fb]
    have "(NDIRECT < nb) = (NDIRECT < Suc nb)" "needs (Suc nb) = Suc (needs nb)" using 1 by (auto simp: need_def)
    then show ?thesis using t by (intro exI conjI t(1) t(2) t(4)) auto
  next
    case 2
    define s1 where "s1 = s\<lparr>freeblock := freeblock s + 1\<rparr>"
    define din1 where "din1 = din\<lparr>d_addrs := (d_addrs din)[NDIRECT := freeblock s]\<rparr>"
    define ow1 where "ow1 = ow(freeblock s := (i, MAXFILE))"
    have f1: "unat (freeblock s1) = Suc (unat (freeblock s))" using fb by (simp add: s1_def unat_succ)
    have s1: "mk_ok s1" unfolding s1_def by (rule mk_ok_take [OF s fb])
    have h1: "holds (img s1) ow1 (unat (freeblock s1)) i din1 NDIRECT True bs"
      using add_ind_block [of "img s" ow "unat (freeblock s)" i din bs "freeblock s"] h 2 mk_okD(3,4) [OF s] unfolding f1 by (simp add: s1_def ow1_def din1_def)
    have k1: "keeps i s ow s1 ow1" using f1 by (auto simp: keeps_def s1_def ow1_def)
    have "unat (freeblock s1) < 1000" using room 2 f1 by (simp add: need_def)
    from take_indirect [OF s1 h1 order_refl _ this] nb 2 obtain s' ow' where
      t: "map_indirect din1 NDIRECT s1 = Inr (dmap (img s') din1 NDIRECT, din1, s')" "mk_ok s'" "holds (img s') ow' (unat (freeblock s')) i din1 (Suc NDIRECT) True bs"
        "keeps i s1 ow1 s' ow'" "unat (freeblock s') = Suc (unat (freeblock s1))" by auto
    have "map_block din nb s = map_indirect din1 NDIRECT s1" using d(8) 2 by (simp add: map_block_def s1_def din1_def)
    then show ?thesis using t keeps_trans [OF k1 t(4)] f1 2 by (intro exI [of _ din1] exI [of _ s'] exI [of _ ow']) (auto simp: need_def din1_def)
  next
    case 3
    have h': "holds (img s) ow (unat (freeblock s)) i din nb True bs" using h 3 by simp
    have "d_addrs din ! NDIRECT \<noteq> 0" using d(7) 3 in_use_nonzero by blast
    then have "map_block din nb s = map_indirect din nb s" using 3 by (simp add: map_block_def)
    moreover obtain s' ow' where t: "map_indirect din nb s = Inr (dmap (img s') din nb, din, s')" "mk_ok s'"
      "holds (img s') ow' (unat (freeblock s')) i din (Suc nb) True bs" "keeps i s ow s' ow'" "unat (freeblock s') = Suc (unat (freeblock s))"
      using take_indirect [OF s h' less_imp_le [OF 3] nb fb] by blast
    moreover have "din = din\<lparr>d_addrs := d_addrs din\<rparr>" by simp
    ultimately show ?thesis using 3 by (intro exI [of _ din] exI [of _ s'] exI [of _ ow'] conjI exI [of _ "d_addrs din"]) (auto simp: need_def)
  qed
qed

definition nblocks :: "nat \<Rightarrow> nat" where "nblocks n = (n + BSIZE - 1) div BSIZE"

lemma nblocks_mono: "m \<le> n \<Longrightarrow> nblocks m \<le> nblocks n"
  by (simp add: nblocks_def div_le_mono)

lemma needs_mono: "m \<le> n \<Longrightarrow> needs m \<le> needs n"
  by (auto simp: need_def)

lemma nblocks_next:
  assumes "0 < k" "k \<le> (n div BSIZE + 1) * BSIZE - n"
  shows "nblocks (n + k) = Suc (n div BSIZE)" "nblocks n = (if n mod BSIZE = 0 then n div BSIZE else Suc (n div BSIZE))"
proof -
  define q where "q = n div BSIZE" define r where "r = n mod BSIZE"
  have n: "n = q * BSIZE + r" "r < BSIZE" by (simp_all add: q_def r_def BSIZE_def)
  have "k \<le> BSIZE - r" using assms(2) n unfolding q_def [symmetric] by (simp add: add_mult_distrib)
  then show "nblocks (n + k) = Suc (n div BSIZE)" using n assms(1) unfolding nblocks_def q_def [symmetric]
    by (intro div_nat_eqI) (auto simp: BSIZE_def)
  show "nblocks n = (if n mod BSIZE = 0 then n div BSIZE else Suc (n div BSIZE))"
    using n unfolding nblocks_def q_def [symmetric] r_def [symmetric] by (cases "r = 0") (auto intro!: div_nat_eqI simp: BSIZE_def)
qed

lemma nblocks_max: "n \<le> MAXFILE * BSIZE \<Longrightarrow> nblocks n \<le> MAXFILE"
proof -
  assume "n \<le> MAXFILE * BSIZE"
  then have "nblocks n \<le> (MAXFILE * BSIZE + BSIZE - 1) div BSIZE" unfolding nblocks_def by (intro div_le_mono) simp
  then show ?thesis by (simp add: mkfs_consts BSIZE_def)
qed

lemma block_for_next:
  assumes s: "mk_ok s" and h: "holds (img s) ow (unat (freeblock s)) i din nb (NDIRECT < nb) bs" and bn: "bn < MAXFILE" "nb = bn \<or> nb = Suc bn"
    and room: "unat (freeblock s) + needs (Suc bn) \<le> 1000 + needs nb" "unat (freeblock s) \<le> 1000"
  shows "\<exists>din' s' ow'. map_block din bn s = Inr (dmap (img s') din' bn, din', s') \<and> mk_ok s' \<and>
    holds (img s') ow' (unat (freeblock s')) i din' (Suc bn) (NDIRECT < Suc bn) bs \<and> keeps i s ow s' ow' \<and>
    unat (freeblock s') + needs nb = unat (freeblock s) + needs (Suc bn) \<and> (\<exists>a. din' = din\<lparr>d_addrs := a\<rparr>)"
proof (cases "nb = bn")
  case True
  then show ?thesis using map_block_next [OF s h] bn room by simp
next
  case False
  then have nb: "nb = Suc bn" using bn by simp
  have "map_block din bn s = Inr (dmap (img s) din bn, din, s)" by (rule map_block_there [OF s h _ room(2)]) (simp add: nb)
  moreover have "din = din\<lparr>d_addrs := d_addrs din\<rparr>" by simp
  ultimately show ?thesis using s h nb keeps_refl
    by (intro exI [of _ din] exI [of _ s] exI [of _ ow] conjI exI [of _ "d_addrs din"]) simp_all
qed

lemma iappend_loop_ok:
  assumes "mk_ok s" "holds (img s) ow (unat (freeblock s)) i din (nblocks (length bs)) (NDIRECT < nblocks (length bs)) bs"
    and "length bs + length p \<le> MAXFILE * BSIZE" "unat (freeblock s) + needs (nblocks (length bs + length p)) \<le> 1000 + needs (nblocks (length bs))"
  shows "\<exists>din' s' ow'. iappend_loop din (length bs) p s = Inr (din', length bs + length p, s') \<and> mk_ok s' \<and>
    holds (img s') ow' (unat (freeblock s')) i din' (nblocks (length bs + length p)) (NDIRECT < nblocks (length bs + length p)) (bs @ p) \<and> keeps i s ow s' ow' \<and>
    unat (freeblock s') + needs (nblocks (length bs)) = unat (freeblock s) + needs (nblocks (length bs + length p)) \<and> (\<exists>a. din' = din\<lparr>d_addrs := a\<rparr>)"
  using assms
proof (induction "length p" arbitrary: din bs p s ow rule: less_induct)
  case less
  note s = less.prems(1) and h = less.prems(2) and len = less.prems(3) and room = less.prems(4)
  show ?case
  proof (cases "p = []")
    case True
    moreover have "din = din\<lparr>d_addrs := d_addrs din\<rparr>" by simp
    ultimately show ?thesis using s h keeps_refl
      by (subst iappend_loop.simps) (intro exI [of _ din] exI [of _ s] exI [of _ ow] conjI exI [of _ "d_addrs din"], simp_all)
  next
    case False
    define n where "n = length bs" define bn where "bn = n div BSIZE" define n1 where "n1 = min (length p) ((bn + 1) * BSIZE - n)"
    have lt: "n < (bn + 1) * BSIZE" unfolding bn_def using dividend_less_div_times [of BSIZE n] by (simp add: BSIZE_def)
    then have n1: "0 < n1" "n1 \<le> (n div BSIZE + 1) * BSIZE - n" "n1 \<le> length p" using False by (auto simp: n1_def bn_def)
    note nb = nblocks_next [OF n1(1,2)]
    have le: "Suc bn \<le> nblocks (n + length p)" using nblocks_mono [of "n + n1" "n + length p"] nb(1) n1(3) by (simp add: bn_def)
    have bnM: "bn < MAXFILE" using le nblocks_max [of "n + length p"] len by (simp add: n_def)
    have room1: "unat (freeblock s) + needs (Suc bn) \<le> 1000 + needs (nblocks n)" "unat (freeblock s) \<le> 1000"
      using room needs_mono [OF le] needs_mono [OF nblocks_mono, of n "n + length p"] by (simp_all add: n_def)
    have "nblocks n = bn \<or> nblocks n = Suc bn" using nb(2) by (simp add: bn_def)
    from block_for_next [OF s h [folded n_def] bnM this room1] obtain din1 s1 ow1 a where
      b: "map_block din bn s = Inr (dmap (img s1) din1 bn, din1, s1)" "mk_ok s1" "holds (img s1) ow1 (unat (freeblock s1)) i din1 (Suc bn) (NDIRECT < Suc bn) bs"
        "keeps i s ow s1 ow1" "unat (freeblock s1) + needs (nblocks n) = unat (freeblock s) + needs (Suc bn)" "din1 = din\<lparr>d_addrs := a\<rparr>" by blast
    define x where "x = dmap (img s1) din1 bn"
    define s2 where "s2 = s1\<lparr>img := (img s1)(x := splice (img s1 x) (n - bn * BSIZE) (take n1 p))\<rparr>"
    have x: "59 \<le> unat x" "unat x < unat (freeblock s1)" "ow1 x = (i, bn)" using holdsD(5) [OF b(3), of bn] by (auto simp: x_def in_use_def)
    have fb1: "unat (freeblock s1) \<le> 1000" using b(5) room1(1) by simp
    have ts: "length (take n1 p) \<le> (bn + 1) * BSIZE - length bs" using n1 by (simp add: bn_def n_def)
    have h2: "holds (img s2) ow1 (unat (freeblock s2)) i din1 (nblocks (length (bs @ take n1 p))) (NDIRECT < nblocks (length (bs @ take n1 p))) (bs @ take n1 p)"
      using write_bytes [OF b(3) _ _ ts mk_okD(2) [OF b(2)]] nb(1) n1(3) by (simp add: s2_def x_def bn_def n_def)
    have sp: "n - bn * BSIZE + n1 \<le> BSIZE" using n1(2) lt by (simp add: bn_def n_def)
    have s2: "mk_ok s2" unfolding s2_def using mk_okD(2) [OF b(2)] sp n1(3) by (intro mk_ok_write [OF b(2) x(2)]) simp
    have k2: "keeps i s1 ow1 s2 ow1" using x by (auto simp: keeps_def s2_def)
    have n1e: "min (length p) (BSIZE + bn * BSIZE - n) = n1" by (simp add: n1_def)
    have step: "iappend_loop din (length bs) p s = iappend_loop din1 (n + n1) (drop n1 p) s2"
      using False bnM b(1) x(2) fb1 rsect_ok [OF b(2), of x] wsect_ok [of s1 x] mk_okD(1) [OF b(2)] unfolding n_def [symmetric]
      by (subst iappend_loop.simps) (simp add: Let_def bn_def [symmetric] x_def [symmetric] n1e s2_def)
    have e: "length (bs @ take n1 p) = n + n1" "n + n1 + length (drop n1 p) = n + length p" using n1(3) by (simp_all add: n_def)
    have fb2: "unat (freeblock s2) + needs (nblocks n) = unat (freeblock s) + needs (nblocks (n + n1))" using b(5) nb(1) by (simp add: s2_def bn_def)
    have "length (drop n1 p) < length p" "n + length p \<le> MAXFILE * BSIZE" "unat (freeblock s2) + needs (nblocks (n + length p)) \<le> 1000 + needs (nblocks (n + n1))"
      using n1 len room fb2 by (simp_all add: n_def)
    moreover have "(bs @ take n1 p) @ drop n1 p = bs @ p" by simp
    ultimately obtain din' s' ow' where "iappend_loop din1 (n + n1) (drop n1 p) s2 = Inr (din', n + length p, s')" "mk_ok s'"
      "holds (img s') ow' (unat (freeblock s')) i din' (nblocks (n + length p)) (NDIRECT < nblocks (n + length p)) (bs @ p)" "keeps i s2 ow1 s' ow'"
      "unat (freeblock s') + needs (nblocks (n + n1)) = unat (freeblock s2) + needs (nblocks (n + length p))" "\<exists>a. din' = din1\<lparr>d_addrs := a\<rparr>"
      using less.hyps [where p = "drop n1 p", OF _ s2 h2] unfolding e by metis
    then show ?thesis using step b(6) fb2 keeps_trans [OF keeps_trans [OF b(4) k2]]
      by (intro exI [of _ din'] exI [of _ s'] exI [of _ ow']) (auto simp: n_def)
  qed
qed

end
