(* ===== verification/Xv6_Mkfs_Image.thy ===== *)
theory Xv6_Mkfs_Image
  imports Xv6_Mkfs
begin

text \<open>
  The image that \<open>mkfs\<close> leaves is one the kernel can use: it satisfies the well-formedness that the proofs about \<open>fs.c\<close>
  start from, every file has the bytes of its host file, and the root directory leads from its names to them.
\<close>

section \<open>Inodes of the image\<close>

definition dino :: "mkfs \<Rightarrow> nat \<Rightarrow> dinode" where
  "dino s i = get_dinode (img s (IBLOCK (of_nat i) mkfs_sb)) (dinode_off (of_nat i))"

lemma inum_unat: "i < 200 \<Longrightarrow> unat (of_nat i :: u32) = i"
  by (simp add: unat_of_nat_small)

lemma IBLOCK_mk: "i < 200 \<Longrightarrow> unat (IBLOCK (of_nat i) mkfs_sb) = 32 + i div 8"
proof -
  assume i: "i < 200"
  have "IBLOCK (of_nat i) mkfs_sb = of_nat (32 + i div 8)"
    using inum_unat [OF i] by (simp add: IBLOCK_def mkfs_sb_def LOGSIZE_def MAXOPBLOCKS_def IPB_def BSIZE_def)
  moreover have "32 + i div 8 < 2 ^ 31" using i by simp
  ultimately show ?thesis by (simp only: unat_of_nat_small)
qed

lemma IBLOCK_range: "i < 200 \<Longrightarrow> 32 \<le> unat (IBLOCK (of_nat i) mkfs_sb) \<and> unat (IBLOCK (of_nat i) mkfs_sb) < 58"
  by (simp add: IBLOCK_mk)

lemma dino_put_other:
  assumes "i < 200" "j < 200" "i \<noteq> j" "length (d_addrs din) = NDIRECT + 1"
  defines "b \<equiv> IBLOCK (of_nat i) mkfs_sb"
  shows "dino (s\<lparr>img := (img s)(b := put_dinode (img s b) (dinode_off (of_nat i)) din)\<rparr>) j = dino s j"
proof (cases "IBLOCK (of_nat j) mkfs_sb = b")
  case True
  then have "j div 8 = i div 8" using IBLOCK_mk [OF assms(1)] IBLOCK_mk [OF assms(2)] by (simp add: b_def)
  then have "unat (of_nat j :: u32) div IPB = unat (of_nat i :: u32) div IPB" using assms(1,2) by (simp add: inum_unat IPB_def BSIZE_def)
  moreover have "(of_nat j :: u32) \<noteq> of_nat i" using inum_unat [OF assms(1)] inum_unat [OF assms(2)] assms(3) by metis
  ultimately have "dinode_off (of_nat j) + 64 \<le> dinode_off (of_nat i) \<or> dinode_off (of_nat i) + 64 \<le> dinode_off (of_nat j)" by (rule dinode_off_other)
  then have "get_dinode (put_dinode (img s b) (dinode_off (of_nat i)) din) (dinode_off (of_nat j)) = get_dinode (img s b) (dinode_off (of_nat j))"
    by (intro get_dinode_cong nth_put_dinode) (use assms(4) in auto)
  then show ?thesis using True by (simp add: dino_def)
qed (simp add: dino_def)

lemma winode_ok:
  assumes s: "mk_ok s" and i: "i < 200" and a: "length (d_addrs din) = NDIRECT + 1"
  obtains s' where "winode (of_nat i) din s = Inr s'" "mk_ok s'" "dino s' i = din" "\<And>j. j < 200 \<Longrightarrow> j \<noteq> i \<Longrightarrow> dino s' j = dino s j"
    "\<And>b. unat b < 32 \<or> 58 \<le> unat b \<Longrightarrow> img s' b = img s b" "freeblock s' = freeblock s" "freeinode s' = freeinode s"
proof -
  let ?b = "IBLOCK (of_nat i) mkfs_sb"
  let ?d = "put_dinode (img s ?b) (dinode_off (of_nat i)) din"
  let ?s = "s\<lparr>img := (img s)(?b := ?d)\<rparr>"
  have b: "unat ?b < 1000" "unat ?b < unat (freeblock s)" using IBLOCK_range [OF i] mk_okD(4) [OF s] by simp_all
  show ?thesis
  proof (rule that [of ?s])
    show "winode (of_nat i) din s = Inr ?s" by (simp add: winode_def Let_def rsect_ok [OF s b(1)] wsect_ok [OF mk_okD(1) [OF s] b(1)])
    show "mk_ok ?s" by (rule mk_ok_write [OF s b(2)]) (simp add: mk_okD(2) [OF s])
    show "dino ?s i = din" using get_put_dinode [of "dinode_off (of_nat i)" "img s ?b" din] dinode_off_bound [of "of_nat i"] mk_okD(2) [OF s] a
      by (simp add: dino_def)
    show "dino ?s j = dino s j" if "j < 200" "j \<noteq> i" for j by (rule dino_put_other [OF i that(1) _ a]) (use that in auto)
    show "img ?s b = img s b" if "unat b < 32 \<or> 58 \<le> unat b" for b using that IBLOCK_range [OF i] by auto
  qed simp_all
qed

section \<open>The invariant\<close>

definition file_in :: "mkfs \<Rightarrow> (u32 \<Rightarrow> nat \<times> nat) \<Rightarrow> nat \<Rightarrow> u16 \<times> u8 list \<Rightarrow> bool" where
  "file_in s ow i f \<longleftrightarrow> d_type (dino s i) = fst f \<and> unat (d_size (dino s i)) = length (snd f) \<and> length (snd f) \<le> MAXFILE * BSIZE \<and>
     holds (img s) ow (unat (freeblock s)) i (dino s i) (nblocks (length (snd f))) (NDIRECT < nblocks (length (snd f))) (snd f)"

text \<open>Inodes 1 up to \<open>n\<close> are allocated and have the types and bytes of \<open>T\<close>; block 1 is the super block and the log is empty.\<close>

definition sb_block :: block where
  "sb_block = put_words zeroes 0 [sb_size mkfs_sb, sb_nblocks mkfs_sb, sb_ninodes mkfs_sb, sb_nlog mkfs_sb, sb_logstart mkfs_sb,
     sb_inodestart mkfs_sb, sb_bmapstart mkfs_sb]"

definition mk_inv :: "mkfs \<Rightarrow> (u32 \<Rightarrow> nat \<times> nat) \<Rightarrow> (nat \<Rightarrow> u16 \<times> u8 list) \<Rightarrow> nat \<Rightarrow> bool" where
  "mk_inv s ow T n \<longleftrightarrow> mk_ok s \<and> unat (freeblock s) \<le> 1000 \<and> freeinode s = of_nat n \<and> 1 \<le> n \<and> n \<le> 200 \<and> img s 1 = sb_block \<and> img s 2 = zeroes \<and>
     (\<forall>i. 1 \<le> i \<and> i < n \<longrightarrow> file_in s ow i (T i))"

lemma mk_invD:
  assumes "mk_inv s ow T n"
  shows "mk_ok s" "unat (freeblock s) \<le> 1000" "freeinode s = of_nat n" "1 \<le> n" "n \<le> 200" "img s 1 = sb_block" "img s 2 = zeroes"
    "1 \<le> i \<Longrightarrow> i < n \<Longrightarrow> file_in s ow i (T i)"
  using assms by (auto simp: mk_inv_def)

lemma file_in_frame:
  assumes f: "file_in s ow j f" and "dino s' j = dino s j" "unat (freeblock s) \<le> unat (freeblock s')"
    and "\<And>b. in_use (unat (freeblock s)) b \<Longrightarrow> fst (ow b) = j \<Longrightarrow> img s' b = img s b \<and> ow' b = ow b"
  shows "file_in s' ow' j f"
  using f assms(2) holds_frame [OF _ assms(3,4)] unfolding file_in_def by simp

lemma holds_size: "holds m ow fb i (din\<lparr>d_size := z\<rparr>) nb hi bs \<longleftrightarrow> holds m ow fb i din nb hi bs"
proof -
  have "dmap m (din\<lparr>d_size := z\<rparr>) = dmap m din" by (simp add: dmap_def fun_eq_iff)
  then show ?thesis by (simp add: holds_def)
qed

lemma iappend_ok:
  assumes inv: "mk_inv s ow T n" and i: "1 \<le> i" "i < n" and T: "T i = (ty, bs)" and len: "length bs + length p \<le> MAXFILE * BSIZE"
    and room: "unat (freeblock s) + needs (nblocks (length bs + length p)) \<le> 1000 + needs (nblocks (length bs))"
  shows "\<exists>s' ow'. iappend (of_nat i) p s = Inr s' \<and> mk_inv s' ow' (T(i := (ty, bs @ p))) n \<and>
    unat (freeblock s') + needs (nblocks (length bs)) = unat (freeblock s) + needs (nblocks (length bs + length p))"
proof -
  note v = mk_invD [OF inv]
  have i200: "i < 200" using i v(5) by simp
  have f: "file_in s ow i (ty, bs)" using v(8) [OF i] T by simp
  then have fi: "d_type (dino s i) = ty" "unat (d_size (dino s i)) = length bs"
    "holds (img s) ow (unat (freeblock s)) i (dino s i) (nblocks (length bs)) (NDIRECT < nblocks (length bs)) bs" by (auto simp: file_in_def)
  obtain din s1 ow1 a where l: "iappend_loop (dino s i) (length bs) p s = Inr (din, length bs + length p, s1)" "mk_ok s1"
    "holds (img s1) ow1 (unat (freeblock s1)) i din (nblocks (length bs + length p)) (NDIRECT < nblocks (length bs + length p)) (bs @ p)" "keeps i s ow s1 ow1"
    "unat (freeblock s1) + needs (nblocks (length bs)) = unat (freeblock s) + needs (nblocks (length bs + length p))" "din = (dino s i)\<lparr>d_addrs := a\<rparr>"
    using iappend_loop_ok [OF v(1) fi(3) len room] by blast
  note k = keepsD [OF l(4)]
  let ?din = "din\<lparr>d_size := of_nat (length bs + length p)\<rparr>"
  have "length (d_addrs ?din) = NDIRECT + 1" using holdsD(1) [OF l(3)] by simp
  from winode_ok [OF l(2) i200 this] obtain s' where w: "winode (of_nat i) ?din s1 = Inr s'" "mk_ok s'" "dino s' i = ?din"
    "\<And>j. j < 200 \<Longrightarrow> j \<noteq> i \<Longrightarrow> dino s' j = dino s1 j" "\<And>b. unat b < 32 \<or> 58 \<le> unat b \<Longrightarrow> img s' b = img s1 b"
    "freeblock s' = freeblock s1" "freeinode s' = freeinode s1" by blast
  have "rinode (of_nat i) s = Inr (dino s i)"
    using rsect_ok [OF v(1), of "IBLOCK (of_nat i) mkfs_sb"] IBLOCK_range [OF i200] by (simp add: rinode_def dino_def)
  then have run: "iappend (of_nat i) p s = Inr s'" using l(1) w(1) fi(2) by (simp add: iappend_def)
  have d1: "dino s1 j = dino s j" if "j < 200" for j
    using k(4) [of "IBLOCK (of_nat j) mkfs_sb"] IBLOCK_range [OF that] mk_okD(4) [OF v(1)] by (simp add: dino_def)
  have "MAXFILE * BSIZE < 2 ^ 31" by (simp add: mkfs_consts BSIZE_def)
  then have sz: "unat (of_nat (length bs + length p) :: u32) = length bs + length p" using len by (intro unat_of_nat_small) simp
  have "holds (img s') ow1 (unat (freeblock s')) i din (nblocks (length bs + length p)) (NDIRECT < nblocks (length bs + length p)) (bs @ p)"
    by (rule holds_frame [OF l(3)]) (use w(5,6) in \<open>simp_all add: in_use_def\<close>)
  then have new: "file_in s' ow1 i (ty, bs @ p)"
    using w(3) sz len l(6) fi(1) by (simp add: file_in_def holds_size)
  have old: "file_in s' ow1 j (T j)" if j: "1 \<le> j" "j < n" "j \<noteq> i" for j
  proof (rule file_in_frame [OF v(8) [OF j(1,2)]])
    show "dino s' j = dino s j" using w(4) [of j] d1 [of j] j v(5) by simp
    show "unat (freeblock s) \<le> unat (freeblock s')" using k(2) w(6) by simp
    show "img s' b = img s b \<and> ow1 b = ow b" if "in_use (unat (freeblock s)) b" "fst (ow b) = j" for b
      using that j(3) k(3) [of b] k(4) [of b] w(5) [of b] by (simp add: in_use_def)
  qed
  have "img s' b = img s b" if "unat b < 32" for b using that w(5) [of b] k(4) [of b] mk_okD(4) [OF v(1)] by simp
  from this [of 1] this [of 2] have "img s' 1 = sb_block" "img s' 2 = zeroes" using v(6,7) by simp_all
  moreover have "unat (freeblock s') \<le> 1000" using room l(5) w(6) by simp
  ultimately have "mk_inv s' ow1 (T(i := (ty, bs @ p))) n" using new old w(2,7) k(1) v(3-5) by (auto simp: mk_inv_def)
  then show ?thesis using run l(5) w(6) by auto
qed
lemma holds_empty: "holds m ow fb i \<lparr>d_type = ty, d_major = 0, d_minor = 0, d_nlink = nl, d_size = 0, d_addrs = replicate (NDIRECT + 1) 0\<rparr> 0 False []"
  by (auto simp: holds_def dmap_def simp del: replicate.simps)

lemma mk_ialloc_ok:
  assumes inv: "mk_inv s ow T n" and n: "n < 200"
  shows "\<exists>s'. mk_ialloc ty s = Inr (of_nat n, s') \<and> mk_inv s' ow (T(n := (ty, []))) (Suc n) \<and> freeblock s' = freeblock s"
proof -
  note v = mk_invD [OF inv]
  let ?din = "\<lparr>d_type = ty, d_major = 0, d_minor = 0, d_nlink = 1, d_size = 0, d_addrs = replicate (NDIRECT + 1) 0\<rparr>"
  let ?s = "s\<lparr>freeinode := freeinode s + 1\<rparr>"
  have s: "mk_ok ?s" using v(1) by (simp add: mk_ok_def)
  have "length (d_addrs ?din) = NDIRECT + 1" by simp
  from winode_ok [OF s n this] obtain s' where w: "winode (of_nat n) ?din ?s = Inr s'" "mk_ok s'" "dino s' n = ?din"
    "\<And>j. j < 200 \<Longrightarrow> j \<noteq> n \<Longrightarrow> dino s' j = dino ?s j" "\<And>b. unat b < 32 \<or> 58 \<le> unat b \<Longrightarrow> img s' b = img ?s b"
    "freeblock s' = freeblock ?s" "freeinode s' = freeinode ?s" by blast
  have ds: "dino ?s j = dino s j" for j by (simp add: dino_def)
  have "file_in s' ow n (ty, [])" using w(3) holds_empty [of "img s'" ow "unat (freeblock s')" n ty 1]
    by (simp add: file_in_def nblocks_def BSIZE_def del: replicate.simps)
  moreover have "file_in s' ow j (T j)" if j: "1 \<le> j" "j < n" for j
    by (rule file_in_frame [OF v(8) [OF j]]) (use w(4-6) ds j n in \<open>auto simp: in_use_def\<close>)
  moreover have "img s' 1 = sb_block" "img s' 2 = zeroes" using v(6,7) w(5) [of 1] w(5) [of 2] by simp_all
  ultimately have "mk_inv s' ow (T(n := (ty, []))) (Suc n)" using v(2-5) w(2,6,7) n by (auto simp: mk_inv_def less_Suc_eq)
  moreover have "mk_ialloc ty s = Inr (of_nat n, s')" using w(1) v(3) by (simp add: mk_ialloc_def)
  ultimately show ?thesis using w(6) by auto
qed

lemma append_all_ok:
  assumes "mk_inv s ow T n" "1 \<le> i" "i < n" "T i = (ty, bs)" "length bs + length (concat ps) \<le> MAXFILE * BSIZE"
    and "unat (freeblock s) + needs (nblocks (length bs + length (concat ps))) \<le> 1000 + needs (nblocks (length bs))"
  shows "\<exists>s' ow'. append_all (of_nat i) ps s = Inr s' \<and> mk_inv s' ow' (T(i := (ty, bs @ concat ps))) n \<and>
    unat (freeblock s') + needs (nblocks (length bs)) = unat (freeblock s) + needs (nblocks (length bs + length (concat ps)))"
  using assms
proof (induction ps arbitrary: s ow T bs)
  case Nil
  then have "T(i := (ty, bs)) = T" by auto
  then show ?case using Nil.prems(1) by auto
next
  case (Cons p ps)
  let ?l = "length bs + length p" and ?L = "length bs + length (concat (p # ps))"
  have len: "?l \<le> ?L" "?l + length (concat ps) = ?L" by simp_all
  have mono: "needs (nblocks (length bs)) \<le> needs (nblocks ?l)" "needs (nblocks ?l) \<le> needs (nblocks ?L)" by (intro needs_mono nblocks_mono; simp)+
  obtain s1 ow1 where 1: "iappend (of_nat i) p s = Inr s1" "mk_inv s1 ow1 (T(i := (ty, bs @ p))) n"
    "unat (freeblock s1) + needs (nblocks (length bs)) = unat (freeblock s) + needs (nblocks ?l)"
    using iappend_ok [OF Cons.prems(1-4), of p] Cons.prems(5,6) mono by auto
  have r: "unat (freeblock s1) + needs (nblocks ?L) \<le> 1000 + needs (nblocks ?l)" using 1(3) Cons.prems(6) mono by linarith
  have "(T(i := (ty, bs @ p))) i = (ty, bs @ p)" by simp
  obtain s2 ow2 where 2: "append_all (of_nat i) ps s1 = Inr s2" "mk_inv s2 ow2 (T(i := (ty, (bs @ p) @ concat ps))) n"
    "unat (freeblock s2) + needs (nblocks ?l) = unat (freeblock s1) + needs (nblocks ?L)"
    using Cons.IH [OF 1(2) Cons.prems(2,3) \<open>(T(i := (ty, bs @ p))) i = (ty, bs @ p)\<close>, unfolded fun_upd_upd length_append [of bs p] len(2), OF Cons.prems(5) r] by blast
  have e: "bs @ concat (p # ps) = (bs @ p) @ concat ps" by simp
  show ?case unfolding e
  proof (intro exI conjI)
    show "append_all (of_nat i) (p # ps) s = Inr s2" using 1(1) 2(1) by simp
    show "mk_inv s2 ow2 (T(i := (ty, (bs @ p) @ concat ps))) n" by (rule 2(2))
    show "unat (freeblock s2) + needs (nblocks (length bs)) = unat (freeblock s) + needs (nblocks ?L)" using 1(3) 2(3) by simp
  qed
qed

text \<open>The types and bytes of the inodes after the remaining files are added, the next inode number being \<open>n\<close>.\<close>

fun table_of :: "(u8 list \<times> u8 list list) list \<Rightarrow> nat \<Rightarrow> (nat \<Rightarrow> u16 \<times> u8 list) \<Rightarrow> (nat \<Rightarrow> u16 \<times> u8 list)" where
  "table_of [] n T = T"
| "table_of ((name, ps) # fs) n T =
     table_of fs (Suc n) (T(n := (T_FILE, concat ps), 1 := (T_DIR, snd (T 1) @ mk_dirent (of_nat n) (skip_underscore name))))"

definition file_blocks :: "(u8 list \<times> u8 list list) list \<Rightarrow> nat" where    \<comment> \<open>blocks that the files take\<close>
  "file_blocks files = (\<Sum>f \<leftarrow> files. needs (nblocks (length (concat (snd f)))))"

lemma ucast_inum: "n < 200 \<Longrightarrow> (ucast (of_nat n :: u32) :: u16) = of_nat n"
  by (simp add: word_unat_eq_iff unsigned_ucast_eq inum_unat unat_of_nat take_bit_eq_mod)

lemma needs_0: "needs (nblocks 0) = 0"
  by (simp add: need_def nblocks_def BSIZE_def)

lemma add_files_ok:
  assumes "mk_inv s ow T n" "1 < n" "n + length files \<le> 200" "T 1 = (T_DIR, es)" "length es + 16 * length files \<le> MAXFILE * BSIZE"
    and "\<forall>f \<in> set files. slash \<notin> set (fst f) \<and> length (concat (snd f)) \<le> MAXFILE * BSIZE"
    and "unat (freeblock s) + needs (nblocks (length es + 16 * length files)) + file_blocks files \<le> 1000 + needs (nblocks (length es))"
  shows "\<exists>s' ow'. add_files 1 files s = Inr s' \<and> mk_inv s' ow' (table_of files n T) (n + length files)"
  using assms
proof (induction files arbitrary: s ow T n es)
  case (Cons f files)
  obtain name ps where f: "f = (name, ps)" by fastforce
  let ?L = "length es + 16 * length (f # files)" let ?c = "needs (nblocks (length (concat ps)))"
  define e where "e = mk_dirent (of_nat n) (skip_underscore name)"
  have e: "length e = 16" by (simp add: e_def length_mk_dirent DIRENT_def)
  have n: "n < 200" "n \<noteq> 1" using Cons.prems(2,3) by auto
  have fb: "file_blocks (f # files) = ?c + file_blocks files" by (simp add: file_blocks_def f)
  have mono: "needs (nblocks (length es)) \<le> needs (nblocks (length es + 16))" "needs (nblocks (length es + 16)) \<le> needs (nblocks ?L)"
    by (intro needs_mono nblocks_mono; simp)+
  define T1 where "T1 = T(n := (T_FILE, []))" define T2 where "T2 = T1(1 := (T_DIR, es @ e))" define T3 where "T3 = T2(n := (T_FILE, concat ps))"
  obtain s1 where 1: "mk_ialloc T_FILE s = Inr (of_nat n, s1)" "mk_inv s1 ow T1 (Suc n)" "freeblock s1 = freeblock s"
    using mk_ialloc_ok [OF Cons.prems(1) n(1)] unfolding T1_def by blast
  have "T1 1 = (T_DIR, es)" using n(2) Cons.prems(4) by (simp add: T1_def)
  from iappend_ok [OF 1(2) _ _ this, folded T2_def, of e] e Cons.prems(2,5,7) mono fb 1(3) obtain s2 ow2 where
    2: "iappend 1 e s1 = Inr s2" "mk_inv s2 ow2 T2 (Suc n)"
      "unat (freeblock s2) + needs (nblocks (length es)) = unat (freeblock s) + needs (nblocks (length es + 16))" by (auto simp: T2_def)
  have "T2 n = (T_FILE, [])" using n(2) by (simp add: T2_def T1_def)
  from append_all_ok [OF 2(2) _ _ this, of ps] Cons.prems(2,6,7) f fb 2(3) mono obtain s3 ow3 where
    3: "append_all (of_nat n) ps s2 = Inr s3" "mk_inv s3 ow3 T3 (Suc n)" "unat (freeblock s3) = unat (freeblock s2) + ?c"
    by (auto simp: needs_0 T3_def)
  have T3: "T3 = T(n := (T_FILE, concat ps), 1 := (T_DIR, es @ e))" using n(2) by (auto simp: T3_def T2_def T1_def fun_eq_iff)
  have "T3 1 = (T_DIR, es @ e)" by (simp add: T3)
  from Cons.IH [OF 3(2) _ _ this] Cons.prems 2(3) 3(3) e fb obtain s' ow' where
    "add_files 1 files s3 = Inr s'" "mk_inv s' ow' (table_of files (Suc n) T3) (Suc n + length files)" by (auto simp: add.assoc)
  moreover have "add_files 1 (f # files) s = add_files 1 files s3"
    using 1(1) 2(1) 3(1) Cons.prems(6) f by (simp add: ucast_inum [OF n(1)] e_def [symmetric])
  moreover have "table_of (f # files) n T = table_of files (Suc n) T3" using Cons.prems(4) by (simp add: f T3 e_def)
  ultimately show ?case by auto
qed auto

section \<open>The whole program\<close>

lemma zero_sectors: "k \<le> 1000 \<Longrightarrow> fold (\<lambda>i. wsect (of_nat i) zeroes) [0..<k] \<lparr>img = \<lambda>_. zeroes, nimg = 0, freeinode = fi, freeblock = fb\<rparr> =
    \<lparr>img = \<lambda>_. zeroes, nimg = k, freeinode = fi, freeblock = fb\<rparr>"
proof (induction k)
  case (Suc k)
  have "sect (of_nat k) = of_nat k" "unat (of_nat k :: u32) = k" using Suc.prems by (simp_all add: sect_id unat_of_nat_small)
  then show ?case using Suc by (simp add: wsect_def fun_upd_idem)
qed simp

lemma length_sb_block: "length sb_block = BSIZE"
  by (simp add: sb_block_def zeroes_def)

lemma mkfs_start_inv: "mk_inv mkfs_start ow T 1" "unat (freeblock mkfs_start) = 59"
proof -
  have s: "mkfs_start = \<lparr>img = (\<lambda>_. zeroes)(1 := sb_block), nimg = 1000, freeinode = 1, freeblock = 59\<rparr>"
    using sect_id [of 1] unfolding mkfs_start_def sb_block_def [symmetric] by (simp add: zero_sectors mkfs_consts wsect_def)
  show "mk_inv mkfs_start ow T 1" "unat (freeblock mkfs_start) = 59" unfolding s by (auto simp: mk_inv_def mk_ok_def length_sb_block zeroes_def)
qed

definition root_start :: "u8 list" where "root_start = mk_dirent 1 [0x2E] @ mk_dirent 1 [0x2E, 0x2E]"

definition final_table :: "(u8 list \<times> u8 list list) list \<Rightarrow> nat \<Rightarrow> u16 \<times> u8 list" where
  "final_table files = table_of files 2 ((\<lambda>_. (0, []))(1 := (T_DIR, root_start)))"

definition fits :: "(u8 list \<times> u8 list list) list \<Rightarrow> bool" where    \<comment> \<open>enough inodes and blocks\<close>
  "fits files \<longleftrightarrow> length files \<le> 198 \<and> (\<forall>f \<in> set files. slash \<notin> set (fst f) \<and> length (concat (snd f)) \<le> MAXFILE * BSIZE) \<and>
     59 + needs (nblocks (16 * (length files + 2))) + file_blocks files \<le> 1000"

lemma dirents_added:
  assumes "fits files"
  shows "\<exists>s s1 s2 s3 ow. mk_ialloc T_DIR mkfs_start = Inr (1, s) \<and> iappend 1 (mk_dirent 1 [0x2E]) s = Inr s1 \<and>
    iappend 1 (mk_dirent 1 [0x2E, 0x2E]) s1 = Inr s2 \<and> add_files 1 files s2 = Inr s3 \<and> mk_inv s3 ow (final_table files) (2 + length files)"
proof -
  have n: "needs (nblocks 16) = 1" "needs (nblocks 32) = 1" by (simp_all add: need_def nblocks_def BSIZE_def NDIRECT_def)
  have M: "16 \<le> MAXFILE * BSIZE" "32 \<le> MAXFILE * BSIZE" by (simp_all add: mkfs_consts BSIZE_def)
  define T where "T = (\<lambda>_ :: nat. (0 :: u16, [] :: u8 list))" define T1 where "T1 = T(1 := (T_DIR, []))"
  define T2 where "T2 = T1(1 := (T_DIR, mk_dirent 1 [0x2E]))" define T3 where "T3 = T2(1 := (T_DIR, root_start))"
  have len: "length (mk_dirent i x) = 16" for i x by (simp add: length_mk_dirent DIRENT_def)
  obtain s where 1: "mk_ialloc T_DIR mkfs_start = Inr (1, s)" "mk_inv s (\<lambda>_. (0, 0)) T1 2" "unat (freeblock s) = 59"
    using mk_ialloc_ok [OF mkfs_start_inv(1), where ow = "\<lambda>_. (0, 0)" and T = T and ty = T_DIR] mkfs_start_inv(2) by (auto simp: T1_def numeral_2_eq_2)
  have "T1 1 = (T_DIR, [])" by (simp add: T1_def)
  from iappend_ok [OF 1(2) _ _ this, of "mk_dirent 1 [0x2E]"] 1(3) obtain s1 ow1 where
    2: "iappend 1 (mk_dirent 1 [0x2E]) s = Inr s1" "mk_inv s1 ow1 T2 2" "unat (freeblock s1) = 60"
    using M by (auto simp: T2_def len n needs_0)
  have "T2 1 = (T_DIR, mk_dirent 1 [0x2E])" by (simp add: T2_def)
  from iappend_ok [OF 2(2) _ _ this, of "mk_dirent 1 [0x2E, 0x2E]"] 2(3) obtain s2 ow2 where
    3: "iappend 1 (mk_dirent 1 [0x2E, 0x2E]) s1 = Inr s2" "mk_inv s2 ow2 T3 2" "unat (freeblock s2) = 60"
    using M by (auto simp: T3_def len n root_start_def)
  have r: "T3 1 = (T_DIR, root_start)" "length root_start = 32" by (simp_all add: T3_def root_start_def len)
  have e: "length root_start + 16 * length files = 16 * (length files + 2)" using r(2) by simp
  have "16 * (length files + 2) \<le> MAXFILE * BSIZE" using assms by (simp add: fits_def mkfs_consts BSIZE_def)
  with add_files_ok [OF 3(2) _ _ r(1), unfolded e, of files] assms r(2) 3(3) n obtain s3 ow where
    4: "add_files 1 files s2 = Inr s3" "mk_inv s3 ow (table_of files 2 T3) (2 + length files)" by (auto simp: fits_def)
  have "T3 = (\<lambda>_. (0, []))(1 := (T_DIR, root_start))" by (simp add: T3_def T2_def T1_def T_def)
  then show ?thesis using 1(1) 2(1) 3(1) 4 unfolding final_table_def by metis
qed

definition root_size :: "nat \<Rightarrow> nat" where    \<comment> \<open>the size that \<open>fix_root\<close> gives the root directory\<close>
  "root_size l = (l div BSIZE + 1) * BSIZE"

definition bitmap :: "nat \<Rightarrow> block" where
  "bitmap n = fold (\<lambda>i d. set_bit_used d i) [0..<n] zeroes"

text \<open>The finished image.\<close>

definition image_ok :: "mkfs \<Rightarrow> (u32 \<Rightarrow> nat \<times> nat) \<Rightarrow> (nat \<Rightarrow> u16 \<times> u8 list) \<Rightarrow> nat \<Rightarrow> bool" where
  "image_ok s ow T n \<longleftrightarrow> 59 \<le> unat (freeblock s) \<and> unat (freeblock s) \<le> 1000 \<and> n \<le> 200 \<and> (\<forall>b. length (img s b) = BSIZE) \<and> img s 1 = sb_block \<and> img s 2 = zeroes \<and>
     img s (sb_bmapstart mkfs_sb) = bitmap (unat (freeblock s)) \<and>
     (\<forall>i. 1 \<le> i \<and> i < n \<longrightarrow> d_type (dino s i) = fst (T i) \<and> length (snd (T i)) \<le> MAXFILE * BSIZE \<and>
        unat (d_size (dino s i)) = (if i = 1 then root_size (length (snd (T i))) else length (snd (T i))) \<and>
        holds (img s) ow (unat (freeblock s)) i (dino s i) (nblocks (length (snd (T i)))) (NDIRECT < nblocks (length (snd (T i)))) (snd (T i)))"

lemma length_bitmap: "length (bitmap n) = BSIZE"
  by (induction n) (simp_all add: bitmap_def zeroes_def)

lemma bmapstart_58: "unat (sb_bmapstart mkfs_sb) = 58"
  by (rule mkfs_consts)

definition entry_of :: "nat \<Rightarrow> u8 list \<times> u8 list list \<Rightarrow> u8 list" where
  "entry_of i f = mk_dirent (of_nat i) (skip_underscore (fst f))"

definition root_entries :: "(u8 list \<times> u8 list list) list \<Rightarrow> u8 list list" where
  "root_entries files = [mk_dirent 1 [0x2E], mk_dirent 1 [0x2E, 0x2E]] @ map2 entry_of [2..<2 + length files] files"

lemma table_of_root: "1 < n \<Longrightarrow> table_of files n T 1 = (if files = [] then T 1 else (T_DIR, snd (T 1) @ concat (map2 entry_of [n..<n + length files] files)))"
proof (induction files arbitrary: n T)
  case (Cons f files)
  obtain name ps where f: "f = (name, ps)" by fastforce
  then have "entry_of n (name, ps) = mk_dirent (of_nat n) (skip_underscore name)" by (simp add: entry_of_def)
  moreover have "[n..<n + length (f # files)] = n # [Suc n..<Suc n + length files]" by (simp add: upt_rec)
  ultimately show ?case using Cons by (auto simp: f simp del: upt_Suc)
qed simp

lemma table_of_other: "i < n \<Longrightarrow> i \<noteq> 1 \<Longrightarrow> table_of files n T i = T i"
  by (induction files n T rule: table_of.induct) auto

lemma table_of_file: "1 < n \<Longrightarrow> j < length files \<Longrightarrow> table_of files n T (n + j) = (T_FILE, concat (snd (files ! j)))"
proof (induction files arbitrary: n T j)
  case (Cons f files)
  obtain name ps where f: "f = (name, ps)" by fastforce
  show ?case
  proof (cases j)
    case 0
    then show ?thesis using Cons.prems table_of_other [of n "Suc n" files] by (simp add: f)
  next
    case (Suc m)
    then show ?thesis using Cons.IH [of "Suc n" m] Cons.prems by (simp add: f)
  qed
qed simp

lemma final_table_root: "final_table files 1 = (T_DIR, concat (root_entries files))"
  using table_of_root [of 2 files] by (auto simp: final_table_def root_entries_def root_start_def)

lemma final_table_file: "j < length files \<Longrightarrow> final_table files (2 + j) = (T_FILE, concat (snd (files ! j)))"
  using table_of_file [of 2 j files] by (simp add: final_table_def)

lemma entry_lengths: "e \<in> set (root_entries files) \<Longrightarrow> length e = 16"
  by (auto simp: root_entries_def entry_of_def length_mk_dirent DIRENT_def)

lemma length_concat_16: "(\<And>e. e \<in> set es \<Longrightarrow> length e = 16) \<Longrightarrow> length (concat es) = 16 * length es"
  by (induction es) auto

lemma length_root_entries: "length (concat (root_entries files)) = 16 * (length files + 2)"
proof -
  have "length (root_entries files) = length files + 2" by (simp add: root_entries_def del: upt_Suc)
  then show ?thesis using length_concat_16 [of "root_entries files"] entry_lengths by simp
qed

lemma fix_root_ok:
  assumes inv: "mk_inv s ow T n" and n: "1 < n" and l: "length (snd (T 1)) < 4096"
  shows "\<exists>s'. fix_root 1 s = Inr s' \<and> mk_ok s' \<and> freeblock s' = freeblock s \<and> img s' 1 = sb_block \<and> img s' 2 = zeroes \<and>
    dino s' 1 = (dino s 1)\<lparr>d_size := of_nat (root_size (length (snd (T 1))))\<rparr> \<and> (\<forall>j < 200. j \<noteq> 1 \<longrightarrow> dino s' j = dino s j) \<and> (\<forall>b. 58 \<le> unat b \<longrightarrow> img s' b = img s b)"
proof -
  note v = mk_invD [OF inv]
  have f: "file_in s ow 1 (T 1)" using v(8) [of 1] n by simp
  let ?z = "(d_size (dino s 1) div of_nat BSIZE + 1) * of_nat BSIZE" let ?din = "(dino s 1)\<lparr>d_size := ?z\<rparr>"
  have sz: "d_size (dino s 1) = of_nat (length (snd (T 1)))" using f of_nat_unat_u32 [of "d_size (dino s 1)"] by (simp add: file_in_def)
  have "d_size (dino s 1) div of_nat BSIZE = of_nat (length (snd (T 1)) div BSIZE)"
    using l unat_of_nat_small [of "length (snd (T 1))"] unat_of_nat_small [of "length (snd (T 1)) div 512"]
    unfolding sz by (simp add: word_unat_eq_iff unat_div_distrib BSIZE_def)
  then have z: "?z = of_nat (root_size (length (snd (T 1))))" by (simp add: root_size_def algebra_simps)
  have "length (d_addrs ?din) = NDIRECT + 1" using f by (simp add: file_in_def holds_def)
  from winode_ok [OF v(1) _ this, of 1] obtain s' where w: "winode 1 ?din s = Inr s'" "mk_ok s'" "dino s' 1 = ?din"
    "\<And>j. j < 200 \<Longrightarrow> j \<noteq> 1 \<Longrightarrow> dino s' j = dino s j" "\<And>b. unat b < 32 \<or> 58 \<le> unat b \<Longrightarrow> img s' b = img s b"
    "freeblock s' = freeblock s" "freeinode s' = freeinode s" by auto
  have "rinode 1 s = Inr (dino s 1)"
    using rsect_ok [OF v(1), of "IBLOCK 1 mkfs_sb"] IBLOCK_range [of 1] by (simp add: rinode_def dino_def)
  then have "fix_root 1 s = Inr s'" using w(1) by (simp add: fix_root_def)
  moreover have "img s' 1 = sb_block" "img s' 2 = zeroes" using w(5) [of 1] w(5) [of 2] v(6,7) by simp_all
  ultimately show ?thesis using w(2,4,5,6) w(3) [unfolded z] by auto
qed

lemma mkfs_main_ok:
  assumes "fits files"
  shows "\<exists>s ow. mkfs_main files = Inr s \<and> image_ok s ow (final_table files) (2 + length files)"
proof -
  let ?T = "final_table files" and ?n = "2 + length files"
  obtain s s1 s2 s3 ow where r: "mk_ialloc T_DIR mkfs_start = Inr (1, s)" "iappend 1 (mk_dirent 1 [0x2E]) s = Inr s1"
    "iappend 1 (mk_dirent 1 [0x2E, 0x2E]) s1 = Inr s2" "add_files 1 files s2 = Inr s3" and inv: "mk_inv s3 ow ?T ?n"
    using dirents_added [OF assms] by blast
  note v = mk_invD [OF inv]
  have l: "length (snd (?T 1)) < 4096" using assms length_root_entries [of files] final_table_root [of files] by (simp add: fits_def)
  obtain s4 where f: "fix_root 1 s3 = Inr s4" "mk_ok s4" "freeblock s4 = freeblock s3" "img s4 1 = sb_block" "img s4 2 = zeroes"
    "dino s4 1 = (dino s3 1)\<lparr>d_size := of_nat (root_size (length (snd (?T 1))))\<rparr>" "\<And>j. j < 200 \<Longrightarrow> j \<noteq> 1 \<Longrightarrow> dino s4 j = dino s3 j"
    "\<And>b. 58 \<le> unat b \<Longrightarrow> img s4 b = img s3 b" using fix_root_ok [OF inv _ l] by auto
  let ?fb = "unat (freeblock s3)" let ?b = "sb_bmapstart mkfs_sb"
  define s5 where "s5 = s4\<lparr>img := (img s4)(?b := bitmap ?fb)\<rparr>"
  have b58: "unat ?b = 58" by (rule bmapstart_58)
  have bal: "mk_balloc ?fb s4 = Inr s5"
    using v(2) wsect_ok [OF mk_okD(1) [OF f(2)], of ?b] b58 by (simp add: mk_balloc_def bitmap_def [symmetric] s5_def BSIZE_def)
  have main: "mkfs_main files = Inr s5" using r f(1,3) bal by (simp add: mkfs_main_def ROOTINO_def)
  have dn: "dino s5 j = dino s4 j" if "j < 200" for j using IBLOCK_range [OF that] b58 by (auto simp: s5_def dino_def)
  have same: "img s5 b = img s3 b" if "59 \<le> unat b" for b using f(8) [of b] that b58 by (auto simp: s5_def)
  have files: "d_type (dino s5 i) = fst (?T i) \<and> length (snd (?T i)) \<le> MAXFILE * BSIZE \<and>
      unat (d_size (dino s5 i)) = (if i = 1 then root_size (length (snd (?T i))) else length (snd (?T i))) \<and>
      holds (img s5) ow ?fb i (dino s5 i) (nblocks (length (snd (?T i)))) (NDIRECT < nblocks (length (snd (?T i)))) (snd (?T i))"
    if i: "1 \<le> i" "i < ?n" for i
  proof -
    have fi: "file_in s3 ow i (?T i)" by (rule v(8) [OF i])
    have i200: "i < 200" using i v(5) by simp
    have h: "holds (img s5) ow ?fb i (dino s3 i) (nblocks (length (snd (?T i)))) (NDIRECT < nblocks (length (snd (?T i)))) (snd (?T i))"
      by (rule holds_frame [OF _ order_refl, of "img s3" ow]) (use fi same in \<open>simp_all add: file_in_def in_use_def\<close>)
    have z: "unat (of_nat (root_size (length (snd (?T 1)))) :: u32) = root_size (length (snd (?T 1)))"
      using l by (intro unat_of_nat_small) (simp add: root_size_def BSIZE_def)
    show ?thesis
    proof (cases "i = 1")
      case True
      then show ?thesis using fi h z f(6) dn [of 1] by (simp add: file_in_def holds_size)
    next
      case False
      then show ?thesis using fi h f(7) [OF i200 False] dn [OF i200] by (simp add: file_in_def)
    qed
  qed
  have "image_ok s5 ow ?T ?n" using files v(2,5) mk_okD(2) [OF f(2)] mk_okD(4) [OF v(1)] f(3-5) b58 length_bitmap
    by (auto simp: image_ok_def s5_def)
  then show ?thesis using main by blast
qed

section \<open>The kernel's view\<close>

text \<open>The file system as the kernel finds it on the image, with any inode cache.\<close>

definition mounted :: "mkfs \<Rightarrow> (nat \<Rightarrow> inode) \<Rightarrow> fs" where
  "mounted s ic = \<lparr>blk = img s, nblk = FSSIZE, logs = [], fsb = mkfs_sb, icache = ic\<rparr>"

definition loaded :: "mkfs \<Rightarrow> (nat \<Rightarrow> inode) \<Rightarrow> nat \<Rightarrow> nat \<Rightarrow> bool" where    \<comment> \<open>cache entry \<open>k\<close> holds inode \<open>i\<close> as \<open>ilock\<close> reads it\<close>
  "loaded s ic k i \<longleftrightarrow> i_inum (ic k) = of_nat i \<and> dinode_of (ic k) = dino s i"

lemma mounted_fields [simp]: "blk (mounted s ic) = img s" "nblk (mounted s ic) = 1000" "fsb (mounted s ic) = mkfs_sb" "icache (mounted s ic) = ic"
  by (simp_all add: mounted_def FSSIZE_def)

lemma image_okD:
  assumes "image_ok s ow T n"
  shows "59 \<le> unat (freeblock s)" "unat (freeblock s) \<le> 1000" "n \<le> 200" "length (img s b) = BSIZE" "img s 1 = sb_block"
    "img s (sb_bmapstart mkfs_sb) = bitmap (unat (freeblock s))"
    "1 \<le> i \<Longrightarrow> i < n \<Longrightarrow> d_type (dino s i) = fst (T i) \<and> length (snd (T i)) \<le> MAXFILE * BSIZE \<and>
        unat (d_size (dino s i)) = (if i = 1 then root_size (length (snd (T i))) else length (snd (T i))) \<and>
        holds (img s) ow (unat (freeblock s)) i (dino s i) (nblocks (length (snd (T i)))) (NDIRECT < nblocks (length (snd (T i)))) (snd (T i))"
  using assms unfolding image_ok_def by blast+

lemma bit_used_bitmap: "n \<le> 4096 \<Longrightarrow> b < 4096 \<Longrightarrow> bit_used (bitmap n) b \<longleftrightarrow> b < n"
proof (induction n)
  case 0
  have "b div 8 < 512" using 0(2) by (simp add: less_mult_imp_div_less)
  then show ?case by (simp add: bitmap_def bit_used_def zeroes_def BSIZE_def)
next
  case (Suc n)
  have "n div 8 < length (bitmap n)" using Suc.prems(1) by (simp add: length_bitmap BSIZE_def)
  moreover have "bitmap (Suc n) = set_bit_used (bitmap n) n" by (simp add: bitmap_def)
  ultimately show ?case using Suc by (auto simp: bit_used_set)
qed

lemma superblock_of_sb_block: "superblock_of sb_block = mkfs_sb"
proof -
  let ?ws = "[sb_size mkfs_sb, sb_nblocks mkfs_sb, sb_ninodes mkfs_sb, sb_nlog mkfs_sb, sb_logstart mkfs_sb, sb_inodestart mkfs_sb, sb_bmapstart mkfs_sb]"
  have w: "get32 sb_block (4 * j) = ?ws ! j" if "j < 7" for j
    using get_put_words [of j ?ws 0 zeroes] that by (simp add: sb_block_def zeroes_def BSIZE_def)
  show ?thesis using w [of 0] w [of 1] w [of 2] w [of 3] w [of 4] w [of 5] w [of 6] by (simp add: superblock_of_def)
qed

lemma mounted_used: "image_ok s ow T n \<Longrightarrow> b < 1000 \<Longrightarrow> used (mounted s ic) b \<longleftrightarrow> b < unat (freeblock s)"
  using bit_used_bitmap [of "unat (freeblock s)" b] image_okD(2,6) [of s ow T n] by (simp add: used_def BBLOCK_def BPB_def BSIZE_def)

lemma mounted_wf:
  assumes "image_ok s ow T n"
  shows "fs_wf (mounted s ic)" "free_blocks (mounted s ic) = {b. unat (freeblock s) \<le> unat b \<and> unat b < 1000}"
proof -
  note d = image_okD [OF assms]
  have "used (mounted s ic) b" if "b < 59" for b using mounted_used [OF assms, of b] that d(1) by simp
  then show "fs_wf (mounted s ic)" using d(4,5) superblock_of_sb_block
    by (auto simp: fs_wf_def layout_ok_def mkfs_consts IPB_def BSIZE_def)
  show "free_blocks (mounted s ic) = {b. unat (freeblock s) \<le> unat b \<and> unat b < 1000}"
    using mounted_used [OF assms] by (auto simp: free_blocks_def mkfs_consts not_less)
qed

lemma loaded_map:
  assumes "loaded s ic k i"
  shows "ind (mounted s ic) k = d_addrs (dino s i) ! NDIRECT" "imap (mounted s ic) k = dmap (img s) (dino s i)" "i_addrs (ic k) = d_addrs (dino s i)"
    "i_size (ic k) = d_size (dino s i)" "i_type (ic k) = d_type (dino s i)"
proof -
  have "dino s i = dinode_of (ic k)" using assms by (simp add: loaded_def)
  then show "ind (mounted s ic) k = d_addrs (dino s i) ! NDIRECT" "imap (mounted s ic) k = dmap (img s) (dino s i)" "i_addrs (ic k) = d_addrs (dino s i)"
    "i_size (ic k) = d_size (dino s i)" "i_type (ic k) = d_type (dino s i)"
    by (auto simp: dinode_of_def ind_def imap_def dmap_def fun_eq_iff)
qed

lemma owned:
  assumes "holds (img s) ow fb i (dino s i) nb (NDIRECT < nb) bs" "loaded s ic k i" "b \<in> own (mounted s ic) k"
  shows "in_use fb b \<and> fst (ow b) = i"
proof -
  note h = holdsD [OF assms(1)] and l = loaded_map [OF assms(2)]
  from assms(3) consider "b = d_addrs (dino s i) ! NDIRECT" "b \<noteq> 0" | bn where "bn < MAXFILE" "b = dmap (img s) (dino s i) bn" "b \<noteq> 0"
    by (auto simp: own_def l)
  then show ?thesis
  proof cases
    case 1
    then show ?thesis using h(7,8) by (cases "NDIRECT < nb") auto
  next
    case 2
    then have "bn < nb" using h(6) [of bn] by (cases "bn < nb") auto
    then show ?thesis using h(5) 2 by auto
  qed
qed

lemma mounted_inode:
  assumes img: "image_ok s ow T n" and i: "1 \<le> i" "i < n" and ld: "loaded s ic k i"
  shows "inode_ok (mounted s ic) k"
proof -
  note d = image_okD [OF img] and l = loaded_map [OF ld]
  have H: "holds (img s) ow (unat (freeblock s)) i (dino s i) (nblocks (length (snd (T i)))) (NDIRECT < nblocks (length (snd (T i)))) (snd (T i))"
    using d(7) [OF i] by blast
  note h = holdsD [OF H]
  have nz: "bn < nblocks (length (snd (T i)))" if "bn < MAXFILE" "dmap (img s) (dino s i) bn \<noteq> 0" for bn using h(6) [of bn] that by (cases "bn < nblocks (length (snd (T i)))") auto
  have "inj_on (dmap (img s) (dino s i)) {bn. bn < MAXFILE \<and> dmap (img s) (dino s i) bn \<noteq> 0}"
    by (rule inj_onI) (use h(5) nz in \<open>metis (mono_tags, lifting) mem_Collect_eq prod.inject\<close>)
  moreover have "dmap (img s) (dino s i) bn \<noteq> d_addrs (dino s i) ! NDIRECT" if "bn < MAXFILE" "dmap (img s) (dino s i) bn \<noteq> 0" for bn
    using h(5) [OF nz [OF that]] h(7,8) that by (cases "NDIRECT < nblocks (length (snd (T i)))") auto
  moreover have "own (mounted s ic) k \<inter> free_blocks (mounted s ic) = {}" using owned [OF H ld] mounted_wf(2) [OF img] by (fastforce simp: in_use_def)
  moreover have "is_data (mounted s ic) b" if "b \<in> own (mounted s ic) k" for b using owned [OF H ld that] d(2) by (simp add: is_data_def in_use_def mkfs_consts)
  ultimately show ?thesis using h(1) by (simp add: inode_ok_def l)
qed

lemma mounted_file:
  assumes img: "image_ok s ow T n" and i: "1 \<le> i" "i < n" and ld: "loaded s ic k i" and ty: "fst (T i) \<noteq> T_DEV"
    and sz: "unat (d_size (dino s i)) \<le> nblocks (length (snd (T i))) * BSIZE"
  shows "file_ok (mounted s ic) k" "content (mounted s ic) k = snd (T i) @ replicate (unat (d_size (dino s i)) - length (snd (T i))) 0"
proof -
  note d = image_okD [OF img] and l = loaded_map [OF ld]
  let ?z = "unat (d_size (dino s i))" let ?nb = "nblocks (length (snd (T i)))"
  have f: "d_type (dino s i) = fst (T i)" "length (snd (T i)) \<le> MAXFILE * BSIZE" "length (snd (T i)) \<le> ?z"
    using d(7) [OF i] dividend_less_div_times [of BSIZE "length (snd (T i))"] by (auto simp: root_size_def BSIZE_def split: if_splits)
  have H: "holds (img s) ow (unat (freeblock s)) i (dino s i) ?nb (NDIRECT < ?nb) (snd (T i))" using d(7) [OF i] by blast
  note h = holdsD [OF H]
  have "?nb * BSIZE \<le> MAXFILE * BSIZE" using h(2) by (rule mult_le_mono1)
  from order_trans [OF sz this] have "?z \<le> MAXFILE * BSIZE" .
  moreover have "dmap (img s) (dino s i) (j div BSIZE) \<noteq> 0" if "j < ?z" for j
    using h(5) [of "j div BSIZE"] block_index(1) [of j ?nb] that sz in_use_nonzero by auto
  moreover have i200: "i < 200" using i d(3) by simp
  ultimately show "file_ok (mounted s ic) k"
    using mounted_inode [OF img i ld] ld f(1) ty inum_unat [OF i200] by (simp add: file_ok_def l loaded_def disk_inode_def dino_def mkfs_consts)
  have "fbyte (mounted s ic) k j = (if j < length (snd (T i)) then snd (T i) ! j else 0)" if "j < ?z" for j
    using h(9) [of j] that sz by (simp add: fbyte_def l)
  then show "content (mounted s ic) k = snd (T i) @ replicate (?z - length (snd (T i))) 0"
    using f(3) by (intro nth_equalityI) (auto simp: content_def l nth_append)
qed

section \<open>The root directory\<close>

definition root_names :: "(u8 list \<times> u8 list list) list \<Rightarrow> u8 list list" where
  "root_names files = [[0x2E], [0x2E, 0x2E]] @ map (\<lambda>f. skip_underscore (fst f)) files"

definition root_inum :: "nat \<Rightarrow> u16" where "root_inum j = (if j < 2 then 1 else of_nat j)"

lemma root_entry: "j < length files + 2 \<Longrightarrow> root_entries files ! j = mk_dirent (root_inum j) (root_names files ! j)"
proof (cases "j < 2")
  case True
  then have "j = 0 \<or> j = 1" by auto
  then show ?thesis by (auto simp: root_entries_def root_names_def root_inum_def)
next
  case False
  moreover assume "j < length files + 2"
  moreover obtain m where "j = Suc (Suc m)" using False by (metis add_2_eq_Suc le_Suc_ex not_less)
  ultimately show ?thesis by (simp add: root_entries_def root_names_def root_inum_def entry_of_def del: upt_Suc)
qed

lemma root_inum_nonzero: "j < 200 \<Longrightarrow> root_inum j \<noteq> 0"
proof -
  assume "j < 200"
  then have "unat (of_nat j :: u16) = j" by (simp add: unat_of_nat)
  then show ?thesis by (auto simp: root_inum_def)
qed

lemma slot_concat: "(\<And>e. e \<in> set es \<Longrightarrow> length e = 16) \<Longrightarrow> j < length es \<Longrightarrow> slot (concat es @ zs) j = es ! j"
proof (induction es arbitrary: j)
  case (Cons e es)
  have e: "length e = 16" using Cons.prems(1) by simp
  show ?case
  proof (cases j)
    case 0
    then show ?thesis using e by (simp add: slot_def DIRENT_def)
  next
    case (Suc m)
    then have "slot (concat (e # es) @ zs) j = slot (concat es @ zs) m" using e by (simp add: slot_def DIRENT_def)
    then show ?thesis using Cons.IH [of m] Cons.prems Suc by simp
  qed
qed simp

lemma dir_find_root:
  assumes "distinct (map fname (root_names files))" "j < length files + 2" "length files \<le> 198" "length files + 2 \<le> slots (concat (root_entries files) @ zs)"
  shows "dir_find (concat (root_entries files) @ zs) (root_names files ! j) = Some (root_inum j, j)"
proof -
  let ?c = "concat (root_entries files) @ zs" and ?N = "root_names files"
  have len: "length ?N = length files + 2" "length (root_entries files) = length files + 2" by (simp_all add: root_names_def root_entries_def del: upt_Suc)
  have s: "slot ?c m = mk_dirent (root_inum m) (?N ! m)" if "m < length files + 2" for m
    using slot_concat [of "root_entries files" m zs] entry_lengths root_entry [OF that] that len by simp
  have "find (\<lambda>m. de_inum (slot ?c m) \<noteq> 0 \<and> fname (de_name (slot ?c m)) = fname (?N ! j)) [0..<slots ?c] = Some j"
    unfolding find_Some_iff
  proof (intro exI [of _ j] conjI allI impI)
    show "de_inum (slot ?c ([0..<slots ?c] ! j)) \<noteq> 0" "fname (de_name (slot ?c ([0..<slots ?c] ! j))) = fname (?N ! j)"
      using assms(2-4) s [OF assms(2)] root_inum_nonzero [of j] by (simp_all add: mk_dirent_fields)
    fix m assume m: "m < j"
    then have ml: "m < length files + 2" using assms(2) by simp
    have "fname (?N ! m) \<noteq> fname (?N ! j)" using assms(1,2) m ml len(1) by (auto simp: distinct_conv_nth)
    then show "\<not> (de_inum (slot ?c ([0..<slots ?c] ! m)) \<noteq> 0 \<and> fname (de_name (slot ?c ([0..<slots ?c] ! m))) = fname (?N ! j))"
      using s [OF ml] ml assms(4) by (simp add: mk_dirent_fields)
  qed (use assms in simp_all)
  then show ?thesis using s [OF assms(2)] by (simp add: dir_find_def mk_dirent_fields)
qed

lemma root_size_blocks: "l mod BSIZE \<noteq> 0 \<Longrightarrow> root_size l = nblocks l * BSIZE"
proof -
  assume l: "l mod BSIZE \<noteq> 0"
  have "l < (l div BSIZE + 1) * BSIZE" using dividend_less_div_times [of BSIZE l] by (simp add: BSIZE_def)
  then have "(1 :: nat) \<le> (l div BSIZE + 1) * BSIZE - l" by simp
  from nblocks_next(2) [OF _ this] l show ?thesis by (simp add: root_size_def)
qed

lemma root_ok:
  assumes img: "image_ok s ow (final_table files) (2 + length files)" and n: "length files \<le> 198" "(length files + 2) mod 32 \<noteq> 0" and ld: "loaded s ic k 1"
  shows "dir_ok (mounted s ic) k" "\<exists>m. content (mounted s ic) k = concat (root_entries files) @ replicate m 0"
    "distinct (map fname (root_names files)) \<Longrightarrow> j < length files + 2 \<Longrightarrow> dir_find (content (mounted s ic) k) (root_names files ! j) = Some (root_inum j, j)"
proof -
  let ?l = "16 * (length files + 2)"
  have T: "final_table files 1 = (T_DIR, concat (root_entries files))" by (rule final_table_root)
  note d = image_okD(7) [OF img, of 1]
  have "?l mod BSIZE = 16 * ((length files + 2) mod 32)" using mod_mult_mult1 [of 16 "length files + 2" 32] by (simp add: BSIZE_def)
  then have "?l mod BSIZE \<noteq> 0" using n(2) by linarith
  then have rs: "root_size ?l = nblocks ?l * BSIZE" by (rule root_size_blocks)
  have z: "unat (d_size (dino s 1)) = root_size ?l" using d T length_root_entries [of files] by simp
  have f: "file_ok (mounted s ic) k" "content (mounted s ic) k = concat (root_entries files) @ replicate (root_size ?l - ?l) 0"
    using mounted_file [OF img _ _ ld] T z rs length_root_entries [of files] by (simp_all add: T_DIR_def T_DEV_def)
  show dir: "dir_ok (mounted s ic) k" using f(1) d T loaded_map(4,5) [OF ld] z by (simp add: dir_ok_def root_size_def DIRENT_def BSIZE_def)
  show "\<exists>m. content (mounted s ic) k = concat (root_entries files) @ replicate m 0" using f(2) by blast
  have "length (content (mounted s ic) k) \<ge> ?l" using f(2) length_root_entries [of files] by simp
  then have "length files + 2 \<le> slots (content (mounted s ic) k)" using div_le_mono [of ?l _ 16] by (simp add: slots_def DIRENT_def)
  then show "distinct (map fname (root_names files)) \<Longrightarrow> j < length files + 2 \<Longrightarrow> dir_find (content (mounted s ic) k) (root_names files ! j) = Some (root_inum j, j)"
    using dir_find_root [of files j] n(1) unfolding f(2) by blast
qed

lemma own_disjoint:
  assumes img: "image_ok s ow T n" and i: "1 \<le> i" "i < n" "1 \<le> j" "j < n" "i \<noteq> j" and ld: "loaded s ic k i" "loaded s ic m j"
  shows "own (mounted s ic) k \<inter> own (mounted s ic) m = {}"
proof -
  have "fst (ow b) = i" if "b \<in> own (mounted s ic) k" for b using owned [OF _ ld(1) that] image_okD(7) [OF img i(1,2)] by blast
  moreover have "fst (ow b) = j" if "b \<in> own (mounted s ic) m" for b using owned [OF _ ld(2) that] image_okD(7) [OF img i(3,4)] by blast
  ultimately show ?thesis using i(5) by blast
qed

lemma ucast_root_inum: "2 \<le> j \<Longrightarrow> j < 200 \<Longrightarrow> (ucast (root_inum j) :: u32) = of_nat j"
  by (simp add: root_inum_def word_unat_eq_iff unsigned_ucast_eq unat_of_nat take_bit_eq_mod)

lemma root_lookup:
  assumes img: "image_ok s ow (final_table files) (2 + length files)" and n: "length files \<le> 198" "(length files + 2) mod 32 \<noteq> 0" and ld: "loaded s ic k 1"
    and dist: "distinct (map fname (root_names files))" and j: "j < length files"
  shows "dirlookup dv k (skip_underscore (fst (files ! j))) (mounted s ic) =
    bindE (iget (i_dev (ic k)) (of_nat (2 + j)) (mounted s ic)) (\<lambda>(ip, s). Inr (Some (ip, DIRENT * (2 + j)), s))"
proof -
  have "root_names files ! (2 + j) = skip_underscore (fst (files ! j))" using j by (simp add: root_names_def)
  then have "dir_find (content (mounted s ic) k) (skip_underscore (fst (files ! j))) = Some (root_inum (2 + j), 2 + j)"
    using root_ok(3) [OF img n ld dist, of "2 + j"] j by simp
  then show ?thesis using dirlookup_ok [OF mounted_wf(1) [OF img] root_ok(1) [OF img n ld], of dv "skip_underscore (fst (files ! j))"]
    ucast_root_inum [of "2 + j"] j n(1) by simp
qed

text \<open> C2. \<open>mkfs\<close> builds what the kernel expects. When the files fit, the program ends with an image on which the
  kernel's view is well formed: exactly the blocks taken are marked used, every file has the bytes of its host file, no two
  inodes share a block, and the root is a directory in which the kernel's \<open>dirlookup\<close> leads from each file name, without
  its leading underscore, to the inode of that file. Names must differ in their first 14 characters, and the number of
  directory entries must not be a multiple of 32.\<close>

theorem mkfs_correct:
  assumes "fits files" "(length files + 2) mod 32 \<noteq> 0" "distinct (map fname (root_names files))"
  shows "\<exists>s. mkfs_main files = Inr s \<and>
    (\<forall>ic. fs_wf (mounted s ic) \<and> free_blocks (mounted s ic) = {b. unat (freeblock s) \<le> unat b \<and> unat b < FSSIZE} \<and>
      (\<forall>j k. j < length files \<and> loaded s ic k (2 + j) \<longrightarrow>
         file_ok (mounted s ic) k \<and> i_type (ic k) = T_FILE \<and> content (mounted s ic) k = concat (snd (files ! j))) \<and>
      (\<forall>i j k m. 1 \<le> i \<and> i < 2 + length files \<and> 1 \<le> j \<and> j < 2 + length files \<and> i \<noteq> j \<and> loaded s ic k i \<and> loaded s ic m j \<longrightarrow>
         own (mounted s ic) k \<inter> own (mounted s ic) m = {}) \<and>
      (\<forall>k. loaded s ic k 1 \<longrightarrow> dir_ok (mounted s ic) k \<and> (\<forall>dv. \<forall>j < length files.
         dirlookup dv k (skip_underscore (fst (files ! j))) (mounted s ic) =
           bindE (iget (i_dev (ic k)) (of_nat (2 + j)) (mounted s ic)) (\<lambda>(ip, s). Inr (Some (ip, DIRENT * (2 + j)), s)))))"
proof -
  obtain s ow where s: "mkfs_main files = Inr s" and img: "image_ok s ow (final_table files) (2 + length files)" using mkfs_main_ok [OF assms(1)] by blast
  have n: "length files \<le> 198" using assms(1) by (simp add: fits_def)
  have fl: "file_ok (mounted s ic) k \<and> i_type (ic k) = T_FILE \<and> content (mounted s ic) k = concat (snd (files ! j))" if j: "j < length files" and ld: "loaded s ic k (2 + j)" for ic j k
  proof -
    have T: "final_table files (2 + j) = (T_FILE, concat (snd (files ! j)))" by (rule final_table_file [OF j])
    have z: "unat (d_size (dino s (2 + j))) = length (concat (snd (files ! j)))" "d_type (dino s (2 + j)) = T_FILE"
      using image_okD(7) [OF img, of "2 + j"] j T by simp_all
    have "length (concat (snd (files ! j))) \<le> nblocks (length (concat (snd (files ! j)))) * BSIZE"
      using image_okD(7) [OF img, of "2 + j"] j T by (simp add: holds_def)
    then show ?thesis using mounted_file [OF img _ _ ld] T z j loaded_map(5) [OF ld] by (simp add: T_FILE_def T_DEV_def)
  qed
  show ?thesis
    by (intro exI [of _ s] conjI allI impI s mounted_wf(1) [OF img] mounted_wf(2) [OF img, folded mkfs_consts(2)])
      (use fl own_disjoint [OF img] root_ok(1) [OF img n assms(2)] root_lookup [OF img n assms(2) _ assms(3)] in blast)+
qed

theorem mkfs_correct_witness:
  "\<exists>s. mkfs_main [([0x5F, 0x61], [[1, 2], [3]])] = Inr s \<and> (\<forall>ic. fs_wf (mounted s ic) \<and> (\<forall>k. loaded s ic k 2 \<longrightarrow> content (mounted s ic) k = [1, 2, 3]))"
proof -
  let ?f = "[([0x5F, 0x61], [[1, 2], [3]])] :: (u8 list \<times> u8 list list) list"
  have "needs (nblocks 48) = 1" "needs (nblocks 3) = 1" by (simp_all add: need_def nblocks_def BSIZE_def NDIRECT_def)
  then have fit: "fits ?f" by (simp add: fits_def slash_def mkfs_consts BSIZE_def file_blocks_def numeral_3_eq_3)
  have d: "(length ?f + 2) mod 32 \<noteq> 0" "distinct (map fname (root_names ?f))"
    by (simp_all add: root_names_def skip_underscore_def fname_def cstr_def DIRSIZ_def)
  from mkfs_correct [OF fit d] show ?thesis
    apply (elim exE conjE)
    subgoal premises p for s
    proof -
      have "content (mounted s ic) k = [1, 2, 3]" if "loaded s ic k 2" for ic k
        using p(2) [THEN spec, of ic, THEN conjunct2, THEN conjunct2, THEN conjunct1, THEN spec, of 0, THEN spec, of k] that by simp
      then show ?thesis using p(1) p(2) [THEN spec, THEN conjunct1] by blast
    qed
    done
qed

text \<open>When the entries fill their blocks exactly, the size given to the root directory covers a block that does not exist.\<close>

theorem mkfs_root_hole:
  assumes "fits files" "(length files + 2) mod 32 = 0"
  shows "\<exists>s. mkfs_main files = Inr s \<and> unat (d_size (dino s 1)) = DIRENT * (length files + 2) + BSIZE \<and>
    dmap (img s) (dino s 1) (DIRENT * (length files + 2) div BSIZE) = 0"
proof -
  let ?l = "16 * (length files + 2)"
  obtain s ow where s: "mkfs_main files = Inr s" and img: "image_ok s ow (final_table files) (2 + length files)" using mkfs_main_ok [OF assms(1)] by blast
  note d = image_okD(7) [OF img, of 1]
  have T: "length (snd (final_table files 1)) = ?l" using final_table_root [of files] length_root_entries [of files] by simp
  obtain q where q: "length files + 2 = 32 * q" using assms(2) by (metis dvd_def mod_eq_0_iff_dvd)
  then have b: "?l = q * BSIZE" "?l div BSIZE = q" by (simp_all add: BSIZE_def)
  have "(1 :: nat) \<le> (?l div BSIZE + 1) * BSIZE - ?l" using b by (simp add: BSIZE_def)
  from nblocks_next(2) [OF _ this] b have "nblocks ?l = q" by simp
  moreover have "q < MAXFILE" using q assms(1) by (simp add: fits_def mkfs_consts)
  ultimately have "dmap (img s) (dino s 1) q = 0" using d holdsD(6) [of "img s" ow _ 1 "dino s 1" q _ _ q] T by fastforce
  moreover have "unat (d_size (dino s 1)) = ?l + BSIZE" using d T b by (simp add: root_size_def algebra_simps)
  ultimately show ?thesis using s b(2) by (simp add: DIRENT_def)
qed

end
