(* ===== verification/Spec2Isabelle.thy ===== *)
theory Spec2Isabelle
  imports Ring_Queue Array_Sort Linked_List Trace_Gen Cache_Direct Xv6_Pipe Xv6_Grep Xv6_Locks Xv6_Log Xv6_Proc_Inv Xv6_Exec Xv6_Vm_Space Xv6_Sh_Print Xv6_Sh_Run Xv6_Umalloc Xv6_Printf Xv6_Mkfs_Image
begin

text \<open>
  Verification of the programs of a course on computer systems. The repository has two kinds of code: small C
  programs written for the assignments (a queue, sorts, a linked list, cache simulators and their traces), and the
  xv6 teaching kernel with its user programs (\<open>Lab11_xv6/deliverables\<close>). Most of the development is about xv6.

  \<^bold>\<open>Conventions.\<close> C code is translated to functions that pass the state explicitly. \<open>Prelude\<close> has the type of
  outcomes: \<open>Inl\<close> is an access out of bounds, an overflow, an assertion, a \<open>panic\<close>, an exit, or a call that has to
  wait; \<open>Inr\<close> is a result. \<open>unsigned\<close> values whose wrapping matters are words; \<open>int\<close> values are integers, checked
  where the source can overflow them. Code outside the repository (\<open>malloc\<close>, \<open>rand\<close>, \<open>sbrk\<close>, host files, whether
  \<open>fork\<close> or \<open>open\<close> succeeds) is a parameter. A critical section under a spin lock is one step, which is what
  \<open>Xv6_Locks\<close> proves of the lock; concurrency is the interleaving of such steps.

  \<^bold>\<open>Interfaces.\<close> Five theories and sections state a contract as a locale, prove its clients' lemmas once and are
  interpreted on the code:
  \<^item> \<open>bounded_fifo\<close> (\<open>Fifo_Interface\<close>): the queue of \<open>Assignment2/queue_array.c\<close> and the buffer of \<open>pipe.c\<close>;
  \<^item> \<open>array_sorter\<close> (\<open>Array_Sort\<close>): both sorts of Assignment 3;
  \<^item> \<open>cache_program\<close> and \<open>direct_mapped\<close> (\<open>Cache_Interface\<close>): the direct-mapped simulators of Assignment 5 and Lab 6;
  \<^item> \<open>resource_pool\<close> (\<open>Pool_Interface\<close>): pages of \<open>kalloc.c\<close> and disk blocks of \<open>fs.c\<close>;
  \<^item> \<open>block_cache\<close> (\<open>Block_Interface\<close>): \<open>bio.c\<close>, on which \<open>Xv6_Log\<close> is built.

  \<^bold>\<open>Assignment programs.\<close>
  \<^item> \<open>Ring_Queue\<close> (\<open>queue_array.c\<close>): every operation and both unit tests; any run of the queue is a run of a bounded
    list, with indices that wrap at 32 bits.
  \<^item> \<open>Array_Sort\<close> (\<open>bubblesort.c\<close>, \<open>insertionsort.c\<close>): both sorts stay in bounds and sort.
  \<^item> \<open>Linked_List\<close> (\<open>linkedlist.c\<close>): building, measuring and printing; the walks may run forever on a cyclic list
    and are proved to return on the lists the program builds.
  \<^item> \<open>Binary_String\<close> (\<open>binary.h\<close>) and \<open>Trace_Gen\<close> (\<open>trace.c\<close>, \<open>friendlyTrace.c\<close>, \<open>adverseTrace.c\<close>): conversions
    that undo each other; the number and shape of the lines written.
  \<^item> \<open>Cache_Direct\<close> (\<open>simulator.c\<close>, twice): from the trace file to the final score, a hit is an access that repeats the
    latest access to its slot.

  \<^bold>\<open>Kernel: memory, locks, processes.\<close>
  \<^item> \<open>Xv6_String\<close> (\<open>string.c\<close>, \<open>ulib.c\<close>): routines on a byte memory with wrapping pointers.
  \<^item> \<open>Xv6_Kalloc\<close> (\<open>kalloc.c\<close>): the free list lies in the free pages; no page is given out twice or lost.
  \<^item> \<open>Xv6_Locks\<close> (\<open>spinlock.c\<close>, \<open>sleeplock.c\<close>): step relations of the atomic parts of each lock; mutual exclusion,
    unreachable panics, no lost sleeper, nesting of \<open>pushcli\<close>.
  \<^item> \<open>Xv6_Vm\<close>, \<open>Xv6_Vm_Map\<close>, \<open>Xv6_Vm_Space\<close> (\<open>vm.c\<close>): page tables as words in pages; \<open>allocuvm\<close> and \<open>deallocuvm\<close> change
    exactly the pages between the two sizes.
  \<^item> \<open>Xv6_Proc\<close>, \<open>Xv6_Proc_Inv\<close> (\<open>proc.c\<close>): the process table under every interleaving of processors; unique
    identifiers, living parents, no missed zombie, a bounded wait for the processor.
  \<^item> \<open>Xv6_Pipe\<close> (\<open>pipe.c\<close>): readers and writers as an inductive relation; the stream is kept and no wake-up is lost
    unless a process is killed.

  \<^bold>\<open>Kernel: storage.\<close> Each layer rests on the one before.
  \<^item> \<open>Ring_List\<close>, \<open>Xv6_Bio\<close> (\<open>bio.c\<close>, \<open>memide.c\<close>): the cache is transparent and keeps the most recently used blocks.
  \<^item> \<open>Xv6_Log\<close> (\<open>log.c\<close>): a commit and its recovery as the sequence of disk writes; whatever prefix of it happens, the
    next boot finds all or nothing of a transaction. The reservation of log space is proved sufficient when the log
    has room for \<open>LOGSIZE\<close> blocks, and shown insufficient for the size that \<open>mkfs\<close> makes.
  \<^item> \<open>Block_Bytes\<close>, \<open>Xv6_Fs\<close>, \<open>Xv6_Fs_Alloc\<close>, \<open>Xv6_Fs_File\<close>, \<open>Xv6_Fs_Dir\<close>, \<open>Xv6_Fs_Path\<close> (\<open>fs.c\<close>): blocks as bytes,
    inodes, file contents, directories and paths, on the blocks as the running transaction sees them.
  \<^item> \<open>Xv6_Mkfs\<close>, \<open>Xv6_Mkfs_Image\<close> (\<open>mkfs.c\<close>): the image satisfies the well-formedness \<open>fs_wf\<close> that the lemmas about
    \<open>fs.c\<close> assume, and the kernel's own \<open>readi\<close> and \<open>dirlookup\<close> find the files in it.
  \<^item> \<open>Xv6_File\<close> (\<open>file.c\<close>), \<open>Xv6_Syscall\<close> (\<open>syscall.c\<close>, \<open>sysproc.c\<close>, \<open>sysfile.c\<close>), \<open>Xv6_Exec\<close> (\<open>exec.c\<close>): these theories
    hold definitions only. They compose the layers above as the code does; no theorem is proved about them.

  \<^bold>\<open>Console and user programs.\<close>
  \<^item> \<open>Xv6_Console\<close> (\<open>console.c\<close>): the ring of typed bytes refines a line editor on two lists.
  \<^item> \<open>Xv6_Printf\<close> (\<open>console.c\<close>, \<open>printf.c\<close>): numbers print as numerals that read back.
  \<^item> \<open>Xv6_Sh\<close>, \<open>Xv6_Sh_Print\<close>, \<open>Xv6_Sh_Run\<close> (\<open>sh.c\<close>): the parser's trees are well formed, it undoes a printer, and
    \<open>runcmd\<close> connects descriptors as the command says.
  \<^item> \<open>Xv6_Umalloc\<close> (\<open>umalloc.c\<close>): \<open>malloc\<close> and \<open>free\<close> return, and blocks do not overlap.
  \<^item> \<open>Xv6_Grep\<close> (\<open>grep.c\<close>): the matcher decides the language of its pattern; the line loop prints the matching lines.

  \<^bold>\<open>Loops and bounds.\<close> Most loops are functions with a termination proof. Loops over pointers or wrapping addresses
  (strings, lists, page ranges, the user heap) are partial functions into \<open>option\<close>, where \<open>None\<close> is a loop that never
  ends; theorems about them state that a result exists. The one use of fuel is \<open>walk\<close> over the buffer list, with
  \<open>NBUF + 1\<close> steps: \<open>Ring_List\<close> proves that this is enough for a list of \<open>NBUF\<close> buffers.

  \<^bold>\<open>Not modelled.\<close> Hardware and assembly (boot, interrupt controllers, the IDE driver, the serial port, the ports
  of the keyboard, segment and control registers, \<open>swtch\<close>); \<open>trap.c\<close>; the user programs besides the shell and \<open>grep\<close>;
  \<open>procdump\<close>, \<open>panic\<close> and messages that are only printed. Of the assignments: the two shells of Assignment 4, both host
  allocators, the two set-associative simulators, and the demonstrations of the labs, which print the effect of one
  system call or instruction.
\<close>

end
